(* ===== verification/Cweb_Prelude.thy ===== *)
theory Cweb_Prelude
  imports Main "HOL-Library.Word"
begin

text \<open>
  Shared ground of the development: the types that stand for the C types of the sources, the
  functions of the C library the sources call (\<open>ctype.h\<close>, \<open>string.h\<close>), the theorem
  collections, and the generic list and bit lemmas every component uses.

  A \<open>String_View\<close> or a \<open>char\<close> array is a \<^typ>\<open>char list\<close>, the bytes it covers; the HOL type
  \<^typ>\<open>char\<close> has exactly the 256 byte values. Data the sources treat as \<open>uint8_t\<close> is an
  \<^typ>\<open>8 word\<close> list; the C casts between the two are \<open>chars_of\<close> and \<open>bytes_of\<close> below.
  Memory is taken to be unbounded: \<open>xmalloc\<close> and its kin abort the process when the system
  is out of memory, so no caller ever sees them fail.
\<close>

unbundle bit_operations_syntax

type_synonym byte = "8 word"
type_synonym u16 = "16 word"
type_synonym u32 = "32 word"
type_synonym u64 = "64 word"

named_theorems view_simps \<open>what an operation does to the contents of the buffer it writes\<close>
named_theorems inv_intros \<open>operations keep the well-formedness invariant of their component\<close>
named_theorems len_simps \<open>lengths of the results of scanning operations\<close>

subsection \<open>Characters and the C library\<close>

abbreviation ucode :: "char \<Rightarrow> nat" where
  "ucode c \<equiv> of_char c"

abbreviation NUL :: char where "NUL \<equiv> CHR 0x00"
abbreviation CR :: char where "CR \<equiv> CHR 0x0D"
abbreviation LF :: char where "LF \<equiv> CHR 0x0A"
abbreviation DQUOTE :: char where "DQUOTE \<equiv> CHR 0x22"
abbreviation SQUOTE :: char where "SQUOTE \<equiv> CHR 0x27"
abbreviation BACKSLASH :: char where "BACKSLASH \<equiv> CHR 0x5C"

definition isspace :: "char \<Rightarrow> bool" where
  "isspace c \<longleftrightarrow> ucode c = 32 \<or> (9 \<le> ucode c \<and> ucode c \<le> 13)"

definition isdigit :: "char \<Rightarrow> bool" where
  "isdigit c \<longleftrightarrow> 48 \<le> ucode c \<and> ucode c \<le> 57"

definition isupper :: "char \<Rightarrow> bool" where
  "isupper c \<longleftrightarrow> 65 \<le> ucode c \<and> ucode c \<le> 90"

definition islower :: "char \<Rightarrow> bool" where
  "islower c \<longleftrightarrow> 97 \<le> ucode c \<and> ucode c \<le> 122"

definition isalpha :: "char \<Rightarrow> bool" where
  "isalpha c \<longleftrightarrow> isupper c \<or> islower c"

definition isalnum :: "char \<Rightarrow> bool" where
  "isalnum c \<longleftrightarrow> isalpha c \<or> isdigit c"

definition tolower :: "char \<Rightarrow> char" where
  "tolower c = (if isupper c then char_of (ucode c + 32) else c)"

definition toupper :: "char \<Rightarrow> char" where
  "toupper c = (if islower c then char_of (ucode c - 32) else c)"

text \<open>The bytes a \<open>char *\<close> stands for as a C string: everything before the first NUL.\<close>

definition c_str :: "char list \<Rightarrow> char list" where
  "c_str buf = takeWhile (\<lambda>c. c \<noteq> NUL) buf"

text \<open>The casts between \<open>char\<close> and \<open>uint8_t\<close>.\<close>

definition chars_of :: "byte list \<Rightarrow> char list" where
  "chars_of bs = map (\<lambda>b. char_of (unat b)) bs"

definition bytes_of :: "char list \<Rightarrow> byte list" where
  "bytes_of cs = map (\<lambda>c. word_of_nat (ucode c)) cs"

lemma ucode_less [simp]: "ucode c < 256"
  by (metis of_char_mod_256 mod_less_divisor zero_less_numeral)

lemma ucode_inject [simp]: "ucode c = ucode d \<longleftrightarrow> c = d"
  by (metis char_of_char)

lemma ucode_char_of [simp]: "n < 256 \<Longrightarrow> ucode (char_of n) = n"
  by (simp add: of_char_of)

lemma char_of_inject [simp]: "m < 256 \<Longrightarrow> n < 256 \<Longrightarrow> (char_of m = char_of n) = (m = (n::nat))"
  by (metis ucode_char_of)

lemma unat_byte_less [simp]: "unat (b :: byte) < 256"
  using unsigned_less [of b, where ?'a = nat] by simp

lemma unat_of_ucode [simp]: "unat (word_of_nat (ucode c) :: byte) = ucode c"
  by (simp add: unat_of_nat)

lemma of_nat_ucode_char_of [simp]: "word_of_nat (ucode (char_of (unat b))) = (b :: byte)"
  by simp

lemma chars_of_bytes_of [simp]: "chars_of (bytes_of cs) = cs"
  by (simp add: chars_of_def bytes_of_def comp_def)

lemma bytes_of_chars_of [simp]: "bytes_of (chars_of bs) = bs"
  by (simp add: chars_of_def bytes_of_def comp_def)

lemma chars_of_append [simp]: "chars_of (xs @ ys) = chars_of xs @ chars_of ys"
  by (simp add: chars_of_def)

lemma bytes_of_append [simp]: "bytes_of (xs @ ys) = bytes_of xs @ bytes_of ys"
  by (simp add: bytes_of_def)

lemma length_chars_of [simp, len_simps]: "length (chars_of bs) = length bs"
  by (simp add: chars_of_def)

lemma length_bytes_of [simp, len_simps]: "length (bytes_of cs) = length cs"
  by (simp add: bytes_of_def)

lemma c_str_id: "NUL \<notin> set s \<Longrightarrow> c_str s = s"
  by (auto simp: c_str_def takeWhile_eq_all_conv)

lemma c_str_append_NUL: "NUL \<notin> set s \<Longrightarrow> c_str (s @ NUL # t) = s"
  by (induction s) (auto simp: c_str_def)

lemma NUL_notin_c_str [simp]: "NUL \<notin> set (c_str s)"
  by (auto simp: c_str_def dest: set_takeWhileD)

lemma c_str_c_str [simp]: "c_str (c_str s) = c_str s"
  by (simp add: c_str_id)

lemma length_c_str_le [simp]: "length (c_str s) \<le> length s"
  by (simp add: c_str_def length_takeWhile_le)

subsection \<open>Evaluating closed terms\<close>

text \<open>
  What the simplifier needs to evaluate the model on concrete input: \<^const>\<open>char_of\<close> on a
  numeral by its bits.
\<close>

lemmas eval_simps = char_of_def bit_Suc_0_iff c_str_def chars_of_def bytes_of_def
  isspace_def isdigit_def isupper_def islower_def isalpha_def isalnum_def tolower_def toupper_def

subsection \<open>Lists\<close>

lemma takeWhile_dropWhile_split:
  "s = takeWhile P s @ dropWhile P s"
  by simp

lemma takeWhile_append_stop:
  "list_all P xs \<Longrightarrow> \<not> P y \<Longrightarrow> takeWhile P (xs @ y # ys) = xs"
  by (induction xs) auto

lemma dropWhile_append_stop:
  "list_all P xs \<Longrightarrow> \<not> P y \<Longrightarrow> dropWhile P (xs @ y # ys) = y # ys"
  by (induction xs) auto

lemma takeWhile_all: "list_all P xs \<Longrightarrow> takeWhile P xs = xs"
  by (induction xs) auto

lemma dropWhile_all: "list_all P xs \<Longrightarrow> dropWhile P xs = []"
  by (induction xs) auto

lemma list_all_neq [simp]: "list_all (\<lambda>x. x \<noteq> c) xs \<longleftrightarrow> c \<notin> set xs"
  by (induction xs) auto

lemma take_prefix_eq_iff: "length p \<le> length s \<Longrightarrow> take (length p) s = p \<longleftrightarrow> (\<exists>t. s = p @ t)"
  by (metis append_eq_conv_conj append_take_drop_id)

subsection \<open>Bits of natural numbers\<close>

text \<open>An \<open>OR\<close> of parts that do not overlap is a sum.\<close>

lemma push_bit_or_eq_add:
  fixes a b :: nat
  assumes "b < 2 ^ n"
  shows "push_bit n a OR b = a * 2 ^ n + b"
proof -
  have "push_bit n a AND b = 0"
  proof (rule bit_eqI)
    fix m
    have "b = take_bit n b" using assms by (simp add: take_bit_nat_eq_self)
    then have "bit b m \<Longrightarrow> m < n" by (metis bit_take_bit_iff)
    then show "bit (push_bit n a AND b) m = bit 0 m"
      by (auto simp: bit_and_iff bit_push_bit_iff)
  qed
  then have "push_bit n a OR b = push_bit n a + b"
    by (simp add: disjunctive_add_eq_or)
  then show ?thesis by (simp add: push_bit_eq_mult)
qed

lemma and_mask_nat: "(n::nat) AND (2 ^ k - 1) = n mod 2 ^ k"
  by (metis mask_eq_exp_minus_1 take_bit_eq_mask take_bit_eq_mod)

text \<open>The low seven bits of a byte and its top bit.\<close>

lemma seven_bits: "(n::nat) AND 0x7f = n mod 128"
  using and_mask_nat [of n 7] by simp

lemma and_128: "n < 128 \<Longrightarrow> n AND 0x80 = 0" "n < 128 \<Longrightarrow> (128 + n) AND 0x80 \<noteq> (0::nat)"
proof -
  assume "n < 128"
  then have "(128 + n) div 128 = 1" by (simp add: div_nat_eqI)
  then show "(128 + n) AND 0x80 \<noteq> (0::nat)" using and_exp_eq_0_iff_not_bit [of "128 + n" 7] by (simp add: bit_iff_odd)
qed (use and_exp_eq_0_iff_not_bit [of n 7] in \<open>simp add: bit_iff_odd\<close>)

end
