(* ===== verification/Buffers.thy ===== *)
theory Buffers
  imports Cweb_Prelude
begin

text \<open>
  \<open>src/utils/strbuf.c\<close> (growable output buffer) and \<open>src/utils/buffer.c\<close> (the fixed-size
  staging buffer the socket layer reads into), with the memory blocks written out: a block is a
  list of cells and a cell is \<^const>\<open>None\<close> until a byte is stored in it, as \<open>malloc\<close> leaves it.
  \<open>strbuf_view\<close> and \<open>rb_view\<close> are the abstraction functions; the locales \<open>byte_sink\<close> and
  \<open>byte_fifo\<close> are the contracts the rest of the sources rely on, and both are interpreted on
  the definitions of this theory.
\<close>

subsection \<open>Memory blocks\<close>

type_synonym block = "char option list"

definition xmalloc :: "nat \<Rightarrow> block" where
  "xmalloc n = replicate n None"

definition xrealloc :: "block \<Rightarrow> nat \<Rightarrow> block" where
  "xrealloc m n = take n m @ replicate (n - length m) None"

text \<open>\<open>memcpy(m + i, data, len)\<close> and \<open>memmove(m, m + n, len)\<close> within one block.\<close>

definition memcpy_at :: "block \<Rightarrow> nat \<Rightarrow> char list \<Rightarrow> block" where
  "memcpy_at m i data = take i m @ map Some data @ drop (i + length data) m"

definition memmove_front :: "block \<Rightarrow> nat \<Rightarrow> nat \<Rightarrow> block" where
  "memmove_front m n len = take len (drop n m) @ drop len m"

lemma length_xmalloc [simp, len_simps]: "length (xmalloc n) = n"
  by (simp add: xmalloc_def)

lemma length_xrealloc [simp, len_simps]: "length (xrealloc m n) = n"
  by (simp add: xrealloc_def)

lemma length_memcpy_at [simp, len_simps]:
  "i + length data \<le> length m \<Longrightarrow> length (memcpy_at m i data) = length m"
  by (simp add: memcpy_at_def)

lemma length_memmove_front [simp, len_simps]:
  "n + len \<le> length m \<Longrightarrow> length (memmove_front m n len) = length m"
  by (simp add: memmove_front_def)

lemma take_xrealloc: "k \<le> length m \<Longrightarrow> k \<le> n \<Longrightarrow> take k (xrealloc m n) = take k m"
  by (simp add: xrealloc_def min_def)

lemma take_memcpy_at:
  "i \<le> length m \<Longrightarrow> take (i + length data) (memcpy_at m i data) = take i m @ map Some data"
  by (simp add: memcpy_at_def)

text \<open>The first \<open>n\<close> cells of a block hold the bytes \<open>s\<close>.\<close>

definition holds :: "block \<Rightarrow> nat \<Rightarrow> char list \<Rightarrow> bool" where
  "holds m n s \<longleftrightarrow> n \<le> length m \<and> take n m = map Some s"

lemma holds_the: "holds m n s \<Longrightarrow> map the (take n m) = s"
  by (simp add: holds_def comp_def)

lemma holds_length: "holds m n s \<Longrightarrow> length s = n"
  by (metis holds_def length_map length_take min.absorb2)

lemma holds_xrealloc: "holds m k s \<Longrightarrow> k \<le> n \<Longrightarrow> holds (xrealloc m n) k s"
  by (simp add: holds_def take_xrealloc)

lemma holds_memcpy_at:
  "holds m i s \<Longrightarrow> i + length data \<le> length m \<Longrightarrow> holds (memcpy_at m i data) (i + length data) (s @ data)"
  by (simp add: holds_def take_memcpy_at)

lemma holds_take: "holds m n s \<Longrightarrow> k \<le> n \<Longrightarrow> holds m k (take k s)"
  by (auto simp: holds_def take_map min_def dest: arg_cong [where f = "take k"])

lemma holds_memmove_front:
  assumes "holds m k s" and "n \<le> k"
  shows "holds (memmove_front m n (k - n)) (k - n) (drop n s)"
proof -
  have "take (k - n) (drop n m) = drop n (take k m)"
    using assms by (simp add: drop_take)
  then show ?thesis
    using assms holds_length [OF assms(1)] by (auto simp: holds_def memmove_front_def drop_map)
qed

lemma holds_nil [simp]: "holds m 0 s \<longleftrightarrow> s = []"
  by (auto simp: holds_def)

subsection \<open>Strbuf\<close>

record strbuf =
  sb_items :: block
  sb_count :: nat
  sb_capacity :: nat

definition SB_MIN_CAP :: nat where "SB_MIN_CAP = 256"

definition strbuf_init :: strbuf where
  "strbuf_init = \<lparr>sb_items = [], sb_count = 0, sb_capacity = 0\<rparr>"

definition strbuf_free :: "strbuf \<Rightarrow> strbuf" where
  "strbuf_free sb = strbuf_init"

text \<open>
  The doubling loop of \<open>sb_grow_to\<close>; it starts from a capacity that is not zero. The guard
  \<open>0 < cap\<close> is only there to make the function total.
\<close>

function sb_double :: "nat \<Rightarrow> nat \<Rightarrow> nat" where
  "sb_double cap want = (if 0 < cap \<and> cap < want then sb_double (cap * 2) want else cap)"
  by pat_completeness auto
termination
  by (relation "measure (\<lambda>(cap, want). want - cap)") auto

declare sb_double.simps [simp del]

definition sb_grow_to :: "strbuf \<Rightarrow> nat \<Rightarrow> strbuf" where
  "sb_grow_to sb want =
     (let cap = sb_double (if sb_capacity sb \<noteq> 0 then sb_capacity sb else SB_MIN_CAP) want
      in sb\<lparr>sb_items := xrealloc (sb_items sb) cap, sb_capacity := cap\<rparr>)"

definition strbuf_append :: "strbuf \<Rightarrow> char list \<Rightarrow> strbuf" where
  "strbuf_append sb data =
     (if length data = 0 then sb
      else
        let sb' = (if sb_count sb + length data > sb_capacity sb
                   then sb_grow_to sb (sb_count sb + length data) else sb)
        in sb'\<lparr>sb_items := memcpy_at (sb_items sb') (sb_count sb') data,
               sb_count := sb_count sb' + length data\<rparr>)"

definition strbuf_append_char :: "strbuf \<Rightarrow> char \<Rightarrow> strbuf" where
  "strbuf_append_char sb c = strbuf_append sb [c]"

definition strbuf_append_cstr :: "strbuf \<Rightarrow> char list \<Rightarrow> strbuf" where
  "strbuf_append_cstr sb data = strbuf_append sb (c_str data)"

definition strbuf_null_terminate :: "strbuf \<Rightarrow> strbuf" where
  "strbuf_null_terminate sb =
     (let sb' = (if sb_count sb + 1 > sb_capacity sb then sb_grow_to sb (sb_count sb + 1) else sb)
      in sb'\<lparr>sb_items := (sb_items sb')[sb_count sb' := Some NUL]\<rparr>)"

text \<open>The bytes of the buffer, and the invariant: the block has the recorded capacity and its
  first \<open>count\<close> cells have been written.\<close>

definition strbuf_view :: "strbuf \<Rightarrow> char list" where
  "strbuf_view sb = map the (take (sb_count sb) (sb_items sb))"

definition strbuf_inv :: "strbuf \<Rightarrow> bool" where
  "strbuf_inv sb \<longleftrightarrow> length (sb_items sb) = sb_capacity sb \<and> sb_count sb \<le> sb_capacity sb
     \<and> (\<forall>i < sb_count sb. sb_items sb ! i \<noteq> None)"

text \<open>What a C reader that is handed \<open>items\<close> sees: the bytes up to the first NUL cell.\<close>

definition strbuf_cstr :: "strbuf \<Rightarrow> char list" where
  "strbuf_cstr sb = map the (takeWhile (\<lambda>c. c \<noteq> Some NUL) (sb_items sb))"

lemma strbuf_inv_holds:
  "strbuf_inv sb \<longleftrightarrow> length (sb_items sb) = sb_capacity sb
     \<and> holds (sb_items sb) (sb_count sb) (strbuf_view sb)"
proof -
  have "take n m = map Some (map the (take n m)) \<longleftrightarrow> (\<forall>i < n. m ! i \<noteq> None)"
    if "n \<le> length m" for n and m :: block
    using that by (auto simp: list_eq_iff_nth_eq)
  then show ?thesis
    by (auto simp: strbuf_inv_def holds_def strbuf_view_def)
qed

lemma sb_double_ge: "0 < cap \<Longrightarrow> want \<le> sb_double cap want \<and> cap \<le> sb_double cap want"
proof (induction cap want rule: sb_double.induct)
  case (1 cap want)
  then show ?case
    by (cases "cap < want") (force simp: sb_double.simps [of cap want])+
qed

lemma sb_double_bound: "0 < cap \<Longrightarrow> sb_double cap want \<le> max cap (2 * want)"
proof (induction cap want rule: sb_double.induct)
  case (1 cap want)
  then show ?case
    by (cases "cap < want") (auto simp: sb_double.simps [of cap want])
qed

lemma strbuf_view_init [simp, view_simps]: "strbuf_view strbuf_init = []"
  by (simp add: strbuf_view_def strbuf_init_def)

lemma count_view: "strbuf_inv b \<Longrightarrow> sb_count b = length (strbuf_view b)"
  by (simp add: strbuf_inv_def strbuf_view_def)

lemma strbuf_inv_init [simp, inv_intros]: "strbuf_inv strbuf_init"
  by (simp add: strbuf_inv_def strbuf_init_def)

lemma sb_grow_to_facts:
  assumes "strbuf_inv sb"
  shows "strbuf_inv (sb_grow_to sb want)" and "strbuf_view (sb_grow_to sb want) = strbuf_view sb"
    and "want \<le> sb_capacity (sb_grow_to sb want)" and "sb_count (sb_grow_to sb want) = sb_count sb"
proof -
  let ?c = "if sb_capacity sb \<noteq> 0 then sb_capacity sb else SB_MIN_CAP"
  have c: "0 < ?c" by (simp add: SB_MIN_CAP_def)
  have ge: "want \<le> sb_double ?c want" "sb_capacity sb \<le> sb_double ?c want"
    using sb_double_ge [OF c, of want] by auto
  have h: "holds (sb_items sb) (sb_count sb) (strbuf_view sb)"
    and k: "length (sb_items sb) = sb_capacity sb"
    using assms by (auto simp: strbuf_inv_holds)
  have h': "holds (xrealloc (sb_items sb) (sb_double ?c want)) (sb_count sb) (strbuf_view sb)"
    using h k ge(2) by (intro holds_xrealloc) (auto simp: holds_def)
  have cnt: "sb_count (sb_grow_to sb want) = sb_count sb"
    and itm: "sb_items (sb_grow_to sb want) = xrealloc (sb_items sb) (sb_double ?c want)"
    and cap: "sb_capacity (sb_grow_to sb want) = sb_double ?c want"
    by (simp_all add: sb_grow_to_def Let_def)
  have v: "strbuf_view (sb_grow_to sb want) = strbuf_view sb"
    using holds_the [OF h'] by (simp only: strbuf_view_def cnt itm)
  show "strbuf_view (sb_grow_to sb want) = strbuf_view sb" by (fact v)
  show "strbuf_inv (sb_grow_to sb want)"
    unfolding strbuf_inv_holds v using h' by (simp only: cnt itm cap length_xrealloc simp_thms)
  show "want \<le> sb_capacity (sb_grow_to sb want)" using ge(1) by (simp only: cap)
  show "sb_count (sb_grow_to sb want) = sb_count sb" by (fact cnt)
qed

lemma strbuf_append_room:
  assumes "strbuf_inv sb" and "sb_count sb + length data \<le> sb_capacity sb"
  defines "sb' \<equiv> sb\<lparr>sb_items := memcpy_at (sb_items sb) (sb_count sb) data,
                    sb_count := sb_count sb + length data\<rparr>"
  shows "strbuf_inv sb'" and "strbuf_view sb' = strbuf_view sb @ data"
proof -
  have h: "holds (sb_items sb) (sb_count sb) (strbuf_view sb)"
    and k: "length (sb_items sb) = sb_capacity sb"
    using assms(1) by (auto simp: strbuf_inv_holds)
  have h': "holds (sb_items sb') (sb_count sb') (strbuf_view sb @ data)"
    using holds_memcpy_at [OF h, of data] k assms(2) by (simp add: sb'_def)
  show v: "strbuf_view sb' = strbuf_view sb @ data"
    using holds_the [OF h'] by (simp add: strbuf_view_def)
  show "strbuf_inv sb'"
    unfolding strbuf_inv_holds v using h' k assms(2) by (simp add: sb'_def)
qed

lemma strbuf_append_facts:
  assumes "strbuf_inv sb"
  shows "strbuf_inv (strbuf_append sb data) \<and> strbuf_view (strbuf_append sb data) = strbuf_view sb @ data"
proof -
  let ?sb = "if sb_count sb + length data > sb_capacity sb
             then sb_grow_to sb (sb_count sb + length data) else sb"
  have i: "strbuf_inv ?sb" and v: "strbuf_view ?sb = strbuf_view sb"
    and r: "sb_count ?sb + length data \<le> sb_capacity ?sb"
    using assms sb_grow_to_facts [OF assms, of "sb_count sb + length data"] by auto
  show ?thesis
    using strbuf_append_room [OF i r] assms v by (simp add: strbuf_append_def Let_def)
qed

subsection \<open>The contract of an output buffer\<close>

text \<open>
  Code that writes to a \<open>Strbuf\<close> relies on two laws only: an append adds exactly the given bytes
  at the end, and keeps the buffer well formed. \<open>writes f s\<close> says that the operation \<open>f\<close> emits
  exactly the bytes \<open>s\<close>; sequences and loops of writers are writers.
\<close>

locale byte_sink =
  fixes view :: "'b \<Rightarrow> char list"
    and inv :: "'b \<Rightarrow> bool"
    and put :: "'b \<Rightarrow> char list \<Rightarrow> 'b"
  assumes view_put: "inv b \<Longrightarrow> view (put b s) = view b @ s"
    and inv_put: "inv b \<Longrightarrow> inv (put b s)"
begin

definition writes :: "('b \<Rightarrow> 'b) \<Rightarrow> char list \<Rightarrow> bool" where
  "writes f s \<longleftrightarrow> (\<forall>b. inv b \<longrightarrow> inv (f b) \<and> view (f b) = view b @ s)"

lemma writesI: "(\<And>b. inv b \<Longrightarrow> inv (f b) \<and> view (f b) = view b @ s) \<Longrightarrow> writes f s"
  by (simp add: writes_def)

lemma writes_view: "writes f s \<Longrightarrow> inv b \<Longrightarrow> view (f b) = view b @ s"
  by (simp add: writes_def)

lemma writes_inv: "writes f s \<Longrightarrow> inv b \<Longrightarrow> inv (f b)"
  by (simp add: writes_def)

lemma writes_put: "writes (\<lambda>b. put b s) s"
  by (simp add: writes_def view_put inv_put)

lemma writes_skip: "writes (\<lambda>b. b) []"
  by (simp add: writes_def)

lemma writes_seq: "writes f s \<Longrightarrow> writes g t \<Longrightarrow> writes (\<lambda>b. g (f b)) (s @ t)"
  by (simp add: writes_def)

lemma writes_if: "(P \<Longrightarrow> writes f s) \<Longrightarrow> (\<not> P \<Longrightarrow> writes g t) \<Longrightarrow>
    writes (\<lambda>b. if P then f b else g b) (if P then s else t)"
  by simp

lemma writes_loop:
  assumes "\<And>x. x \<in> set xs \<Longrightarrow> writes (\<lambda>b. step b x) (out x)"
  shows "writes (\<lambda>b. foldl step b xs) (concat (map out xs))"
  using assms
proof (induction xs rule: rev_induct)
  case Nil
  then show ?case by (simp add: writes_skip)
next
  case (snoc x xs)
  have "writes (\<lambda>b. step (foldl step b xs) x) (concat (map out xs) @ out x)"
    using snoc by (intro writes_seq) auto
  then show ?case by simp
qed

end

interpretation sb: byte_sink strbuf_view strbuf_inv strbuf_append
  by unfold_locales (simp_all add: strbuf_append_facts)

lemma writes_append_char: "sb.writes (\<lambda>b. strbuf_append_char b c) [c]"
  unfolding strbuf_append_char_def by (rule sb.writes_put)

lemma writes_append_cstr: "sb.writes (\<lambda>b. strbuf_append_cstr b s) (c_str s)"
  unfolding strbuf_append_cstr_def by (rule sb.writes_put)

lemmas strbuf_append_char_view [view_simps] = sb.writes_view [OF writes_append_char]
  and strbuf_append_cstr_view [view_simps] = sb.writes_view [OF writes_append_cstr]
  and strbuf_append_char_inv [inv_intros] = sb.writes_inv [OF writes_append_char]
  and strbuf_append_cstr_inv [inv_intros] = sb.writes_inv [OF writes_append_cstr]

declare sb.view_put [view_simps] sb.inv_put [inv_intros]

lemma strbuf_null_terminate_facts:
  assumes "strbuf_inv sb"
  shows "strbuf_inv (strbuf_null_terminate sb)"
    and "strbuf_view (strbuf_null_terminate sb) = strbuf_view sb"
    and "strbuf_cstr (strbuf_null_terminate sb) = c_str (strbuf_view sb)"
proof -
  let ?sb = "if sb_count sb + 1 > sb_capacity sb then sb_grow_to sb (sb_count sb + 1) else sb"
  let ?n = "sb_count ?sb"
  have i: "strbuf_inv ?sb" and v: "strbuf_view ?sb = strbuf_view sb"
    and r: "?n < sb_capacity ?sb"
    using assms sb_grow_to_facts [OF assms, of "sb_count sb + 1"] by auto
  have h: "holds (sb_items ?sb) ?n (strbuf_view sb)"
    and k: "length (sb_items ?sb) = sb_capacity ?sb"
    using i v unfolding strbuf_inv_holds by auto
  have eq: "strbuf_null_terminate sb = ?sb\<lparr>sb_items := (sb_items ?sb)[?n := Some NUL]\<rparr>"
    by (simp add: strbuf_null_terminate_def Let_def)
  have cells: "(sb_items ?sb)[?n := Some NUL] = map Some (strbuf_view sb) @ Some NUL # drop (Suc ?n) (sb_items ?sb)"
    using h r k by (simp add: upd_conv_take_nth_drop holds_def)
  have h': "holds ((sb_items ?sb)[?n := Some NUL]) ?n (strbuf_view sb)"
    using h by (simp add: holds_def)
  show v': "strbuf_view (strbuf_null_terminate sb) = strbuf_view sb"
    unfolding eq using holds_the [OF h'] by (simp add: strbuf_view_def)
  show "strbuf_inv (strbuf_null_terminate sb)"
    unfolding strbuf_inv_holds v' using h' k by (simp add: eq)
  have "takeWhile (\<lambda>c. c \<noteq> Some NUL) (map Some s @ Some NUL # t) = map Some (c_str s)" for s t
    by (induction s) (auto simp: c_str_def)
  then show "strbuf_cstr (strbuf_null_terminate sb) = c_str (strbuf_view sb)"
    unfolding strbuf_cstr_def eq by (simp only: strbuf.select_convs strbuf.update_convs cells) (simp add: comp_def)
qed

subsection \<open>Read_Buffer\<close>

record read_buffer =
  rb_data :: block
  rb_count :: nat
  rb_capacity :: nat

definition rb_init :: "nat \<Rightarrow> read_buffer" where
  "rb_init capacity = \<lparr>rb_data = xmalloc capacity, rb_count = 0, rb_capacity = capacity\<rparr>"

definition rb_free :: "read_buffer \<Rightarrow> read_buffer" where
  "rb_free b = \<lparr>rb_data = [], rb_count = 0, rb_capacity = 0\<rparr>"

text \<open>The view of the free tail: its offset in the block and its size.\<close>

definition rb_write_head :: "read_buffer \<Rightarrow> nat \<times> nat" where
  "rb_write_head b = (rb_count b, rb_capacity b - rb_count b)"

definition rb_commit :: "read_buffer \<Rightarrow> nat \<Rightarrow> read_buffer" where
  "rb_commit b n =
     (let n' = (if n > rb_capacity b - rb_count b then rb_capacity b - rb_count b else n)
      in b\<lparr>rb_count := rb_count b + n'\<rparr>)"

definition rb_view :: "read_buffer \<Rightarrow> char list" where
  "rb_view b = map the (take (rb_count b) (rb_data b))"

definition rb_discard :: "read_buffer \<Rightarrow> nat \<Rightarrow> read_buffer" where
  "rb_discard b n =
     (let n' = (if n > rb_count b then rb_count b else n)
      in if n' > 0
         then b\<lparr>rb_data := memmove_front (rb_data b) n' (rb_count b - n'), rb_count := rb_count b - n'\<rparr>
         else b)"

text \<open>
  One receive: the socket layer stores what arrived into the free tail (\<open>recv\<close> stores at most
  the size it is given) and commits it. This is the sequence \<open>rb_write_head\<close>, \<open>net_recv\<close>,
  \<open>rb_commit\<close> of \<open>ws_ensure\<close> and of the server loop.
\<close>

definition rb_recv :: "read_buffer \<Rightarrow> char list \<Rightarrow> read_buffer" where
  "rb_recv b arrived =
     (case rb_write_head b of (off, room) \<Rightarrow>
        let got = take room arrived
        in rb_commit (b\<lparr>rb_data := memcpy_at (rb_data b) off got\<rparr>) (length got))"

definition rb_inv :: "read_buffer \<Rightarrow> bool" where
  "rb_inv b \<longleftrightarrow> length (rb_data b) = rb_capacity b \<and> rb_count b \<le> rb_capacity b
     \<and> (\<forall>i < rb_count b. rb_data b ! i \<noteq> None)"

lemma rb_inv_holds:
  "rb_inv b \<longleftrightarrow> length (rb_data b) = rb_capacity b \<and> holds (rb_data b) (rb_count b) (rb_view b)"
proof -
  have "take n m = map Some (map the (take n m)) \<longleftrightarrow> (\<forall>i < n. m ! i \<noteq> None)"
    if "n \<le> length m" for n and m :: block
    using that by (auto simp: list_eq_iff_nth_eq)
  then show ?thesis
    by (auto simp: rb_inv_def holds_def rb_view_def)
qed

lemma rb_holdsI:
  "length (rb_data b) = rb_capacity b \<Longrightarrow> holds (rb_data b) (rb_count b) s \<Longrightarrow> rb_inv b \<and> rb_view b = s"
  using holds_the [of "rb_data b" "rb_count b" s] by (simp add: rb_inv_holds rb_view_def)

lemma length_rb_view: "rb_inv b \<Longrightarrow> length (rb_view b) = rb_count b"
  by (simp add: rb_inv_def rb_view_def)

lemma rb_discard_facts:
  assumes "rb_inv b"
  shows "rb_inv (rb_discard b n) \<and> rb_view (rb_discard b n) = drop n (rb_view b)"
proof -
  let ?n = "if n > rb_count b then rb_count b else n"
  have h: "holds (rb_data b) (rb_count b) (rb_view b)" and k: "length (rb_data b) = rb_capacity b"
    using assms by (auto simp: rb_inv_holds)
  have d: "drop ?n (rb_view b) = drop n (rb_view b)"
    using holds_length [OF h] by simp
  show ?thesis
  proof (cases "?n > 0")
    case True
    let ?m = "memmove_front (rb_data b) ?n (rb_count b - ?n)"
    have eq: "rb_discard b n = b\<lparr>rb_data := ?m, rb_count := rb_count b - ?n\<rparr>"
      using True by (simp add: rb_discard_def Let_def del: if_split)
    have "holds ?m (rb_count b - ?n) (drop ?n (rb_view b))"
      by (rule holds_memmove_front [OF h]) simp
    moreover have "length ?m = rb_capacity b"
      using assms k by (subst length_memmove_front) (auto simp: rb_inv_def)
    ultimately show ?thesis
      using rb_holdsI [of "rb_discard b n" "drop ?n (rb_view b)"] unfolding eq d by simp
  next
    case False
    then show ?thesis using assms d by (simp add: rb_discard_def Let_def split: if_splits)
  qed
qed

lemma rb_recv_facts:
  assumes "rb_inv b"
  shows "rb_inv (rb_recv b s) \<and> rb_view (rb_recv b s) = rb_view b @ take (rb_capacity b - rb_count b) s"
proof -
  let ?g = "take (rb_capacity b - rb_count b) s"
  let ?m = "memcpy_at (rb_data b) (rb_count b) ?g"
  have h: "holds (rb_data b) (rb_count b) (rb_view b)" and k: "length (rb_data b) = rb_capacity b"
    using assms by (auto simp: rb_inv_holds)
  have r: "rb_count b + length ?g \<le> rb_capacity b"
    using assms by (auto simp: rb_inv_def)
  have eq: "rb_recv b s = b\<lparr>rb_data := ?m, rb_count := rb_count b + length ?g\<rparr>"
    using r by (simp add: rb_recv_def rb_write_head_def rb_commit_def Let_def min_def)
  have "holds ?m (rb_count b + length ?g) (rb_view b @ ?g)"
    using r k by (intro holds_memcpy_at [OF h]) simp
  then show ?thesis
    using r k by (intro rb_holdsI) (simp_all add: eq)
qed

text \<open>
  The contract of the staging buffer: a bounded first-in first-out queue of bytes.
\<close>

locale byte_fifo =
  fixes contents :: "'b \<Rightarrow> char list"
    and inv :: "'b \<Rightarrow> bool"
    and room :: "'b \<Rightarrow> nat"
    and fill :: "'b \<Rightarrow> char list \<Rightarrow> 'b"
    and consume :: "'b \<Rightarrow> nat \<Rightarrow> 'b"
  assumes contents_fill: "inv b \<Longrightarrow> contents (fill b s) = contents b @ take (room b) s"
    and room_fill: "inv b \<Longrightarrow> room (fill b s) = room b - length s"
    and contents_consume: "inv b \<Longrightarrow> contents (consume b n) = drop n (contents b)"
    and room_consume: "inv b \<Longrightarrow> room (consume b n) = room b + min n (length (contents b))"
    and inv_fill: "inv b \<Longrightarrow> inv (fill b s)"
    and inv_consume: "inv b \<Longrightarrow> inv (consume b n)"
begin

text \<open>No byte is lost, duplicated or reordered between two consumers of the stream.\<close>

lemma fill_fill:
  assumes "inv b" and "length s + length t \<le> room b"
  shows "contents (fill (fill b s) t) = contents b @ s @ t"
  using assms by (simp add: contents_fill room_fill inv_fill)

lemma consume_after_fill:
  assumes "inv b" and "length s \<le> room b"
  shows "contents (consume (fill b s) (length (contents b))) = s"
  using assms by (simp add: contents_consume contents_fill inv_fill)

lemma capacity_fixed:
  assumes "inv b"
  shows "length (contents (fill b s)) + room (fill b s) = length (contents b) + room b"
    and "length (contents (consume b n)) + room (consume b n) = length (contents b) + room b"
  using assms by (auto simp: contents_fill room_fill contents_consume room_consume)

end

interpretation rb: byte_fifo rb_view rb_inv "\<lambda>b. rb_capacity b - rb_count b" rb_recv rb_discard
proof unfold_locales
  fix b :: read_buffer and s n
  assume i: "rb_inv b"
  have c: "rb_capacity (rb_recv b s) = rb_capacity b" "rb_capacity (rb_discard b n) = rb_capacity b"
    by (simp_all add: rb_recv_def rb_write_head_def rb_commit_def rb_discard_def Let_def)
  show "rb_view (rb_recv b s) = rb_view b @ take (rb_capacity b - rb_count b) s"
    and "rb_inv (rb_recv b s)"
    and "rb_view (rb_discard b n) = drop n (rb_view b)" and "rb_inv (rb_discard b n)"
    using rb_recv_facts [OF i] rb_discard_facts [OF i] by auto
  have "rb_count (rb_recv b s) = rb_count b + min (rb_capacity b - rb_count b) (length s)"
    using length_rb_view [OF i] length_rb_view [of "rb_recv b s"] rb_recv_facts [OF i, of s] by simp
  then show "rb_capacity (rb_recv b s) - rb_count (rb_recv b s) = rb_capacity b - rb_count b - length s"
    by (simp add: c)
  have "rb_count (rb_discard b n) = rb_count b - n"
    using length_rb_view [OF i] length_rb_view [of "rb_discard b n"] rb_discard_facts [OF i, of n] by simp
  then show "rb_capacity (rb_discard b n) - rb_count (rb_discard b n)
      = rb_capacity b - rb_count b + min n (length (rb_view b))"
    using i by (simp add: c length_rb_view [OF i] rb_inv_def min_def)
qed

lemma rb_inv_init [simp, inv_intros]: "rb_inv (rb_init n)"
  by (simp add: rb_inv_def rb_init_def)

lemma rb_view_init [simp, view_simps]: "rb_view (rb_init n) = []"
  by (simp add: rb_view_def rb_init_def)

subsection \<open>Properties\<close>

text \<open>
  The output buffer refines a byte sequence. An append to a well-formed buffer stays within
  the allocated block, adds exactly the given bytes behind the ones it holds, and at most
  doubles the capacity it needs; terminating it afterwards leaves the contents alone and makes
  the block read as the C string of the contents.
\<close>

theorem strbuf_append_correct:
  assumes "strbuf_inv sb"
  shows "strbuf_inv (strbuf_append sb data) \<and> strbuf_view (strbuf_append sb data) = strbuf_view sb @ data
    \<and> sb_capacity (strbuf_append sb data) \<le> max (max (sb_capacity sb) SB_MIN_CAP) (2 * (sb_count sb + length data))
    \<and> strbuf_cstr (strbuf_null_terminate (strbuf_append sb data)) = c_str (strbuf_view sb @ data)"
proof -
  have "sb_capacity (strbuf_append sb data) \<le> max (max (sb_capacity sb) SB_MIN_CAP) (2 * (sb_count sb + length data))"
    using sb_double_bound [of "sb_capacity sb" "sb_count sb + length data"]
      sb_double_bound [of SB_MIN_CAP "sb_count sb + length data"]
    by (auto simp: strbuf_append_def sb_grow_to_def Let_def SB_MIN_CAP_def)
  then show ?thesis
    using strbuf_append_facts [OF assms, of data]
      strbuf_null_terminate_facts(3) [of "strbuf_append sb data"] by simp
qed

theorem strbuf_append_correct_witness:
  "strbuf_inv strbuf_init \<and> strbuf_view (strbuf_append strbuf_init ''ok'') = ''ok''
    \<and> strbuf_cstr (strbuf_null_terminate (strbuf_append strbuf_init ''ok'')) = ''ok''"
  using strbuf_append_correct [of strbuf_init "''ok''"] by (simp add: c_str_def)

text \<open>
  The staging buffer is a bounded queue of bytes. Receiving adds the bytes that fit behind
  those buffered, discarding drops exactly the oldest ones, and neither loses, repeats or
  reorders a byte nor leaves the allocated block.
\<close>

theorem rb_fifo_correct:
  assumes "rb_inv b"
  shows "rb_inv (rb_recv b s) \<and> rb_view (rb_recv b s) = rb_view b @ take (rb_capacity b - rb_count b) s
    \<and> rb_inv (rb_discard b n) \<and> rb_view (rb_discard b n) = drop n (rb_view b)
    \<and> (length s \<le> rb_capacity b - rb_count b \<longrightarrow> rb_view (rb_discard (rb_recv b s) (length (rb_view b))) = s)"
  using rb_recv_facts [OF assms] rb_discard_facts [OF assms] rb.consume_after_fill [OF assms] by simp

theorem rb_fifo_correct_witness:
  "rb_view (rb_discard (rb_recv (rb_recv (rb_init 8) ''GET '') ''/'') 4) = ''/''"
proof -
  have sz: "rb_capacity (rb_init 8) = 8" "rb_count (rb_init 8) = 0" by (simp_all add: rb_init_def)
  have i: "rb_inv (rb_recv (rb_init 8) ''GET '')" using rb_recv_facts [of "rb_init 8"] by simp
  have v: "rb_view (rb_recv (rb_init 8) ''GET '') = ''GET ''"
    using rb_recv_facts [OF rb_inv_init, of 8 "''GET ''"] sz by simp
  have r: "rb_capacity (rb_recv (rb_init 8) ''GET '') - rb_count (rb_recv (rb_init 8) ''GET '') = 4"
    by (simp add: rb_recv_def rb_write_head_def rb_commit_def rb_init_def Let_def)
  show ?thesis using rb_fifo_correct [OF i, of "''/''" 0] unfolding v r by (simp add: eval_nat_numeral)
qed

end
