(* ===== verification/Views.thy ===== *)
theory Views
  imports Buffers
begin

text \<open>
  \<open>src/utils/sv.c\<close>: string views. A view is the list of the bytes it covers, so the pointer
  arithmetic of the source (\<open>data++\<close>, \<open>count--\<close>) is \<^const>\<open>tl\<close>, \<^const>\<open>drop\<close> and \<^const>\<open>butlast\<close>; an operation
  that also moves the view it is given returns the new view beside its result. \<open>sv_pieces\<close> is
  the loop \<open>while (rest.count > 0) { piece = sv_chop_by_delim(&rest, d); ... }\<close> that most parsers
  of the sources are made of.
\<close>

type_synonym sv = "char list"

subsection \<open>Operations\<close>

definition sv_from_cstr :: "char list \<Rightarrow> sv" where
  "sv_from_cstr s = c_str s"

fun sv_trim_left :: "sv \<Rightarrow> sv" where
  "sv_trim_left [] = []"
| "sv_trim_left (c # s) = (if isspace c then sv_trim_left s else c # s)"

function sv_trim_right :: "sv \<Rightarrow> sv" where
  "sv_trim_right s = (if s \<noteq> [] \<and> isspace (last s) then sv_trim_right (butlast s) else s)"
  by pat_completeness auto
termination
  by (relation "measure length") auto

declare sv_trim_right.simps [simp del]

definition sv_trim :: "sv \<Rightarrow> sv" where
  "sv_trim s = sv_trim_right (sv_trim_left s)"

definition sv_equal :: "sv \<Rightarrow> sv \<Rightarrow> bool" where
  "sv_equal a b =
     (if length a \<noteq> length b then False
      else if length a = 0 then True
      else take (length a) a = take (length a) b)"

definition sv_starts_with :: "sv \<Rightarrow> char list \<Rightarrow> bool" where
  "sv_starts_with s prefix \<longleftrightarrow>
     (let n = length (c_str prefix) in length s \<ge> n \<and> take n s = take n prefix)"

definition sv_consume_prefix :: "sv \<Rightarrow> char list \<Rightarrow> bool \<times> sv" where
  "sv_consume_prefix s prefix =
     (let n = length (c_str prefix)
      in if length s \<ge> n \<and> take n s = take n prefix then (True, drop n s) else (False, s))"

text \<open>The scan \<open>while (i < count && data[i] != c) i++\<close>: the index where it stops.\<close>

fun sv_scan :: "sv \<Rightarrow> char \<Rightarrow> nat" where
  "sv_scan [] d = 0"
| "sv_scan (c # s) d = (if c \<noteq> d then Suc (sv_scan s d) else 0)"

definition sv_chop_by_delim :: "sv \<Rightarrow> char \<Rightarrow> sv \<times> sv" where
  "sv_chop_by_delim s d =
     (let i = sv_scan s d in (take i s, if i < length s then drop (i + 1) s else drop i s))"

definition LLONG_MAX :: int where "LLONG_MAX = 9223372036854775807"

text \<open>The digit loop of \<open>sv_to_i64\<close>; \<open>n\<close> and \<open>d\<close> are non-negative, so C's division agrees with
  \<^const>\<open>divide\<close>.\<close>

fun sv_digits :: "sv \<Rightarrow> int \<Rightarrow> int option" where
  "sv_digits [] n = Some n"
| "sv_digits (c # s) n =
     (if ucode c < 48 \<or> ucode c > 57 then None
      else let d = int (ucode c) - 48
           in if n > (LLONG_MAX - d) div 10 then None else sv_digits s (n * 10 + d))"

definition sv_to_i64 :: "sv \<Rightarrow> int option" where
  "sv_to_i64 s =
     (if s = [] then None
      else
        let neg = (hd s = CHR ''-''); start = (if neg then 1 else 0)
        in if start \<ge> length s then None
           else map_option (\<lambda>n. if neg then - n else n) (sv_digits (drop start s) 0))"

fun sv_count_char :: "sv \<Rightarrow> char \<Rightarrow> nat" where
  "sv_count_char [] c = 0"
| "sv_count_char (x # s) c = (if x = c then Suc (sv_count_char s c) else sv_count_char s c)"

subsection \<open>Trimming and comparing\<close>

lemma sv_trim_left_dropWhile: "sv_trim_left s = dropWhile isspace s"
  by (induction s) auto

lemma sv_trim_right_rev: "sv_trim_right s = rev (dropWhile isspace (rev s))"
proof (induction s rule: rev_induct)
  case Nil
  then show ?case by (subst sv_trim_right.simps) simp
next
  case (snoc c s)
  then show ?case by (subst sv_trim_right.simps) simp
qed

lemma length_sv_trim_right [len_simps]: "length (sv_trim_right s) \<le> length s"
  by (simp add: sv_trim_right_rev) (metis length_dropWhile_le length_rev)

lemma length_sv_trim [len_simps]: "length (sv_trim s) \<le> length s"
  by (metis length_dropWhile_le length_sv_trim_right le_trans sv_trim_def sv_trim_left_dropWhile)

lemma sv_equal_iff [simp]: "sv_equal a b \<longleftrightarrow> a = b"
  by (auto simp: sv_equal_def)

lemma take_length_c_str: "take (length (c_str p)) p = c_str p"
  by (metis c_str_def takeWhile_eq_take)

lemma sv_starts_with_iff: "sv_starts_with s p \<longleftrightarrow> (\<exists>t. s = c_str p @ t)"
  by (auto simp: sv_starts_with_def Let_def take_length_c_str take_prefix_eq_iff)

lemma sv_consume_prefix_iff:
  "sv_consume_prefix s p = (True, t) \<longleftrightarrow> s = c_str p @ t"
  by (auto simp: sv_consume_prefix_def Let_def take_length_c_str)
    (metis append_take_drop_id)

lemma trimmed_dropWhile: "s \<noteq> [] \<Longrightarrow> \<not> isspace (hd s) \<Longrightarrow> dropWhile isspace s = s"
  by (cases s) auto

lemma sv_trim_id:
  assumes "s = [] \<or> \<not> isspace (hd s) \<and> \<not> isspace (last s)"
  shows "sv_trim s = s"
  using assms
  by (cases "s = []") (auto simp: sv_trim_def sv_trim_left_dropWhile sv_trim_right_rev trimmed_dropWhile hd_rev)

lemma sv_trim_ends:
  assumes "sv_trim s \<noteq> []"
  shows "\<not> isspace (hd (sv_trim s)) \<and> \<not> isspace (last (sv_trim s))"
proof -
  let ?l = "dropWhile isspace s"
  have t: "sv_trim s = rev (dropWhile isspace (rev ?l))"
    by (simp add: sv_trim_def sv_trim_left_dropWhile sv_trim_right_rev)
  have "\<not> isspace (last (sv_trim s))"
    using assms hd_dropWhile [of isspace "rev ?l"] by (simp add: t last_rev)
  moreover have "\<not> isspace (hd (sv_trim s))"
  proof -
    obtain w where w: "rev ?l = w @ dropWhile isspace (rev ?l)"
      by (metis takeWhile_dropWhile_id)
    then have l: "?l = sv_trim s @ rev w"
      unfolding t by (metis rev_append rev_rev_ident)
    then have "hd ?l = hd (sv_trim s)" using assms by simp
    moreover have "?l \<noteq> []" using assms l by auto
    ultimately show ?thesis using hd_dropWhile [of isspace s] by simp
  qed
  ultimately show ?thesis by simp
qed

subsection \<open>Chopping\<close>

lemma sv_scan_takeWhile: "sv_scan s d = length (takeWhile (\<lambda>c. c \<noteq> d) s)"
  by (induction s) auto

lemma sv_scan_le [len_simps]: "sv_scan s d \<le> length s"
  by (simp add: sv_scan_takeWhile length_takeWhile_le)

lemma sv_scan_less_iff: "sv_scan s d < length s \<longleftrightarrow> d \<in> set s"
  by (induction s) auto

lemma sv_scan_nth: "sv_scan s d < length s \<Longrightarrow> s ! sv_scan s d = d"
  by (induction s) (auto split: if_splits)

lemma sv_chop_absent: "d \<notin> set s \<Longrightarrow> sv_chop_by_delim s d = (s, [])"
  using sv_scan_less_iff [of s d] sv_scan_le [of s d]
  by (simp add: sv_chop_by_delim_def Let_def)

lemma sv_chop_present: "d \<notin> set a \<Longrightarrow> sv_chop_by_delim (a @ d # b) d = (a, b)"
proof -
  assume "d \<notin> set a"
  then have "sv_scan (a @ d # b) d = length a"
    by (induction a) auto
  then show ?thesis by (simp add: sv_chop_by_delim_def Let_def)
qed

lemma sv_chop_cases:
  obtains (absent) "d \<notin> set s" "sv_chop_by_delim s d = (s, [])"
  | (present) a b where "s = a @ d # b" "d \<notin> set a" "sv_chop_by_delim s d = (a, b)"
proof (cases "d \<in> set s")
  case True
  then obtain a b where "s = a @ d # b" "d \<notin> set a" by (meson split_list_first)
  then show ?thesis using present sv_chop_present by blast
next
  case False
  then show ?thesis using absent sv_chop_absent by blast
qed

lemma sv_chop_shorter [len_simps]: "s \<noteq> [] \<Longrightarrow> length (snd (sv_chop_by_delim s d)) < length s"
  by (rule sv_chop_cases [of d s]) auto

lemma sv_chop_shorter': "(p, r) = sv_chop_by_delim s d \<Longrightarrow> s \<noteq> [] \<Longrightarrow> length r < length s"
  by (metis sv_chop_shorter snd_conv)

lemma sv_chop_fst_le [len_simps]: "length (fst (sv_chop_by_delim s d)) \<le> length s"
  by (rule sv_chop_cases [of d s]) auto

text \<open>The chopping loop.\<close>

function sv_pieces :: "sv \<Rightarrow> char \<Rightarrow> sv list" where
  "sv_pieces s d =
     (if length s > 0
      then (case sv_chop_by_delim s d of (piece, rest) \<Rightarrow> piece # sv_pieces rest d)
      else [])"
  by pat_completeness auto
termination
  by (relation "measure (\<lambda>(s, d). length s)") (auto dest: sv_chop_shorter')

declare sv_pieces.simps [simp del]

lemma sv_pieces_Nil [simp]: "sv_pieces [] d = []"
  by (subst sv_pieces.simps) simp

lemma sv_pieces_absent: "s \<noteq> [] \<Longrightarrow> d \<notin> set s \<Longrightarrow> sv_pieces s d = [s]"
  by (subst sv_pieces.simps) (simp add: sv_chop_absent)

lemma sv_pieces_present: "d \<notin> set a \<Longrightarrow> sv_pieces (a @ d # b) d = a # sv_pieces b d"
  by (subst sv_pieces.simps) (simp add: sv_chop_present)

lemma sv_pieces_eq_Nil [simp]: "sv_pieces s d = [] \<longleftrightarrow> s = []"
  by (subst sv_pieces.simps) (simp split: prod.splits)

lemma sv_pieces_induct [case_names Nil absent present]:
  fixes d :: char
  assumes "P []"
    and "\<And>s. s \<noteq> [] \<Longrightarrow> d \<notin> set s \<Longrightarrow> P s"
    and "\<And>a b. d \<notin> set a \<Longrightarrow> P b \<Longrightarrow> P (a @ d # b)"
  shows "P s"
proof (induction s rule: length_induct)
  case (1 s)
  show ?case
  proof (cases rule: sv_chop_cases [of d s, case_names absent present])
    case absent
    then show ?thesis using assms(1,2) by (cases "s = []") auto
  next
    case (present a b)
    then show ?thesis using 1 assms(3) by simp
  qed
qed

lemma sv_pieces_no_delim: "p \<in> set (sv_pieces s d) \<Longrightarrow> d \<notin> set p"
  by (induction s rule: sv_pieces_induct [of _ d])
    (auto simp: sv_pieces_absent sv_pieces_present)

lemma sv_pieces_subset: "p \<in> set (sv_pieces s d) \<Longrightarrow> set p \<subseteq> set s"
  by (induction s rule: sv_pieces_induct [of _ d])
    (auto simp: sv_pieces_absent sv_pieces_present)

text \<open>Joining pieces with the delimiter, the inverse of the loop.\<close>

fun join :: "char \<Rightarrow> sv list \<Rightarrow> sv" where
  "join d [] = []"
| "join d [p] = p"
| "join d (p # q # ps) = p @ d # join d (q # ps)"

lemma sv_pieces_join:
  assumes "\<forall>p \<in> set ps. d \<notin> set p" and "ps \<noteq> []" and "last ps \<noteq> []"
  shows "sv_pieces (join d ps) d = ps"
  using assms
proof (induction d ps rule: join.induct)
  case (1 d)
  then show ?case by simp
next
  case (2 d p)
  then show ?case by (simp add: sv_pieces_absent)
next
  case (3 d p q ps)
  then show ?case by (simp add: sv_pieces_present)
qed

text \<open>The pieces rebuild the text, up to one closing delimiter, which the loop does not report.\<close>

lemma join_sv_pieces: "join d (sv_pieces s d) = s \<or> join d (sv_pieces s d) @ [d] = s"
proof (induction s rule: sv_pieces_induct [of _ d])
  case Nil
  then show ?case by simp
next
  case (absent s)
  then show ?case by (simp add: sv_pieces_absent)
next
  case (present a b)
  then show ?case
    by (cases "sv_pieces b d") (auto simp: sv_pieces_present)
qed

subsection \<open>Numbers\<close>

text \<open>The value of a string of decimal digits.\<close>

definition dec_value :: "sv \<Rightarrow> int" where
  "dec_value s = foldl (\<lambda>n c. n * 10 + (int (ucode c) - 48)) 0 s"

lemma dec_foldl_mono:
  assumes "list_all isdigit s" and "0 \<le> n"
  shows "n \<le> foldl (\<lambda>n c. n * 10 + (int (ucode c) - 48)) n s"
  using assms
proof (induction s arbitrary: n)
  case (Cons c s)
  let ?m = "n * 10 + (int (ucode c) - 48)"
  have "n \<le> ?m" using Cons.prems by (simp add: isdigit_def)
  moreover have "?m \<le> foldl (\<lambda>n c. n * 10 + (int (ucode c) - 48)) ?m s"
    using Cons.prems \<open>n \<le> ?m\<close> by (intro Cons.IH) auto
  ultimately show ?case by simp
qed simp

lemma div_10_less_iff: "(M - d) div 10 < n \<longleftrightarrow> M < n * 10 + (d::int)"
proof -
  have "x div 10 < n \<longleftrightarrow> x < n * 10" for x :: int
    using div_mult_mod_eq [of x 10] pos_mod_bound [of 10 x] pos_mod_sign [of 10 x] by linarith
  from this [of "M - d"] show ?thesis by linarith
qed

lemma sv_digits_spec:
  assumes "0 \<le> n" and "n \<le> LLONG_MAX"
  shows "sv_digits s n =
    (let v = foldl (\<lambda>n c. n * 10 + (int (ucode c) - 48)) n s
     in if list_all isdigit s \<and> v \<le> LLONG_MAX then Some v else None)"
  using assms
proof (induction s arbitrary: n)
  case (Cons c s)
  let ?d = "int (ucode c) - 48"
  let ?m = "n * 10 + ?d"
  show ?case
  proof (cases "isdigit c")
    case True
    then have d: "0 \<le> ?d" "?d \<le> 9" and nd: "\<not> (ucode c < 48 \<or> ucode c > 57)"
      by (auto simp: isdigit_def)
    have guard: "n > (LLONG_MAX - ?d) div 10 \<longleftrightarrow> ?m > LLONG_MAX"
      by (rule div_10_less_iff)
    show ?thesis
    proof (cases "?m \<le> LLONG_MAX")
      case m: True
      then show ?thesis
        using True guard Cons.IH [of ?m] Cons.prems d nd by (simp add: Let_def)
    next
      case False
      have "?m \<le> foldl (\<lambda>n c. n * 10 + (int (ucode c) - 48)) ?m s" if "list_all isdigit s"
        using that Cons.prems d by (intro dec_foldl_mono) auto
      then show ?thesis
        using True guard False nd by (auto simp: Let_def)
    qed
  next
    case False
    then show ?thesis by (auto simp: isdigit_def Let_def)
  qed
qed (simp add: Let_def)

lemma sv_digits_dec_value:
  "sv_digits s 0 = (if list_all isdigit s \<and> dec_value s \<le> LLONG_MAX then Some (dec_value s) else None)"
  using sv_digits_spec [of 0 s] by (simp add: dec_value_def LLONG_MAX_def Let_def)

lemma dec_value_nonneg: "list_all isdigit s \<Longrightarrow> 0 \<le> dec_value s"
  unfolding dec_value_def by (rule dec_foldl_mono) simp_all

subsection \<open>Properties\<close>

text \<open>
  Decimal parsing is exact. \<open>sv_to_i64\<close> accepts precisely an optional minus sign followed by
  at least one digit whose value does not exceed \<open>LLONG_MAX\<close>, and returns that value; everything
  else, overflow included, is refused, so the multiplication in the loop never leaves the range
  of \<open>long long\<close>.
\<close>

theorem sv_to_i64_exact:
  "sv_to_i64 s = Some v \<longleftrightarrow>
     (\<exists>ds. ds \<noteq> [] \<and> list_all isdigit ds \<and> dec_value ds \<le> LLONG_MAX
        \<and> (s = ds \<and> v = dec_value ds \<or> s = CHR ''-'' # ds \<and> v = - dec_value ds))"
proof (cases s)
  case Nil
  then show ?thesis by (auto simp: sv_to_i64_def)
next
  case (Cons c t)
  have nodash: "\<not> isdigit (CHR ''-'')" by (simp add: isdigit_def)
  show ?thesis
  proof (cases "c = CHR ''-''")
    case True
    then show ?thesis
      using Cons nodash by (cases "t = []") (auto simp: sv_to_i64_def Let_def sv_digits_dec_value)
  next
    case False
    then show ?thesis
      using Cons by (auto simp: sv_to_i64_def Let_def sv_digits_dec_value)
  qed
qed

text \<open>
  Splitting loses nothing. The pieces that the \<open>sv_chop_by_delim\<close> loop hands out contain no
  delimiter and rebuild the text when joined, up to one delimiter at the very end.
\<close>

theorem sv_pieces_correct:
  "list_all (\<lambda>p. d \<notin> set p) (sv_pieces s d)
   \<and> (join d (sv_pieces s d) = s \<or> join d (sv_pieces s d) @ [d] = s)"
  using sv_pieces_no_delim join_sv_pieces by (simp add: list_all_iff)

end
