(* ===== verification/Paths.thy ===== *)
theory Paths
  imports Views
begin

text \<open>
  \<open>src/security/path.c\<close> (path normalisation, the guard against climbing out of the served tree)
  and \<open>src/utils/uri.c\<close> (URI decomposition). The normaliser keeps the segments as one string and
  pops a segment by truncating at the last slash; it is shown to refine a stack of segments.
\<close>

subsection \<open>Path normalisation\<close>

text \<open>The pop loop: \<open>while (i > 0 && items[i] != '/') i--\<close>.\<close>

fun pop_scan :: "char list \<Rightarrow> nat \<Rightarrow> nat" where
  "pop_scan parts 0 = 0"
| "pop_scan parts (Suc i) = (if parts ! Suc i \<noteq> CHR ''/'' then pop_scan parts i else Suc i)"

text \<open>One turn of the loop over the segments; \<open>None\<close> is the early \<open>return -1\<close>.\<close>

definition normalize_step :: "char list \<times> nat \<Rightarrow> sv \<Rightarrow> (char list \<times> nat) option" where
  "normalize_step st seg =
     (case st of (parts, segs) \<Rightarrow>
        if length seg = 0 \<or> sv_equal seg (sv_from_cstr ''.'') then Some (parts, segs)
        else if sv_equal seg (sv_from_cstr ''..'') then
          (if segs = 0 then None
           else Some (take (pop_scan parts (length parts - 1)) parts, segs - 1))
        else Some (parts @ (if segs > 0 then ''/'' else '''') @ seg, segs + 1))"

fun normalize_loop :: "char list \<times> nat \<Rightarrow> sv list \<Rightarrow> (char list \<times> nat) option" where
  "normalize_loop st [] = Some st"
| "normalize_loop st (seg # rest) = Option.bind (normalize_step st seg) (\<lambda>st'. normalize_loop st' rest)"

definition uri_path_normalize :: "sv \<Rightarrow> strbuf \<Rightarrow> int \<times> strbuf" where
  "uri_path_normalize path out =
     (let absolute = length path > 0 \<and> hd path = CHR ''/''
      in case normalize_loop ('''', 0) (sv_pieces path (CHR ''/'')) of
           None \<Rightarrow> (-1, out)
         | Some (parts, segs) \<Rightarrow>
             (0, if length parts = 0 then strbuf_append_char out (CHR ''/'')
                 else if absolute then strbuf_append (strbuf_append_char out (CHR ''/'')) parts
                 else strbuf_append out parts))"

text \<open>The same on a stack of segments, newest last.\<close>

fun resolve :: "sv list \<Rightarrow> sv list \<Rightarrow> sv list option" where
  "resolve stack [] = Some stack"
| "resolve stack (seg # rest) =
     (if seg = [] \<or> seg = ''.'' then resolve stack rest
      else if seg = ''..'' then (if stack = [] then None else resolve (butlast stack) rest)
      else resolve (stack @ [seg]) rest)"

text \<open>A segment that may stay: not empty, no slash, neither \<open>.\<close> nor \<open>..\<close>.\<close>

definition seg_ok :: "sv \<Rightarrow> bool" where
  "seg_ok seg \<longleftrightarrow> seg \<noteq> [] \<and> CHR ''/'' \<notin> set seg \<and> seg \<noteq> ''.'' \<and> seg \<noteq> ''..''"

lemma dots [simp]: "sv_from_cstr ''.'' = ''.''" "sv_from_cstr ''..'' = ''..''"
  by (simp_all add: sv_from_cstr_def c_str_def)

lemma join_append: "ps \<noteq> [] \<Longrightarrow> join d (ps @ [p]) = join d ps @ d # p"
  by (induction d ps rule: join.induct) auto

lemma join_snoc: "join d (ps @ [p]) = join d ps @ (if ps = [] then [] else [d]) @ p"
  by (auto simp: join_append)

lemma join_eq_Nil: "\<forall>p \<in> set ps. p \<noteq> [] \<Longrightarrow> join d ps = [] \<longleftrightarrow> ps = []"
  by (induction d ps rule: join.induct) auto

text \<open>Scanning back over a segment without a slash stops right behind the slash before it, or at 0.\<close>

lemma pop_scan_no_slash:
  "i < length parts \<Longrightarrow> \<forall>j \<le> i. 0 < j \<longrightarrow> parts ! j \<noteq> CHR ''/'' \<Longrightarrow> pop_scan parts i = 0"
  by (induction i) auto

lemma pop_scan_slash:
  "n + k < length parts \<Longrightarrow> 0 < n \<Longrightarrow> parts ! n = CHR ''/'' \<Longrightarrow> \<forall>j \<le> k. 0 < j \<longrightarrow> parts ! (n + j) \<noteq> CHR ''/''
     \<Longrightarrow> pop_scan parts (n + k) = n"
proof (induction k)
  case 0
  then show ?case by (cases n) auto
next
  case (Suc k)
  then show ?case by (simp add: le_Suc_eq)
qed

lemma pop_join:
  assumes "stack \<noteq> []" and "list_all seg_ok stack"
  shows "take (pop_scan (join (CHR ''/'') stack) (length (join (CHR ''/'') stack) - 1)) (join (CHR ''/'') stack)
    = join (CHR ''/'') (butlast stack)"
proof -
  obtain ps p where st: "stack = ps @ [p]" using assms(1) by (meson rev_exhaust)
  have p: "p \<noteq> []" "CHR ''/'' \<notin> set p" and ps: "\<forall>q \<in> set ps. q \<noteq> []"
    using assms(2) st by (auto simp: seg_ok_def list_all_iff)
  show ?thesis
  proof (cases "ps = []")
    case True
    have "pop_scan p (length p - 1) = 0"
      using p by (intro pop_scan_no_slash) (auto simp: in_set_conv_nth)
    then show ?thesis using st True by simp
  next
    case False
    let ?j = "join (CHR ''/'') ps"
    have j: "0 < length ?j" using False ps join_eq_Nil by auto
    have s: "join (CHR ''/'') stack = ?j @ CHR ''/'' # p" using st False join_append by simp
    have "(?j @ CHR ''/'' # p) ! (length ?j + i) \<noteq> CHR ''/''" if "0 < i" "i \<le> length p" for i
      using that p(2) by (cases i) (auto simp: nth_append in_set_conv_nth)
    then have "pop_scan (?j @ CHR ''/'' # p) (length ?j + length p) = length ?j"
      using j by (intro pop_scan_slash) auto
    then show ?thesis unfolding s using st by simp
  qed
qed

text \<open>The string with its counter refines the stack.\<close>

lemma normalize_step_refines:
  assumes "list_all seg_ok stack" and "CHR ''/'' \<notin> set seg"
  shows "normalize_step (join (CHR ''/'') stack, length stack) seg =
    map_option (\<lambda>st. (join (CHR ''/'') st, length st)) (resolve stack [seg])"
proof (cases "seg = [] \<or> seg = ''.''")
  case True
  then show ?thesis by (auto simp: normalize_step_def)
next
  case keep: False
  show ?thesis
  proof (cases "seg = ''..''")
    case True
    then show ?thesis
      using pop_join [OF _ assms(1)] by (cases "stack = []") (simp_all add: normalize_step_def)
  next
    case False
    then show ?thesis using keep by (simp add: normalize_step_def join_snoc)
  qed
qed

lemma resolve_seg_ok:
  "list_all seg_ok stack \<Longrightarrow> CHR ''/'' \<notin> set seg \<Longrightarrow> resolve stack [seg] = Some st \<Longrightarrow> list_all seg_ok st"
proof -
  assume ok: "list_all seg_ok stack" and seg: "CHR ''/'' \<notin> set seg" and r: "resolve stack [seg] = Some st"
  have b: "list_all seg_ok (butlast stack)" using ok by (auto simp: list_all_iff dest: in_set_butlastD)
  consider "seg = [] \<or> seg = ''.''" | "seg = ''..''" | "seg_ok seg" using seg by (auto simp: seg_ok_def)
  then show "list_all seg_ok st"
  proof cases
    case 1
    then show ?thesis using ok r by (simp split: if_splits)
  next
    case 2
    then show ?thesis using b r by (simp split: if_splits)
  next
    case 3
    then show ?thesis using ok r by (auto simp: seg_ok_def)
  qed
qed

lemma resolve_Cons: "resolve stack (seg # rest) = Option.bind (resolve stack [seg]) (\<lambda>st. resolve st rest)"
  by simp

lemma normalize_loop_refines:
  assumes "list_all seg_ok stack" and "\<forall>seg \<in> set segs. CHR ''/'' \<notin> set seg"
  shows "normalize_loop (join (CHR ''/'') stack, length stack) segs =
      map_option (\<lambda>st. (join (CHR ''/'') st, length st)) (resolve stack segs)
    \<and> (\<forall>st. resolve stack segs = Some st \<longrightarrow> list_all seg_ok st)"
  using assms
proof (induction segs arbitrary: stack)
  case (Cons seg segs)
  have step: "normalize_step (join (CHR ''/'') stack, length stack) seg =
      map_option (\<lambda>st. (join (CHR ''/'') st, length st)) (resolve stack [seg])"
    using Cons.prems by (intro normalize_step_refines) auto
  show ?case
  proof (cases "resolve stack [seg]")
    case None
    then show ?thesis using step unfolding resolve_Cons [of stack seg segs] by simp
  next
    case (Some st)
    have "list_all seg_ok st" using resolve_seg_ok Some Cons.prems by auto
    then show ?thesis
      using Cons.IH Cons.prems(2) step Some unfolding resolve_Cons [of stack seg segs] by simp
  qed
qed simp

definition normal_form :: "bool \<Rightarrow> sv list \<Rightarrow> char list" where
  "normal_form absolute st =
     (if st = [] then ''/'' else (if absolute then ''/'' else '''') @ join (CHR ''/'') st)"

lemma uri_path_normalize_spec:
  "uri_path_normalize path out =
     (case resolve [] (sv_pieces path (CHR ''/'')) of
        None \<Rightarrow> (-1, out)
      | Some st \<Rightarrow> (0, snd (uri_path_normalize path out)))
   \<and> (\<forall>st. resolve [] (sv_pieces path (CHR ''/'')) = Some st \<longrightarrow> strbuf_inv out \<longrightarrow>
        list_all seg_ok st
        \<and> strbuf_view (snd (uri_path_normalize path out))
          = strbuf_view out @ normal_form (path \<noteq> [] \<and> hd path = CHR ''/'') st)"
proof -
  have r: "normalize_loop ('''', 0) (sv_pieces path (CHR ''/'')) =
      map_option (\<lambda>st. (join (CHR ''/'') st, length st)) (resolve [] (sv_pieces path (CHR ''/'')))"
    and ok: "resolve [] (sv_pieces path (CHR ''/'')) = Some st \<Longrightarrow> list_all seg_ok st" for st
    using normalize_loop_refines [of "[]" "sv_pieces path (CHR ''/'')"] sv_pieces_no_delim by auto
  show ?thesis
  proof (cases "resolve [] (sv_pieces path (CHR ''/''))")
    case None
    then show ?thesis using r by (simp add: uri_path_normalize_def Let_def)
  next
    case (Some st)
    have "join (CHR ''/'') st = [] \<longleftrightarrow> st = []"
      using ok [OF Some] by (intro join_eq_Nil) (auto simp: seg_ok_def list_all_iff)
    then show ?thesis
      using r Some ok [OF Some]
      by (auto simp: uri_path_normalize_def Let_def normal_form_def view_simps inv_intros)
  qed
qed

text \<open>Normalising what is already normal changes nothing.\<close>

lemma resolve_seg_ok_id: "list_all seg_ok segs \<Longrightarrow> resolve stack segs = Some (stack @ segs)"
  by (induction segs arbitrary: stack) (auto simp: seg_ok_def)

lemma resolve_normal_form:
  assumes "list_all seg_ok st"
  shows "resolve [] (sv_pieces (normal_form absolute st) (CHR ''/'')) = Some st"
proof (cases "st = []")
  case True
  then show ?thesis using sv_pieces_present [of "CHR ''/''" "[]" "[]"] by (simp add: normal_form_def)
next
  case False
  have "sv_pieces (join (CHR ''/'') st) (CHR ''/'') = st"
    using assms False by (intro sv_pieces_join) (auto simp: list_all_iff seg_ok_def)
  then show ?thesis
    using False assms resolve_seg_ok_id [of st "[]"] sv_pieces_present [of "CHR ''/''" "[]" "join (CHR ''/'') st"]
    by (cases absolute) (simp_all add: normal_form_def)
qed

subsection \<open>URI decomposition\<close>

record uri =
  u_scheme :: sv
  u_host :: sv
  u_port :: sv
  u_path :: sv
  u_query :: sv
  u_fragment :: sv

text \<open>\<open>sv_index\<close>, with \<^const>\<open>None\<close> for \<open>SIZE_MAX\<close>.\<close>

fun sv_index :: "sv \<Rightarrow> char \<Rightarrow> nat option" where
  "sv_index [] c = None"
| "sv_index (x # s) c = (if x = c then Some 0 else map_option Suc (sv_index s c))"

definition scheme_ok :: "sv \<Rightarrow> bool" where
  "scheme_ok s =
     (if length s = 0 \<or> \<not> isalpha (hd s) then False
      else list_all (\<lambda>c. isalnum c \<or> c = CHR ''+'' \<or> c = CHR ''-'' \<or> c = CHR ''.'') (tl s))"

text \<open>The port check at the end of \<open>split_authority\<close>.\<close>

definition port_ok :: "sv \<Rightarrow> bool" where
  "port_ok port =
     (if length port = 0 \<or> length port > 5 then False
      else case sv_to_i64 port of None \<Rightarrow> False | Some pn \<Rightarrow> \<not> (pn < 0 \<or> pn > 65535))"

text \<open>Host and port, \<^const>\<open>None\<close> for a return value of -1.\<close>

definition split_authority :: "sv \<Rightarrow> (sv \<times> sv) option" where
  "split_authority auth =
     (if length auth = 0 then None
      else if hd auth = CHR ''['' then
        (case sv_index auth (CHR '']'') of
           None \<Rightarrow> None
         | Some close \<Rightarrow>
             let host = take (close - 1) (drop 1 auth); tail = drop (close + 1) auth
             in if length tail = 0 then Some (host, [])
                else case sv_consume_prefix tail '':'' of
                       (False, _) \<Rightarrow> None
                     | (True, port) \<Rightarrow> if port_ok port then Some (host, port) else None)
      else
        (case sv_index auth (CHR '':'') of
           None \<Rightarrow> Some (auth, [])
         | Some colon \<Rightarrow>
             let host = take colon auth; port = drop (colon + 1) auth
             in if length host = 0 then None
                else if port_ok port then Some (host, port) else None))"

text \<open>Cut \<open>rest\<close> at the first \<open>c\<close>: what is before it, and what follows it (empty if absent).\<close>

definition cut_at :: "sv \<Rightarrow> char \<Rightarrow> sv \<times> sv" where
  "cut_at rest c =
     (case sv_index rest c of None \<Rightarrow> (rest, []) | Some i \<Rightarrow> (take i rest, drop (i + 1) rest))"

definition uri_parse :: "sv \<Rightarrow> uri option" where
  "uri_parse text =
     (let (rest, fragment) = cut_at text (CHR ''#''); (rest, query) = cut_at rest (CHR ''?'')
      in case sv_index rest (CHR '':'') of
           Some colon \<Rightarrow>
             if colon + 2 < length rest \<and> rest ! (colon + 1) = CHR ''/'' \<and> rest ! (colon + 2) = CHR ''/'' then
               let scheme = take colon rest
               in if \<not> scheme_ok scheme then None
                  else
                    let authority = drop (colon + 3) rest;
                        (auth, path) =
                          (case sv_index authority (CHR ''/'') of
                             None \<Rightarrow> (authority, sv_from_cstr ''/'')
                           | Some slash \<Rightarrow>
                               (take slash authority,
                                if length (drop slash authority) = 0 then sv_from_cstr ''/''
                                else drop slash authority))
                    in case split_authority auth of
                         None \<Rightarrow> None
                       | Some (host, port) \<Rightarrow>
                           Some \<lparr>u_scheme = scheme, u_host = host, u_port = port, u_path = path,
                                 u_query = query, u_fragment = fragment\<rparr>
             else Some \<lparr>u_scheme = [], u_host = [], u_port = [],
                        u_path = (if length rest = 0 then sv_from_cstr ''/'' else rest),
                        u_query = query, u_fragment = fragment\<rparr>
         | None \<Rightarrow>
             Some \<lparr>u_scheme = [], u_host = [], u_port = [],
                   u_path = (if length rest = 0 then sv_from_cstr ''/'' else rest),
                   u_query = query, u_fragment = fragment\<rparr>)"

definition scheme_eq :: "sv \<Rightarrow> char list \<Rightarrow> bool" where
  "scheme_eq scheme name =
     (let n = length (c_str name)
      in if length scheme \<noteq> n then False
         else list_all (\<lambda>i. tolower (scheme ! i) = tolower (name ! i)) [0..<n])"

definition uri_scheme_is :: "uri \<Rightarrow> char list \<Rightarrow> bool" where
  "uri_scheme_is u name = scheme_eq (u_scheme u) name"

definition uri_default_port :: "sv \<Rightarrow> int" where
  "uri_default_port scheme =
     (if scheme_eq scheme ''http'' then 80 else if scheme_eq scheme ''https'' then 443 else -1)"

lemma sv_index_present: "c \<notin> set a \<Longrightarrow> sv_index (a @ c # b) c = Some (length a)"
  by (induction a) auto

lemma sv_index_absent: "c \<notin> set a \<Longrightarrow> sv_index a c = None"
  by (induction a) auto

lemma cut_at_present: "c \<notin> set a \<Longrightarrow> cut_at (a @ c # b) c = (a, b)"
  by (simp add: cut_at_def sv_index_present)

lemma cut_at_absent: "c \<notin> set a \<Longrightarrow> cut_at a c = (a, [])"
  by (simp add: cut_at_def sv_index_absent)

text \<open>Writing a URI down, and the URIs whose parts can be told apart again.\<close>

definition show_authority :: "sv \<Rightarrow> sv \<Rightarrow> sv" where
  "show_authority host port =
     (if CHR '':'' \<in> set host then ''['' @ host @ '']'' else host) @ (if port = [] then [] else CHR '':'' # port)"

definition show_uri :: "uri \<Rightarrow> sv" where
  "show_uri u = u_scheme u @ ''://'' @ show_authority (u_host u) (u_port u) @ u_path u
     @ (if u_query u = [] then [] else CHR ''?'' # u_query u)
     @ (if u_fragment u = [] then [] else CHR ''#'' # u_fragment u)"

definition plain :: "char set \<Rightarrow> sv \<Rightarrow> bool" where
  "plain bad s \<longleftrightarrow> list_all (\<lambda>c. c \<notin> bad) s"

lemma plain_simps [simp]: "plain {} s" "plain (insert c B) s \<longleftrightarrow> c \<notin> set s \<and> plain B s"
  by (auto simp: plain_def list_all_iff)

definition uri_ok :: "uri \<Rightarrow> bool" where
  "uri_ok u \<longleftrightarrow>
     scheme_ok (u_scheme u)
     \<and> u_host u \<noteq> [] \<and> plain {CHR ''/'', CHR ''?'', CHR ''#'', CHR ''['', CHR '']''} (u_host u)
     \<and> (u_port u = [] \<or> list_all isdigit (u_port u) \<and> length (u_port u) \<le> 5 \<and> dec_value (u_port u) \<le> 65535)
     \<and> u_path u \<noteq> [] \<and> hd (u_path u) = CHR ''/'' \<and> plain {CHR ''?'', CHR ''#''} (u_path u)
     \<and> plain {CHR ''#''} (u_query u)"

lemma port_ok_digits:
  assumes "port \<noteq> []" and "list_all isdigit port" and "length port \<le> 5" and "dec_value port \<le> 65535"
  shows "port_ok port"
proof -
  have "hd port \<noteq> CHR ''-''" using assms(1,2) by (cases port) (auto simp: isdigit_def)
  moreover have "dec_value port \<le> LLONG_MAX" using assms(4) by (simp add: LLONG_MAX_def)
  ultimately have "sv_to_i64 port = Some (dec_value port)"
    using assms(1,2) by (simp add: sv_to_i64_def Let_def sv_digits_dec_value)
  then show ?thesis using assms dec_value_nonneg [OF assms(2)] by (simp add: port_ok_def)
qed

lemma split_show_authority:
  assumes "host \<noteq> []" and "plain {CHR ''['', CHR '']''} host"
    and "port = [] \<or> port_ok port"
  shows "split_authority (show_authority host port) = Some (host, port)"
proof -
  have b: "CHR ''['' \<notin> set host" "CHR '']'' \<notin> set host" using assms(2) by simp_all
  show ?thesis
  proof (cases "CHR '':'' \<in> set host")
    case True
    have "sv_index (''['' @ host @ CHR '']'' # t) (CHR '']'') = Some (Suc (length host))" for t
      using sv_index_present [of "CHR '']''" "CHR ''['' # host" t] b by simp
    then show ?thesis
      using True assms by (auto simp: split_authority_def show_authority_def Let_def sv_consume_prefix_def c_str_def)
  next
    case False
    have "hd (host @ t) \<noteq> CHR ''[''" for t using assms(1) b(1) by (metis hd_append2 list.set_sel(1))
    then show ?thesis
      using False assms sv_index_present [OF False, of port] sv_index_absent [OF False]
      by (auto simp: split_authority_def show_authority_def Let_def)
  qed
qed

lemma scheme_ok_plain: "scheme_ok s \<Longrightarrow> c \<in> {CHR '':'', CHR ''?'', CHR ''#''} \<Longrightarrow> c \<notin> set s"
  by (cases s) (auto simp: scheme_ok_def list_all_iff isalpha_def isalnum_def isupper_def islower_def isdigit_def split: if_splits)

lemma isdigit_plain: "list_all isdigit s \<Longrightarrow> c \<in> {CHR ''/'', CHR ''?'', CHR ''#''} \<Longrightarrow> c \<notin> set s"
  by (auto simp: list_all_iff isdigit_def)

lemma show_authority_plain:
  assumes "uri_ok u" and "c \<in> {CHR ''/'', CHR ''?'', CHR ''#''}"
  shows "c \<notin> set (show_authority (u_host u) (u_port u))"
proof -
  have "c \<notin> set (u_host u)" using assms by (auto simp: uri_ok_def)
  moreover have "c \<notin> set (u_port u)"
    using assms isdigit_plain [of "u_port u" c] by (auto simp: uri_ok_def)
  ultimately show ?thesis using assms(2) by (auto simp: show_authority_def)
qed

subsection \<open>Properties\<close>

text \<open>
  C3: Path normalisation is safe and complete. The call succeeds exactly when no prefix of the
  path climbs above the root; then the output is the list of remaining segments joined by single
  slashes (with a leading slash for an absolute path, and a lone slash for the root), none of
  them empty, \<open>.\<close> or \<open>..\<close>; and normalising such an output again yields the same segments.
\<close>

theorem path_normalize_correct:
  assumes "strbuf_inv out"
  shows "case resolve [] (sv_pieces path (CHR ''/'')) of
      None \<Rightarrow> uri_path_normalize path out = (-1, out)
    | Some st \<Rightarrow> fst (uri_path_normalize path out) = 0 \<and> list_all seg_ok st
        \<and> strbuf_view (snd (uri_path_normalize path out))
          = strbuf_view out @ normal_form (path \<noteq> [] \<and> hd path = CHR ''/'') st
        \<and> resolve [] (sv_pieces (normal_form (path \<noteq> [] \<and> hd path = CHR ''/'') st) (CHR ''/'')) = Some st"
  using uri_path_normalize_spec [of path out] resolve_normal_form assms
  by (cases "resolve [] (sv_pieces path (CHR ''/''))") (auto simp: prod_eq_iff)

theorem path_normalize_correct_witness:
  "strbuf_inv strbuf_init \<and> resolve [] (sv_pieces ''/a/../b'' (CHR ''/'')) = Some [''b'']
   \<and> strbuf_view (snd (uri_path_normalize ''/a/../b'' strbuf_init)) = ''/b''"
proof -
  have "sv_pieces ''/a/../b'' (CHR ''/'') = [[], ''a'', ''..'', ''b'']"
    using sv_pieces_join [of "[[], ''a'', ''..'', ''b'']" "CHR ''/''"] by simp
  then show ?thesis using path_normalize_correct [of strbuf_init "''/a/../b''"] by (simp add: normal_form_def)
qed

text \<open>
  URI round trip. Parsing the text of a URI with a scheme returns exactly its parts: scheme,
  host (unbracketed, also for an IPv6 literal), port, path, query and fragment.
\<close>

theorem uri_round_trip:
  assumes "uri_ok u"
  shows "uri_parse (show_uri u) = Some u"
proof -
  let ?auth = "show_authority (u_host u) (u_port u)"
  let ?rest = "u_scheme u @ ''://'' @ ?auth @ u_path u"
  have s: "scheme_ok (u_scheme u)" and pq: "CHR ''?'' \<notin> set (u_path u)" "CHR ''#'' \<notin> set (u_path u)" "CHR ''#'' \<notin> set (u_query u)"
    and p: "u_path u \<noteq> []" "hd (u_path u) = CHR ''/''"
    using assms by (simp_all add: uri_ok_def)
  obtain t where t: "u_path u = CHR ''/'' # t" using p by (cases "u_path u") auto
  have clean: "CHR ''#'' \<notin> set ?rest" "CHR ''?'' \<notin> set ?rest"
    using scheme_ok_plain [OF s] show_authority_plain [OF assms] pq by auto
  let ?q = "if u_query u = [] then [] else CHR ''?'' # u_query u"
  have "cut_at (show_uri u) (CHR ''#'') = (?rest @ ?q, u_fragment u)"
    using cut_at_present [of "CHR ''#''" "?rest @ ?q" "u_fragment u"] cut_at_absent [of "CHR ''#''" "?rest @ ?q"] clean pq
    by (auto simp: show_uri_def)
  moreover have "cut_at (?rest @ ?q) (CHR ''?'') = (?rest, u_query u)"
    using cut_at_present [of "CHR ''?''" ?rest "u_query u"] cut_at_absent [of "CHR ''?''" ?rest] clean by auto
  moreover have "sv_index ?rest (CHR '':'') = Some (length (u_scheme u))"
    using sv_index_present [of "CHR '':''" "u_scheme u"] scheme_ok_plain [OF s] by simp
  moreover have "sv_index (?auth @ u_path u) (CHR ''/'') = Some (length ?auth)"
    unfolding t using sv_index_present [of "CHR ''/''" ?auth t] show_authority_plain [OF assms] by simp
  moreover have "split_authority ?auth = Some (u_host u, u_port u)"
    using assms port_ok_digits [of "u_port u"] by (intro split_show_authority) (simp_all add: uri_ok_def, blast)
  ultimately show ?thesis
    using s p by (simp add: uri_parse_def Let_def nth_append)
qed

theorem uri_round_trip_witness:
  "uri_parse ''http://[::1]:8080/a?x#f'' = Some \<lparr>u_scheme = ''http'', u_host = ''::1'', u_port = ''8080'',
     u_path = ''/a'', u_query = ''x'', u_fragment = ''f''\<rparr>"
proof -
  let ?u = "\<lparr>u_scheme = ''http'', u_host = ''::1'', u_port = ''8080'', u_path = ''/a'', u_query = ''x'', u_fragment = ''f''\<rparr>"
  have "uri_ok ?u" by (simp add: uri_ok_def scheme_ok_def plain_def dec_value_def eval_simps)
  from uri_round_trip [OF this] show ?thesis by (simp add: show_uri_def show_authority_def)
qed

text \<open>
  The port check accepts a port that is not all digits, and a bracketed host may be empty: both
  are refused by the comments in the source.
\<close>

lemma uri_port_minus_zero: "split_authority ''h:-0'' = Some (''h'', ''-0'')"
  by (simp add: split_authority_def port_ok_def sv_to_i64_def Let_def LLONG_MAX_def)

lemma uri_empty_bracket_host: "split_authority ''[]'' = Some ([], [])"
  by (simp add: split_authority_def Let_def)

end
