(* ===== verification/Http_Request.thy ===== *)
theory Http_Request
  imports Views
begin

text \<open>
  \<open>src/http/http.c\<close> (methods and status codes) and the request parser of
  \<open>src/http/request.c\<close>. \<open>http_request_parse_adv\<close> reads from the staging buffer of the server: the
  model takes the view \<open>raw\<close> and the byte \<open>past\<close> that follows it in memory, because the search for
  the blank line looks one byte beyond the view. Views into the buffer are the bytes they cover;
  \<open>rq_body_count\<close> keeps \<open>body.count\<close> as the \<open>size_t\<close> the source computes.
\<close>

subsection \<open>Methods and status codes\<close>

datatype http_method = HTTP_GET | HTTP_POST | HTTP_PUT | HTTP_DELETE | HTTP_PATCH | HTTP_HEAD
  | HTTP_OPTIONS | HTTP_UNKNOWN_METHOD

type_synonym http_status = nat

definition http_status_table :: "(nat \<times> char list) list" where
  "http_status_table =
     [(100, ''Continue''), (101, ''Switching Protocols''), (200, ''OK''), (201, ''Created''),
      (202, ''Accepted''), (204, ''No Content''), (206, ''Partial Content''),
      (301, ''Moved Permanently''), (302, ''Found''), (303, ''See Other''), (304, ''Not Modified''),
      (307, ''Temporary Redirect''), (308, ''Permanent Redirect''), (400, ''Bad Request''),
      (401, ''Unauthorized''), (403, ''Forbidden''), (404, ''Not Found''), (405, ''Method Not Allowed''),
      (408, ''Request Timeout''), (413, ''Payload Too Large''), (415, ''Unsupported Media Type''),
      (416, ''Range Not Satisfiable''), (417, ''Expectation Failed''), (429, ''Too Many Requests''),
      (500, ''Internal Server Error''), (501, ''Not Implemented''), (502, ''Bad Gateway''),
      (503, ''Service Unavailable''), (504, ''Gateway Timeout'')]"

definition http_status_reason :: "http_status \<Rightarrow> char list" where
  "http_status_reason status =
     (case map_of http_status_table status of Some r \<Rightarrow> r | None \<Rightarrow> ''Unknown'')"

definition http_method_from_sv :: "sv \<Rightarrow> http_method" where
  "http_method_from_sv name =
     (if sv_equal name (sv_from_cstr ''GET'') then HTTP_GET
      else if sv_equal name (sv_from_cstr ''POST'') then HTTP_POST
      else if sv_equal name (sv_from_cstr ''PUT'') then HTTP_PUT
      else if sv_equal name (sv_from_cstr ''DELETE'') then HTTP_DELETE
      else if sv_equal name (sv_from_cstr ''PATCH'') then HTTP_PATCH
      else if sv_equal name (sv_from_cstr ''HEAD'') then HTTP_HEAD
      else if sv_equal name (sv_from_cstr ''OPTIONS'') then HTTP_OPTIONS
      else HTTP_UNKNOWN_METHOD)"

fun http_method_name :: "http_method \<Rightarrow> char list option" where
  "http_method_name HTTP_GET = Some ''GET''"
| "http_method_name HTTP_POST = Some ''POST''"
| "http_method_name HTTP_PUT = Some ''PUT''"
| "http_method_name HTTP_DELETE = Some ''DELETE''"
| "http_method_name HTTP_PATCH = Some ''PATCH''"
| "http_method_name HTTP_HEAD = Some ''HEAD''"
| "http_method_name HTTP_OPTIONS = Some ''OPTIONS''"
| "http_method_name HTTP_UNKNOWN_METHOD = None"

subsection \<open>The request\<close>

record http_request =
  rq_method :: http_method
  rq_target :: sv
  rq_path :: sv
  rq_query :: sv
  rq_version :: sv
  rq_body :: sv
  rq_body_count :: nat
  rq_content_length :: int
  rq_body_offset :: nat
  rq_remote :: sv
  rq_client_ip :: sv
  rq_request_id :: sv
  rq_auth_user :: sv
  rq_auth_roles :: sv
  rq_page_layout :: "char list option"
  rq_headers :: "(sv \<times> sv) list"
  rq_route_timeout_ms :: nat

datatype request_parse_result = REQ_OK | REQ_INCOMPLETE | REQ_ERROR

definition empty_request :: http_request where
  "empty_request = \<lparr>rq_method = HTTP_UNKNOWN_METHOD, rq_target = [], rq_path = [], rq_query = [],
     rq_version = [], rq_body = [], rq_body_count = 0, rq_content_length = -1, rq_body_offset = 0,
     rq_remote = [], rq_client_ip = [], rq_request_id = [], rq_auth_user = [], rq_auth_roles = [],
     rq_page_layout = None, rq_headers = [], rq_route_timeout_ms = 0\<rparr>"

text \<open>
  The two searches of \<open>find_header_end\<close>, on the part of the view from index \<open>i\<close> on. The first one
  runs while three bytes are left and reads a fourth one, which may be the byte after the view.
\<close>

function find_crlf2 :: "sv \<Rightarrow> char \<Rightarrow> nat \<Rightarrow> nat option" where
  "find_crlf2 s past i =
     (if length s > 2
      then if s ! 0 = CR \<and> s ! 1 = LF \<and> s ! 2 = CR \<and> (if length s > 3 then s ! 3 else past) = LF
           then Some (i + 4) else find_crlf2 (tl s) past (i + 1)
      else None)"
  by pat_completeness auto
termination
  by (relation "measure (\<lambda>(s, past, i). length s)") auto

fun find_lf2 :: "sv \<Rightarrow> nat \<Rightarrow> nat option" where
  "find_lf2 (a # b # s) i = (if a = LF \<and> b = LF then Some (i + 2) else find_lf2 (b # s) (i + 1))"
| "find_lf2 _ i = None"

declare find_crlf2.simps [simp del]

definition find_header_end :: "sv \<Rightarrow> char \<Rightarrow> nat option" where
  "find_header_end raw past =
     (case find_crlf2 raw past 0 of Some e \<Rightarrow> Some e | None \<Rightarrow> find_lf2 raw 0)"

definition parse_request_line :: "http_request \<Rightarrow> sv \<Rightarrow> http_request option" where
  "parse_request_line req line =
     (case sv_chop_by_delim line (CHR '' '') of (method, line) \<Rightarrow>
      case sv_chop_by_delim line (CHR '' '') of (target, line) \<Rightarrow>
      case sv_chop_by_delim line (CHR '' '') of (version, line) \<Rightarrow>
        if length method = 0 \<or> length target = 0 \<or> length version = 0
           \<or> \<not> sv_starts_with version ''HTTP/'' \<or> length line \<noteq> 0
        then None
        else
          let q = sv_scan target (CHR ''?'')
          in Some (req\<lparr>rq_method := http_method_from_sv method, rq_target := target, rq_version := version,
                       rq_path := take q target, rq_query := drop (q + 1) target\<rparr>))"

definition parse_header_line :: "http_request \<Rightarrow> sv \<Rightarrow> http_request" where
  "parse_header_line req line =
     (let c = sv_scan line (CHR '':'')
      in if c \<ge> length line then req
         else
           let key = sv_trim (take c line); value = sv_trim (drop (c + 1) line)
           in if length key = 0 then req else req\<lparr>rq_headers := rq_headers req @ [(key, value)]\<rparr>)"

definition strip_cr :: "sv \<Rightarrow> sv" where
  "strip_cr line = (if length line > 0 \<and> last line = CR then butlast line else line)"

text \<open>The loop over the lines of the header block, from line number \<open>lineno\<close> on.\<close>

fun parse_lines :: "http_request \<Rightarrow> nat \<Rightarrow> sv list \<Rightarrow> http_request option" where
  "parse_lines req lineno [] = Some req"
| "parse_lines req lineno (l # ls) =
     (let line = strip_cr l
      in if lineno = 0
         then Option.bind (parse_request_line req line) (\<lambda>req'. parse_lines req' (lineno + 1) ls)
         else parse_lines (parse_header_line req line) (lineno + 1) ls)"

fun header_eq :: "sv \<Rightarrow> sv \<Rightarrow> bool" where
  "header_eq (a # s) (b # t) = (toupper a = toupper b \<and> header_eq s t)"
| "header_eq s t = (s = [] \<and> t = [])"

definition http_request_get_header :: "http_request \<Rightarrow> char list \<Rightarrow> sv option" where
  "http_request_get_header req name =
     map_option snd (List.find (\<lambda>(k, v). length k = length (c_str name) \<and> header_eq k (c_str name)) (rq_headers req))"

definition http_request_free :: "http_request \<Rightarrow> http_request" where
  "http_request_free req =
     req\<lparr>rq_request_id := [], rq_auth_user := [], rq_auth_roles := [], rq_headers := []\<rparr>"

text \<open>Result, request and \<open>*consumed\<close>. Subtractions on \<open>size_t\<close> wrap.\<close>

definition size_sub :: "nat \<Rightarrow> nat \<Rightarrow> nat" where
  "size_sub a b = (if b \<le> a then a - b else a + 2 ^ 64 - b)"

definition http_request_parse_adv :: "sv \<Rightarrow> char \<Rightarrow> request_parse_result \<times> http_request \<times> nat" where
  "http_request_parse_adv raw past =
     (case find_header_end raw past of
        None \<Rightarrow> (REQ_INCOMPLETE, empty_request, 0)
      | Some end \<Rightarrow>
          (case parse_lines empty_request 0 (sv_pieces (sv_trim (take end (raw @ [past]))) LF) of
             None \<Rightarrow> (REQ_ERROR, http_request_free empty_request, 0)
           | Some req \<Rightarrow>
               let count = size_sub (length raw) end;
                   req = req\<lparr>rq_body := drop end raw, rq_body_count := count, rq_body_offset := end\<rparr>
               in case http_request_get_header req ''content-length'' of
                    Some cl \<Rightarrow>
                      (case sv_to_i64 cl of
                         None \<Rightarrow> (REQ_ERROR, http_request_free req, 0)
                       | Some len \<Rightarrow>
                           if len < 0 then (REQ_ERROR, http_request_free req, 0)
                           else
                             let req = req\<lparr>rq_content_length := len\<rparr>; n = nat len
                             in if n > count then (REQ_INCOMPLETE, http_request_free req, 0)
                                else (REQ_OK, req\<lparr>rq_body := take n (rq_body req), rq_body_count := n\<rparr>, end + n))
                  | None \<Rightarrow> (REQ_OK, req, end)))"

definition http_request_parse :: "sv \<Rightarrow> char \<Rightarrow> request_parse_result \<times> http_request" where
  "http_request_parse raw past = (case http_request_parse_adv raw past of (r, req, _) \<Rightarrow> (r, req))"

text \<open>Re-parsing the header lines of a block: the request line is skipped, a blank line stops.\<close>

fun parse_header_lines :: "http_request \<Rightarrow> nat \<Rightarrow> sv list \<Rightarrow> http_request" where
  "parse_header_lines req lineno [] = req"
| "parse_header_lines req lineno (l # ls) =
     (let line = strip_cr l
      in if lineno = 0 then parse_header_lines req (lineno + 1) ls
         else if length line = 0 then req
         else parse_header_lines (parse_header_line req line) lineno ls)"

definition http_request_parse_header_block :: "http_request \<Rightarrow> sv \<Rightarrow> http_request" where
  "http_request_parse_header_block req head = parse_header_lines req 0 (sv_pieces head LF)"

subsection \<open>Methods\<close>

lemma method_literals [simp]:
  "sv_from_cstr ''GET'' = ''GET''" "sv_from_cstr ''POST'' = ''POST''" "sv_from_cstr ''PUT'' = ''PUT''"
  "sv_from_cstr ''DELETE'' = ''DELETE''" "sv_from_cstr ''PATCH'' = ''PATCH''" "sv_from_cstr ''HEAD'' = ''HEAD''"
  "sv_from_cstr ''OPTIONS'' = ''OPTIONS''"
  by (simp_all add: sv_from_cstr_def c_str_def)

lemma method_round_trip: "http_method_name m = Some n \<Longrightarrow> http_method_from_sv n = m"
  by (cases m) (simp_all add: http_method_from_sv_def, (drule sym, simp)+)

lemma method_names_exact:
  "http_method_from_sv n \<noteq> HTTP_UNKNOWN_METHOD \<Longrightarrow> http_method_name (http_method_from_sv n) = Some n"
  unfolding http_method_from_sv_def method_literals sv_equal_iff by (simp split: if_splits)

subsection \<open>Header lookup\<close>

lemma header_eq_map: "header_eq s t \<longleftrightarrow> map toupper s = map toupper t"
  by (induction s t rule: header_eq.induct) auto

lemma get_header_find:
  "http_request_get_header req name =
     map_option snd (List.find (\<lambda>(k, v). map toupper k = map toupper (c_str name)) (rq_headers req))"
proof -
  have "(length k = length (c_str name) \<and> header_eq k (c_str name)) = (map toupper k = map toupper (c_str name))" for k
    by (auto simp: header_eq_map dest: map_eq_imp_length_eq)
  then show ?thesis by (simp add: http_request_get_header_def)
qed

subsection \<open>Finding the end of the header block\<close>

lemma find_crlf2_skip: "\<not> (a = CR \<and> length s > 1 \<and> s ! 0 = LF \<and> s ! 1 = CR) \<Longrightarrow>
    find_crlf2 (a # s) past i = (if length s > 1 then find_crlf2 s past (i + 1) else None)"
  by (subst find_crlf2.simps) (auto simp: nth_Cons')

lemma find_crlf2_line:
  "CR \<notin> set l \<Longrightarrow> length s > 2 \<Longrightarrow> find_crlf2 (l @ s) past i = find_crlf2 s past (i + length l)"
proof (induction l arbitrary: i)
  case (Cons c l)
  have "find_crlf2 (c # l @ s) past i = find_crlf2 (l @ s) past (i + 1)"
    using Cons.prems by (subst find_crlf2_skip) auto
  then show ?case using Cons by simp
qed simp

text \<open>A block of lines, each ended by CR LF and closed by an empty line.\<close>

definition crlf_line :: "sv \<Rightarrow> sv" where
  "crlf_line l = l @ [CR, LF]"

definition header_block :: "sv list \<Rightarrow> sv" where
  "header_block ls = concat (map crlf_line ls) @ [CR, LF]"

lemma find_crlf2_block:
  assumes "ls \<noteq> []" and "list_all (\<lambda>l. l \<noteq> [] \<and> CR \<notin> set l) ls"
  shows "find_crlf2 (header_block ls @ rest) past i = Some (i + length (header_block ls))"
  using assms
proof (induction ls arbitrary: i)
  case (Cons l ls)
  let ?t = "concat (map crlf_line ls) @ [CR, LF] @ rest"
  have l: "CR \<notin> set l" using Cons.prems by simp
  have "find_crlf2 (header_block (l # ls) @ rest) past i = find_crlf2 (CR # LF # ?t) past (i + length l)"
    using find_crlf2_line [OF l, of "CR # LF # ?t" past i] by (simp add: header_block_def crlf_line_def)
  also have "\<dots> = Some (i + length (header_block (l # ls)))"
  proof (cases ls)
    case Nil
    then show ?thesis by (subst find_crlf2.simps) (simp add: header_block_def crlf_line_def)
  next
    case (Cons l2 ls2)
    then obtain c l2' where l2: "l2 = c # l2'" "c \<noteq> CR" using Cons.prems by (cases l2) auto
    have "find_crlf2 (CR # LF # ?t) past (i + length l) = find_crlf2 ?t past (i + length l + 2)"
      using l2 Cons by (simp add: find_crlf2_skip crlf_line_def)
    also have "\<dots> = Some (i + length l + 2 + length (header_block ls))"
      using Cons.IH [of "i + length l + 2"] Cons.prems Cons by (simp add: header_block_def)
    finally show ?thesis by (simp add: header_block_def crlf_line_def)
  qed
  finally show ?case .
qed simp

subsection \<open>Parsing what was rendered\<close>

text \<open>
  Requests as a client writes them: a request line, header lines, an empty line, the body. The
  side conditions say that the parts can be told apart: no blank in the words of the request
  line, no line break or surrounding blank in a header.
\<close>

definition word_ok :: "sv \<Rightarrow> bool" where
  "word_ok w \<longleftrightarrow> w \<noteq> [] \<and> list_all (\<lambda>c. \<not> isspace c) w"

definition header_ok :: "sv \<times> sv \<Rightarrow> bool" where
  "header_ok kv \<longleftrightarrow> fst kv \<noteq> [] \<and> snd kv \<noteq> [] \<and> sv_trim (fst kv) = fst kv \<and> sv_trim (snd kv) = snd kv
     \<and> CHR '':'' \<notin> set (fst kv) \<and> list_all (\<lambda>c. c \<noteq> CR \<and> c \<noteq> LF) (fst kv @ snd kv)"

definition request_line :: "sv \<Rightarrow> sv \<Rightarrow> sv \<Rightarrow> sv" where
  "request_line method target version = method @ '' '' @ target @ '' '' @ version"

definition header_line :: "sv \<times> sv \<Rightarrow> sv" where
  "header_line kv = fst kv @ '': '' @ snd kv"

definition render_request :: "sv \<Rightarrow> sv \<Rightarrow> sv \<Rightarrow> (sv \<times> sv) list \<Rightarrow> sv" where
  "render_request method target version headers =
     header_block (request_line method target version # map header_line headers)"

text \<open>A line of text: starts and ends with a visible character and has no line break inside.\<close>

definition line_ok :: "sv \<Rightarrow> bool" where
  "line_ok l \<longleftrightarrow> l \<noteq> [] \<and> \<not> isspace (hd l) \<and> \<not> isspace (last l) \<and> CR \<notin> set l \<and> LF \<notin> set l"

lemma isspace_breaks [simp]: "isspace CR" "isspace LF" "isspace (CHR '' '')"
  by (simp_all add: isspace_def)

fun crlf_join :: "sv list \<Rightarrow> sv" where
  "crlf_join [] = []"
| "crlf_join [l] = l"
| "crlf_join (l # l2 # ls) = l @ CR # LF # crlf_join (l2 # ls)"

lemma header_block_join: "ls \<noteq> [] \<Longrightarrow> header_block ls = crlf_join ls @ [CR, LF, CR, LF]"
  by (induction ls rule: crlf_join.induct) (simp_all add: header_block_def crlf_line_def)

lemma crlf_join_ends:
  "ls \<noteq> [] \<Longrightarrow> list_all line_ok ls \<Longrightarrow>
     crlf_join ls \<noteq> [] \<and> \<not> isspace (hd (crlf_join ls)) \<and> \<not> isspace (last (crlf_join ls))"
  by (induction ls rule: crlf_join.induct) (auto simp: line_ok_def hd_append)

lemma trim_block:
  assumes "ls \<noteq> []" and "list_all line_ok ls"
  shows "sv_trim (header_block ls) = crlf_join ls"
proof -
  let ?j = "crlf_join ls"
  note ends = crlf_join_ends [OF assms]
  have "dropWhile isspace (?j @ [CR, LF, CR, LF]) = ?j @ [CR, LF, CR, LF]"
    using ends by (intro trimmed_dropWhile) auto
  moreover have "dropWhile isspace (rev (?j @ [CR, LF, CR, LF])) = rev ?j"
    using ends by (simp add: trimmed_dropWhile hd_rev)
  ultimately show ?thesis
    unfolding header_block_join [OF assms(1)]
    by (simp add: sv_trim_def sv_trim_left_dropWhile sv_trim_right_rev)
qed

lemma strip_cr_line: "line_ok l \<Longrightarrow> strip_cr l = l" "strip_cr (l @ [CR]) = l"
  by (auto simp: strip_cr_def line_ok_def)

lemma pieces_crlf_join:
  "ls \<noteq> [] \<Longrightarrow> list_all line_ok ls \<Longrightarrow> map strip_cr (sv_pieces (crlf_join ls) LF) = ls"
proof (induction ls rule: crlf_join.induct)
  case (2 l)
  then show ?case by (simp add: sv_pieces_absent line_ok_def strip_cr_line)
next
  case (3 l l2 ls)
  have "LF \<notin> set (l @ [CR])" using "3.prems" by (simp add: line_ok_def)
  then have "sv_pieces (crlf_join (l # l2 # ls)) LF = (l @ [CR]) # sv_pieces (crlf_join (l2 # ls)) LF"
    using sv_pieces_present [of LF "l @ [CR]"] by simp
  then show ?case using 3 by (simp add: strip_cr_line)
qed simp

lemma pieces_block:
  "ls \<noteq> [] \<Longrightarrow> list_all line_ok ls \<Longrightarrow> map strip_cr (sv_pieces (sv_trim (header_block ls)) LF) = ls"
  by (simp add: trim_block pieces_crlf_join)

lemma parse_lines_strip:
  "list_all line_ok (map strip_cr ls) \<Longrightarrow> parse_lines req n ls = parse_lines req n (map strip_cr ls)"
  by (induction ls arbitrary: req n) (simp_all add: Let_def strip_cr_line)

lemma parse_request_line_ok:
  assumes "word_ok method" and "word_ok target" and "word_ok version" and "sv_starts_with version ''HTTP/''"
  shows "parse_request_line req (request_line method target version) =
    Some (req\<lparr>rq_method := http_method_from_sv method, rq_target := target, rq_version := version,
      rq_path := take (sv_scan target (CHR ''?'')) target, rq_query := drop (sv_scan target (CHR ''?'') + 1) target\<rparr>)"
proof -
  have sp: "CHR '' '' \<notin> set w" if "word_ok w" for w
    using that by (auto simp: word_ok_def list_all_iff isspace_def)
  have "request_line method target version = method @ CHR '' '' # target @ CHR '' '' # version"
    by (simp add: request_line_def)
  then show ?thesis
    using assms sp [OF assms(1)] sp [OF assms(2)] sp [OF assms(3)]
    by (simp add: parse_request_line_def sv_chop_present sv_chop_absent word_ok_def Let_def)
qed

lemma parse_header_line_ok:
  assumes "header_ok kv"
  shows "parse_header_line req (header_line kv) = req\<lparr>rq_headers := rq_headers req @ [kv]\<rparr>"
proof -
  obtain k v where kv: "kv = (k, v)" by (cases kv)
  have k: "CHR '':'' \<notin> set k" "k \<noteq> []" "sv_trim k = k" "v \<noteq> []" "sv_trim v = v" using assms kv by (auto simp: header_ok_def)
  have scan: "sv_scan (k @ '': '' @ v) (CHR '':'') = length k"
    using k(1) by (induction k) auto
  have "\<not> isspace (hd v) \<and> \<not> isspace (last v)" using sv_trim_ends [of v] k by simp
  then have "sv_trim (CHR '' '' # v) = v"
    using k(4) by (simp add: sv_trim_def sv_trim_left_dropWhile sv_trim_right_rev trimmed_dropWhile hd_rev)
  then show ?thesis using scan k kv by (simp add: parse_header_line_def header_line_def Let_def)
qed

lemma parse_header_lines_ok:
  "list_all header_ok hs \<Longrightarrow> list_all line_ok (map header_line hs) \<Longrightarrow> 0 < n \<Longrightarrow>
     parse_lines req n (map header_line hs) = Some (req\<lparr>rq_headers := rq_headers req @ hs\<rparr>)"
  by (induction hs arbitrary: req n) (simp_all add: Let_def strip_cr_line parse_header_line_ok)

lemma header_line_ok: "header_ok kv \<Longrightarrow> line_ok (header_line kv)"
proof -
  assume h: "header_ok kv"
  then have "fst kv \<noteq> []" "snd kv \<noteq> []" "\<not> isspace (hd (fst kv))" "\<not> isspace (last (snd kv))"
    using sv_trim_ends [of "fst kv"] sv_trim_ends [of "snd kv"] by (auto simp: header_ok_def)
  then show ?thesis using h by (auto simp: line_ok_def header_line_def header_ok_def list_all_iff)
qed

lemma request_line_ok: "word_ok m \<Longrightarrow> word_ok t \<Longrightarrow> word_ok v \<Longrightarrow> line_ok (request_line m t v)"
  by (auto simp: line_ok_def request_line_def word_ok_def list_all_iff isspace_def)

text \<open>The request that the parser builds from the rendered text, body aside.\<close>

definition parsed_request :: "sv \<Rightarrow> sv \<Rightarrow> sv \<Rightarrow> (sv \<times> sv) list \<Rightarrow> http_request" where
  "parsed_request method target version headers =
     empty_request\<lparr>rq_method := http_method_from_sv method, rq_target := target, rq_version := version,
       rq_path := take (sv_scan target (CHR ''?'')) target, rq_query := drop (sv_scan target (CHR ''?'') + 1) target,
       rq_headers := headers\<rparr>"

lemma parse_rendered_head:
  assumes "word_ok method" and "word_ok target" and "word_ok version" and "sv_starts_with version ''HTTP/''"
    and "list_all header_ok headers"
  defines "text \<equiv> render_request method target version headers"
  shows "find_header_end (text @ rest) past = Some (length text)
    \<and> parse_lines empty_request 0 (sv_pieces (sv_trim text) LF) = Some (parsed_request method target version headers)"
proof -
  let ?ls = "request_line method target version # map header_line headers"
  have ok: "list_all line_ok ?ls"
    using assms request_line_ok header_line_ok by (auto simp: list_all_iff)
  have crlf: "list_all (\<lambda>l. l \<noteq> [] \<and> CR \<notin> set l) ?ls"
    using ok by (auto simp: list_all_iff line_ok_def)
  have "parse_lines empty_request 0 (sv_pieces (sv_trim text) LF) = parse_lines empty_request 0 ?ls"
    unfolding text_def render_request_def using pieces_block [OF _ ok] ok by (subst parse_lines_strip) auto
  also have "\<dots> = Some (parsed_request method target version headers)"
    using assms ok by (simp add: Let_def strip_cr_line parse_request_line_ok parse_header_lines_ok parsed_request_def
        empty_request_def)
  finally show ?thesis
    using find_crlf2_block [OF _ crlf, of rest past 0]
    by (simp add: find_header_end_def text_def render_request_def)
qed

subsection \<open>Where the search for the blank line can end\<close>

lemma find_crlf2_bound:
  "find_crlf2 s past i = Some e \<Longrightarrow>
     e \<le> i + length s \<or> (e = i + length s + 1 \<and> past = LF \<and> (\<exists>t. s = t @ [CR, LF, CR]))"
proof (induction s past i rule: find_crlf2.induct)
  case (1 s past i)
  show ?case
  proof (cases "length s > 2 \<and> s ! 0 = CR \<and> s ! 1 = LF \<and> s ! 2 = CR \<and> (if length s > 3 then s ! 3 else past) = LF")
    case True
    then have e: "e = i + 4" using "1.prems" by (subst (asm) find_crlf2.simps) simp
    show ?thesis
    proof (cases "length s > 3")
      case False
      then have "length s = 3" using True by simp
      then obtain a b c where "s = [a, b, c]" by (auto simp: numeral_3_eq_3 length_Suc_conv)
      then show ?thesis using True e by auto
    qed (use e in simp)
  next
    case False
    then have r: "length s > 2" "find_crlf2 (tl s) past (i + 1) = Some e"
      using "1.prems" by (subst (asm) find_crlf2.simps, simp split: if_splits)+
    have "e \<le> i + 1 + length (tl s) \<or>
        (e = i + 1 + length (tl s) + 1 \<and> past = LF \<and> (\<exists>t. tl s = t @ [CR, LF, CR]))"
      using "1.IH" [OF r(1) _ r(2)] False r(1) by blast
    then show ?thesis using r(1) by (cases s) (auto intro: exI [of _ "_ # _"])
  qed
qed

lemma find_lf2_bound: "find_lf2 s i = Some e \<Longrightarrow> e \<le> i + length s"
  by (induction s i rule: find_lf2.induct) (auto split: if_splits)

text \<open>A rendered request is parsed into its parts; with a short body it is incomplete, but its head is known.\<close>

lemma parse_rendered:
  assumes "word_ok method" and "word_ok target" and "word_ok version" and "sv_starts_with version ''HTTP/''"
    and "list_all header_ok headers"
    and "map_option sv_to_i64 (http_request_get_header (parsed_request method target version headers) ''content-length'')
      = Some (Some (int (length body)))"
  shows "http_request_parse_adv (render_request method target version headers @ body @ rest) past =
      (REQ_OK,
       (parsed_request method target version headers)\<lparr>rq_body := body, rq_body_count := length body,
          rq_body_offset := length (render_request method target version headers),
          rq_content_length := int (length body)\<rparr>,
       length (render_request method target version headers) + length body)
    \<and> (length part < length body \<longrightarrow>
        http_request_parse_adv (render_request method target version headers @ part) past =
          (REQ_INCOMPLETE, http_request_free ((parsed_request method target version headers)\<lparr>rq_body := part, rq_body_count := length part,
             rq_body_offset := length (render_request method target version headers), rq_content_length := int (length body)\<rparr>), 0))"
proof -
  let ?t = "render_request method target version headers" and ?q = "parsed_request method target version headers"
  have head: "find_header_end (?t @ r) past = Some (length ?t)"
      "parse_lines empty_request 0 (sv_pieces (sv_trim ?t) LF) = Some ?q" for r
    using parse_rendered_head [OF assms(1-5)] by blast+
  obtain cl where cl: "http_request_get_header ?q ''content-length'' = Some cl" "sv_to_i64 cl = Some (int (length body))"
    using assms(6) by auto
  have get: "http_request_get_header (?q\<lparr>rq_body := b, rq_body_count := c, rq_body_offset := off\<rparr>) n
      = http_request_get_header ?q n" for b c off n
    by (simp add: http_request_get_header_def)
  show ?thesis
    using head(1) [of "body @ rest"] head(1) [of part] head(2) cl
    by (simp add: http_request_parse_adv_def Let_def get size_sub_def)
qed

subsection \<open>Properties\<close>

text \<open>
  C7: Request framing. A request that a client writes as request line, headers, empty line and a
  body of the declared length is parsed into exactly those parts, whatever bytes follow it, and
  the number of consumed bytes is the length of this request, so that a pipelined successor
  stays in the buffer untouched. While the body is short the parser asks for more.
\<close>

theorem request_framing:
  assumes "word_ok method" and "word_ok target" and "word_ok version" and "sv_starts_with version ''HTTP/''"
    and "list_all header_ok headers"
    and "map_option sv_to_i64 (http_request_get_header (parsed_request method target version headers) ''content-length'')
      = Some (Some (int (length body)))"
  shows "http_request_parse_adv (render_request method target version headers @ body @ rest) past =
      (REQ_OK,
       (parsed_request method target version headers)\<lparr>rq_body := body, rq_body_count := length body,
          rq_body_offset := length (render_request method target version headers),
          rq_content_length := int (length body)\<rparr>,
       length (render_request method target version headers) + length body)
    \<and> (length part < length body \<longrightarrow>
        fst (http_request_parse_adv (render_request method target version headers @ part) past) = REQ_INCOMPLETE)"
  using parse_rendered [OF assms] by simp

theorem request_framing_witness:
  "http_request_parse_adv (render_request ''GET'' ''/a?x=1'' ''HTTP/1.1'' [(''Content-Length'', ''2'')] @ ''hi'' @ ''rest'') NUL =
      (REQ_OK,
       (parsed_request ''GET'' ''/a?x=1'' ''HTTP/1.1'' [(''Content-Length'', ''2'')])\<lparr>rq_body := ''hi'', rq_body_count := 2,
          rq_body_offset := length (render_request ''GET'' ''/a?x=1'' ''HTTP/1.1'' [(''Content-Length'', ''2'')]),
          rq_content_length := 2\<rparr>,
       length (render_request ''GET'' ''/a?x=1'' ''HTTP/1.1'' [(''Content-Length'', ''2'')]) + 2)"
proof -
  have w: "word_ok ''GET''" "word_ok ''/a?x=1''" "word_ok ''HTTP/1.1''" "sv_starts_with ''HTTP/1.1'' ''HTTP/''"
    by (simp_all add: word_ok_def isspace_def sv_starts_with_def c_str_def)
  have h: "list_all header_ok [(''Content-Length'', ''2'')]"
    by (simp add: header_ok_def sv_trim_id isspace_def)
  have c: "map_option sv_to_i64 (http_request_get_header
      (parsed_request ''GET'' ''/a?x=1'' ''HTTP/1.1'' [(''Content-Length'', ''2'')]) ''content-length'') = Some (Some (int (length ''hi'')))"
    by (simp add: http_request_get_header_def parsed_request_def sv_to_i64_def LLONG_MAX_def eval_simps)
  from request_framing [OF w h c, of "''rest''" NUL "[]"] show ?thesis by simp
qed

text \<open>
  The header search stays inside the view, up to one byte. The position it reports lies
  within the bytes received, except when they end in CR LF CR and the stale byte behind them
  happens to be LF: then it lies one byte beyond them.
\<close>

theorem header_end_bound:
  assumes "find_header_end raw past = Some e"
  shows "e \<le> length raw \<or> (e = length raw + 1 \<and> past = LF \<and> (\<exists>t. raw = t @ [CR, LF, CR]))"
proof (cases "find_crlf2 raw past 0")
  case None
  then show ?thesis using assms find_lf2_bound [of raw 0 e] by (simp add: find_header_end_def)
next
  case (Some x)
  then show ?thesis using assms find_crlf2_bound [of raw past 0 e] by (simp add: find_header_end_def)
qed

theorem header_end_bound_witness:
  "find_header_end [CHR ''x'', CR, LF, CR] LF = Some 5
   \<and> (5 \<le> length [CHR ''x'', CR, LF, CR] \<or> 5 = length [CHR ''x'', CR, LF, CR] + 1)"
proof -
  have "find_header_end [CHR ''x'', CR, LF, CR] LF = Some 5"
    by (simp add: find_header_end_def find_crlf2.simps)
  then show ?thesis using header_end_bound by fastforce
qed

text \<open>
  Consequence of the byte read beyond the view: a request whose last CR LF is still incomplete
  is reported as complete, with a body count of \<open>SIZE_MAX\<close>, when the byte behind the received
  ones is a left-over LF.
\<close>

theorem header_overread_body_count:
  "case http_request_parse_adv (''GET / HTTP/1.1'' @ [CR, LF, CR]) LF of
     (r, req, consumed) \<Rightarrow> r = REQ_OK \<and> rq_body_count req = 2 ^ 64 - 1 \<and> consumed = 18"
proof -
  have w: "word_ok ''GET''" "word_ok ''/''" "word_ok ''HTTP/1.1''" "sv_starts_with ''HTTP/1.1'' ''HTTP/''"
    by (simp_all add: word_ok_def isspace_def sv_starts_with_def c_str_def)
  have t: "render_request ''GET'' ''/'' ''HTTP/1.1'' [] = ''GET / HTTP/1.1'' @ [CR, LF, CR, LF]"
    by (simp add: render_request_def header_block_def crlf_line_def request_line_def)
  have p: "parse_lines empty_request 0 (sv_pieces (sv_trim (''GET / HTTP/1.1'' @ [CR, LF, CR, LF])) LF)
      = Some (parsed_request ''GET'' ''/'' ''HTTP/1.1'' [])"
    using parse_rendered_head [OF w, of "[]"] unfolding t by simp
  have f: "find_header_end (''GET / HTTP/1.1'' @ [CR, LF, CR]) LF = Some 18"
    by (simp add: find_header_end_def find_crlf2.simps)
  have k: "take 18 ((''GET / HTTP/1.1'' @ [CR, LF, CR]) @ [LF]) = ''GET / HTTP/1.1'' @ [CR, LF, CR, LF]"
    by simp
  show ?thesis
    unfolding http_request_parse_adv_def f option.case k p
    by (simp add: Let_def size_sub_def http_request_get_header_def parsed_request_def empty_request_def)
qed

text \<open>
  A header block whose lines end in a bare LF is not recognised at its own blank line when the
  bytes behind it contain CR LF CR LF.
\<close>

lemma header_end_mixed_breaks:
  "find_header_end (''a'' @ [LF, LF]) NUL = Some 3"
  "find_header_end (''a'' @ [LF, LF] @ ''b'' @ [CR, LF, CR, LF]) NUL = Some 8"
  by (simp_all add: find_header_end_def find_crlf2.simps)

end
