(* ===== verification/Chunked.thy ===== *)
theory Chunked
  imports Http_Request
begin

text \<open>
  \<open>http_request_decode_chunked\<close> of \<open>src/http/request.c\<close>: unfolding a chunked body in place. The
  model keeps the buffer the source writes into: a turn of the loop slides the payload of a chunk
  over framing bytes that were read before, so the buffer is part of every result, also of the
  ones that ask for more input. The loops that only move the read cursor are written over the
  bytes from the cursor on and say how far it moves. The declared chunk size is a \<open>size_t\<close> that
  wraps; \<open>Chunk_Overrun\<close> stands for a \<open>memmove\<close> whose source range leaves the buffer.
\<close>

subsection \<open>The decoder\<close>

definition hex_value :: "char \<Rightarrow> int" where
  "hex_value c =
     (if 48 \<le> ucode c \<and> ucode c \<le> 57 then int (ucode c) - 48
      else if 97 \<le> ucode c \<and> ucode c \<le> 102 then int (ucode c) - 97 + 10
      else if 65 \<le> ucode c \<and> ucode c \<le> 70 then int (ucode c) - 65 + 10
      else -1)"

fun skip_breaks :: "sv \<Rightarrow> nat" where
  "skip_breaks [] = 0"
| "skip_breaks (c # s) = (if c = CR \<or> c = LF then Suc (skip_breaks s) else 0)"

fun skip_line :: "sv \<Rightarrow> nat" where
  "skip_line [] = 0"
| "skip_line (c # s) = (if c \<noteq> CR \<and> c \<noteq> LF then Suc (skip_line s) else 0)"

text \<open>The size line: the size, whether a digit was seen, how far the cursor moved.\<close>

fun chunk_size_line :: "sv \<Rightarrow> nat \<Rightarrow> bool \<Rightarrow> nat \<times> bool \<times> nat" where
  "chunk_size_line [] csize saw_digit = (csize, saw_digit, 0)"
| "chunk_size_line (c # s) csize saw_digit =
     (let v = hex_value c
      in if v \<ge> 0
         then (case chunk_size_line s ((csize * 16 + nat v) mod 2 ^ 64) True of (sz, sw, n) \<Rightarrow> (sz, sw, Suc n))
         else if c = CHR '';'' \<or> c = CHR '' '' then (csize, saw_digit, skip_line (c # s))
         else (csize, saw_digit, 0))"

text \<open>\<open>data[k]\<close>, where \<open>k\<close> may be one past the bytes received.\<close>

definition rd :: "sv \<Rightarrow> char \<Rightarrow> nat \<Rightarrow> char" where
  "rd data past k = (if k < length data then data ! k else past)"

text \<open>The trailer behind the last chunk: the new cursor, \<^const>\<open>None\<close> for \<open>return 1\<close>.\<close>

definition chunk_trailer :: "sv \<Rightarrow> char \<Rightarrow> nat \<Rightarrow> nat option" where
  "chunk_trailer data past r =
     (if r + 1 \<le> length data \<and> data ! r = CR \<and> rd data past (r + 1) = LF then Some (r + 2)
      else if r < length data then
        let r' = r + skip_line (drop r data)
        in if r' + 1 < length data \<and> data ! r' = CR \<and> data ! (r' + 1) = LF then Some (r' + 2)
           else if r' < length data \<and> data ! r' = LF then Some (r' + 1)
           else None
      else Some r)"

datatype chunk_result = Chunk_Done sv nat nat | Chunk_More sv | Chunk_Bad sv | Chunk_Overrun

definition slide :: "sv \<Rightarrow> nat \<Rightarrow> nat \<Rightarrow> nat \<Rightarrow> sv" where
  "slide data w r csize = take w data @ take csize (drop r data) @ drop (w + csize) data"

function decode_chunks :: "sv \<Rightarrow> char \<Rightarrow> nat \<Rightarrow> nat \<Rightarrow> chunk_result" where
  "decode_chunks data past r w =
     (let len = length data; r0 = r + skip_breaks (drop r data)
      in if r0 \<ge> len then Chunk_More data
         else
           case chunk_size_line (drop r0 data) 0 False of (csize, saw_digit, n) \<Rightarrow>
             let r1 = r0 + n
             in if \<not> saw_digit \<or> r1 + 1 \<ge> len \<or> data ! r1 \<noteq> CR \<or> data ! (r1 + 1) \<noteq> LF then Chunk_Bad data
                else
                  let r2 = r1 + 2
                  in if csize = 0 then
                       (case chunk_trailer data past r2 of None \<Rightarrow> Chunk_More data | Some r3 \<Rightarrow> Chunk_Done data w r3)
                     else if (r2 + csize) mod 2 ^ 64 > len then Chunk_More data
                     else if r2 + csize > len \<or> w + csize > len then Chunk_Overrun
                     else
                       let data' = slide data w r2 csize; r3 = r2 + csize
                       in if r3 + 1 \<ge> len \<or> data' ! r3 \<noteq> CR \<or> data' ! (r3 + 1) \<noteq> LF then Chunk_Bad data'
                          else decode_chunks data' past (r3 + 2) (w + csize))"
  by pat_completeness auto
termination
  by (relation "measure (\<lambda>(data, past, r, w). length data - r)") (auto simp: slide_def)

declare decode_chunks.simps [simp del]

text \<open>
  Return value, request, \<open>*consumed\<close> and the buffer from the body on; \<^const>\<open>None\<close> when the
  source leaves the buffer. \<open>*consumed\<close> is set only on success; otherwise \<open>0\<close> stands for leaving it alone.
\<close>

definition http_request_decode_chunked :: "http_request \<Rightarrow> char \<Rightarrow> (int \<times> http_request \<times> nat \<times> sv) option" where
  "http_request_decode_chunked req past =
     (if http_request_get_header req ''content-length'' \<noteq> None then Some (-1, req, 0, rq_body req)
      else
        case decode_chunks (rq_body req) past 0 0 of
          Chunk_Done data w r \<Rightarrow>
            Some (0, req\<lparr>rq_body := take w data, rq_body_count := w\<rparr>, rq_body_offset req + r, data)
        | Chunk_More data \<Rightarrow> Some (1, req, 0, data)
        | Chunk_Bad data \<Rightarrow> Some (-1, req, 0, data)
        | Chunk_Overrun \<Rightarrow> None)"

subsection \<open>Chunked text\<close>

definition hex_digit :: "nat \<Rightarrow> char" where
  "hex_digit n = ''0123456789abcdef'' ! n"

fun to_hex :: "nat \<Rightarrow> sv" where
  "to_hex n = (if n < 16 then [hex_digit n] else to_hex (n div 16) @ [hex_digit (n mod 16)])"

declare to_hex.simps [simp del]

definition render_chunk :: "sv \<Rightarrow> sv" where
  "render_chunk c = to_hex (length c) @ [CR, LF] @ c @ [CR, LF]"

definition render_chunked :: "sv list \<Rightarrow> sv" where
  "render_chunked cs = concat (map render_chunk cs) @ ''0'' @ [CR, LF, CR, LF]"

lemma length_render_chunk: "length (render_chunk c) = length (to_hex (length c)) + length c + 4"
  by (simp add: render_chunk_def)

lemma hex_value_digit: "n < 16 \<Longrightarrow> hex_value (hex_digit n) = int n"
proof -
  have "map hex_value ''0123456789abcdef'' = map int [0..<16]" by code_simp
  then have "map hex_value ''0123456789abcdef'' ! n = map int [0..<16] ! n" by simp
  then show "n < 16 \<Longrightarrow> ?thesis" by (simp add: hex_digit_def del: map_eq_conv list.map)
qed

lemma not_hex [simp]: "hex_value CR = -1" "hex_value LF = -1"
  by (simp_all add: hex_value_def)

lemma chunk_size_stop: "chunk_size_line (CR # s) csize saw = (csize, saw, 0)"
  by simp

lemma chunk_size_to_hex:
  "n < 2 ^ 64 \<Longrightarrow> chunk_size_line (to_hex n @ s) 0 False =
     (case chunk_size_line s n True of (sz, sw, k) \<Rightarrow> (sz, sw, length (to_hex n) + k))"
proof (induction n arbitrary: s rule: to_hex.induct)
  case (1 n)
  show ?case
  proof (cases "n < 16")
    case True
    then show ?thesis by (simp add: to_hex.simps [of n] hex_value_digit Let_def split: prod.splits)
  next
    case False
    have m: "n mod 16 < 16" by simp
    have "n div 16 < 2 ^ 64" using "1.prems" by simp
    from "1.IH" [OF False this, of "hex_digit (n mod 16) # s"]
    show ?thesis
      using False "1.prems"
      by (simp add: to_hex.simps [of n] hex_value_digit [OF m] Let_def nat_add_distrib split: prod.splits)
  qed
qed

lemma to_hex_head: "\<exists>d t. to_hex n = hex_digit d # t \<and> d < 16"
proof (induction n rule: to_hex.induct)
  case (1 n)
  then show ?case by (cases "n < 16") (auto simp: to_hex.simps [of n])
qed

lemma skip_breaks_hex: "skip_breaks (to_hex n @ s) = 0"
proof -
  obtain d t where d: "to_hex n = hex_digit d # t" "d < 16" using to_hex_head by blast
  then have "hex_digit d \<noteq> CR" "hex_digit d \<noteq> LF" using hex_value_digit [of d] by auto
  then show ?thesis using d by simp
qed

text \<open>
  One chunk: the unread part starts at the cursor, everything before it is the output so far and
  bytes that are no longer needed.
\<close>

lemma decode_one_chunk:
  assumes "c \<noteq> []" and "length (out @ junk @ render_chunk c @ rest) < 2 ^ 64"
  shows "\<exists>junk'. length junk' = length junk + length (to_hex (length c)) + 4 \<and>
    decode_chunks (out @ junk @ render_chunk c @ rest) past (length out + length junk) (length out) =
    decode_chunks ((out @ c) @ junk' @ rest) past (length (out @ c) + length junk') (length (out @ c))"
proof -
  let ?h = "to_hex (length c)"
  let ?data = "out @ junk @ ?h @ CR # LF # c @ CR # LF # rest"
  let ?r = "length out + length junk"
  define tail where "tail = drop (length c) (junk @ ?h @ CR # LF # c)"
  have lt: "length tail = length junk + length ?h + 2" by (simp add: tail_def)
  have dropa: "n \<le> length a \<Longrightarrow> drop n (a @ b) = drop n a @ b" for n and a b :: sv by simp
  have unread: "drop ?r ?data = ?h @ CR # LF # c @ CR # LF # rest" by simp
  have n: "length c < 2 ^ 64" using assms(2) by (simp add: render_chunk_def)
  have sizel: "chunk_size_line (?h @ CR # LF # c @ CR # LF # rest) 0 False = (length c, True, length ?h)"
    using chunk_size_to_hex [OF n] by simp
  have at: "?data ! (?r + length ?h) = CR" "?data ! (?r + length ?h + 1) = LF"
    by (simp_all add: nth_append)
  have slide: "slide ?data (length out) (?r + length ?h + 2) (length c) = (out @ c) @ tail @ CR # LF # rest"
  proof -
    have "drop (?r + length ?h + 2) ?data = c @ CR # LF # rest" by simp
    moreover have "drop (length out + length c) ?data = tail @ CR # LF # rest"
      using dropa [of "length c" "junk @ ?h @ CR # LF # c" "CR # LF # rest"] by (simp add: tail_def)
    ultimately show ?thesis by (simp add: slide_def)
  qed
  have crlf: "((out @ c) @ tail @ CR # LF # rest) ! (?r + length ?h + 2 + length c) = CR"
    "((out @ c) @ tail @ CR # LF # rest) ! (?r + length ?h + 2 + length c + 1) = LF"
    using lt by (simp_all add: nth_append)
  have "decode_chunks ?data past ?r (length out)
      = decode_chunks ((out @ c) @ tail @ CR # LF # rest) past (?r + length ?h + 2 + length c + 2) (length out + length c)"
    using assms unread sizel at slide crlf n
    by (subst decode_chunks.simps) (simp add: Let_def skip_breaks_hex render_chunk_def del: append_assoc)
  moreover have "(out @ c) @ tail @ CR # LF # rest = (out @ c) @ (tail @ [CR, LF]) @ rest" by simp
  ultimately show ?thesis
    using lt by (intro exI [of _ "tail @ [CR, LF]"]) (simp add: render_chunk_def add.commute add.left_commute)
qed

lemma decode_all_chunks:
  assumes "list_all (\<lambda>c. c \<noteq> []) cs" and "length (out @ junk @ concat (map render_chunk cs) @ rest) < 2 ^ 64"
  shows "\<exists>junk'. length (concat cs @ junk') = length (junk @ concat (map render_chunk cs)) \<and>
    decode_chunks (out @ junk @ concat (map render_chunk cs) @ rest) past (length out + length junk) (length out) =
    decode_chunks ((out @ concat cs) @ junk' @ rest) past (length (out @ concat cs) + length junk') (length (out @ concat cs))"
  using assms
proof (induction cs arbitrary: out junk)
  case (Cons c cs)
  let ?rs = "concat (map render_chunk cs) @ rest"
  obtain j where j: "length j = length junk + length (to_hex (length c)) + 4"
      "decode_chunks (out @ junk @ render_chunk c @ ?rs) past (length out + length junk) (length out) =
       decode_chunks ((out @ c) @ j @ ?rs) past (length (out @ c) + length j) (length (out @ c))"
    using decode_one_chunk [of c out junk ?rs past] Cons.prems by auto
  have "length ((out @ c) @ j @ concat (map render_chunk cs) @ rest) < 2 ^ 64"
    using Cons.prems(2) j(1) by (simp add: length_render_chunk)
  then obtain k where "length (concat cs @ k) = length (j @ concat (map render_chunk cs))"
      "decode_chunks ((out @ c) @ j @ ?rs) past (length (out @ c) + length j) (length (out @ c)) =
       decode_chunks (((out @ c) @ concat cs) @ k @ rest) past (length ((out @ c) @ concat cs) + length k)
         (length ((out @ c) @ concat cs))"
    using Cons.IH [of "out @ c" j] Cons.prems(1) by auto
  then show ?case using j by (intro exI [of _ k]) (simp add: length_render_chunk)
qed auto

lemma decode_last_chunk:
  "decode_chunks (out @ junk @ ''0'' @ [CR, LF, CR, LF] @ rest) past (length out + length junk) (length out) =
     Chunk_Done (out @ junk @ ''0'' @ [CR, LF, CR, LF] @ rest) (length out) (length out + length junk + 5)"
proof -
  let ?data = "out @ junk @ ''0'' @ [CR, LF, CR, LF] @ rest" and ?r = "length out + length junk"
  have d: "drop ?r ?data = ''0'' @ [CR, LF, CR, LF] @ rest" by simp
  have n: "?data ! Suc ?r = CR" "?data ! Suc (Suc ?r) = LF" "?data ! Suc (Suc (Suc ?r)) = CR"
      "?data ! Suc (Suc (Suc (Suc ?r))) = LF"
    by (simp_all add: nth_append)
  have h: "hex_value (CHR ''0'') = 0" by (simp add: hex_value_def)
  have t: "chunk_trailer ?data past (Suc (Suc (Suc ?r))) = Some (?r + 5)"
    using n by (simp add: chunk_trailer_def rd_def)
  have b: "skip_breaks (''0'' @ [CR, LF, CR, LF] @ rest) = 0" by simp
  have c: "chunk_size_line (''0'' @ [CR, LF, CR, LF] @ rest) 0 False = (0, True, 1)" by (simp add: h)
  show ?thesis
    unfolding decode_chunks.simps [of ?data] Let_def d b c prod.case add_0_right
    using n t by simp
qed

subsection \<open>Memory safety of the slide\<close>

text \<open>
  The cursors of a run: the write cursor never overtakes the read cursor, and a result that
  reports success stays within the received bytes, up to the one byte behind them that the
  trailer check may read.
\<close>

lemma length_slide: "w + k \<le> length data \<Longrightarrow> r + k \<le> length data \<Longrightarrow> length (slide data w r k) = length data"
  by (simp add: slide_def)

lemma skip_line_le: "skip_line s \<le> length s"
  by (induction s) auto

lemma chunk_trailer_bounds: "chunk_trailer data past r = Some r' \<Longrightarrow> r \<le> length data \<Longrightarrow> r \<le> r' \<and> r' \<le> length data + 1"
  using skip_line_le [of "drop r data"] by (auto simp: chunk_trailer_def Let_def split: if_splits)

lemma decode_chunks_bounds:
  "w \<le> r \<Longrightarrow> decode_chunks data past r w = Chunk_Done out n e \<Longrightarrow>
     length out = length data \<and> n \<le> e \<and> n \<le> length data \<and> e \<le> length data + 1"
proof (induction data past r w rule: decode_chunks.induct)
  case (1 data past r w)
  let ?r0 = "r + skip_breaks (drop r data)"
  obtain k saw n1 where sz: "chunk_size_line (drop ?r0 data) 0 False = (k, saw, n1)" by (metis prod_cases3)
  let ?r2 = "?r0 + n1 + 2"
  note step = "1.prems"(2) [unfolded decode_chunks.simps [of data] Let_def sz prod.case]
  have g: "\<not> ?r0 \<ge> length data" "\<not> (\<not> saw \<or> ?r0 + n1 + 1 \<ge> length data \<or> data ! (?r0 + n1) \<noteq> CR \<or> data ! (?r0 + n1 + 1) \<noteq> LF)"
    using step by (auto split: if_splits)
  show ?case
  proof (cases "k = 0")
    case True
    then show ?thesis using step g "1.prems"(1) chunk_trailer_bounds [of data past ?r2] by (auto split: if_splits option.splits)
  next
    case False
    have b: "\<not> (?r2 + k) mod 2 ^ 64 > length data" "\<not> (?r2 + k > length data \<or> w + k > length data)"
      using step g False by (auto split: if_splits)
    let ?d = "slide data w ?r2 k"
    have l: "\<not> (?r2 + k + 1 \<ge> length data \<or> ?d ! (?r2 + k) \<noteq> CR \<or> ?d ! (?r2 + k + 1) \<noteq> LF)"
      using step unfolding if_not_P [OF g(1)] if_not_P [OF g(2)] if_not_P [OF False] if_not_P [OF b(1)] if_not_P [OF b(2)]
      by (auto split: if_splits)
    have rec: "decode_chunks ?d past (?r2 + k + 2) (w + k) = Chunk_Done out n e"
      using step unfolding if_not_P [OF g(1)] if_not_P [OF g(2)] if_not_P [OF False] if_not_P [OF b(1)] if_not_P [OF b(2)] if_not_P [OF l] .
    have "w + k \<le> ?r2 + k + 2" using "1.prems"(1) by simp
    from "1.IH" [OF refl refl g(1) sz [symmetric] refl refl g(2) _ False b _ _ l this rec]
    show ?thesis using b(2) by (simp add: length_slide)
  qed
qed

subsection \<open>Properties\<close>





text \<open>
  Resuming fails. A first pass over a body whose second chunk is still arriving returns 1
  (read more), but it has already slid the first chunk over the framing; the pass over the same
  buffer extended by the missing bytes then refuses the body that one pass over all bytes accepts.
\<close>

theorem chunked_resume_corrupts:
  "case http_request_decode_chunked (empty_request\<lparr>rq_body := ''5'' @ [CR, LF] @ ''hello'' @ [CR, LF] @ ''3'' @ [CR, LF] @ ''wo''\<rparr>) NUL of
     Some (r, _, _, data) \<Rightarrow> r = 1 \<and>
       map_option fst (http_request_decode_chunked (empty_request\<lparr>rq_body := data @ ''r'' @ [CR, LF] @ ''0'' @ [CR, LF, CR, LF]\<rparr>) NUL) = Some (-1) \<and>
       map_option fst (http_request_decode_chunked (empty_request\<lparr>rq_body := render_chunked [''hello'', ''wor'']\<rparr>) NUL) = Some 0
   | None \<Rightarrow> False"
proof -
  have d: "decode_chunks (''5'' @ [CR, LF] @ ''hello'' @ [CR, LF] @ ''3'' @ [CR, LF] @ ''wo'') NUL 0 0
      = Chunk_More (''hellollo'' @ [CR, LF] @ ''3'' @ [CR, LF] @ ''wo'')" by (simp add: decode_chunks.simps Let_def slide_def hex_value_def chunk_trailer_def rd_def)
  have e: "decode_chunks ((''hellollo'' @ [CR, LF] @ ''3'' @ [CR, LF] @ ''wo'') @ ''r'' @ [CR, LF] @ ''0'' @ [CR, LF, CR, LF]) NUL 0 0
      = Chunk_Bad ((''hellollo'' @ [CR, LF] @ ''3'' @ [CR, LF] @ ''wo'') @ ''r'' @ [CR, LF] @ ''0'' @ [CR, LF, CR, LF])" by (simp add: decode_chunks.simps Let_def slide_def hex_value_def chunk_trailer_def rd_def)
  have f: "\<exists>x y z. decode_chunks (render_chunked [''hello'', ''wor'']) NUL 0 0 = Chunk_Done x y z"
  proof -
    have "render_chunked [''hello'', ''wor''] = ''5'' @ [CR, LF] @ ''hello'' @ [CR, LF] @ ''3'' @ [CR, LF] @ ''wor'' @ [CR, LF] @ ''0'' @ [CR, LF, CR, LF]"
      by (simp add: render_chunked_def render_chunk_def to_hex.simps hex_digit_def)
    then have "decode_chunks (render_chunked [''hello'', ''wor'']) NUL 0 0
      = Chunk_Done (''hellowor'' @ [CR, LF] @ ''3'' @ [CR, LF] @ ''wor'' @ [CR, LF] @ ''0'' @ [CR, LF, CR, LF]) 8 23" by (simp add: decode_chunks.simps Let_def slide_def hex_value_def chunk_trailer_def rd_def)
    then show ?thesis by blast
  qed
  show ?thesis
    using d e f by (auto simp: http_request_decode_chunked_def http_request_get_header_def empty_request_def)
qed

text \<open>
  The declared size is not checked against wrap-around: with a size line near \<open>2 ^ 64\<close> the
  comparison with the received length passes and the move reads far outside the buffer. The size
  line is also refused, not awaited, while it has arrived only in part.
\<close>

theorem chunked_size_overflow:
  "http_request_decode_chunked (empty_request\<lparr>rq_body := ''fffffffffffffff0'' @ [CR, LF] @ ''x''\<rparr>) NUL = None
   \<and> map_option fst (http_request_decode_chunked (empty_request\<lparr>rq_body := ''5'' @ [CR]\<rparr>) NUL) = Some (-1)"
proof -
  have "decode_chunks (''fffffffffffffff0'' @ [CR, LF] @ ''x'') NUL 0 0 = Chunk_Overrun" by (simp add: decode_chunks.simps Let_def slide_def hex_value_def chunk_trailer_def rd_def)
  moreover have "decode_chunks (''5'' @ [CR]) NUL 0 0 = Chunk_Bad (''5'' @ [CR])" by (simp add: decode_chunks.simps Let_def slide_def hex_value_def chunk_trailer_def rd_def)
  ultimately show ?thesis by (simp add: http_request_decode_chunked_def http_request_get_header_def empty_request_def)
qed

end
