(* ===== verification/Strmap.thy ===== *)
theory Strmap
  imports Views
begin

text \<open>
  \<open>src/utils/strmap.c\<close>: the string map behind headers, parameters, cookies and sessions. An open
  addressing table with linear probing and FNV-1a, growth at load one half, and deletion that
  pulls the trailing cluster and inserts it again.

  A slot is \<^const>\<open>None\<close> when its key pointer is NULL and otherwise holds the two buffers
  \<open>dup_own\<close> made, terminator included, so that \<open>strlen\<close> and \<open>memcmp\<close> on a stored key can be
  written as they are. The unbounded \<open>while\<close> loops are \<open>partial_function\<close>s: \<^const>\<open>None\<close> is a
  loop that never stops, and the lemmas below prove that they do stop on every table the
  operations can build. The invariant \<open>strmap_inv\<close> and the abstraction \<open>strmap_abs\<close> give the
  contract \<open>string_map\<close>, which the definitions are shown to satisfy.
\<close>

subsection \<open>The table and its operations\<close>

type_synonym slot = "(char list \<times> char list) option"

record str_map =
  sm_entries :: "slot list"
  sm_count :: nat
  sm_capacity :: nat

definition fnv1a :: "char list \<Rightarrow> u64" where
  "fnv1a s = foldl (\<lambda>h c. (h XOR word_of_nat (ucode c)) * 1099511628211) 14695981039346656037 s"

definition strmap_init :: str_map where
  "strmap_init = \<lparr>sm_entries = [], sm_count = 0, sm_capacity = 0\<rparr>"

definition strmap_free :: "str_map \<Rightarrow> str_map" where
  "strmap_free m = strmap_init"

definition dup_own :: "char list \<Rightarrow> char list" where
  "dup_own data = data @ [NUL]"

text \<open>\<open>strlen(e->key) == key.count && memcmp(e->key, key.data, key.count) == 0\<close>\<close>

definition key_matches :: "char list \<Rightarrow> sv \<Rightarrow> bool" where
  "key_matches buf key \<longleftrightarrow> length (c_str buf) = length key \<and> take (length key) buf = key"

definition strmap_idx :: "sv \<Rightarrow> nat \<Rightarrow> nat" where
  "strmap_idx key cap = unat (fnv1a key AND word_of_nat (cap - 1))"

text \<open>
  The bounded probe loop \<open>for (i = 0; i < capacity; i++)\<close> that \<open>strmap_get\<close> and \<open>strmap_set\<close>
  share: the slot where it leaves the loop, which is empty or holds the key.
\<close>

function strmap_probe :: "slot list \<Rightarrow> nat \<Rightarrow> sv \<Rightarrow> nat \<Rightarrow> nat \<Rightarrow> nat option" where
  "strmap_probe E cap key idx i =
     (if i < cap
      then let s = (idx + i) AND (cap - 1)
           in case E ! s of
                None \<Rightarrow> Some s
              | Some (k, v) \<Rightarrow> if key_matches k key then Some s else strmap_probe E cap key idx (i + 1)
      else None)"
  by pat_completeness auto
termination
  by (relation "measure (\<lambda>(E, cap, key, idx, i). cap - i)") auto

declare strmap_probe.simps [simp del]

text \<open>The value found, read as the C string its pointer stands for.\<close>

definition strmap_get :: "str_map \<Rightarrow> sv \<Rightarrow> char list option" where
  "strmap_get m key =
     (if sm_capacity m = 0 then None
      else case strmap_probe (sm_entries m) (sm_capacity m) key (strmap_idx key (sm_capacity m)) 0 of
             None \<Rightarrow> None
           | Some s \<Rightarrow> map_option (\<lambda>(k, v). c_str v) (sm_entries m ! s))"

definition strmap_get_cstr :: "str_map \<Rightarrow> char list \<Rightarrow> char list option" where
  "strmap_get_cstr m key = strmap_get m (sv_from_cstr key)"

text \<open>\<open>while (entries[idx].key) idx = (idx + 1) & (new_cap - 1)\<close>\<close>

partial_function (option) strmap_free_slot :: "slot list \<Rightarrow> nat \<Rightarrow> nat \<Rightarrow> nat option" where
  "strmap_free_slot E cap idx =
     (if E ! idx = None then Some idx else strmap_free_slot E cap ((idx + 1) AND (cap - 1)))"

fun strmap_rehash :: "slot list \<Rightarrow> nat \<Rightarrow> slot list \<Rightarrow> slot list option" where
  "strmap_rehash E cap [] = Some E"
| "strmap_rehash E cap (None # es) = strmap_rehash E cap es"
| "strmap_rehash E cap (Some (k, v) # es) =
     (case strmap_free_slot E cap (strmap_idx (c_str k) cap) of
        None \<Rightarrow> None
      | Some s \<Rightarrow> strmap_rehash (E[s := Some (k, v)]) cap es)"

definition strmap_grow :: "str_map \<Rightarrow> str_map option" where
  "strmap_grow m =
     (let new_cap = (if sm_capacity m \<noteq> 0 then sm_capacity m * 2 else 16)
      in map_option (\<lambda>E. m\<lparr>sm_entries := E, sm_capacity := new_cap\<rparr>)
           (strmap_rehash (replicate new_cap None) new_cap (sm_entries m)))"

text \<open>The result is the C return value with the new table, \<^const>\<open>None\<close> if a loop never stops.\<close>

definition strmap_set :: "str_map \<Rightarrow> sv \<Rightarrow> sv \<Rightarrow> (int \<times> str_map) option" where
  "strmap_set m key value =
     Option.bind
       (if sm_capacity m = 0 \<or> sm_count m * 2 \<ge> sm_capacity m then strmap_grow m else Some m)
       (\<lambda>m. Some
         (case strmap_probe (sm_entries m) (sm_capacity m) key (strmap_idx key (sm_capacity m)) 0 of
            None \<Rightarrow> (-1, m)
          | Some s \<Rightarrow>
              (case sm_entries m ! s of
                 None \<Rightarrow> (0, m\<lparr>sm_entries := (sm_entries m)[s := Some (dup_own key, dup_own value)],
                            sm_count := sm_count m + 1\<rparr>)
               | Some (k, v) \<Rightarrow> (0, m\<lparr>sm_entries := (sm_entries m)[s := Some (k, dup_own value)]\<rparr>))))"

text \<open>The loops of \<open>strmap_delete\<close>: find the key, then pull the cluster behind it.\<close>

partial_function (option) strmap_find :: "slot list \<Rightarrow> nat \<Rightarrow> sv \<Rightarrow> nat \<Rightarrow> nat option" where
  "strmap_find E cap key idx =
     (case E ! idx of
        None \<Rightarrow> Some idx
      | Some e \<Rightarrow> if key_matches (fst e) key then Some idx
                  else strmap_find E cap key ((idx + 1) AND (cap - 1)))"

partial_function (option) strmap_pull ::
  "slot list \<Rightarrow> nat \<Rightarrow> nat \<Rightarrow> (char list \<times> char list) list
     \<Rightarrow> (slot list \<times> (char list \<times> char list) list) option" where
  "strmap_pull E cap k held =
     (case E ! k of
        None \<Rightarrow> Some (E, held)
      | Some e \<Rightarrow> strmap_pull (E[k := None]) cap ((k + 1) AND (cap - 1)) (held @ [e]))"

fun strmap_reinsert :: "str_map \<Rightarrow> (char list \<times> char list) list \<Rightarrow> str_map option" where
  "strmap_reinsert m [] = Some m"
| "strmap_reinsert m (e # es) =
     Option.bind (strmap_set m (sv_from_cstr (fst e)) (sv_from_cstr (snd e)))
       (\<lambda>r. strmap_reinsert (snd r) es)"

definition strmap_delete :: "str_map \<Rightarrow> sv \<Rightarrow> str_map option" where
  "strmap_delete m key =
     (if sm_capacity m = 0 then Some m
      else
        Option.bind (strmap_find (sm_entries m) (sm_capacity m) key (strmap_idx key (sm_capacity m)))
          (\<lambda>idx.
            if sm_entries m ! idx = None then Some m
            else
              Option.bind
                (strmap_pull ((sm_entries m)[idx := None]) (sm_capacity m)
                   ((idx + 1) AND (sm_capacity m - 1)) [])
                (\<lambda>(E, held).
                  strmap_reinsert (m\<lparr>sm_entries := E, sm_count := sm_count m - 1 - length held\<rparr>) held)))"

subsection \<open>Invariant and abstraction\<close>

text \<open>
  A capacity is 0 or a power of two that is at least 16 and fits a \<open>size_t\<close>. Each stored key can
  be reached from its home slot without crossing an empty slot, no key is stored twice, and at
  most half of the slots are in use.
\<close>

definition cap_ok :: "nat \<Rightarrow> bool" where
  "cap_ok n \<longleftrightarrow> (\<exists>k. 4 \<le> k \<and> n = 2 ^ k)"

definition reachable_from :: "slot list \<Rightarrow> nat \<Rightarrow> nat \<Rightarrow> bool" where
  "reachable_from E h s \<longleftrightarrow>
     (\<exists>d. s = (h + d) mod length E \<and> (\<forall>j \<le> d. E ! ((h + j) mod length E) \<noteq> None))"

definition home :: "slot list \<Rightarrow> char list \<Rightarrow> nat" where
  "home E key = strmap_idx key (length E)"

definition table_ok :: "slot list \<Rightarrow> bool" where
  "table_ok E \<longleftrightarrow>
     (\<forall>s < length E. \<forall>k v. E ! s = Some (k, v) \<longrightarrow> reachable_from E (home E (c_str k)) s)
     \<and> (\<forall>s < length E. \<forall>t < length E. \<forall>k v k' v'.
          E ! s = Some (k, v) \<longrightarrow> E ! t = Some (k', v') \<longrightarrow> c_str k = c_str k' \<longrightarrow> s = t)"

lemma table_ok_reach:
  "table_ok E \<Longrightarrow> s < length E \<Longrightarrow> E ! s = Some (k, v) \<Longrightarrow> reachable_from E (home E (c_str k)) s"
  unfolding table_ok_def by blast

lemma table_ok_unique:
  "table_ok E \<Longrightarrow> s < length E \<Longrightarrow> t < length E \<Longrightarrow> E ! s = Some (k, v) \<Longrightarrow> E ! t = Some (k', v')
     \<Longrightarrow> c_str k = c_str k' \<Longrightarrow> s = t"
  unfolding table_ok_def by blast

definition used :: "slot list \<Rightarrow> nat" where
  "used E = length (filter (\<lambda>e. e \<noteq> None) E)"

definition strmap_inv :: "str_map \<Rightarrow> bool" where
  "strmap_inv m \<longleftrightarrow>
     length (sm_entries m) = sm_capacity m \<and> (sm_capacity m = 0 \<or> cap_ok (sm_capacity m))
     \<and> sm_count m = used (sm_entries m) \<and> 2 * sm_count m \<le> sm_capacity m
     \<and> table_ok (sm_entries m)"

text \<open>The finite map a table stands for.\<close>

fun slots_map :: "slot list \<Rightarrow> char list \<rightharpoonup> char list" where
  "slots_map [] = Map.empty"
| "slots_map (None # es) = slots_map es"
| "slots_map (Some (k, v) # es) = (slots_map es)(c_str k \<mapsto> c_str v)"

definition strmap_abs :: "str_map \<Rightarrow> char list \<rightharpoonup> char list" where
  "strmap_abs m = slots_map (sm_entries m)"

lemma cap_ok_pos: "cap_ok n \<Longrightarrow> 0 < n \<and> 16 \<le> n \<and> even n"
proof -
  assume "cap_ok n"
  then obtain k where k: "4 \<le> k" "n = 2 ^ k" by (auto simp: cap_ok_def)
  have "(2::nat) ^ 4 \<le> 2 ^ k" using k(1) by (intro power_increasing) auto
  with k show ?thesis by auto
qed

lemma cap_ok_double: "cap_ok n \<Longrightarrow> cap_ok (n * 2)"
  by (auto simp: cap_ok_def) (metis le_Suc_eq power_Suc2)

lemma cap_ok_16: "cap_ok 16"
  by (auto simp: cap_ok_def intro: exI [of _ 4])

lemma and_cap: "cap_ok n \<Longrightarrow> x AND (n - 1) = x mod n"
  using and_mask_nat by (auto simp only: cap_ok_def)

lemma strmap_idx_less: "cap_ok n \<Longrightarrow> strmap_idx key n < n"
proof -
  assume n: "cap_ok n"
  then obtain k where k: "n = 2 ^ k" by (auto simp: cap_ok_def)
  have "unat (fnv1a key AND word_of_nat (n - 1)) = unat (fnv1a key) AND take_bit 64 (n - 1)"
    by (simp add: unsigned_and_eq unsigned_of_nat)
  also have "take_bit 64 (n - 1) = mask (min 64 k)"
    unfolding k mask_eq_exp_minus_1 [symmetric] by (rule take_bit_of_mask)
  also have "unat (fnv1a key) AND mask (min 64 k) = take_bit (min 64 k) (unat (fnv1a key))"
    by (simp add: take_bit_eq_mask)
  also have "\<dots> < 2 ^ min 64 k" by simp
  also have "\<dots> \<le> n" unfolding k by (rule power_increasing) auto
  finally show ?thesis unfolding strmap_idx_def .
qed

lemma key_matches_iff: "key_matches buf key \<longleftrightarrow> c_str buf = key"
  unfolding key_matches_def by (metis take_length_c_str)

lemma step_mod: "cap_ok n \<Longrightarrow> ((h + d) mod n + 1) AND (n - 1) = (h + Suc d) mod n"
  by (simp only: and_cap) (simp add: mod_simps)

text \<open>Every slot is on every probe path.\<close>

lemma path_covers: "h < n \<Longrightarrow> s < n \<Longrightarrow> \<exists>d < n. s = (h + d) mod (n::nat)"
  by (rule exI [of _ "if h \<le> s then s - h else n + s - h"]) auto

lemma ex_empty: "used E < length E \<Longrightarrow> \<exists>s < length E. E ! s = None"
proof (rule ccontr)
  assume u: "used E < length E" and "\<not> (\<exists>s < length E. E ! s = None)"
  then have "\<forall>e \<in> set E. e \<noteq> None" by (metis in_set_conv_nth)
  then have "filter (\<lambda>e. e \<noteq> None) E = E" by simp
  with u show False by (simp add: used_def)
qed

lemma used_le [simp]: "used E \<le> length E"
  by (simp add: used_def)

lemma used_update_fill: "s < length E \<Longrightarrow> E ! s = None \<Longrightarrow> used (E[s := Some e]) = Suc (used E)"
proof (induction E arbitrary: s)
  case (Cons x E)
  then show ?case by (cases s) (auto simp: used_def)
qed simp

lemma used_update_clear: "s < length E \<Longrightarrow> E ! s \<noteq> None \<Longrightarrow> Suc (used (E[s := None])) = used E"
  using used_update_fill [of s "E[s := None]" "the (E ! s)"] by (auto simp: list_update_same_conv)

lemma used_update_keep: "s < length E \<Longrightarrow> E ! s \<noteq> None \<Longrightarrow> used (E[s := Some e]) = used E"
  using used_update_clear [of s E] used_update_fill [of s "E[s := None]" e] by simp

lemma slots_map_None: "slots_map E k = None \<longleftrightarrow> (\<forall>s < length E. \<forall>kb v. E ! s = Some (kb, v) \<longrightarrow> c_str kb \<noteq> k)"
  by (induction E rule: slots_map.induct) (auto simp: nth_Cons' less_Suc_eq_0_disj)

lemma slots_map_SomeD:
  "slots_map E k = Some v \<Longrightarrow> \<exists>s < length E. \<exists>kb vb. E ! s = Some (kb, vb) \<and> c_str kb = k \<and> c_str vb = v"
proof (induction E rule: slots_map.induct)
  case (2 es)
  then show ?case by (metis Suc_less_eq length_Cons nth_Cons_Suc slots_map.simps(2))
next
  case (3 k' v' es)
  show ?case
  proof (cases "c_str k' = k")
    case True
    then show ?thesis using "3.prems" by (intro exI [of _ 0]) auto
  next
    case False
    then obtain s kb vb where "s < length es" "es ! s = Some (kb, vb)" "c_str kb = k" "c_str vb = v"
      using "3.prems" "3.IH" by auto
    then show ?thesis by (intro exI [of _ "Suc s"]) auto
  qed
qed simp

lemma slots_map_Some:
  assumes "table_ok E" and "s < length E" and "E ! s = Some (k, v)"
  shows "slots_map E (c_str k) = Some (c_str v)"
proof -
  have "slots_map E (c_str k) \<noteq> None"
    using assms(2,3) slots_map_None [of E "c_str k"] by blast
  then obtain v' where v': "slots_map E (c_str k) = Some v'" by blast
  then obtain t kb vb where t: "t < length E" "E ! t = Some (kb, vb)" "c_str kb = c_str k" "c_str vb = v'"
    using slots_map_SomeD by blast
  have "t = s" using assms t unfolding table_ok_def by metis
  with assms t v' show ?thesis by simp
qed

subsection \<open>Probing\<close>

text \<open>The probe loop stops at the first slot of its path that is empty or holds the key.\<close>

definition stops :: "slot list \<Rightarrow> sv \<Rightarrow> nat \<Rightarrow> bool" where
  "stops E key s \<longleftrightarrow> (case E ! s of None \<Rightarrow> True | Some (k, v) \<Rightarrow> c_str k = key)"

lemma strmap_probe_stops:
  assumes "cap_ok (length E)" and "d < length E" and "i \<le> d"
    and "stops E key ((h + d) mod length E)"
    and "\<forall>j. i \<le> j \<and> j < d \<longrightarrow> \<not> stops E key ((h + j) mod length E)"
  shows "strmap_probe E (length E) key h i = Some ((h + d) mod length E)"
  using assms(3,5)
proof (induction "d - i" arbitrary: i)
  case 0
  then have "i = d" by simp
  then show ?case
    using assms(1,2,4)
    by (subst strmap_probe.simps)
      (auto simp: Let_def and_cap stops_def key_matches_iff simp del: One_nat_def split: option.splits)
next
  case (Suc x)
  then have i: "i < d" and x: "x = d - Suc i" by simp_all
  have "strmap_probe E (length E) key h (i + 1) = Some ((h + d) mod length E)"
    using Suc.hyps(1) [OF x] Suc.prems i by simp
  moreover have "\<not> stops E key ((h + i) mod length E)" using Suc.prems(2) i by blast
  ultimately show ?case
    using assms(1,2) i
    by (subst strmap_probe.simps)
      (auto simp: Let_def and_cap stops_def key_matches_iff simp del: One_nat_def split: option.splits)
qed

lemma strmap_free_slot_stops:
  assumes "cap_ok (length E)" and "E ! ((h + d) mod length E) = None"
    and "\<forall>j < d. E ! ((h + j) mod length E) \<noteq> None"
  shows "strmap_free_slot E (length E) (h mod length E) = Some ((h + d) mod length E)"
  using assms(2,3)
proof (induction d arbitrary: h)
  case 0
  then show ?case by (subst strmap_free_slot.simps) simp
next
  case (Suc d)
  have "strmap_free_slot E (length E) ((h + 1) mod length E) = Some ((h + 1 + d) mod length E)"
    using Suc.prems by (intro Suc.IH) (auto dest: spec [of _ "Suc _"])
  moreover have "E ! (h mod length E) \<noteq> None" using Suc.prems(2) by (metis add_0_right zero_less_Suc)
  moreover have "(h mod length E + 1) AND (length E - 1) = (h + 1) mod length E"
    using step_mod [OF assms(1), of h 0] by simp
  ultimately show ?case by (subst strmap_free_slot.simps) auto
qed

lemma strmap_find_stops:
  assumes "cap_ok (length E)" and "stops E key ((h + d) mod length E)"
    and "\<forall>j < d. \<not> stops E key ((h + j) mod length E)"
  shows "strmap_find E (length E) key (h mod length E) = Some ((h + d) mod length E)"
  using assms(2,3)
proof (induction d arbitrary: h)
  case 0
  then show ?case
    by (subst strmap_find.simps) (auto simp: stops_def key_matches_iff split: option.splits)
next
  case (Suc d)
  have "strmap_find E (length E) key ((h + 1) mod length E) = Some ((h + 1 + d) mod length E)"
    using Suc.prems by (intro Suc.IH) (auto dest: spec [of _ "Suc _"])
  moreover have "\<not> stops E key (h mod length E)" using Suc.prems(2) by (metis add_0_right zero_less_Suc)
  moreover have "(h mod length E + 1) AND (length E - 1) = (h + 1) mod length E"
    using step_mod [OF assms(1), of h 0] by simp
  ultimately show ?case
    by (subst strmap_find.simps) (auto simp: stops_def key_matches_iff split: option.splits)
qed

text \<open>
  Where a probe for a key from its home slot ends, on a well-formed table with a free slot: at
  distance \<open>d\<close>, after slots that hold other keys. If the slot is empty the key is not stored.
\<close>

lemma probe_end:
  assumes n: "cap_ok (length E)" and ok: "table_ok E" and free: "used E < length E"
  obtains d where "d < length E" and "stops E key ((home E key + d) mod length E)"
    and "\<forall>j < d. \<not> stops E key ((home E key + j) mod length E)"
    and "E ! ((home E key + d) mod length E) = None \<Longrightarrow> slots_map E key = None"
proof -
  let ?h = "home E key" and ?n = "length E"
  have h: "?h < ?n" using strmap_idx_less [OF n] by (simp add: home_def)
  obtain s where s: "s < ?n" "E ! s = None" using ex_empty [OF free] by blast
  obtain d0 where "d0 < ?n" "s = (?h + d0) mod ?n" using path_covers [OF h s(1)] by blast
  then have ex: "stops E key ((?h + d0) mod ?n)" using s by (simp add: stops_def)
  define d where "d = (LEAST d. stops E key ((?h + d) mod ?n))"
  have stop: "stops E key ((?h + d) mod ?n)" unfolding d_def by (rule LeastI) (fact ex)
  have least: "\<forall>j < d. \<not> stops E key ((?h + j) mod ?n)" unfolding d_def using not_less_Least by blast
  have "d \<le> d0" unfolding d_def by (rule Least_le) (fact ex)
  with \<open>d0 < ?n\<close> have "d < ?n" by simp
  moreover have "slots_map E key = None" if empty: "E ! ((?h + d) mod ?n) = None"
  proof (rule ccontr)
    assume "slots_map E key \<noteq> None"
    then obtain t k v where t: "t < ?n" "E ! t = Some (k, v)" "c_str k = key"
      using slots_map_SomeD by blast
    have "reachable_from E ?h t" using table_ok_reach [OF ok t(1,2)] t(3) by simp
    then obtain e where e: "t = (?h + e) mod ?n" "\<forall>j \<le> e. E ! ((?h + j) mod ?n) \<noteq> None"
      unfolding reachable_from_def by blast
    have "stops E key ((?h + e) mod ?n)" using t e by (simp add: stops_def)
    then have "d \<le> e" using least by (meson not_less)
    with e empty show False by blast
  qed
  ultimately show ?thesis by (intro that [OF _ stop least]) simp_all
qed

lemma home_mod: "cap_ok (length E) \<Longrightarrow> home E key mod length E = home E key"
  using strmap_idx_less by (simp add: home_def)

lemma strmap_get_abs:
  assumes "strmap_inv m"
  shows "strmap_get m key = strmap_abs m key"
proof (cases "sm_capacity m = 0")
  case True
  then show ?thesis using assms by (simp add: strmap_get_def strmap_abs_def strmap_inv_def)
next
  case False
  let ?E = "sm_entries m"
  have n: "cap_ok (length ?E)" and ok: "table_ok ?E" and free: "used ?E < length ?E"
    using assms False cap_ok_pos [of "length ?E"] by (auto simp: strmap_inv_def)
  obtain d where d: "d < length ?E" "stops ?E key ((home ?E key + d) mod length ?E)"
      "\<forall>j < d. \<not> stops ?E key ((home ?E key + j) mod length ?E)"
      "?E ! ((home ?E key + d) mod length ?E) = None \<Longrightarrow> slots_map ?E key = None"
    using probe_end [OF n ok free, of key thesis] by blast
  let ?s = "(home ?E key + d) mod length ?E"
  have p: "strmap_probe ?E (length ?E) key (home ?E key) 0 = Some ?s"
    using strmap_probe_stops [OF n d(1) _ d(2)] d(3) by simp
  have c: "sm_capacity m = length ?E" using assms by (simp add: strmap_inv_def)
  have s: "?s < length ?E" using cap_ok_pos [OF n] by simp
  show ?thesis
  proof (cases "?E ! ?s")
    case None
    then show ?thesis using False p d(4) by (simp add: strmap_get_def strmap_abs_def c home_def)
  next
    case (Some e)
    obtain k v where e: "e = (k, v)" by (cases e)
    have "c_str k = key" using d(2) Some e by (simp add: stops_def)
    then show ?thesis
      using False p Some e slots_map_Some [OF ok s] by (simp add: strmap_get_def strmap_abs_def c home_def)
  qed
qed

subsection \<open>Filling, overwriting and clearing slots\<close>

lemma slots_map_iff:
  "table_ok E \<Longrightarrow> slots_map E q = Some w \<longleftrightarrow>
     (\<exists>s < length E. \<exists>k v. E ! s = Some (k, v) \<and> c_str k = q \<and> c_str v = w)"
  using slots_map_SomeD slots_map_Some by blast

lemma slots_map_eqI:
  assumes "\<And>q w. slots_map E q = Some w \<longleftrightarrow> f q = Some w"
  shows "slots_map E = f"
proof
  fix q
  show "slots_map E q = f q"
    using assms [of q] by (metis not_None_eq)
qed

lemma reachable_from_mono:
  assumes "reachable_from E h s" and "length E' = length E"
    and "\<And>t. E ! t \<noteq> None \<Longrightarrow> E' ! t \<noteq> None"
  shows "reachable_from E' h s"
proof -
  obtain d where d: "s = (h + d) mod length E" "\<forall>j \<le> d. E ! ((h + j) mod length E) \<noteq> None"
    using assms(1) unfolding reachable_from_def by blast
  show ?thesis
    unfolding reachable_from_def assms(2) using d assms(3) by (intro exI [of _ d]) simp
qed

lemma home_update [simp]: "home (E[s := x]) = home E"
  by (simp add: home_def fun_eq_iff)

lemma fill_table:
  assumes ok: "table_ok E" and s: "s < length E" "E ! s = None"
    and at: "s = (home E key + d) mod length E"
    and before: "\<forall>j < d. E ! ((home E key + j) mod length E) \<noteq> None"
    and new: "slots_map E key = None" and k: "c_str k = key"
  shows "table_ok (E[s := Some (k, v)])"
    and "slots_map (E[s := Some (k, v)]) = (slots_map E)(key \<mapsto> c_str v)"
proof -
  let ?E = "E[s := Some (k, v)]"
  have nth: "?E ! t = (if t = s then Some (k, v) else E ! t)" if "t < length E" for t
    using that s by simp
  have grows: "?E ! t \<noteq> None" if "E ! t \<noteq> None" for t
    using that s by (metis nth_list_update_eq nth_list_update_neq option.distinct(1))
  have other: "c_str k' \<noteq> key" if "t < length E" "E ! t = Some (k', v')" for t k' v'
    using new that unfolding slots_map_None by blast
  have here: "reachable_from ?E (home E key) s"
    unfolding reachable_from_def
  proof (intro exI conjI allI impI)
    show "s = (home E key + d) mod length ?E" using at by simp
    fix j assume "j \<le> d"
    then show "?E ! ((home E key + j) mod length ?E) \<noteq> None"
      using before grows at nth [OF s(1)] by (cases "j = d") auto
  qed
  show ok': "table_ok ?E"
    unfolding table_ok_def
  proof (intro conjI allI impI)
    fix t k' v' assume t: "t < length ?E" "?E ! t = Some (k', v')"
    show "reachable_from ?E (home ?E (c_str k')) t"
    proof (cases "t = s")
      case True
      then show ?thesis using here t s k by simp
    next
      case False
      then have "E ! t = Some (k', v')" using t by simp
      then have "reachable_from E (home E (c_str k')) t" using table_ok_reach [OF ok] t by simp
      then show ?thesis unfolding home_update by (rule reachable_from_mono) (simp, rule grows)
    qed
  next
    fix t u k1 v1 k2 v2
    assume "t < length ?E" "u < length ?E" "?E ! t = Some (k1, v1)" "?E ! u = Some (k2, v2)"
      and "c_str k1 = c_str k2"
    then show "t = u"
      using nth other k table_ok_unique [OF ok] by (auto split: if_splits)
  qed
  show "slots_map ?E = (slots_map E)(key \<mapsto> c_str v)"
  proof (rule slots_map_eqI)
    fix q w
    show "slots_map ?E q = Some w \<longleftrightarrow> ((slots_map E)(key \<mapsto> c_str v)) q = Some w"
    proof (cases "q = key")
      case True
      then show ?thesis using slots_map_Some [OF ok', of s k v] s k by simp
    next
      case False
      then have "slots_map ?E q = Some w \<longleftrightarrow> slots_map E q = Some w"
        using nth k s unfolding slots_map_iff [OF ok] slots_map_iff [OF ok'] by (metis length_list_update option.inject prod.inject option.distinct(1))
      with False show ?thesis by simp
    qed
  qed
qed

lemma overwrite_table:
  assumes ok: "table_ok E" and s: "s < length E" "E ! s = Some (k, v)"
  shows "table_ok (E[s := Some (k, v')])"
    and "slots_map (E[s := Some (k, v')]) = (slots_map E)(c_str k \<mapsto> c_str v')"
proof -
  let ?E = "E[s := Some (k, v')]"
  have nth: "?E ! t = (if t = s then Some (k, v') else E ! t)" if "t < length E" for t
    using that s by simp
  have shape: "?E ! t \<noteq> None" if "E ! t \<noteq> None" for t
    using that s by (metis nth_list_update_eq nth_list_update_neq option.distinct(1))
  have keys: "\<exists>w. E ! t = Some (q, w)" if "t < length E" "?E ! t = Some (q, w')" for t q w'
    using that nth s by (auto split: if_splits)
  show ok': "table_ok ?E"
    unfolding table_ok_def
  proof (intro conjI allI impI)
    fix t q w assume t: "t < length ?E" "?E ! t = Some (q, w)"
    then have "reachable_from E (home E (c_str q)) t" using keys table_ok_reach [OF ok] by fastforce
    then show "reachable_from ?E (home ?E (c_str q)) t"
      unfolding home_update by (rule reachable_from_mono) (simp, rule shape)
  next
    fix t u k1 v1 k2 v2
    assume "t < length ?E" "u < length ?E" "?E ! t = Some (k1, v1)" "?E ! u = Some (k2, v2)"
      and "c_str k1 = c_str k2"
    then show "t = u" using keys table_ok_unique [OF ok] by (metis length_list_update)
  qed
  show "slots_map ?E = (slots_map E)(c_str k \<mapsto> c_str v')"
  proof (rule slots_map_eqI)
    fix q w
    show "slots_map ?E q = Some w \<longleftrightarrow> ((slots_map E)(c_str k \<mapsto> c_str v')) q = Some w"
    proof (cases "q = c_str k")
      case True
      then show ?thesis using slots_map_Some [OF ok', of s k v'] s by simp
    next
      case False
      then have "slots_map ?E q = Some w \<longleftrightarrow> slots_map E q = Some w"
        using nth s unfolding slots_map_iff [OF ok] slots_map_iff [OF ok'] by (metis length_list_update option.inject prod.inject)
      with False show ?thesis by simp
    qed
  qed
qed

subsection \<open>Growing\<close>

fun uniq_keys :: "slot list \<Rightarrow> bool" where
  "uniq_keys [] = True"
| "uniq_keys (None # es) = uniq_keys es"
| "uniq_keys (Some (k, v) # es) = (slots_map es (c_str k) = None \<and> uniq_keys es)"

lemma uniq_keysI:
  "(\<And>s t k v k' v'. s < length E \<Longrightarrow> t < length E \<Longrightarrow> E ! s = Some (k, v) \<Longrightarrow> E ! t = Some (k', v')
     \<Longrightarrow> c_str k = c_str k' \<Longrightarrow> s = t) \<Longrightarrow> uniq_keys E"
proof (induction E rule: uniq_keys.induct)
  case (2 es)
  have "uniq_keys es"
    using "2.prems" [of "Suc _" "Suc _"] by (intro "2.IH") simp
  then show ?case by simp
next
  case (3 k v es)
  have "uniq_keys es"
    using "3.prems" [of "Suc _" "Suc _"] by (intro "3.IH") simp
  moreover have "slots_map es (c_str k) = None"
    using "3.prems" [of 0 "Suc _"] by (force simp: slots_map_None)
  ultimately show ?case by simp
qed simp

lemma table_ok_uniq_keys: "table_ok E \<Longrightarrow> uniq_keys E"
  by (rule uniq_keysI) (rule table_ok_unique)

lemma probe_end_new:
  assumes n: "cap_ok (length E)" and ok: "table_ok E" and free: "used E < length E"
    and new: "slots_map E key = None"
  obtains d where "d < length E" and "E ! ((home E key + d) mod length E) = None"
    and "\<forall>j < d. E ! ((home E key + j) mod length E) \<noteq> None"
proof -
  obtain d where d: "d < length E" "stops E key ((home E key + d) mod length E)"
      "\<forall>j < d. \<not> stops E key ((home E key + j) mod length E)"
    using probe_end [OF n ok free, of key thesis] by blast
  have "(home E key + d) mod length E < length E" using cap_ok_pos [OF n] by simp
  with d(2) new have "E ! ((home E key + d) mod length E) = None"
    unfolding stops_def slots_map_None by (auto split: option.splits)
  moreover have "\<forall>j < d. E ! ((home E key + j) mod length E) \<noteq> None"
    using d(3) by (auto simp: stops_def split: option.splits)
  ultimately show ?thesis by (rule that [OF d(1)])
qed

lemma strmap_rehash_ok:
  assumes "cap_ok (length E)" and "table_ok E" and "uniq_keys es"
    and "used E + used es < length E" and "dom (slots_map E) \<inter> dom (slots_map es) = {}"
  shows "\<exists>E'. strmap_rehash E (length E) es = Some E' \<and> length E' = length E \<and> table_ok E'
     \<and> used E' = used E + used es \<and> slots_map E' = slots_map E ++ slots_map es"
  using assms
proof (induction E "length E" es rule: strmap_rehash.induct)
  case (1 E)
  then show ?case by (simp add: used_def)
next
  case (2 E es)
  then show ?case by (simp add: used_def)
next
  case (3 E k v es)
  let ?key = "c_str k"
  have new: "slots_map E ?key = None" using "3.prems"(5) by auto
  have free: "used E < length E" using "3.prems"(4) by simp
  obtain d where d: "E ! ((home E ?key + d) mod length E) = None"
      "\<forall>j < d. E ! ((home E ?key + j) mod length E) \<noteq> None"
    using probe_end_new [OF "3.prems"(1,2) free new] by blast
  let ?s = "(home E ?key + d) mod length E"
  let ?E = "E[?s := Some (k, v)]"
  have s: "?s < length E" using cap_ok_pos [OF "3.prems"(1)] by simp
  have slot: "strmap_free_slot E (length E) (strmap_idx ?key (length E)) = Some ?s"
    using strmap_free_slot_stops [OF "3.prems"(1) d] home_mod [OF "3.prems"(1)] by (simp add: home_def)
  have ok: "table_ok ?E" and map: "slots_map ?E = (slots_map E)(?key \<mapsto> c_str v)"
    by (rule fill_table [OF "3.prems"(2) s d(1) refl d(2) new refl])+
  have u: "used ?E = Suc (used E)" by (rule used_update_fill [OF s d(1)])
  have notin: "slots_map es ?key = None" and uq: "uniq_keys es" using "3.prems"(3) by auto
  have ues: "used (Some (k, v) # es) = Suc (used es)" by (simp add: used_def)
  have "\<exists>E'. strmap_rehash ?E (length ?E) es = Some E' \<and> length E' = length ?E \<and> table_ok E'
     \<and> used E' = used ?E + used es \<and> slots_map E' = slots_map ?E ++ slots_map es"
  proof (rule "3.hyps" [OF slot])
    show "length E = length ?E" by simp
    show "cap_ok (length ?E)" using "3.prems"(1) by simp
    show "used ?E + used es < length ?E" using "3.prems"(4) u ues by simp
    show "dom (slots_map ?E) \<inter> dom (slots_map es) = {}" using "3.prems"(5) notin map by auto
  qed (fact ok, fact uq)
  then show ?case
    using slot u ues map notin by (auto simp: map_add_upd_left domIff)
qed

lemma table_ok_empty [simp]: "table_ok (replicate n None)"
  by (simp add: table_ok_def)

lemma slots_map_empty [simp]: "slots_map (replicate n None) = Map.empty"
  by (induction n) auto

lemma used_empty [simp]: "used (replicate n None) = 0"
  by (simp add: used_def)

lemma strmap_grow_ok:
  assumes "strmap_inv m"
  shows "\<exists>m'. strmap_grow m = Some m' \<and> strmap_inv m' \<and> strmap_abs m' = strmap_abs m
     \<and> 2 * sm_count m' < sm_capacity m' \<and> 0 < sm_capacity m'"
proof -
  let ?n = "if sm_capacity m \<noteq> 0 then sm_capacity m * 2 else 16"
  let ?N = "replicate ?n (None :: slot)"
  have n: "cap_ok ?n" and bound: "2 * sm_count m < ?n"
    using assms cap_ok_double cap_ok_16 by (auto simp: strmap_inv_def)
  have c: "sm_count m = used (sm_entries m)" and ok: "table_ok (sm_entries m)"
    using assms by (auto simp: strmap_inv_def)
  obtain E' where E': "strmap_rehash ?N (length ?N) (sm_entries m) = Some E'" "length E' = length ?N"
      "table_ok E'" "used E' = used ?N + used (sm_entries m)" "slots_map E' = slots_map ?N ++ slots_map (sm_entries m)"
    using strmap_rehash_ok [of ?N "sm_entries m"] n bound c table_ok_uniq_keys [OF ok] by auto
  let ?m = "m\<lparr>sm_entries := E', sm_capacity := ?n\<rparr>"
  have "strmap_grow m = Some ?m"
    using E'(1) by (simp add: strmap_grow_def Let_def)
  moreover have "strmap_inv ?m"
    using E' n bound c by (simp add: strmap_inv_def)
  ultimately show ?thesis
    using E' n bound cap_ok_pos [OF n] by (auto simp: strmap_abs_def)
qed

subsection \<open>Setting\<close>

lemma strmap_set_ok:
  assumes inv: "strmap_inv m" and key: "NUL \<notin> set key"
  shows "\<exists>m'. strmap_set m key v = Some (0, m') \<and> strmap_inv m'
     \<and> strmap_abs m' = (strmap_abs m)(key \<mapsto> c_str v)"
proof -
  obtain m1 where m1: "(if sm_capacity m = 0 \<or> sm_count m * 2 \<ge> sm_capacity m then strmap_grow m else Some m) = Some m1"
      and i1: "strmap_inv m1" and a1: "strmap_abs m1 = strmap_abs m"
      and c1: "2 * sm_count m1 < sm_capacity m1" and p1: "0 < sm_capacity m1"
    using strmap_grow_ok [OF inv] inv by (cases "sm_capacity m = 0 \<or> sm_count m * 2 \<ge> sm_capacity m") auto
  let ?E = "sm_entries m1"
  have n: "cap_ok (length ?E)" and cap: "sm_capacity m1 = length ?E" and ok: "table_ok ?E"
    and cnt: "sm_count m1 = used ?E" and free: "used ?E < length ?E"
    using i1 c1 p1 by (auto simp: strmap_inv_def)
  obtain d where d: "d < length ?E" "stops ?E key ((home ?E key + d) mod length ?E)"
      "\<forall>j < d. \<not> stops ?E key ((home ?E key + j) mod length ?E)"
      "?E ! ((home ?E key + d) mod length ?E) = None \<Longrightarrow> slots_map ?E key = None"
    using probe_end [OF n ok free, of key thesis] by blast
  let ?s = "(home ?E key + d) mod length ?E"
  have s: "?s < length ?E" using cap_ok_pos [OF n] by simp
  have p: "strmap_probe ?E (sm_capacity m1) key (strmap_idx key (sm_capacity m1)) 0 = Some ?s"
    using strmap_probe_stops [OF n d(1) _ d(2)] d(3) by (simp add: cap home_def)
  have cs: "c_str (dup_own v) = c_str v" "c_str (dup_own key) = key"
    using key by (auto simp: dup_own_def c_str_append_NUL) (simp add: c_str_def takeWhile_tail)
  show ?thesis
  proof (cases "?E ! ?s")
    case None
    have before: "\<forall>j < d. ?E ! ((home ?E key + j) mod length ?E) \<noteq> None"
      using d(3) by (auto simp: stops_def split: option.splits)
    let ?F = "?E[?s := Some (dup_own key, dup_own v)]"
    have f: "table_ok ?F" "slots_map ?F = (slots_map ?E)(key \<mapsto> c_str (dup_own v))"
      by (rule fill_table [OF ok s None refl before d(4) [OF None] cs(2)])+
    have "used ?F = Suc (used ?E)" by (rule used_update_fill [OF s None])
    then have "strmap_inv (m1\<lparr>sm_entries := ?F, sm_count := sm_count m1 + 1\<rparr>)"
      using i1 c1 f(1) cap cap_ok_pos [OF n] cnt by (auto simp: strmap_inv_def elim!: evenE)
    then show ?thesis
      using m1 p None f(2) a1 cs by (simp add: strmap_set_def strmap_abs_def)
  next
    case (Some e)
    obtain k w where e: "e = (k, w)" by (cases e)
    then have sk: "?E ! ?s = Some (k, w)" using Some by simp
    have k: "c_str k = key" using d(2) sk by (simp add: stops_def)
    let ?F = "?E[?s := Some (k, dup_own v)]"
    have f: "table_ok ?F" "slots_map ?F = (slots_map ?E)(c_str k \<mapsto> c_str (dup_own v))"
      by (rule overwrite_table [OF ok s sk])+
    have "used ?F = used ?E" by (rule used_update_keep [OF s]) (simp add: sk)
    then have "strmap_inv (m1\<lparr>sm_entries := ?F\<rparr>)"
      using i1 f(1) by (simp add: strmap_inv_def)
    then show ?thesis
      using m1 p sk f(2) a1 cs k by (simp add: strmap_set_def strmap_abs_def)
  qed
qed

subsection \<open>Deleting\<close>

lemma mod_path_neq: "0 < j \<Longrightarrow> j < n \<Longrightarrow> (p + j) mod n \<noteq> p mod (n::nat)"
proof
  assume j: "0 < j" "j < n" and "(p + j) mod n = p mod n"
  then have "j mod n = 0" by (metis add_diff_cancel_left' mod_eq_dvd_iff_nat le_add1 dvd_imp_mod_0)
  with j show False by simp
qed

text \<open>Pulling the cluster of length \<open>d\<close> that starts at \<open>p\<close>.\<close>

lemma strmap_pull_ok:
  assumes "cap_ok (length E)" and "d < length E"
    and "E ! ((p + d) mod length E) = None" and "\<forall>j < d. E ! ((p + j) mod length E) \<noteq> None"
  shows "\<exists>E'. strmap_pull E (length E) (p mod length E) held
        = Some (E', held @ map (\<lambda>j. the (E ! ((p + j) mod length E))) [0..<d])
     \<and> length E' = length E \<and> used E' + d = used E
     \<and> (\<forall>t < length E. E' ! t = (if \<exists>j < d. t = (p + j) mod length E then None else E ! t))"
  using assms
proof (induction d arbitrary: E p held)
  case 0
  then show ?case by (subst strmap_pull.simps) simp
next
  case (Suc d)
  let ?n = "length E" and ?p = "p mod length E"
  let ?F = "E[?p := None]"
  have p: "?p < ?n" using cap_ok_pos [OF Suc.prems(1)] by simp
  obtain e where e: "E ! ?p = Some e"
    using Suc.prems(4) by (metis add_0_right not_None_eq zero_less_Suc)
  have F: "?F ! ((p + Suc j) mod ?n) = E ! ((p + Suc j) mod ?n)" if "j \<le> d" for j
    using mod_path_neq [of "Suc j" ?n p] that Suc.prems(2) by simp
  have nonempty: "\<forall>j < d. E ! ((p + Suc j) mod ?n) \<noteq> None"
    using Suc.prems(4) by (auto dest: spec [of _ "Suc _"])
  have "\<exists>E'. strmap_pull ?F (length ?F) ((p + 1) mod length ?F) (held @ [e])
        = Some (E', (held @ [e]) @ map (\<lambda>j. the (?F ! ((p + 1 + j) mod length ?F))) [0..<d])
     \<and> length E' = length ?F \<and> used E' + d = used ?F
     \<and> (\<forall>t < length ?F. E' ! t = (if \<exists>j < d. t = (p + 1 + j) mod length ?F then None else ?F ! t))"
    using Suc.prems(1-3) F nonempty by (intro Suc.IH) simp_all
  then obtain E' where E': "strmap_pull ?F ?n ((p + 1) mod ?n) (held @ [e])
        = Some (E', held @ e # map (\<lambda>j. the (?F ! ((p + Suc j) mod ?n))) [0..<d])"
     "length E' = ?n" "used E' + d = used ?F"
     "\<forall>t < ?n. E' ! t = (if \<exists>j < d. t = (p + Suc j) mod ?n then None else ?F ! t)"
    by auto
  have "map (\<lambda>j. the (?F ! ((p + Suc j) mod ?n))) [0..<d] = map (\<lambda>j. the (E ! ((p + Suc j) mod ?n))) [0..<d]"
    using F by simp
  then have held: "held @ e # map (\<lambda>j. the (?F ! ((p + Suc j) mod ?n))) [0..<d]
      = held @ map (\<lambda>j. the (E ! ((p + j) mod ?n))) [0..<Suc d]"
    using e by (simp only: upt_conv_Cons [of 0 "Suc d"] map_Suc_upt [symmetric]) (simp add: comp_def)
  have step: "(?p + 1) AND (?n - 1) = (p + 1) mod ?n"
    using step_mod [OF Suc.prems(1), of p 0] by simp
  have "strmap_pull E ?n ?p held = strmap_pull ?F ?n ((p + 1) mod ?n) (held @ [e])"
    by (subst strmap_pull.simps) (simp add: e step del: One_nat_def)
  moreover have "used E' + Suc d = used E"
    using used_update_clear [OF p] e E'(3) by simp
  moreover have "\<forall>t < ?n. E' ! t = (if \<exists>j < Suc d. t = (p + j) mod ?n then None else E ! t)"
  proof (intro allI impI)
    fix t assume t: "t < ?n"
    have "(\<exists>j < Suc d. t = (p + j) mod ?n) \<longleftrightarrow> t = ?p \<or> (\<exists>j < d. t = (p + Suc j) mod ?n)"
      by (auto simp: less_Suc_eq_0_disj)
    then show "E' ! t = (if \<exists>j < Suc d. t = (p + j) mod ?n then None else E ! t)"
      using E'(4) t by (cases "t = ?p") auto
  qed
  ultimately show ?case using E' held by metis
qed

text \<open>
  Clearing a run of used slots up to the next empty one cuts no probe path: a path that enters
  the run cannot leave it again.
\<close>

lemma clear_cluster_ok:
  assumes ok: "table_ok E" and len: "length E' = length E"
    and stop: "E ! ((p + m) mod length E) = None"
    and cleared: "\<forall>t < length E. E' ! t = (if \<exists>j < m. t = (p + j) mod length E then None else E ! t)"
    and pos: "0 < length E"
  shows "table_ok E'"
proof -
  let ?n = "length E"
  have home: "home E' = home E" using len by (simp add: home_def fun_eq_iff)
  have old: "E ! s = Some e" if "s < ?n" "E' ! s = Some e" for s e
    using cleared that by (metis option.distinct(1))
  have kept: "\<not> (\<exists>j < m. s = (p + j) mod ?n)" if "s < ?n" "E' ! s = Some e" for s e
    using cleared that by (metis option.distinct(1))
  show ?thesis
    unfolding table_ok_def len
  proof (intro conjI allI impI)
    fix s k v assume s: "s < ?n" "E' ! s = Some (k, v)"
    then have "reachable_from E (home E (c_str k)) s" using old table_ok_reach [OF ok] by blast
    then obtain d where d: "s = (home E (c_str k) + d) mod ?n"
        "\<forall>j \<le> d. E ! ((home E (c_str k) + j) mod ?n) \<noteq> None"
      unfolding reachable_from_def by blast
    let ?h = "home E (c_str k)"
    have "E' ! ((?h + i) mod ?n) \<noteq> None" if i: "i \<le> d" for i
    proof (rule ccontr)
      assume "\<not> E' ! ((?h + i) mod ?n) \<noteq> None"
      then obtain j where j: "j < m" "(?h + i) mod ?n = (p + j) mod ?n"
        using cleared d(2) i pos by (metis mod_less_divisor)
      have shift: "(?h + i + x) mod ?n = (p + j + x) mod ?n" for x
        using j(2) by (metis mod_add_left_eq)
      have "\<not> i + (m - j) \<le> d"
        using d(2) stop shift [of "m - j"] j(1) by (auto simp: add.assoc)
      then have "j + (d - i) < m" using i by simp
      moreover have "s = (p + (j + (d - i))) mod ?n"
        using d(1) shift [of "d - i"] i by (simp add: add.assoc)
      ultimately show False using kept [OF s] by blast
    qed
    then show "reachable_from E' (home E' (c_str k)) s"
      unfolding reachable_from_def home len using d(1) by blast
  next
    fix s t k v k' v'
    assume "s < ?n" "t < ?n" "E' ! s = Some (k, v)" "E' ! t = Some (k', v')" "c_str k = c_str k'"
    then show "s = t" using old table_ok_unique [OF ok] by blast
  qed
qed

text \<open>Inserting the pulled entries again.\<close>

definition upd_all :: "(char list \<rightharpoonup> char list) \<Rightarrow> (char list \<times> char list) list \<Rightarrow> char list \<rightharpoonup> char list" where
  "upd_all f es = foldl (\<lambda>f e. f(c_str (fst e) \<mapsto> c_str (snd e))) f es"

lemma upd_all_simps [simp]:
  "upd_all f [] = f"
  "upd_all f (e # es) = upd_all (f(c_str (fst e) \<mapsto> c_str (snd e))) es"
  by (simp_all add: upd_all_def)

lemma upd_all_other: "(\<And>e. e \<in> set es \<Longrightarrow> c_str (fst e) \<noteq> q) \<Longrightarrow> upd_all f es q = f q"
  by (induction es arbitrary: f) auto

lemma upd_all_hit:
  "\<forall>e \<in> set es. c_str (fst e) = q \<longrightarrow> c_str (snd e) = w \<Longrightarrow> \<exists>e \<in> set es. c_str (fst e) = q
     \<Longrightarrow> upd_all f es q = Some w"
proof (induction es arbitrary: f)
  case (Cons x es)
  show ?case
  proof (cases "\<exists>y \<in> set es. c_str (fst y) = q")
    case True
    then show ?thesis unfolding upd_all_simps using Cons.prems(1) by (intro Cons.IH) simp_all
  next
    case False
    then have "c_str (fst x) = q" "c_str (snd x) = w" using Cons.prems by auto
    then show ?thesis using False by (auto simp: upd_all_other)
  qed
qed simp

lemma strmap_reinsert_ok:
  assumes "strmap_inv m"
  shows "\<exists>m'. strmap_reinsert m es = Some m' \<and> strmap_inv m' \<and> strmap_abs m' = upd_all (strmap_abs m) es"
  using assms
proof (induction es arbitrary: m)
  case (Cons e es)
  obtain m1 where m1: "strmap_set m (c_str (fst e)) (c_str (snd e)) = Some (0, m1)" "strmap_inv m1"
      "strmap_abs m1 = (strmap_abs m)(c_str (fst e) \<mapsto> c_str (c_str (snd e)))"
    using strmap_set_ok [OF Cons.prems] NUL_notin_c_str by blast
  then show ?case using Cons.IH [OF m1(2)] by (simp add: sv_from_cstr_def del: fun_upd_apply)
qed simp

text \<open>What is left after the key and its cluster are taken out, with the entries taken out.\<close>

lemma pulled_upd_all:
  assumes ok: "table_ok E" and ok': "table_ok E'" and len: "length E' = length E"
    and idx: "idx < length E" "E ! idx = Some (k, v)" and m: "0 < m" "m \<le> length E"
    and full: "\<forall>j < m. E ! ((idx + j) mod length E) \<noteq> None"
    and cleared: "\<forall>t < length E. E' ! t = (if \<exists>j < m. t = (idx + j) mod length E then None else E ! t)"
    and held: "held = map (\<lambda>j. the (E ! ((idx + j) mod length E))) [1..<m]"
  shows "upd_all (slots_map E') held = (slots_map E)(c_str k := None)"
proof
  fix q
  let ?n = "length E"
  have at0: "(idx + 0) mod ?n = idx" using idx by simp
  have heldE: "\<exists>t < ?n. t \<noteq> idx \<and> E ! t = Some e \<and> (\<exists>j < m. t = (idx + j) mod ?n)" if e: "e \<in> set held" for e
  proof -
    obtain j where j: "1 \<le> j" "j < m" "e = the (E ! ((idx + j) mod ?n))" using e held by auto
    then have "(idx + j) mod ?n \<noteq> idx" using mod_path_neq [of j ?n idx] m idx by simp
    moreover have "E ! ((idx + j) mod ?n) = Some e" using full j by (metis option.collapse)
    moreover have "(idx + j) mod ?n < ?n" using idx by (intro mod_less_divisor) auto
    ultimately show ?thesis using j by blast
  qed
  have Eheld: "e \<in> set held" if "E ! t = Some e" "t \<noteq> idx" "j < m" "t = (idx + j) mod ?n" for t e j
  proof -
    have "0 < j" using that at0 by (cases j) auto
    then show ?thesis using that held by (auto intro!: image_eqI [of _ _ j])
  qed
  show "upd_all (slots_map E') held q = ((slots_map E)(c_str k := None)) q"
  proof (cases "\<exists>e \<in> set held. c_str (fst e) = q")
    case True
    then obtain e t where e: "e \<in> set held" "c_str (fst e) = q" "t < ?n" "t \<noteq> idx" "E ! t = Some e"
      using heldE by blast
    have same: "c_str (snd e') = c_str (snd e)" if e': "e' \<in> set held" "c_str (fst e') = q" for e'
    proof -
      obtain t' where t': "t' < ?n" "E ! t' = Some e'" using heldE [OF e'(1)] by blast
      have "t' = t"
        using t' e e'(2) by (intro table_ok_unique [OF ok, of _ _ "fst e'" "snd e'" "fst e" "snd e"]) simp_all
      then show ?thesis using t' e by simp
    qed
    have "upd_all (slots_map E') held q = Some (c_str (snd e))"
      using same True by (intro upd_all_hit) auto
    moreover have "slots_map E q = Some (c_str (snd e))"
      using slots_map_Some [OF ok e(3), of "fst e" "snd e"] e by simp
    moreover have "q \<noteq> c_str k"
      using e idx table_ok_unique [OF ok e(3) idx(1), of "fst e" "snd e" k v] by auto
    ultimately show ?thesis by simp
  next
    case False
    then have u: "upd_all (slots_map E') held q = slots_map E' q" by (intro upd_all_other) auto
    have "slots_map E' q = Some w \<longleftrightarrow> ((slots_map E)(c_str k := None)) q = Some w" for w
    proof
      assume "slots_map E' q = Some w"
      then obtain t kt vt where t: "t < ?n" "E' ! t = Some (kt, vt)" "c_str kt = q" "c_str vt = w"
        using slots_map_iff [OF ok'] len by auto
      then have E: "E ! t = Some (kt, vt)" and "t \<noteq> idx"
        using cleared at0 m(1) by (metis option.distinct(1))+
      then have "q \<noteq> c_str k" using t idx table_ok_unique [OF ok t(1) idx(1) E] by auto
      then show "((slots_map E)(c_str k := None)) q = Some w" using slots_map_Some [OF ok t(1) E] t by simp
    next
      assume r: "((slots_map E)(c_str k := None)) q = Some w"
      then have q: "q \<noteq> c_str k" and "slots_map E q = Some w" by (auto split: if_splits)
      then obtain t kt vt where t: "t < ?n" "E ! t = Some (kt, vt)" "c_str kt = q" "c_str vt = w"
        using slots_map_iff [OF ok] by auto
      then have "t \<noteq> idx" using idx q by auto
      then have "\<not> (\<exists>j < m. t = (idx + j) mod ?n)" using Eheld t False by (metis fst_conv)
      then have "E' ! t = Some (kt, vt)" using cleared t by simp
      then show "slots_map E' q = Some w" using t len by (auto simp: slots_map_iff [OF ok'])
    qed
    then show ?thesis unfolding u by (metis not_None_eq)
  qed
qed

text \<open>The distance from a used slot to the next empty one.\<close>

lemma cluster_end:
  assumes "used E < length E" and idx: "idx < length E" "E ! idx \<noteq> None"
  obtains b where "Suc b < length E" and "E ! ((idx + Suc b) mod length E) = None"
    and "\<forall>j < Suc b. E ! ((idx + j) mod length E) \<noteq> None"
proof -
  let ?P = "\<lambda>c. E ! ((idx + c) mod length E) = None"
  obtain z where z: "z < length E" "E ! z = None" using ex_empty [OF assms(1)] by blast
  obtain m0 where m0: "m0 < length E" "z = (idx + m0) mod length E"
    using path_covers [OF idx(1) z(1)] by blast
  with z have P0: "?P m0" by simp
  have c0: "?P (Least ?P)" by (rule LeastI) (fact P0)
  have cj: "\<forall>j < Least ?P. \<not> ?P j" using not_less_Least by blast
  have cn: "Least ?P < length E" using Least_le [of ?P, OF P0] m0 by simp
  have "Least ?P \<noteq> 0" using c0 idx by (metis add_0_right mod_less)
  then obtain b where "Least ?P = Suc b" by (meson not0_implies_Suc)
  then show ?thesis using that c0 cj cn by simp
qed

lemma strmap_pull_after_clear:
  assumes n: "cap_ok (length E)" and ok: "table_ok E" and free: "used E < length E"
    and idx: "idx < length E" "E ! idx = Some (k, v)"
  obtains E' held where "strmap_pull (E[idx := None]) (length E) ((idx + 1) AND (length E - 1)) [] = Some (E', held)"
    and "length E' = length E" and "table_ok E'" and "used E' = used E - 1 - length held"
    and "upd_all (slots_map E') held = (slots_map E)(c_str k := None)"
proof -
  let ?n = "length E" and ?F = "E[idx := None]"
  obtain b where b: "Suc b < ?n" "E ! ((idx + Suc b) mod ?n) = None"
      "\<forall>j < Suc b. E ! ((idx + j) mod ?n) \<noteq> None"
    using cluster_end [OF free idx(1)] idx(2) by blast
  have F: "?F ! ((idx + Suc j) mod ?n) = E ! ((idx + Suc j) mod ?n)" if "j \<le> b" for j
    using mod_path_neq [of "Suc j" ?n idx] that b(1) idx by (subst nth_list_update_neq) auto
  have fj: "\<forall>j < b. ?F ! ((idx + 1 + j) mod length ?F) \<noteq> None"
  proof (intro allI impI)
    fix j assume "j < b"
    then show "?F ! ((idx + 1 + j) mod length ?F) \<noteq> None" using F [of j] spec [OF b(3), of "Suc j"] by simp
  qed
  have f0: "?F ! ((idx + 1 + b) mod length ?F) = None" using F [of b] b(2) by simp
  obtain E' where E': "strmap_pull ?F ?n ((idx + 1) mod ?n) []
        = Some (E', map (\<lambda>j. the (?F ! ((idx + 1 + j) mod ?n))) [0..<b])"
      "length E' = ?n" "used E' + b = used ?F"
      "\<forall>t < ?n. E' ! t = (if \<exists>j < b. t = (idx + 1 + j) mod ?n then None else ?F ! t)"
    using strmap_pull_ok [of ?F b "idx + 1" "[]"] n b(1) f0 fj by auto
  define held where "held = map (\<lambda>j. the (E ! ((idx + j) mod ?n))) [1..<Suc b]"
  have "map (\<lambda>j. the (?F ! ((idx + 1 + j) mod ?n))) [0..<b] = map (\<lambda>j. the (E ! ((idx + Suc j) mod ?n))) [0..<b]"
    using F by (intro map_cong) auto
  also have "\<dots> = held"
    unfolding held_def by (simp add: map_Suc_upt [symmetric] comp_def del: upt_Suc)
  finally have held: "map (\<lambda>j. the (?F ! ((idx + 1 + j) mod ?n))) [0..<b] = held" .
  have cleared: "\<forall>t < ?n. E' ! t = (if \<exists>j < Suc b. t = (idx + j) mod ?n then None else E ! t)"
  proof (intro allI impI)
    fix t assume t: "t < ?n"
    have "(\<exists>j < Suc b. t = (idx + j) mod ?n) \<longleftrightarrow> t = idx \<or> (\<exists>j < b. t = (idx + 1 + j) mod ?n)"
      using idx by (auto simp: less_Suc_eq_0_disj)
    then show "E' ! t = (if \<exists>j < Suc b. t = (idx + j) mod ?n then None else E ! t)"
      using E'(4) t by (cases "t = idx") auto
  qed
  have pos: "0 < ?n" using idx(1) by (rule le_less_trans [OF le0])
  have ok': "table_ok E'" by (rule clear_cluster_ok [OF ok E'(2) b(2) cleared pos])
  show ?thesis
  proof (rule that [OF _ E'(2) ok'])
    show "strmap_pull ?F ?n ((idx + 1) AND (?n - 1)) [] = Some (E', held)"
      unfolding and_cap [OF n] using E'(1) held by simp
    show "used E' = used E - 1 - length held"
      using E'(3) used_update_clear [OF idx(1)] idx(2) by (simp add: held_def del: upt_Suc)
    show "upd_all (slots_map E') held = (slots_map E)(c_str k := None)"
      by (rule pulled_upd_all [OF ok ok' E'(2) idx _ less_imp_le [OF b(1)] b(3) cleared held_def]) simp
  qed
qed

lemma strmap_delete_ok:
  assumes inv: "strmap_inv m"
  shows "\<exists>m'. strmap_delete m key = Some m' \<and> strmap_inv m' \<and> strmap_abs m' = (strmap_abs m)(key := None)"
proof (cases "sm_capacity m = 0")
  case True
  then show ?thesis using inv by (auto simp: strmap_delete_def strmap_inv_def strmap_abs_def)
next
  case False
  let ?E = "sm_entries m"
  let ?n = "length ?E"
  have n: "cap_ok ?n" and cap: "sm_capacity m = ?n" and ok: "table_ok ?E"
    and cnt: "sm_count m = used ?E" and free: "used ?E < ?n" and half: "2 * used ?E \<le> ?n"
    using inv False cap_ok_pos [of ?n] by (auto simp: strmap_inv_def)
  obtain d where dn: "d < ?n" and d: "stops ?E key ((home ?E key + d) mod ?n)"
      "\<forall>j < d. \<not> stops ?E key ((home ?E key + j) mod ?n)"
      "?E ! ((home ?E key + d) mod ?n) = None \<Longrightarrow> slots_map ?E key = None"
    using probe_end [OF n ok free, of key thesis] by blast
  let ?idx = "(home ?E key + d) mod ?n"
  have idx: "?idx < ?n" using cap_ok_pos [OF n] by simp
  have find: "strmap_find ?E ?n key (strmap_idx key ?n) = Some ?idx"
    using strmap_find_stops [OF n d(1,2)] home_mod [OF n] by (simp add: home_def)
  show ?thesis
  proof (cases "?E ! ?idx")
    case None
    then have "strmap_delete m key = Some m" using False find by (simp add: strmap_delete_def cap)
    then show ?thesis using inv d(3) [OF None] by (simp add: strmap_abs_def fun_upd_idem)
  next
    case (Some e)
    obtain k v where kv: "?E ! ?idx = Some (k, v)" using Some by (cases e) simp
    have k: "c_str k = key" using d(1) kv by (simp add: stops_def)
    obtain E' held where E': "strmap_pull (?E[?idx := None]) ?n ((?idx + 1) AND (?n - 1)) [] = Some (E', held)"
        "length E' = ?n" "table_ok E'" "used E' = used ?E - 1 - length held"
        "upd_all (slots_map E') held = (slots_map ?E)(c_str k := None)"
      by (rule strmap_pull_after_clear [OF n ok free idx kv])
    let ?m = "m\<lparr>sm_entries := E', sm_count := sm_count m - 1 - length held\<rparr>"
    have inv': "strmap_inv ?m" using inv E' half cap cnt by (auto simp: strmap_inv_def)
    obtain m' where m': "strmap_reinsert ?m held = Some m'" "strmap_inv m'"
        "strmap_abs m' = upd_all (strmap_abs ?m) held"
      using strmap_reinsert_ok [OF inv'] by blast
    have "strmap_delete m key = strmap_reinsert ?m held"
      using False find kv E'(1) by (simp add: strmap_delete_def cap del: One_nat_def)
    then show ?thesis using m' E'(5) k by (simp add: strmap_abs_def)
  qed
qed

subsection \<open>The contract\<close>

text \<open>
  What the clients of \<open>Str_Map\<close> rely on: setting and deleting return, report success, keep the
  invariant and have the effect of a finite map update on what \<open>strmap_get\<close> answers. A key may be
  any byte string the C string functions can see in full (no NUL); values are read back as C
  strings.
\<close>

locale string_map =
  fixes empty :: "'m"
    and get :: "'m \<Rightarrow> char list \<Rightarrow> char list option"
    and set_key :: "'m \<Rightarrow> char list \<Rightarrow> char list \<Rightarrow> (int \<times> 'm) option"
    and del_key :: "'m \<Rightarrow> char list \<Rightarrow> 'm option"
    and inv :: "'m \<Rightarrow> bool"
  assumes inv_empty: "inv empty"
    and get_empty: "get empty k = None"
    and set_key: "inv m \<Longrightarrow> NUL \<notin> set k \<Longrightarrow>
      \<exists>m'. set_key m k v = Some (0, m') \<and> inv m' \<and> get m' = (get m)(k \<mapsto> c_str v)"
    and del_key: "inv m \<Longrightarrow> \<exists>m'. del_key m k = Some m' \<and> inv m' \<and> get m' = (get m)(k := None)"
begin

text \<open>Setting a list of pairs in order, as the parsers of query strings and cookies do.\<close>

fun set_all :: "'m \<Rightarrow> (char list \<times> char list) list \<Rightarrow> 'm option" where
  "set_all m [] = Some m"
| "set_all m ((k, v) # kvs) = Option.bind (set_key m k v) (\<lambda>(rc, m'). set_all m' kvs)"

lemma set_all_ok:
  assumes "inv m" and "\<forall>(k, v) \<in> set kvs. NUL \<notin> set k"
  shows "\<exists>m'. set_all m kvs = Some m' \<and> inv m' \<and> get m' = get m ++ map_of (rev (map (apsnd c_str) kvs))"
  using assms
proof (induction kvs arbitrary: m)
  case (Cons kv kvs)
  obtain k v where kv: "kv = (k, v)" by (cases kv)
  obtain m1 where m1: "set_key m k v = Some (0, m1)" "inv m1" "get m1 = (get m)(k \<mapsto> c_str v)"
    using set_key Cons.prems kv by fastforce
  obtain m2 where m2: "set_all m1 kvs = Some m2" "inv m2"
      "get m2 = get m1 ++ map_of (rev (map (apsnd c_str) kvs))"
    using Cons.IH [OF m1(2)] Cons.prems(2) by auto
  show ?case using m1 m2 kv by (simp add: map_add_assoc [symmetric])
qed simp

end

lemma strmap_inv_init [simp, inv_intros]: "strmap_inv strmap_init"
  by (simp add: strmap_inv_def strmap_init_def table_ok_def used_def)

lemma strmap_abs_init [simp]: "strmap_abs strmap_init = Map.empty"
  by (simp add: strmap_abs_def strmap_init_def)

interpretation sm: string_map strmap_init strmap_get strmap_set strmap_delete strmap_inv
proof unfold_locales
  show "strmap_inv strmap_init" by simp
  show "strmap_get strmap_init k = None" for k by (simp add: strmap_get_abs)
next
  fix m k v assume m: "strmap_inv m" and k: "NUL \<notin> set k"
  have g: "strmap_get m = strmap_abs m" if "strmap_inv m" for m
    using strmap_get_abs [OF that] by blast
  show "\<exists>m'. strmap_set m k v = Some (0, m') \<and> strmap_inv m' \<and> strmap_get m' = (strmap_get m)(k \<mapsto> c_str v)"
    using strmap_set_ok [OF m k, of v] g m by metis
next
  fix m k assume m: "strmap_inv m"
  have g: "strmap_get m = strmap_abs m" if "strmap_inv m" for m
    using strmap_get_abs [OF that] by blast
  show "\<exists>m'. strmap_delete m k = Some m' \<and> strmap_inv m' \<and> strmap_get m' = (strmap_get m)(k := None)"
    using strmap_delete_ok [OF m, of k] g m by metis
qed

subsection \<open>Properties\<close>

text \<open>
  C1: The hash table implements a finite map. On every table the operations can build, setting a
  key terminates, reports success and changes the answer of \<open>strmap_get\<close> for that key only, and
  the table is well formed again (load at most one half, every key reachable from its home
  slot), whether or not the table had to grow.
\<close>

theorem strmap_set_correct:
  assumes "strmap_inv m" and "NUL \<notin> set key"
  shows "\<exists>m'. strmap_set m key value = Some (0, m') \<and> strmap_inv m'
    \<and> strmap_get m' = (strmap_get m)(key \<mapsto> c_str value)"
  using assms by (rule sm.set_key)

theorem strmap_set_correct_witness:
  "\<exists>m'. strmap_set strmap_init ''id'' ''42'' = Some (0, m') \<and> strmap_inv m'
    \<and> strmap_get m' = (strmap_get strmap_init)(''id'' \<mapsto> c_str ''42'')"
  by (rule strmap_set_correct) simp_all

text \<open>
  C2: Deletion. Deleting a key, present or not, terminates, removes that key and no other, and
  keeps the table well formed: no entry that probed across the freed slot becomes unreachable.
\<close>

theorem strmap_delete_correct:
  assumes "strmap_inv m"
  shows "\<exists>m'. strmap_delete m key = Some m' \<and> strmap_inv m' \<and> strmap_get m' = (strmap_get m)(key := None)"
  using assms by (rule sm.del_key)

theorem strmap_delete_correct_witness:
  "\<exists>m m'. strmap_set strmap_init ''id'' ''42'' = Some (0, m) \<and> strmap_get m ''id'' = Some ''42''
    \<and> strmap_delete m ''id'' = Some m' \<and> strmap_get m' ''id'' = None"
proof -
  obtain m where m: "strmap_set strmap_init ''id'' ''42'' = Some (0, m)" "strmap_inv m"
      "strmap_get m = (strmap_get strmap_init)(''id'' \<mapsto> c_str ''42'')"
    using sm.set_key [of strmap_init "''id''" "''42''"] by auto
  obtain m' where "strmap_delete m ''id'' = Some m'" "strmap_get m' = (strmap_get m)(''id'' := None)"
    using strmap_delete_correct [OF m(2), of "''id''"] by blast
  with m show ?thesis by (simp add: c_str_def)
qed

end
