(* ===== verification/Codecs.thy ===== *)
theory Codecs
  imports Views
begin

text \<open>
  The text codecs: \<open>src/utils/url.c\<close> (percent coding), \<open>src/utils/base64.c\<close> and
  \<open>src/security/escape.c\<close> (HTML escaping). Each \<open>_into\<close> function is modelled over the \<open>Strbuf\<close> it
  appends to, next to the pure function that says which bytes it emits; the contract of the
  output buffer (\<open>byte_sink\<close>) connects the two. The properties are the round trips of the two
  codings and the safety of the escaped text.
\<close>

subsection \<open>Percent coding\<close>

definition hexval :: "char \<Rightarrow> int" where
  "hexval c =
     (if 48 \<le> ucode c \<and> ucode c \<le> 57 then int (ucode c) - 48
      else if 97 \<le> ucode c \<and> ucode c \<le> 102 then int (ucode c) - 97 + 10
      else if 65 \<le> ucode c \<and> ucode c \<le> 70 then int (ucode c) - 65 + 10
      else -1)"

text \<open>The loop of \<open>url_decode_into\<close>: return value and the buffer, which keeps what was decoded
  before a malformed escape.\<close>

fun url_decode_into :: "strbuf \<Rightarrow> sv \<Rightarrow> int \<times> strbuf" where
  "url_decode_into sb [] = (0, sb)"
| "url_decode_into sb (c # s) =
     (if c = CHR ''%'' then
        (case s of
           h # l # s' \<Rightarrow>
             let hi = hexval h; lo = hexval l
             in if hi < 0 \<or> lo < 0 then (-1, sb)
                else url_decode_into (strbuf_append_char sb (char_of (nat (hi * 16 + lo)))) s'
         | _ \<Rightarrow> (-1, sb))
      else if c = CHR ''+'' then url_decode_into (strbuf_append_char sb (CHR '' '')) s
      else url_decode_into (strbuf_append_char sb c) s)"

definition unreserved :: "char \<Rightarrow> bool" where
  "unreserved c \<longleftrightarrow>
     (65 \<le> ucode c \<and> ucode c \<le> 90) \<or> (97 \<le> ucode c \<and> ucode c \<le> 122) \<or> (48 \<le> ucode c \<and> ucode c \<le> 57)
     \<or> c = CHR ''-'' \<or> c = CHR ''.'' \<or> c = CHR ''_'' \<or> c = CHR ''~''"

definition HEX :: "char list" where "HEX = ''0123456789ABCDEF''"

definition url_encode_byte :: "strbuf \<Rightarrow> char \<Rightarrow> strbuf" where
  "url_encode_byte sb c =
     (if unreserved c then strbuf_append_char sb c
      else
        strbuf_append_char
          (strbuf_append_char
            (strbuf_append_char sb (CHR ''%''))
            (HEX ! (drop_bit 4 (ucode c) AND 15)))
          (HEX ! (ucode c AND 15)))"

definition url_encode_into :: "strbuf \<Rightarrow> sv \<Rightarrow> strbuf" where
  "url_encode_into sb src = foldl url_encode_byte sb src"

definition url_decode_alloc :: "sv \<Rightarrow> char list option" where
  "url_decode_alloc src =
     (case url_decode_into strbuf_init src of
        (rc, sb) \<Rightarrow> if rc \<noteq> 0 then None else Some (strbuf_cstr (strbuf_null_terminate sb)))"

text \<open>The bytes the two loops emit.\<close>

definition pct :: "char \<Rightarrow> char list" where
  "pct c = (if unreserved c then [c] else [CHR ''%'', HEX ! (ucode c div 16), HEX ! (ucode c mod 16)])"

definition url_encode :: "sv \<Rightarrow> char list" where
  "url_encode src = concat (map pct src)"

lemma low_nibble: "(n::nat) AND 15 = n mod 16"
  using and_mask_nat [of n 4] by simp

lemma writes_url_encode: "sb.writes (\<lambda>b. url_encode_into b src) (url_encode src)"
proof -
  have "sb.writes (\<lambda>b. url_encode_byte b c) (pct c)" for c
  proof (cases "unreserved c")
    case True
    then show ?thesis using writes_append_char by (simp add: url_encode_byte_def pct_def)
  next
    case False
    have "ucode c div 16 mod 16 = ucode c div 16"
      using ucode_less [of c] by (simp add: less_mult_imp_div_less)
    then have "HEX ! (drop_bit 4 (ucode c) AND 15) = HEX ! (ucode c div 16)"
      "HEX ! (ucode c AND 15) = HEX ! (ucode c mod 16)"
      by (simp_all add: low_nibble drop_bit_eq_div)
    then show ?thesis
      using False sb.writes_seq [OF sb.writes_seq [OF writes_append_char writes_append_char] writes_append_char,
          of "CHR ''%''" "HEX ! (ucode c div 16)" "HEX ! (ucode c mod 16)"]
      by (simp add: url_encode_byte_def pct_def)
  qed
  then show ?thesis unfolding url_encode_into_def url_encode_def by (rule sb.writes_loop)
qed

lemma length_HEX: "length HEX = 16"
  by (simp add: HEX_def)

lemma hexval_HEX: "n < 16 \<Longrightarrow> hexval (HEX ! n) = int n"
proof -
  have "map hexval HEX = map int [0..<16]" by code_simp
  then show "n < 16 \<Longrightarrow> ?thesis"
    by (metis length_HEX nth_map nth_upt add_0 diff_zero length_upt)
qed

lemma unreserved_HEX: "n < 16 \<Longrightarrow> unreserved (HEX ! n)"
proof -
  have "list_all unreserved HEX" by code_simp
  then show "n < 16 \<Longrightarrow> ?thesis" by (simp add: list_all_length length_HEX)
qed

lemma unreserved_plain: "unreserved c \<Longrightarrow> c \<noteq> CHR ''%'' \<and> c \<noteq> CHR ''+''"
  by (auto simp: unreserved_def)

lemma pct_div_mod: "ucode c div 16 < 16" "char_of (ucode c div 16 * 16 + ucode c mod 16) = c"
  using ucode_less [of c] by (auto simp: less_mult_imp_div_less)

lemma url_decode_pct:
  "url_decode_into sb (pct c @ s) = url_decode_into (strbuf_append_char sb c) s"
proof (cases "unreserved c")
  case True
  then show ?thesis using unreserved_plain by (simp add: pct_def)
next
  case False
  have "nat (int (ucode c div 16) * 16 + int (ucode c mod 16)) = ucode c div 16 * 16 + ucode c mod 16"
    by (metis nat_int of_nat_add of_nat_mult of_nat_numeral)
  then show ?thesis
    using False pct_div_mod [of c] by (simp add: pct_def hexval_HEX Let_def)
qed

lemma url_decode_encode:
  "url_decode_into sb (url_encode src) = (0, foldl strbuf_append_char sb src)"
  by (induction src arbitrary: sb) (simp_all add: url_encode_def url_decode_pct)

lemma writes_append_chars: "sb.writes (\<lambda>b. foldl strbuf_append_char b s) s"
  using sb.writes_loop [of s strbuf_append_char "\<lambda>c. [c]"] writes_append_char by simp

lemma url_encode_safe: "x \<in> set (url_encode src) \<Longrightarrow> unreserved x \<or> x = CHR ''%''"
  using pct_div_mod by (auto simp: url_encode_def pct_def unreserved_HEX split: if_splits)

lemma url_decode_keeps_inv: "strbuf_inv sb \<Longrightarrow> strbuf_inv (snd (url_decode_into sb s))"
  by (induction sb s rule: url_decode_into.induct)
    (auto simp: strbuf_append_char_inv Let_def split: list.splits)

subsection \<open>Base64\<close>

definition B64 :: "char list" where
  "B64 = ''ABCDEFGHIJKLMNOPQRSTUVWXYZabcdefghijklmnopqrstuvwxyz0123456789+/''"

definition b64val :: "char \<Rightarrow> int" where
  "b64val c =
     (if 65 \<le> ucode c \<and> ucode c \<le> 90 then int (ucode c) - 65
      else if 97 \<le> ucode c \<and> ucode c \<le> 122 then int (ucode c) - 97 + 26
      else if 48 \<le> ucode c \<and> ucode c \<le> 57 then int (ucode c) - 48 + 52
      else if c = CHR ''+'' then 62
      else if c = CHR ''/'' then 63
      else -1)"

definition b64_at :: "nat \<Rightarrow> nat \<Rightarrow> char" where
  "b64_at v k = B64 ! (drop_bit k v AND 63)"

text \<open>
  \<open>(uint32_t)d.data[i]\<close> without the cast to \<open>unsigned char\<close>, as the branch for one left-over
  byte has it: a negative \<open>char\<close> is extended with its sign.
\<close>

definition sext_u32 :: "char \<Rightarrow> nat" where
  "sext_u32 c = (if ucode c < 128 then ucode c else ucode c + (2 ^ 32 - 256))"

fun base64_encode_into :: "strbuf \<Rightarrow> sv \<Rightarrow> strbuf" where
  "base64_encode_into sb (a # b # c # d) =
     (let v = push_bit 16 (ucode a) OR push_bit 8 (ucode b) OR ucode c
      in base64_encode_into (strbuf_append sb [b64_at v 18, b64_at v 12, b64_at v 6, b64_at v 0]) d)"
| "base64_encode_into sb [a] =
     (let v = take_bit 32 (push_bit 16 (sext_u32 a))
      in strbuf_append sb [b64_at v 18, b64_at v 12, CHR ''='', CHR ''=''])"
| "base64_encode_into sb [a, b] =
     (let v = push_bit 16 (ucode a) OR push_bit 8 (ucode b)
      in strbuf_append sb [b64_at v 18, b64_at v 12, b64_at v 6, CHR ''=''])"
| "base64_encode_into sb [] = sb"

function b64_end :: "sv \<Rightarrow> nat \<Rightarrow> nat" where
  "b64_end s end = (if end > 0 \<and> s ! (end - 1) = CHR ''='' then b64_end s (end - 1) else end)"
  by pat_completeness auto
termination
  by (relation "measure snd") auto

declare b64_end.simps [simp del]

text \<open>The decoding loop over the characters before the padding; \<open>acc\<close> is a \<open>uint32_t\<close>.\<close>

fun b64_loop :: "strbuf \<Rightarrow> nat \<Rightarrow> nat \<Rightarrow> sv \<Rightarrow> (strbuf \<times> nat \<times> nat) option \<times> strbuf" where
  "b64_loop sb acc bits [] = (Some (sb, acc, bits), sb)"
| "b64_loop sb acc bits (c # s) =
     (let v = b64val c
      in if v < 0 then (None, sb)
         else
           let acc = take_bit 32 (push_bit 6 acc) OR nat v; bits = bits + 6
           in if bits \<ge> 8
              then let bits = bits - 8
                   in b64_loop (strbuf_append_char sb (char_of (drop_bit bits acc AND 255)))
                        (acc AND (push_bit bits 1 - 1)) bits s
              else b64_loop sb acc bits s)"

definition base64_decode_into :: "strbuf \<Rightarrow> sv \<Rightarrow> int \<times> strbuf" where
  "base64_decode_into sb s =
     (let end = b64_end s (length s)
      in if end mod 4 = 1 then (-1, sb)
         else
           case b64_loop sb 0 0 (take end s) of
             (None, sb') \<Rightarrow> (-1, sb')
           | (Some (_, acc, bits), sb') \<Rightarrow>
               if bits > 0 \<and> acc AND (push_bit bits 1 - 1) \<noteq> 0 then (-1, sb') else (0, sb'))"

text \<open>The groups of four characters that three, two and one bytes are coded as.\<close>

fun base64_encode :: "sv \<Rightarrow> char list" where
  "base64_encode (a # b # c # d) =
     [B64 ! (ucode a div 4), B64 ! (ucode a mod 4 * 16 + ucode b div 16),
      B64 ! (ucode b mod 16 * 4 + ucode c div 64), B64 ! (ucode c mod 64)] @ base64_encode d"
| "base64_encode [a] = [B64 ! (ucode a div 4), B64 ! (ucode a mod 4 * 16), CHR ''='', CHR ''='']"
| "base64_encode [a, b] =
     [B64 ! (ucode a div 4), B64 ! (ucode a mod 4 * 16 + ucode b div 16), B64 ! (ucode b mod 16 * 4), CHR ''='']"
| "base64_encode [] = []"

lemma six_bits: "(n::nat) AND 63 = n mod 64"
  using and_mask_nat [of n 6] by simp

lemma b64_at_eq: "b64_at v k = B64 ! (v div 2 ^ k mod 64)"
  by (simp add: b64_at_def six_bits drop_bit_eq_div)

lemma group_value:
  assumes "b < 256" and "c < 256"
  shows "push_bit 16 a OR push_bit 8 b OR c = a * 65536 + b * 256 + (c::nat)"
proof -
  have inner: "push_bit 8 b OR c = b * 256 + c"
    using push_bit_or_eq_add [of c 8 b] assms(2) by simp
  have "b * 256 + c < 2 ^ 16" using assms by simp
  then show ?thesis
    using push_bit_or_eq_add [of "b * 256 + c" 16 a] inner by (simp add: or.assoc)
qed

text \<open>The four six-bit digits of a 24-bit group.\<close>

lemma group_digits:
  fixes a b c :: nat
  assumes "a < 256" and "b < 256" and "c < 256"
  shows "(a * 65536 + b * 256 + c) div 2 ^ 18 mod 64 = a div 4"
    and "(a * 65536 + b * 256 + c) div 2 ^ 12 mod 64 = a mod 4 * 16 + b div 16"
    and "(a * 65536 + b * 256 + c) div 2 ^ 6 mod 64 = b mod 16 * 4 + c div 64"
    and "(a * 65536 + b * 256 + c) mod 64 = c mod 64"
proof -
  define a1 a0 b1 b0 c1 c0 where
    "a1 = a div 4" and "a0 = a mod 4" and "b1 = b div 16" and "b0 = b mod 16" and "c1 = c div 64" and "c0 = c mod 64"
  have bounds: "a1 < 64" "a0 < 4" "b1 < 16" "b0 < 16" "c1 < 4" "c0 < 64"
    using assms by (auto simp: a1_def a0_def b1_def b0_def c1_def c0_def)
  have parts: "a = a1 * 4 + a0" "b = b1 * 16 + b0" "c = c1 * 64 + c0"
    by (simp_all add: a1_def a0_def b1_def b0_def c1_def c0_def)
  have v: "a * 65536 + b * 256 + c = ((a1 * 64 + (a0 * 16 + b1)) * 64 + (b0 * 4 + c1)) * 64 + c0"
    unfolding parts by simp
  have d: "(x * 64 + y) div 64 = x" "(x * 64 + y) mod 64 = y" if "y < 64" for x y :: nat
    using that by simp_all
  have small: "a0 * 16 + b1 < 64" "b0 * 4 + c1 < 64" using bounds by simp_all
  have p: "(2::nat) ^ 6 = 64" "(2::nat) ^ 12 = 64 * 64" "(2::nat) ^ 18 = 64 * (64 * 64)" by simp_all
  show "(a * 65536 + b * 256 + c) div 2 ^ 18 mod 64 = a div 4"
    and "(a * 65536 + b * 256 + c) div 2 ^ 12 mod 64 = a mod 4 * 16 + b div 16"
    and "(a * 65536 + b * 256 + c) div 2 ^ 6 mod 64 = b mod 16 * 4 + c div 64"
    and "(a * 65536 + b * 256 + c) mod 64 = c mod 64"
    unfolding v p div_mult2_eq d [OF small(1)] d [OF small(2)] d [OF bounds(6)]
    using bounds by (simp_all add: a1_def a0_def b1_def b0_def c1_def c0_def)
qed

lemma sext_digits:
  "take_bit 32 (push_bit 16 (sext_u32 a)) div 2 ^ 18 mod 64 = ucode a div 4"
  "take_bit 32 (push_bit 16 (sext_u32 a)) div 2 ^ 12 mod 64 = ucode a mod 4 * 16"
proof -
  define h :: nat where "h = (if ucode a < 128 then 0 else 255)"
  have u: "ucode a < 256" by simp
  have "push_bit 16 (sext_u32 a) = h * 16777216 + ucode a * 65536 + (if ucode a < 128 then 0 else 65535) * 2 ^ 32"
    by (simp add: sext_u32_def h_def push_bit_eq_mult)
  moreover have "h * 16777216 + ucode a * 65536 < 2 ^ 32" using u by (simp add: h_def)
  ultimately have v: "take_bit 32 (push_bit 16 (sext_u32 a)) = h * 16777216 + ucode a * 65536"
    unfolding take_bit_eq_mod by (metis mod_mult_self1 mod_less)
  have "(h * 16777216 + ucode a * 65536) div 2 ^ 18 = h * 64 + ucode a * 65536 div 2 ^ 18"
    and "(h * 16777216 + ucode a * 65536) div 2 ^ 12 = h * 64 * 64 + ucode a * 65536 div 2 ^ 12"
    using div_mult_self3 [of "2 ^ 18" "h * 64" "ucode a * 65536"] div_mult_self3 [of "2 ^ 12" "h * 64 * 64" "ucode a * 65536"]
    by simp_all
  then have "(h * 16777216 + ucode a * 65536) div 2 ^ 18 mod 64 = ucode a * 65536 div 2 ^ 18 mod 64"
    and "(h * 16777216 + ucode a * 65536) div 2 ^ 12 mod 64 = ucode a * 65536 div 2 ^ 12 mod 64"
    by (simp_all only: mod_mult_self3)
  then show "take_bit 32 (push_bit 16 (sext_u32 a)) div 2 ^ 18 mod 64 = ucode a div 4"
    and "take_bit 32 (push_bit 16 (sext_u32 a)) div 2 ^ 12 mod 64 = ucode a mod 4 * 16"
    unfolding v using group_digits(1,2) [OF u, of 0 0] by simp_all
qed

lemma writes_base64_encode: "sb.writes (\<lambda>b. base64_encode_into b d) (base64_encode d)"
proof (induction d rule: base64_encode.induct)
  case (1 a b c d)
  let ?v = "ucode a * 65536 + ucode b * 256 + ucode c"
  have v: "push_bit 16 (ucode a) OR push_bit 8 (ucode b) OR ucode c = ?v"
    by (intro group_value) simp_all
  have at: "b64_at ?v 18 = B64 ! (ucode a div 4)" "b64_at ?v 12 = B64 ! (ucode a mod 4 * 16 + ucode b div 16)"
    "b64_at ?v 6 = B64 ! (ucode b mod 16 * 4 + ucode c div 64)" "b64_at ?v 0 = B64 ! (ucode c mod 64)"
    using group_digits [of "ucode a" "ucode b" "ucode c"] by (simp_all only: b64_at_eq ucode_less power_0 div_by_1)
  show ?case
    unfolding base64_encode_into.simps base64_encode.simps Let_def v at
    by (rule sb.writes_seq [OF sb.writes_put "1.IH"])
next
  case (2 a)
  show ?case
    unfolding base64_encode_into.simps base64_encode.simps Let_def b64_at_eq sext_digits
    by (rule sb.writes_put)
next
  case (3 a b)
  let ?v = "ucode a * 65536 + ucode b * 256 + 0"
  have v: "push_bit 16 (ucode a) OR push_bit 8 (ucode b) = ?v"
    using group_value [of "ucode b" 0 "ucode a"] by simp
  have at: "b64_at ?v 18 = B64 ! (ucode a div 4)" "b64_at ?v 12 = B64 ! (ucode a mod 4 * 16 + ucode b div 16)"
    "b64_at ?v 6 = B64 ! (ucode b mod 16 * 4)"
    using group_digits(1-3) [of "ucode a" "ucode b" 0] unfolding b64_at_eq by simp_all
  show ?case
    unfolding base64_encode_into.simps base64_encode.simps Let_def v at by (rule sb.writes_put)
next
  case 4
  then show ?case by (simp add: sb.writes_skip)
qed

lemma b64val_table: "map b64val B64 = map int [0..<64]"
  by code_simp

lemma b64val_B64: "n < 64 \<Longrightarrow> b64val (B64 ! n) = int n"
proof -
  assume n: "n < 64"
  have "length B64 = 64" by (simp add: B64_def)
  then have "b64val (B64 ! n) = map b64val B64 ! n" using n by simp
  then show ?thesis unfolding b64val_table using n by simp
qed

lemma B64_not_pad: "n < 64 \<Longrightarrow> B64 ! n \<noteq> CHR ''=''"
  using b64val_B64 [of n] by (auto simp: b64val_def)

text \<open>One turn of the decoding loop, in the two shapes it has on well-formed input.\<close>

lemma b64_loop_first: "v < 64 \<Longrightarrow> b64_loop sb 0 0 (B64 ! v # s) = b64_loop sb v 6 s"
  by (simp add: b64val_B64 Let_def)

lemma b64_loop_next:
  assumes "v < 64" and "2 \<le> bits" and "bits \<le> 6" and "acc < 2 ^ bits"
  shows "b64_loop sb acc bits (B64 ! v # s) =
    b64_loop (strbuf_append_char sb (char_of ((acc * 64 + v) div 2 ^ (bits - 2))))
      ((acc * 64 + v) mod 2 ^ (bits - 2)) (bits - 2) s"
proof -
  have "acc < 64" using assms(3,4) power_increasing [of bits 6 "2::nat"] by simp
  then have "take_bit 32 (push_bit 6 acc) = push_bit 6 acc"
    by (simp add: take_bit_nat_eq_self_iff push_bit_eq_mult)
  then have acc': "take_bit 32 (push_bit 6 acc) OR v = acc * 64 + v"
    using push_bit_or_eq_add [of v 6 acc] assms(1) by simp
  have "acc * 64 + v < 2 ^ bits * 64" using assms(1,4) by simp
  also have "\<dots> = 2 ^ (bits - 2) * 256"
  proof -
    obtain k where "bits = k + 2" using assms(2) by (metis add.commute le_Suc_ex)
    then show ?thesis by (simp add: power_add)
  qed
  finally have "(acc * 64 + v) div 2 ^ (bits - 2) < 256"
    by (simp add: less_mult_imp_div_less mult.commute)
  moreover have "drop_bit k x AND 255 = x div 2 ^ k mod 256" for k x :: nat
    using and_mask_nat [of "drop_bit k x" 8] by (simp add: drop_bit_eq_div)
  moreover have "x AND (push_bit k 1 - 1) = x mod 2 ^ k" for k x :: nat
    using and_mask_nat [of x k] by (simp add: push_bit_eq_mult)
  ultimately show ?thesis
    using assms acc' by (simp add: b64val_B64 Let_def)
qed

fun base64_body :: "sv \<Rightarrow> char list" where
  "base64_body (a # b # c # d) =
     [B64 ! (ucode a div 4), B64 ! (ucode a mod 4 * 16 + ucode b div 16),
      B64 ! (ucode b mod 16 * 4 + ucode c div 64), B64 ! (ucode c mod 64)] @ base64_body d"
| "base64_body [a] = [B64 ! (ucode a div 4), B64 ! (ucode a mod 4 * 16)]"
| "base64_body [a, b] =
     [B64 ! (ucode a div 4), B64 ! (ucode a mod 4 * 16 + ucode b div 16), B64 ! (ucode b mod 16 * 4)]"
| "base64_body [] = []"

lemma ucode_div: "ucode b div 16 < 16" "ucode c div 64 < 4"
  by (simp_all add: less_mult_imp_div_less)

lemma digit_bounds:
  "ucode a div 4 < 64" "ucode a mod 4 * 16 + ucode b div 16 < 64" "ucode a mod 4 * 16 < 64"
  "ucode b mod 16 * 4 + ucode c div 64 < 64" "ucode b mod 16 * 4 < 64" "ucode c mod 64 < 64"
proof -
  have "ucode b div 16 < 16" "ucode c div 64 < 4" "ucode a mod 4 < 4" "ucode b mod 16 < 16"
    by (simp_all add: less_mult_imp_div_less)
  moreover have "ucode a div 4 < 64" by (simp add: less_mult_imp_div_less)
  ultimately show "ucode a div 4 < 64" "ucode a mod 4 * 16 + ucode b div 16 < 64" "ucode a mod 4 * 16 < 64"
    "ucode b mod 16 * 4 + ucode c div 64 < 64" "ucode b mod 16 * 4 < 64" "ucode c mod 64 < 64"
    by linarith+
qed

lemma base64_body_no_pad: "CHR ''='' \<notin> set (base64_body d)"
  by (induction d rule: base64_body.induct) (auto simp: B64_not_pad digit_bounds dest: sym)

lemma base64_encode_body: "\<exists>k. base64_encode d = base64_body d @ replicate k (CHR ''='')"
proof (induction d rule: base64_body.induct)
  case (2 a)
  show ?case by (rule exI [of _ 2]) (simp add: numeral_2_eq_2)
next
  case (3 a b)
  show ?case by (rule exI [of _ 1]) simp
qed auto

lemma b64_end_body: "CHR ''='' \<notin> set b \<Longrightarrow> b64_end (b @ replicate k (CHR ''='')) (length b + k) = length b"
proof (induction k)
  case 0
  then show ?case by (subst b64_end.simps) (auto simp: in_set_conv_nth)
next
  case (Suc k)
  have "(b @ replicate (Suc k) (CHR ''='')) ! (length b + k) = CHR ''=''"
    by (simp add: nth_append del: replicate_Suc)
  moreover have "b64_end (b @ replicate (Suc k) (CHR ''='')) n = b64_end (b @ replicate k (CHR ''='')) n"
    if "n \<le> length b + k" for n
    using that
  proof (induction n)
    case 0
    then show ?case by (simp add: b64_end.simps)
  next
    case (Suc n)
    have "(b @ replicate (Suc k) (CHR ''='')) ! n = (b @ replicate k (CHR ''='')) ! n"
      using Suc.prems by (auto simp: nth_append simp del: replicate_Suc)
    then show ?case using Suc by (simp add: b64_end.simps [of _ "Suc n"] del: replicate_Suc)
  qed
  ultimately show ?case
    using Suc by (subst b64_end.simps) (simp del: replicate_Suc)
qed

lemma length_base64_body: "length (base64_body d) mod 4 \<noteq> 1"
  by (induction d rule: base64_body.induct) auto

text \<open>What the decoding loop rebuilds from the six-bit digits of \<open>a\<close>, \<open>b\<close> and \<open>c\<close>.\<close>

lemma three_bytes:
  fixes a b c :: char
  defines "x \<equiv> ucode a div 4 * 64 + (ucode a mod 4 * 16 + ucode b div 16)"
  defines "y \<equiv> ucode b div 16 * 64 + (ucode b mod 16 * 4 + ucode c div 64)"
  shows "x div 16 = ucode a" and "x mod 16 = ucode b div 16"
    and "y div 4 = ucode b" and "y mod 4 = ucode c div 64"
    and "ucode c div 64 * 64 + ucode c mod 64 = ucode c"
proof -
  have b: "ucode b div 16 < 16" and c: "ucode c div 64 < 4" by (simp_all add: less_mult_imp_div_less)
  have x: "x = ucode a * 16 + ucode b div 16"
    using div_mult_mod_eq [of "ucode a" 4] unfolding x_def by linarith
  have y: "y = ucode b * 4 + ucode c div 64"
    using div_mult_mod_eq [of "ucode b" 16] unfolding y_def by linarith
  show "x div 16 = ucode a" and "x mod 16 = ucode b div 16" unfolding x using b by simp_all
  show "y div 4 = ucode b" and "y mod 4 = ucode c div 64" unfolding y using c by simp_all
  show "ucode c div 64 * 64 + ucode c mod 64 = ucode c" by simp
qed

lemma b64_loop_body:
  "\<exists>bits. b64_loop sb 0 0 (base64_body d) = (Some (foldl strbuf_append_char sb d, 0, bits), foldl strbuf_append_char sb d)"
proof (induction d arbitrary: sb rule: base64_body.induct)
  case (1 a b c d)
  have "b64_loop sb 0 0 (base64_body (a # b # c # d))
      = b64_loop (foldl strbuf_append_char sb [a, b, c]) 0 0 (base64_body d)"
    by (simp add: b64_loop_first b64_loop_next digit_bounds ucode_div three_bytes del: b64_loop.simps)
  then show ?case using "1.IH" by simp
next
  case (2 a)
  show ?case
    using three_bytes(1,2) [of a NUL]
    by (simp add: b64_loop_first b64_loop_next digit_bounds ucode_div del: b64_loop.simps(2))
next
  case (3 a b)
  show ?case
    using three_bytes(1,2) [of a b] three_bytes(3,4) [of b NUL]
    by (simp add: b64_loop_first b64_loop_next digit_bounds ucode_div del: b64_loop.simps(2))
qed simp

lemma base64_chars: "set (base64_encode d) \<subseteq> insert (CHR ''='') (set B64)"
proof -
  have "n < 64 \<Longrightarrow> B64 ! n \<in> set B64" for n by (rule nth_mem) (simp add: B64_def)
  then show ?thesis by (induction d rule: base64_encode.induct) (auto simp: digit_bounds)
qed

lemma base64_plain: "c \<in> set (base64_encode d) \<Longrightarrow> c \<notin> {NUL, CR, LF, CHR ''$''}"
proof -
  have "list_all (\<lambda>c. c \<noteq> NUL \<and> c \<noteq> CR \<and> c \<noteq> LF \<and> c \<noteq> CHR ''$'') (CHR ''='' # B64)" by code_simp
  then show "c \<in> set (base64_encode d) \<Longrightarrow> c \<notin> {NUL, CR, LF, CHR ''$''}"
    using base64_chars [of d] unfolding list_all_iff by auto
qed

lemma length_base64_encode: "length (base64_encode d) = 4 * ((length d + 2) div 3)"
  by (induction d rule: base64_encode.induct) (simp_all, presburger)

lemma base64_decode_encode:
  "base64_decode_into sb (base64_encode d) = (0, foldl strbuf_append_char sb d)"
proof -
  obtain k where e: "base64_encode d = base64_body d @ replicate k (CHR ''='')"
    using base64_encode_body by blast
  have "b64_end (base64_encode d) (length (base64_encode d)) = length (base64_body d)"
    unfolding e using b64_end_body [OF base64_body_no_pad, of d k] by simp
  moreover have "take (length (base64_body d)) (base64_encode d) = base64_body d"
    by (simp add: e)
  moreover obtain bits where "b64_loop sb 0 0 (base64_body d)
      = (Some (foldl strbuf_append_char sb d, 0, bits), foldl strbuf_append_char sb d)"
    using b64_loop_body by blast
  ultimately show ?thesis
    using length_base64_body [of d] by (simp add: base64_decode_into_def Let_def)
qed

subsection \<open>HTML escaping\<close>

definition html_escape_byte :: "strbuf \<Rightarrow> char \<Rightarrow> strbuf" where
  "html_escape_byte sb c =
     (if c = CHR ''&'' then strbuf_append_cstr sb ''&amp;''
      else if c = CHR ''<'' then strbuf_append_cstr sb ''&lt;''
      else if c = CHR ''>'' then strbuf_append_cstr sb ''&gt;''
      else if c = DQUOTE then strbuf_append_cstr sb ''&quot;''
      else if c = SQUOTE then strbuf_append_cstr sb ''&#39;''
      else strbuf_append_char sb c)"

definition html_escape_into :: "strbuf \<Rightarrow> sv \<Rightarrow> strbuf" where
  "html_escape_into sb src = foldl html_escape_byte sb src"

definition html_entity :: "char \<Rightarrow> char list" where
  "html_entity c =
     (if c = CHR ''&'' then ''&amp;'' else if c = CHR ''<'' then ''&lt;'' else if c = CHR ''>'' then ''&gt;''
      else if c = DQUOTE then ''&quot;'' else if c = SQUOTE then ''&#39;'' else [c])"

definition html_escape :: "sv \<Rightarrow> char list" where
  "html_escape src = concat (map html_entity src)"

text \<open>How a browser reads the five entities back.\<close>

function html_unescape :: "char list \<Rightarrow> char list" where
  "html_unescape s =
     (if s = [] then []
      else if take 5 s = ''&amp;'' then CHR ''&'' # html_unescape (drop 5 s)
      else if take 4 s = ''&lt;'' then CHR ''<'' # html_unescape (drop 4 s)
      else if take 4 s = ''&gt;'' then CHR ''>'' # html_unescape (drop 4 s)
      else if take 6 s = ''&quot;'' then DQUOTE # html_unescape (drop 6 s)
      else if take 5 s = ''&#39;'' then SQUOTE # html_unescape (drop 5 s)
      else hd s # html_unescape (tl s))"
  by pat_completeness auto
termination
  by (relation "measure length") auto

declare html_unescape.simps [simp del]

lemma writes_html_escape: "sb.writes (\<lambda>b. html_escape_into b src) (html_escape src)"
proof -
  have c: "c_str ''&amp;'' = ''&amp;''" "c_str ''&lt;'' = ''&lt;''" "c_str ''&gt;'' = ''&gt;''"
    "c_str ''&quot;'' = ''&quot;''" "c_str ''&#39;'' = ''&#39;''"
    by (simp_all add: c_str_def)
  have "sb.writes (\<lambda>b. html_escape_byte b c) (html_entity c)" for c
    unfolding html_escape_byte_def html_entity_def
    using writes_append_cstr [of "''&amp;''"] writes_append_cstr [of "''&lt;''"] writes_append_cstr [of "''&gt;''"]
      writes_append_cstr [of "''&quot;''"] writes_append_cstr [of "''&#39;''"]
    by (auto simp: c writes_append_char)
  then show ?thesis unfolding html_escape_into_def html_escape_def by (rule sb.writes_loop)
qed

lemma html_unescape_entity: "html_unescape (html_entity c @ s) = c # html_unescape s"
  by (auto simp: html_entity_def html_unescape.simps [of "_ @ s"] html_unescape.simps [of "_ # _"])

lemma html_unescape_escape: "html_unescape (html_escape s) = s"
  by (induction s) (simp_all add: html_escape_def html_unescape_entity html_unescape.simps [of "[]"])

lemma html_escape_inert:
  "c \<in> set (html_escape s) \<Longrightarrow> c \<noteq> CHR ''<'' \<and> c \<noteq> CHR ''>'' \<and> c \<noteq> DQUOTE \<and> c \<noteq> SQUOTE"
  by (auto simp: html_escape_def html_entity_def split: if_splits)

subsection \<open>Properties\<close>

text \<open>
  C5: Percent coding round trip. Encoding any byte string and decoding the result succeeds and
  appends exactly the original bytes to the output buffer; the encoded text itself consists of
  unreserved characters and percent signs only.
\<close>

theorem url_round_trip:
  assumes "strbuf_inv out"
  shows "let e = strbuf_view (url_encode_into strbuf_init src); r = url_decode_into out e
    in fst r = 0 \<and> strbuf_view (snd r) = strbuf_view out @ src \<and> list_all (\<lambda>c. unreserved c \<or> c = CHR ''%'') e"
proof -
  have e: "strbuf_view (url_encode_into strbuf_init src) = url_encode src"
    using sb.writes_view [OF writes_url_encode] by simp
  show ?thesis
    unfolding e Let_def url_decode_encode
    using sb.writes_view [OF writes_append_chars assms] url_encode_safe by (auto simp: list_all_iff)
qed

theorem url_round_trip_witness:
  "strbuf_inv strbuf_init \<and> url_encode ''a b%'' = ''a%20b%25''
   \<and> strbuf_view (snd (url_decode_into strbuf_init (strbuf_view (url_encode_into strbuf_init ''a b%'')))) = ''a b%''"
  using url_round_trip [of strbuf_init "''a b%''"]
  by (simp add: Let_def url_encode_def pct_def unreserved_def HEX_def)

text \<open>
  C4: Base64 round trip. Decoding the text that \<open>base64_encode_into\<close> writes succeeds and appends
  exactly the encoded bytes, for every byte string; the last, shorter group is included, where
  the source shifts a sign-extended byte.
\<close>

theorem base64_round_trip:
  assumes "strbuf_inv out"
  shows "fst (base64_decode_into out (strbuf_view (base64_encode_into strbuf_init d))) = 0
    \<and> strbuf_view (snd (base64_decode_into out (strbuf_view (base64_encode_into strbuf_init d)))) = strbuf_view out @ d"
proof -
  have e: "strbuf_view (base64_encode_into strbuf_init d) = base64_encode d"
    using sb.writes_view [OF writes_base64_encode] by simp
  show ?thesis
    unfolding e base64_decode_encode using sb.writes_view [OF writes_append_chars assms] by simp
qed

theorem base64_round_trip_witness:
  "strbuf_inv strbuf_init \<and> base64_encode ''Hi'' = ''SGk=''
   \<and> strbuf_view (snd (base64_decode_into strbuf_init (strbuf_view (base64_encode_into strbuf_init ''Hi'')))) = ''Hi''"
  using base64_round_trip [of strbuf_init "''Hi''"] by (simp add: B64_def)

text \<open>
  C6: Escaped text is inert. What \<open>html_escape_into\<close> appends contains none of the characters
  that can open a tag or close an attribute, and a reader that resolves the five entities gets
  the original text back.
\<close>

theorem html_escape_correct:
  assumes "strbuf_inv sb"
  shows "\<exists>t. strbuf_view (html_escape_into sb src) = strbuf_view sb @ t \<and> html_unescape t = src
    \<and> list_all (\<lambda>c. c \<noteq> CHR ''<'' \<and> c \<noteq> CHR ''>'' \<and> c \<noteq> DQUOTE \<and> c \<noteq> SQUOTE) t"
  using sb.writes_view [OF writes_html_escape assms] html_unescape_escape html_escape_inert
  by (auto simp: list_all_iff)

theorem html_escape_correct_witness:
  "\<exists>t. strbuf_view (html_escape_into strbuf_init ''<a>'') = t \<and> html_unescape t = ''<a>''
    \<and> list_all (\<lambda>c. c \<noteq> CHR ''<'' \<and> c \<noteq> CHR ''>'' \<and> c \<noteq> DQUOTE \<and> c \<noteq> SQUOTE) t"
  using html_escape_correct [of strbuf_init "''<a>''"] by simp

end
