(* ===== verification/Formatting.thy ===== *)
theory Formatting
  imports Views
begin

text \<open>
  The part of \<open>printf\<close> formatting the sources use: decimal numbers (\<open>%d\<close>, \<open>%zu\<close>, \<open>%ld\<close>), zero
  padding (\<open>%02d\<close>), truncation by \<open>snprintf\<close>, and C's integer division. The lemmas relate the
  printed numerals to the decimal parser of \<open>Views\<close>.
\<close>

definition digit :: "nat \<Rightarrow> char" where
  "digit d = char_of (48 + d)"

fun dec_of_nat :: "nat \<Rightarrow> char list" where
  "dec_of_nat n = (if n < 10 then [digit n] else dec_of_nat (n div 10) @ [digit (n mod 10)])"

declare dec_of_nat.simps [simp del]

definition dec_of_int :: "int \<Rightarrow> char list" where
  "dec_of_int i = (if i < 0 then CHR ''-'' # dec_of_nat (nat (- i)) else dec_of_nat (nat i))"

text \<open>\<open>%0kd\<close> of a number that is not negative.\<close>

definition dec_pad :: "nat \<Rightarrow> nat \<Rightarrow> char list" where
  "dec_pad k n = (let s = dec_of_nat n in replicate (k - length s) (CHR ''0'') @ s)"

text \<open>What \<open>snprintf(buf, n, ...)\<close> leaves in \<open>buf\<close> as a C string, for \<open>n > 0\<close>.\<close>

definition snprintf_str :: "nat \<Rightarrow> char list \<Rightarrow> char list" where
  "snprintf_str n s = take (n - 1) s"

text \<open>Division of signed integers in C truncates towards zero.\<close>

definition c_div :: "int \<Rightarrow> int \<Rightarrow> int" where
  "c_div a b = (if (a < 0) = (b < 0) then \<bar>a\<bar> div \<bar>b\<bar> else - (\<bar>a\<bar> div \<bar>b\<bar>))"

text \<open>A byte read through a plain \<open>char\<close>, which is signed on the supported targets.\<close>

definition schar :: "char \<Rightarrow> int" where
  "schar c = (if ucode c < 128 then int (ucode c) else int (ucode c) - 256)"

lemma c_str_cons: "c_str [] = []" "c \<noteq> NUL \<Longrightarrow> c_str (c # s) = c # c_str s"
  by (simp_all add: c_str_def)

lemma digit_code [simp]: "d < 10 \<Longrightarrow> ucode (digit d) = 48 + d"
  by (simp add: digit_def)

lemma isdigit_digit [simp]: "d < 10 \<Longrightarrow> isdigit (digit d)"
  by (simp add: isdigit_def)

lemma schar_digit [simp]: "d < 10 \<Longrightarrow> schar (digit d) = 48 + int d"
  by (simp add: schar_def)

lemma dec_of_nat_digits: "list_all isdigit (dec_of_nat n)"
proof (induction n rule: dec_of_nat.induct)
  case (1 n)
  then show ?case by (cases "n < 10") (simp_all add: dec_of_nat.simps [of n])
qed

lemma dec_of_nat_nonempty [simp]: "dec_of_nat n \<noteq> []"
  by (simp add: dec_of_nat.simps)

lemma dec_value_snoc: "dec_value (s @ [c]) = dec_value s * 10 + (int (ucode c) - 48)"
  by (simp add: dec_value_def)

lemma dec_value_dec_of_nat [simp]: "dec_value (dec_of_nat n) = int n"
proof (induction n rule: dec_of_nat.induct)
  case (1 n)
  show ?case
  proof (cases "n < 10")
    case True
    then show ?thesis by (simp add: dec_of_nat.simps dec_value_def)
  next
    case False
    have "int (n div 10) * 10 + int (n mod 10) = int n"
      using div_mult_mod_eq [of n 10] by linarith
    then show ?thesis using 1 False by (simp add: dec_of_nat.simps [of n] dec_value_snoc)
  qed
qed

lemma sv_to_i64_dec_of_nat: "int n \<le> LLONG_MAX \<Longrightarrow> sv_to_i64 (dec_of_nat n) = Some (int n)"
proof -
  assume n: "int n \<le> LLONG_MAX"
  obtain c t where ct: "dec_of_nat n = c # t" by (cases "dec_of_nat n") auto
  then have "isdigit c" using dec_of_nat_digits [of n] by simp
  then have "c \<noteq> CHR ''-''" by (auto simp: isdigit_def)
  then show ?thesis
    using n ct dec_of_nat_digits [of n] dec_value_dec_of_nat [of n]
    by (simp add: sv_to_i64_def Let_def sv_digits_dec_value)
qed

lemma length_dec_of_nat: "n < 10 ^ k \<Longrightarrow> 0 < k \<Longrightarrow> length (dec_of_nat n) \<le> k"
proof (induction n arbitrary: k rule: dec_of_nat.induct)
  case (1 n)
  show ?case
  proof (cases "n < 10")
    case True
    then show ?thesis using 1 by (simp add: dec_of_nat.simps)
  next
    case False
    then have "1 < k" using "1.prems" by (cases "k = 1") auto
    then obtain j where k: "k = Suc j" "0 < j" by (cases k) auto
    have "n div 10 < 10 ^ j" using "1.prems" k by auto
    then show ?thesis using 1 False k by (simp add: dec_of_nat.simps [of n])
  qed
qed

lemma dec_pad_2: "n < 100 \<Longrightarrow> dec_pad 2 n = [digit (n div 10), digit (n mod 10)]"
  by (cases "n < 10") (simp_all add: dec_pad_def dec_of_nat.simps digit_def eval_simps)

lemma dec_of_nat_4: "1000 \<le> n \<Longrightarrow> n < 10000 \<Longrightarrow>
    dec_of_nat n = [digit (n div 1000), digit (n div 100 mod 10), digit (n div 10 mod 10), digit (n mod 10)]"
  using div_le_mono [of 1000 n 100] div_le_mono [of 1000 n 10]
  by (simp add: dec_of_nat.simps div_mult2_eq [symmetric] less_mult_imp_div_less not_less)

lemma digits_no_break: "c \<in> set (dec_of_nat n) \<Longrightarrow> isdigit c"
  using dec_of_nat_digits [of n] by (simp add: list_all_iff)

end
