(* ===== verification/Dates.thy ===== *)
theory Dates
  imports Formatting
begin

text \<open>
  \<open>src/http/date.c\<close>: HTTP dates. \<open>gmtime_r\<close> of the C library is modelled by counting the days of
  the years and months of the Gregorian calendar, which repeats every 400 years. The main result is the round trip
  of \<open>http_date_rfc7231\<close> and \<open>http_date_parse\<close>; it rests on the correctness of
  \<open>days_from_civil\<close>, the closed formula for the day number of a date.
\<close>

subsection \<open>The calendar of the C library\<close>

record tm =
  tm_year :: int
  tm_mon :: nat
  tm_mday :: nat
  tm_hour :: nat
  tm_min :: nat
  tm_sec :: nat
  tm_wday :: nat

definition leap :: "int \<Rightarrow> bool" where
  "leap y \<longleftrightarrow> y mod 4 = 0 \<and> (y mod 100 \<noteq> 0 \<or> y mod 400 = 0)"

definition year_days :: "int \<Rightarrow> int" where
  "year_days y = (if leap y then 366 else 365)"

definition month_lengths :: "int \<Rightarrow> int list" where
  "month_lengths y = [31, if leap y then 29 else 28, 31, 30, 31, 30, 31, 31, 30, 31, 30, 31]"

text \<open>The year (\<open>tm_year + 1900\<close>) and the day of the year of the day \<open>n\<close> after January 1st of \<open>y\<close>.\<close>

function civil_year :: "int \<Rightarrow> int \<Rightarrow> int \<times> int" where
  "civil_year n y = (if n < year_days y then (y, n) else civil_year (n - year_days y) (y + 1))"
  by pat_completeness auto
termination
  by (relation "measure (\<lambda>(n, y). nat n)") (auto simp: year_days_def split: if_splits)

declare civil_year.simps [simp del]

fun civil_month :: "int \<Rightarrow> int list \<Rightarrow> nat \<Rightarrow> nat \<times> int" where
  "civil_month n [] m = (m, n)"
| "civil_month n (l # ls) m = (if n < l then (m, n) else civil_month (n - l) ls (m + 1))"

definition gmtime :: "int \<Rightarrow> tm" where
  "gmtime t =
     (let days = t div 86400; secs = nat (t mod 86400);
          (y, yday) = civil_year (days mod 146097) 1970;
          (m, mday) = civil_month yday (month_lengths y) 0
      in \<lparr>tm_year = y + 400 * (days div 146097) - 1900, tm_mon = m, tm_mday = nat mday + 1,
          tm_hour = secs div 3600, tm_min = secs div 60 mod 60, tm_sec = secs mod 60,
          tm_wday = nat ((days + 4) mod 7)\<rparr>)"

subsection \<open>The source\<close>

definition wdays :: "char list list" where
  "wdays = [''Sun'', ''Mon'', ''Tue'', ''Wed'', ''Thu'', ''Fri'', ''Sat'']"

definition months :: "char list list" where
  "months = [''Jan'', ''Feb'', ''Mar'', ''Apr'', ''May'', ''Jun'', ''Jul'', ''Aug'', ''Sep'', ''Oct'', ''Nov'', ''Dec'']"

fun month_search :: "char list \<Rightarrow> char list list \<Rightarrow> int \<Rightarrow> int" where
  "month_search mon [] i = -1"
| "month_search mon (m # ms) i = (if take 3 mon = m then i else month_search mon ms (i + 1))"

definition month_index :: "char list \<Rightarrow> int" where
  "month_index mon = month_search mon months 0"

text \<open>The variables \<open>yoe\<close>, \<open>doy\<close> and \<open>doe\<close> are \<open>unsigned\<close>: their arithmetic wraps at 32 bits.\<close>

definition days_from_civil :: "int \<Rightarrow> int \<Rightarrow> int \<Rightarrow> int" where
  "days_from_civil y0 m d =
     (let y = (if m \<le> 2 then y0 - 1 else y0);
          era = c_div (if y \<ge> 0 then y else y - 399) 400;
          yoe = (y - era * 400) mod 2 ^ 32;
          doy = ((153 * (m + (if m > 2 then -3 else 9)) + 2) mod 2 ^ 32 div 5 + d - 1) mod 2 ^ 32;
          doe = (yoe * 365 + yoe div 4 - yoe div 100 + doy) mod 2 ^ 32
      in era * 146097 + doe - 719468)"

definition http_date_rfc7231 :: "int \<Rightarrow> nat \<Rightarrow> char list" where
  "http_date_rfc7231 t bufsize =
     (let tm = gmtime t
      in snprintf_str bufsize
           (wdays ! tm_wday tm @ '', '' @ dec_pad 2 (tm_mday tm) @ '' '' @ months ! tm_mon tm @ '' ''
            @ dec_of_int (tm_year tm + 1900) @ '' '' @ dec_pad 2 (tm_hour tm) @ '':'' @ dec_pad 2 (tm_min tm)
            @ '':'' @ dec_pad 2 (tm_sec tm) @ '' GMT''))"

text \<open>
  The access-log form. \<open>localtime\<close> and \<open>mktime\<close> depend on the time zone of the process and are
  parameters.
\<close>

definition http_date_clf :: "(int \<Rightarrow> tm) \<Rightarrow> (tm \<Rightarrow> int) \<Rightarrow> int \<Rightarrow> nat \<Rightarrow> char list" where
  "http_date_clf localtime mktime t bufsize =
     (let tm = localtime t; off = mktime tm - t;
          oh0 = c_div off 3600; om0 = c_div (off - c_div off 3600 * 3600) 60;
          oh = (if oh0 < -12 \<or> oh0 > 14 then 0 else oh0);
          om = (if oh0 < -12 \<or> oh0 > 14 then 0 else om0)
      in snprintf_str bufsize
           (dec_pad 2 (tm_mday tm) @ ''/'' @ months ! tm_mon tm @ ''/'' @ dec_pad 4 (nat (tm_year tm + 1900))
            @ '':'' @ dec_pad 2 (tm_hour tm) @ '':'' @ dec_pad 2 (tm_min tm) @ '':'' @ dec_pad 2 (tm_sec tm)
            @ '' '' @ (if off < 0 then ''-'' else ''+'') @ dec_pad 2 (nat \<bar>oh\<bar>) @ dec_pad 2 (nat \<bar>om\<bar>)))"

text \<open>The value of \<open>text.data[i] - '0'\<close>.\<close>

definition dig :: "sv \<Rightarrow> nat \<Rightarrow> int" where
  "dig text i = schar (text ! i) - 48"

definition http_date_parse :: "sv \<Rightarrow> int" where
  "http_date_parse text =
     (if length text \<noteq> 29 then -1
      else if text ! 3 \<noteq> CHR '','' \<or> text ! 4 \<noteq> CHR '' '' \<or> text ! 7 \<noteq> CHR '' '' \<or> text ! 11 \<noteq> CHR '' ''
              \<or> text ! 16 \<noteq> CHR '' '' \<or> text ! 19 \<noteq> CHR '':'' \<or> text ! 22 \<noteq> CHR '':'' \<or> text ! 25 \<noteq> CHR '' ''
              \<or> take 3 (drop 26 text) \<noteq> ''GMT'' then -1
      else
        let month = month_index (take 3 (drop 8 text))
        in if month < 0 then -1
           else
             let d = dig text 5 * 10 + dig text 6;
                 y = dig text 12 * 1000 + dig text 13 * 100 + dig text 14 * 10 + dig text 15;
                 h = dig text 17 * 10 + dig text 18;
                 mi = dig text 20 * 10 + dig text 21;
                 s = dig text 23 * 10 + dig text 24
             in if d < 1 \<or> d > 31 \<or> y < 1970 \<or> h > 23 \<or> mi > 59 \<or> s > 60 then -1
                else days_from_civil y (month + 1) d * 86400 + (h * 3600 + mi * 60 + s))"

subsection \<open>Counting days\<close>

text \<open>The number of leap years up to \<open>y\<close>.\<close>

definition leaps :: "int \<Rightarrow> int" where
  "leaps y = y div 4 - y div 100 + y div 400"

text \<open>The number of days from January 1st of year 0 to January 1st of year \<open>y\<close>, less a constant.\<close>

definition year_start :: "int \<Rightarrow> int" where
  "year_start y = 365 * y + leaps (y - 1)"

lemma div_step:
  fixes y k :: int
  assumes "0 < k"
  shows "y div k = (y - 1) div k + (if y mod k = 0 then 1 else 0)"
proof -
  have y: "y = k * (y div k) + y mod k" "0 \<le> y mod k" "y mod k < k" using assms by simp_all
  show ?thesis
  proof (cases "y mod k = 0")
    case True
    have "y - 1 = k * (y div k - 1) + (k - 1)" using y(1) True by (simp add: algebra_simps)
    then have "(y - 1) div k = y div k - 1" using assms int_div_pos_eq [of "y - 1" k "y div k - 1" "k - 1"] by simp
    then show ?thesis using True by simp
  next
    case False
    have "y - 1 = k * (y div k) + (y mod k - 1)" using y(1) by simp
    then have "(y - 1) div k = y div k" using assms y False int_div_pos_eq [of "y - 1" k "y div k" "y mod k - 1"] by simp
    then show ?thesis using False by simp
  qed
qed

lemma mod_nest: "y mod 400 = 0 \<Longrightarrow> y mod 100 = (0::int)" "y mod 100 = 0 \<Longrightarrow> y mod 4 = (0::int)"
  using dvd_trans [of 100 400 y] dvd_trans [of 4 100 y] by (simp_all add: mod_eq_0_iff_dvd)

lemma leap_count:
  "leaps y = leaps (y - 1) + (if leap y then 1 else 0)"
proof -
  have "leap y \<longleftrightarrow> y mod 4 = 0 \<and> (y mod 100 = 0 \<longrightarrow> y mod 400 = 0)" by (auto simp: leap_def)
  then show ?thesis
    unfolding leaps_def div_step [of 4 y, simplified] div_step [of 100 y, simplified] div_step [of 400 y, simplified]
    using mod_nest [of y] by (cases "y mod 400 = 0"; cases "y mod 100 = 0"; cases "y mod 4 = 0") simp_all
qed

lemma year_start_Suc: "year_start (y + 1) = year_start y + year_days y"
  using leap_count [of y] by (cases "leap y") (simp_all add: year_start_def year_days_def)

lemma year_start_400: "year_start (y + 400 * e) = year_start y + 146097 * e"
proof -
  have "(y + 400 * e - 1) div 4 = (y - 1) div 4 + 100 * e" "(y + 400 * e - 1) div 100 = (y - 1) div 100 + 4 * e"
    "(y + 400 * e - 1) div 400 = (y - 1) div 400 + e"
    using div_mult_self4 [of 4 "100 * e" "y - 1"] div_mult_self4 [of 100 "4 * e" "y - 1"] div_mult_self4 [of 400 e "y - 1"]
    by (simp_all add: algebra_simps)
  then show ?thesis by (simp add: year_start_def leaps_def)
qed

lemma year_start_mono: "y \<le> z \<Longrightarrow> year_start y \<le> year_start z"
proof (induction z rule: int_ge_induct)
  case (step z)
  then show ?case using year_start_Suc [of z] by (simp add: year_days_def split: if_splits)
qed simp

lemma leap_400: "leap (y + 400 * e) = leap y"
proof -
  have "(y + 400 * e) mod 4 = y mod 4" "(y + 400 * e) mod 100 = y mod 100" "(y + 400 * e) mod 400 = y mod 400"
    using mod_mult_self2 [of y 4 "100 * e"] mod_mult_self2 [of y 100 "4 * e"] mod_mult_self2 [of y 400 e] by simp_all
  then show ?thesis by (simp add: leap_def)
qed

lemma civil_year_spec:
  "0 \<le> n \<Longrightarrow> civil_year n y = (y', n') \<Longrightarrow>
     year_start y' + n' = year_start y + n \<and> 0 \<le> n' \<and> n' < year_days y' \<and> y \<le> y'"
proof (induction n y rule: civil_year.induct)
  case (1 n y)
  show ?case
  proof (cases "n < year_days y")
    case True
    then show ?thesis using "1.prems" by (simp add: civil_year.simps [of n y])
  next
    case False
    then show ?thesis using "1.prems" "1.IH" by (simp add: civil_year.simps [of n y] year_start_Suc)
  qed
qed

text \<open>Days of the year before a month.\<close>

definition month_start :: "int \<Rightarrow> nat \<Rightarrow> int" where
  "month_start y m = sum_list (take m (month_lengths y))"

lemma civil_month_gen:
  "0 \<le> n \<Longrightarrow> n < sum_list ls \<Longrightarrow> civil_month n ls m = (m', d) \<Longrightarrow>
     \<exists>k < length ls. m' = m + k \<and> n = sum_list (take k ls) + d \<and> 0 \<le> d \<and> d < ls ! k"
proof (induction ls arbitrary: n m)
  case (Cons l ls)
  show ?case
  proof (cases "n < l")
    case False
    then obtain k where "k < length ls" "m' = m + 1 + k" "n - l = sum_list (take k ls) + d" "0 \<le> d" "d < ls ! k"
      using Cons.IH [of "n - l" "m + 1"] Cons.prems by auto
    then show ?thesis by (intro exI [of _ "Suc k"]) auto
  qed (use Cons.prems in auto)
qed simp

lemma civil_month_spec:
  assumes "0 \<le> n" and "n < year_days y" and "civil_month n (month_lengths y) 0 = (m, d)"
  shows "m < 12 \<and> n = month_start y m + d \<and> 0 \<le> d \<and> d < 31"
proof -
  have s: "sum_list (month_lengths y) = year_days y" by (simp add: month_lengths_def year_days_def)
  have "k < 12 \<Longrightarrow> month_lengths y ! k \<le> 31" for k
    unfolding month_lengths_def numeral_eq_Suc by (auto simp: less_Suc_eq nth_Cons')
  moreover have "length (month_lengths y) = 12" by (simp add: month_lengths_def)
  ultimately show ?thesis
    using civil_month_gen [OF assms(1) _ assms(3)] assms(2) s by (fastforce simp: month_start_def)
qed

lemma days_from_civil_formula:
  assumes "1 \<le> y" and "y < 100000" and "1 \<le> m" and "m \<le> 12" and "1 \<le> d" and "d \<le> 31"
  defines "y' \<equiv> (if m \<le> 2 then y - 1 else y)" and "mp \<equiv> (if m > 2 then m - 3 else m + 9)"
  shows "days_from_civil y m d = 365 * y' + leaps y' + (153 * mp + 2) div 5 + d - 719469"
proof -
  have era: "c_div (if y' \<ge> 0 then y' else y' - 399) 400 = y' div 400" using assms by (auto simp: c_div_def)
  define yoe where "yoe = y' mod 400"
  have yoe: "(y' - y' div 400 * 400) mod 2 ^ 32 = yoe" "0 \<le> yoe" "yoe < 400"
    using minus_div_mult_eq_mod [of y' 400] by (simp_all add: yoe_def)
  have mp: "(153 * (m + (if m > 2 then -3 else 9)) + 2) mod 2 ^ 32 = 153 * mp + 2" "0 \<le> mp" "mp \<le> 11"
    using assms by (auto simp: mp_def)
  have q: "0 \<le> (153 * mp + 2) div 5" "(153 * mp + 2) div 5 \<le> 338"
    using mp(2,3) zdiv_mono1 [of "153 * mp + 2" "153 * 11 + 2" 5] by simp_all
  have doy: "((153 * mp + 2) div 5 + d - 1) mod 2 ^ 32 = (153 * mp + 2) div 5 + d - 1"
    using q assms by simp
  have y4: "0 \<le> yoe div 4" "yoe div 4 \<le> 99" "0 \<le> yoe div 100" "yoe div 100 \<le> 3"
    using yoe zdiv_mono1 [of yoe 399 4] zdiv_mono1 [of yoe 399 100] by simp_all
  have doe: "(yoe * 365 + yoe div 4 - yoe div 100 + ((153 * mp + 2) div 5 + d - 1)) mod 2 ^ 32
      = yoe * 365 + yoe div 4 - yoe div 100 + ((153 * mp + 2) div 5 + d - 1)"
    using q y4 yoe assms by simp
  have "y' = 400 * (y' div 400) + yoe" by (simp add: yoe_def)
  then have "y' div 4 = 100 * (y' div 400) + yoe div 4" "y' div 100 = 4 * (y' div 400) + yoe div 100"
    using div_mult_self4 [of 4 "100 * (y' div 400)" yoe] div_mult_self4 [of 100 "4 * (y' div 400)" yoe] by (auto simp: algebra_simps)
  then show ?thesis
    using \<open>y' = 400 * (y' div 400) + yoe\<close>
    unfolding leaps_def days_from_civil_def y'_def [symmetric] Let_def era yoe(1) mp(1) doy doe by simp
qed

definition days_before :: "int list" where
  "days_before = [0, 31, 59, 90, 120, 151, 181, 212, 243, 273, 304, 334]"

lemma upto_12: "[0..<12] = [0, 1, 2, 3, 4, 5, 6, 7, 8, 9, 10, 11]"
  by code_simp

lemma month_start_table: "m < 12 \<Longrightarrow> month_start y m = days_before ! m + (if leap y \<and> 2 \<le> m then 1 else 0)"
proof -
  assume m: "m < 12"
  have "list_all (\<lambda>m. month_start y m = days_before ! m + (if leap y \<and> 2 \<le> m then 1 else 0)) [0..<12]"
    unfolding upto_12 by (cases "leap y") (simp_all add: month_start_def month_lengths_def days_before_def)
  then show ?thesis using m by (simp add: list_all_iff)
qed

lemma month_formula_table:
  "m < 12 \<Longrightarrow> (153 * (if 2 \<le> m then int m - 2 else int m + 10) + 2) div 5 = days_before ! m + (if 2 \<le> m then -59 else 306)"
proof -
  assume m: "m < 12"
  have "list_all (\<lambda>m. (153 * (if 2 \<le> m then int m - 2 else int m + 10) + 2) div 5
      = days_before ! m + (if 2 \<le> m then -59 else 306)) [0..<12]" by code_simp
  then show ?thesis using m by (simp add: list_all_iff)
qed

lemma days_from_civil_correct:
  assumes "1 \<le> y" and "y < 100000" and "m < 12" and "0 \<le> d" and "d < 31"
  shows "days_from_civil y (int m + 1) (d + 1) = year_start y - year_start 1970 + month_start y m + d"
proof -
  have y70: "year_start 1970 = 719527" by (simp add: year_start_def leaps_def)
  note f = days_from_civil_formula [of y "int m + 1" "d + 1"]
  show ?thesis
  proof (cases "2 \<le> m")
    case True
    then show ?thesis
      using f assms month_formula_table [of m] month_start_table [of m y] leap_count [of y]
      by (cases "leap y") (simp_all add: y70 year_start_def [of y])
  next
    case False
    then show ?thesis
      using f assms month_formula_table [of m] month_start_table [of m y] by (simp add: y70 year_start_def [of y])
  qed
qed

subsection \<open>What \<open>gmtime\<close> returns\<close>

lemma gmtime_date:
  assumes "0 \<le> t" and "t < 253402300800"
  defines "tm \<equiv> gmtime t"
  shows "1970 \<le> tm_year tm + 1900 \<and> tm_year tm + 1900 \<le> 9999 \<and> tm_mon tm < 12 \<and> 1 \<le> tm_mday tm \<and> tm_mday tm \<le> 31
    \<and> days_from_civil (tm_year tm + 1900) (int (tm_mon tm) + 1) (int (tm_mday tm)) = t div 86400"
proof -
  let ?days = "t div 86400"
  let ?e = "?days div 146097"
  obtain y yd where y: "civil_year (?days mod 146097) 1970 = (y, yd)" by fastforce
  obtain m d where m: "civil_month yd (month_lengths y) 0 = (m, d)" by fastforce
  have yd: "year_start y + yd = year_start 1970 + ?days mod 146097" "0 \<le> yd" "yd < year_days y" "1970 \<le> y"
    using civil_year_spec [OF _ y] by simp_all
  have md: "m < 12" "yd = month_start y m + d" "0 \<le> d" "d < 31" using civil_month_spec [OF yd(2,3) m] by simp_all
  let ?y = "y + 400 * ?e"
  have tm: "tm_year tm + 1900 = ?y" "tm_mon tm = m" "tm_mday tm = nat d + 1"
    by (simp_all add: tm_def gmtime_def y m Let_def)
  have days: "0 \<le> ?days" "?days \<le> 2932896" using assms zdiv_mono1 [of t 253402300799 86400] by simp_all
  have e: "0 \<le> ?e" using days by simp
  have st: "year_start ?y + yd = year_start 1970 + ?days"
    using yd(1) year_start_400 [of y ?e] div_mult_mod_eq [of ?days 146097] by linarith
  have ub: "?y \<le> 9999"
  proof (rule ccontr)
    assume "\<not> ?y \<le> 9999"
    then have "year_start 10000 \<le> year_start ?y" by (intro year_start_mono) simp
    moreover have "year_start 10000 = year_start 1970 + 2932897" by (simp add: year_start_def leaps_def)
    ultimately show False using st days yd(2) by linarith
  qed
  have "month_start ?y m = month_start y m"
    by (simp add: month_start_def month_lengths_def leap_400)
  moreover have "nat d \<le> 30" using md by simp
  ultimately show ?thesis
    using days_from_civil_correct [of ?y m d] md st ub yd(4) e unfolding tm by (simp add: add.commute)
qed

lemma month_index_months: "m < 12 \<Longrightarrow> month_index (months ! m) = int m \<and> length (months ! m) = 3"
proof -
  assume m: "m < 12"
  have "list_all (\<lambda>k. month_index (months ! k) = int k \<and> length (months ! k) = 3) [0..<12]" by code_simp
  then show ?thesis using m by (simp add: list_all_iff)
qed

lemma length_wdays: "w < 7 \<Longrightarrow> length (wdays ! w) = 3"
proof -
  assume w: "w < 7"
  have "list_all (\<lambda>k. length (wdays ! k) = 3) [0..<7]" by code_simp
  then show ?thesis using w by (simp add: list_all_iff)
qed

lemma length_3E: "length s = 3 \<Longrightarrow> (\<And>a b c. s = [a, b, c] \<Longrightarrow> P) \<Longrightarrow> P"
  by (auto simp: numeral_3_eq_3 length_Suc_conv)

text \<open>Parsing a text of the right shape.\<close>

definition date_text :: "char list \<Rightarrow> nat \<Rightarrow> nat \<Rightarrow> nat \<Rightarrow> nat \<Rightarrow> nat \<Rightarrow> nat \<Rightarrow> char list" where
  "date_text w d m y h mi s =
     w @ '', '' @ dec_pad 2 d @ '' '' @ months ! m @ '' '' @ dec_of_int (int y) @ '' ''
     @ dec_pad 2 h @ '':'' @ dec_pad 2 mi @ '':'' @ dec_pad 2 s @ '' GMT''"

lemma http_date_parse_shape:
  assumes "length w = 3" and "m < 12" and "1 \<le> d" and "d \<le> 31" and "1970 \<le> y" and "y \<le> 9999"
    and "h < 24" and "mi < 60" and "s < 60"
  shows "http_date_parse (date_text w d m y h mi s)
    = days_from_civil (int y) (int m + 1) (int d) * 86400 + (int h * 3600 + int mi * 60 + int s)"
proof -
  obtain a b c where w: "w = [a, b, c]" using length_3E [OF assms(1)] by blast
  obtain p q r where mon: "months ! m = [p, q, r]" using month_index_months [OF assms(2)] length_3E by blast
  have mi': "month_index [p, q, r] = int m" using month_index_months [OF assms(2)] mon by simp
  have two: "schar (digit (n div 10)) - 48 = int (n div 10)" "schar (digit (n mod 10)) - 48 = int (n mod 10)"
    if "n < 100" for n
    using that less_mult_imp_div_less [of n 10 10] by simp_all
  have split2: "int (n div 10) * 10 + int (n mod 10) = int n" for n
    using div_mult_mod_eq [of n 10] by linarith
  have y4: "dec_of_int (int y) = [digit (y div 1000), digit (y div 100 mod 10), digit (y div 10 mod 10), digit (y mod 10)]"
    using assms dec_of_nat_4 [of y] by (simp add: dec_of_int_def)
  have yv: "int (y div 1000) * 1000 + int (y div 100 mod 10) * 100 + int (y div 10 mod 10) * 10 + int (y mod 10) = int y"
  proof -
    have "y div 10 div 10 = y div 100" "y div 100 div 10 = y div 1000" by (simp_all add: div_mult2_eq [symmetric])
    then show ?thesis
      using div_mult_mod_eq [of y 10] div_mult_mod_eq [of "y div 10" 10] div_mult_mod_eq [of "y div 100" 10] by linarith
  qed
  have yd: "schar (digit (y div 1000)) - 48 = int (y div 1000)"
    using less_mult_imp_div_less [of y 10 1000] assms by simp
  show ?thesis
    unfolding http_date_parse_def date_text_def w mon y4 using assms mi'
    by (simp add: dec_pad_2 dig_def two yd split2 yv [simplified] Let_def)
qed

lemma gmtime_clock:
  "tm_hour (gmtime t) < 24 \<and> tm_min (gmtime t) < 60 \<and> tm_sec (gmtime t) < 60 \<and> tm_wday (gmtime t) < 7
   \<and> int (tm_hour (gmtime t)) * 3600 + int (tm_min (gmtime t)) * 60 + int (tm_sec (gmtime t)) = t mod 86400"
proof -
  define s where "s = nat (t mod 86400)"
  have s: "s < 86400" "int s = t mod 86400" by (simp_all add: s_def nat_less_iff)
  have h: "s div 3600 < 24" using s less_mult_imp_div_less [of s 24 3600] by simp
  have "s div 60 = s div 3600 * 60 + s div 60 mod 60"
    using div_mult_mod_eq [of "s div 60" 60] by (simp add: div_mult2_eq [symmetric])
  then have "s = s div 3600 * 3600 + s div 60 mod 60 * 60 + s mod 60"
    using div_mult_mod_eq [of s 60] by linarith
  then have "int (s div 3600) * 3600 + int (s div 60 mod 60) * 60 + int (s mod 60) = t mod 86400"
    using s(2) by linarith
  moreover have "nat ((t div 86400 + 4) mod 7) < 7" by (simp add: nat_less_iff)
  moreover obtain y yd where y: "civil_year (t div 86400 mod 146097) 1970 = (y, yd)" by fastforce
  moreover obtain m d where m: "civil_month yd (month_lengths y) 0 = (m, d)" by fastforce
  ultimately show ?thesis
    using h unfolding gmtime_def s_def [symmetric] Let_def y prod.case m tm.select_convs by simp
qed

lemma http_date_length:
  assumes "0 \<le> t" and "t < 253402300800" and "30 \<le> n"
  shows "\<exists>w m d y h mi s. http_date_rfc7231 t n = date_text w d m y h mi s
    \<and> w \<in> set wdays \<and> length w = 3 \<and> m < 12 \<and> 1 \<le> d \<and> d \<le> 31 \<and> 1970 \<le> y \<and> y \<le> 9999 \<and> h < 24 \<and> mi < 60 \<and> s < 60
    \<and> days_from_civil (int y) (int m + 1) (int d) = t div 86400 \<and> int h * 3600 + int mi * 60 + int s = t mod 86400
    \<and> length (http_date_rfc7231 t n) = 29"
proof -
  note d = gmtime_date [OF assms(1,2)] and c = gmtime_clock [of t]
  obtain Y where y: "int Y = tm_year (gmtime t) + 1900" "1970 \<le> Y" "Y \<le> 9999"
    using d by (intro that [of "nat (tm_year (gmtime t) + 1900)"]) auto
  let ?tm = "gmtime t"
  let ?text = "date_text (wdays ! tm_wday ?tm) (tm_mday ?tm) (tm_mon ?tm) Y (tm_hour ?tm) (tm_min ?tm) (tm_sec ?tm)"
  have wl: "length (wdays ! tm_wday ?tm) = 3" using c length_wdays by blast
  have wd: "wdays ! tm_wday ?tm \<in> set wdays" using c by (intro nth_mem) (simp add: wdays_def)
  have "length (dec_of_int (int Y)) = 4" using y(2,3) dec_of_nat_4 [of Y] by (simp add: dec_of_int_def)
  then have l: "length ?text = 29"
    using wl month_index_months [of "tm_mon ?tm"] d c by (simp add: dec_pad_2 date_text_def)
  then have t: "http_date_rfc7231 t n = ?text"
    unfolding http_date_rfc7231_def snprintf_str_def Let_def y(1) [symmetric] using assms(3) by (simp add: date_text_def)
  have "days_from_civil (int Y) (int (tm_mon ?tm) + 1) (int (tm_mday ?tm)) = t div 86400" using d unfolding y(1) by simp
  moreover have "length (http_date_rfc7231 t n) = 29" using l t by simp
  ultimately show ?thesis using t wl wd y(2,3) d c by blast
qed

lemma calendar_letters: "list_all (list_all isalpha) wdays" "list_all (list_all isalpha) months"
  by code_simp+

definition date_char :: "char \<Rightarrow> bool" where
  "date_char c \<longleftrightarrow> isalnum c \<or> ucode c = 32 \<or> ucode c = 44 \<or> ucode c = 58"

lemma http_date_chars:
  assumes "0 \<le> t" and "t < 253402300800" and "30 \<le> n"
  shows "list_all date_char (http_date_rfc7231 t n)"
proof -
  obtain w m d y h mi s where x: "http_date_rfc7231 t n = date_text w d m y h mi s" and w: "w \<in> set wdays" and m: "m < 12"
    using http_date_length [OF assms] by blast
  have dc: "isalpha c \<or> isdigit c \<Longrightarrow> date_char c" for c by (auto simp: date_char_def isalnum_def)
  have dz: "isdigit (CHR ''0'')" by (simp add: isdigit_def)
  have mm: "months ! m \<in> set months" using m by (intro nth_mem) (simp add: months_def)
  have wm: "list_all date_char w" "list_all date_char (months ! m)"
    using w mm calendar_letters dc unfolding list_all_iff by blast+
  have pad: "list_all date_char (dec_pad k j)" for k j
    using dec_of_nat_digits [of j] dc dz by (auto simp: dec_pad_def Let_def list_all_iff)
  have "list_all date_char (dec_of_int (int y))" using dec_of_nat_digits [of y] dc by (auto simp: dec_of_int_def list_all_iff)
  with wm pad show ?thesis
    unfolding x date_text_def by (simp add: date_char_def isalnum_def isalpha_def isupper_def)
qed

subsection \<open>Properties\<close>

text \<open>
  C10: HTTP dates round-trip. Every time from the epoch to the end of the year 9999 is printed as
  29 characters into any buffer of at least 30 bytes, and parsing them returns the same time;
  in particular the closed formula of \<open>days_from_civil\<close> agrees with the calendar.
\<close>

theorem http_date_round_trip:
  assumes "0 \<le> t" and "t < 253402300800" and "30 \<le> n"
  shows "http_date_parse (http_date_rfc7231 t n) = t \<and> length (http_date_rfc7231 t n) = 29"
proof -
  obtain w m d y h mi s where x: "http_date_rfc7231 t n = date_text w d m y h mi s"
    and r: "length w = 3" "m < 12" "1 \<le> d" "d \<le> 31" "1970 \<le> y" "y \<le> 9999" "h < 24" "mi < 60" "s < 60"
    and v: "days_from_civil (int y) (int m + 1) (int d) = t div 86400" "int h * 3600 + int mi * 60 + int s = t mod 86400"
    and l: "length (http_date_rfc7231 t n) = 29"
    using http_date_length [OF assms] by blast
  show ?thesis
    using http_date_parse_shape [OF r] div_mult_mod_eq [of t 86400] l unfolding x v by simp
qed

theorem http_date_round_trip_witness:
  "http_date_parse (http_date_rfc7231 784111777 64) = 784111777 \<and> length (http_date_rfc7231 784111777 64) = 29"
  by (rule http_date_round_trip) simp_all

text \<open>
  The access log's time zone. \<open>mktime\<close> is the inverse of \<open>localtime\<close>, so the offset the source
  computes from the two is always zero: the line shows local time with the suffix \<open>+0000\<close> in every
  time zone.
\<close>

theorem clf_offset_always_zero:
  assumes "mktime (localtime t) = t"
  shows "\<exists>stamp. \<forall>n. http_date_clf localtime mktime t n = snprintf_str n (stamp @ '' +0000'')"
proof -
  have "dec_pad 2 0 = ''00''" by (simp add: dec_pad_def dec_of_nat.simps digit_def eval_simps)
  then show ?thesis
    using assms by (intro exI [of _ "dec_pad 2 (tm_mday (localtime t)) @ ''/'' @ months ! tm_mon (localtime t) @ ''/''
          @ dec_pad 4 (nat (tm_year (localtime t) + 1900)) @ '':'' @ dec_pad 2 (tm_hour (localtime t)) @ '':''
          @ dec_pad 2 (tm_min (localtime t)) @ '':'' @ dec_pad 2 (tm_sec (localtime t))"])
      (simp add: http_date_clf_def Let_def c_div_def)
qed

theorem clf_offset_always_zero_witness:
  "\<exists>stamp. \<forall>n. http_date_clf (\<lambda>t. gmtime (t - 25200)) (\<lambda>tm. if tm_mon tm < 12 then 971211336 else 0) 971211336 n
     = snprintf_str n (stamp @ '' +0000'')"
proof -
  have t: "(0::int) \<le> 971211336 - 25200" "971211336 - 25200 < (253402300800::int)" by simp_all
  show ?thesis
    by (rule clf_offset_always_zero) (use gmtime_date [OF t] in simp)
qed

text \<open>Texts that are not dates pass the check: the two characters of a field are never tested for
  being digits.\<close>

lemma http_date_parse_lax:
  "http_date_parse ''Xxx, 0: Nov 1994 -1:00:00 GMT'' = days_from_civil 1994 11 10 * 86400 - 29 * 3600"
  by (simp add: http_date_parse_def month_index_def months_def dig_def schar_def Let_def)

end
