(* ===== verification/Http_Response.thy ===== *)
theory Http_Response
  imports Http_Request Dates
begin

text \<open>
  \<open>src/http/response.c\<close>: assembling and serializing a response. The header text is kept as raw
  bytes in a \<open>Strbuf\<close>, as in the source; \<open>render_headers\<close> is the text of a list of fields, and the lemmas
  show that the line scanner of the source implements replace, append and lookup on that list.
  Function pointers (stream source, upgrade hook) are opaque addresses, \<^const>\<open>None\<close> for \<open>NULL\<close>.
\<close>

subsection \<open>The response\<close>

type_synonym ptr = "nat option"

record http_response =
  rs_status :: http_status
  rs_headers :: strbuf
  rs_body :: strbuf
  rs_suppress_body :: bool
  rs_keep_alive :: bool
  rs_no_layout :: bool
  rs_stream_fn :: ptr
  rs_stream_user :: ptr
  rs_stream_chunks :: "char list list"
  rs_stream_chunk_cap :: nat
  rs_upgrade_fn :: ptr
  rs_upgrade_user :: ptr

definition http_response_init :: http_response where
  "http_response_init = \<lparr>rs_status = 200, rs_headers = strbuf_init, rs_body = strbuf_init, rs_suppress_body = False,
     rs_keep_alive = False, rs_no_layout = False, rs_stream_fn = None, rs_stream_user = None, rs_stream_chunks = [],
     rs_stream_chunk_cap = 0, rs_upgrade_fn = None, rs_upgrade_user = None\<rparr>"

definition http_response_set_status :: "http_response \<Rightarrow> http_status \<Rightarrow> http_response" where
  "http_response_set_status res status = res\<lparr>rs_status := status\<rparr>"

text \<open>
  The test of one line of header text: \<open>s\<close> is the text from the start of the line on and \<open>past\<close>
  the byte behind the text.
\<close>

definition line_of :: "sv \<Rightarrow> sv" where
  "line_of s = takeWhile (\<lambda>c. c \<noteq> LF) s"

definition line_matches :: "sv \<Rightarrow> char \<Rightarrow> sv \<Rightarrow> bool" where
  "line_matches s past name \<longleftrightarrow>
     length (line_of s) \<ge> length name \<and> (if length name < length s then s ! length name else past) = CHR '':''
     \<and> list_all2 (\<lambda>a b. tolower a = tolower b) (take (length name) s) name"

text \<open>The copy loop of \<open>response_emit_header\<close>: the buffer and the name of the first dropped line.\<close>

function emit_lines :: "strbuf \<Rightarrow> sv \<Rightarrow> char \<Rightarrow> sv \<Rightarrow> sv option \<Rightarrow> strbuf \<times> sv option" where
  "emit_lines out s past name matched =
     (if s = [] then (out, matched)
      else
        let line = line_of s; rest = drop (length line) s; match = line_matches s past name;
            matched' = (if match \<and> matched = None then Some (take (length name) s) else matched);
            out1 = (if match then out
                    else let o1 = strbuf_append out line in if rest \<noteq> [] then strbuf_append_char o1 LF else o1)
        in emit_lines out1 (tl rest) past name matched')"
  by pat_completeness auto
termination
  by (relation "measure (\<lambda>(out, s, past, name, matched). length s)") (auto simp: line_of_def)

declare emit_lines.simps [simp del]

definition response_emit_header :: "http_response \<Rightarrow> char list \<Rightarrow> char list \<Rightarrow> bool \<Rightarrow> http_response" where
  "response_emit_header res name value replace =
     (if \<not> replace
      then res\<lparr>rs_headers :=
             strbuf_append_cstr (strbuf_append_cstr (strbuf_append_cstr (strbuf_append_cstr (rs_headers res) name) '': '') value) [CR, LF]\<rparr>
      else
        case emit_lines strbuf_init (strbuf_view (rs_headers res))
               (the (sb_items (rs_headers res) ! sb_count (rs_headers res))) (c_str name) None of
          (out, matched) \<Rightarrow>
            let out1 = strbuf_append out (case matched of Some m \<Rightarrow> m | None \<Rightarrow> c_str name);
                out2 = strbuf_append_cstr (strbuf_append_cstr (strbuf_append_cstr out1 '': '') value) [CR, LF]
            in res\<lparr>rs_headers := strbuf_null_terminate out2\<rparr>)"

definition http_response_set_header :: "http_response \<Rightarrow> char list \<Rightarrow> char list \<Rightarrow> http_response" where
  "http_response_set_header res name value = response_emit_header res name value True"

definition http_response_append_header :: "http_response \<Rightarrow> char list \<Rightarrow> char list \<Rightarrow> http_response" where
  "http_response_append_header res name value = response_emit_header res name value False"

definition http_response_set_header_replace :: "http_response \<Rightarrow> char list \<Rightarrow> char list \<Rightarrow> http_response" where
  "http_response_set_header_replace res name value = response_emit_header res name value True"

definition http_response_set_last_modified :: "http_response \<Rightarrow> int \<Rightarrow> http_response" where
  "http_response_set_last_modified res modified =
     http_response_set_header res ''Last-Modified'' (http_date_rfc7231 modified 32)"

definition http_response_add_body :: "http_response \<Rightarrow> sv \<Rightarrow> http_response" where
  "http_response_add_body res data = res\<lparr>rs_body := strbuf_append (rs_body res) data\<rparr>"

definition http_response_add_body_cstr :: "http_response \<Rightarrow> char list \<Rightarrow> http_response" where
  "http_response_add_body_cstr res text = res\<lparr>rs_body := strbuf_append_cstr (rs_body res) text\<rparr>"

definition http_response_set_stream :: "http_response \<Rightarrow> ptr \<Rightarrow> ptr \<Rightarrow> http_response" where
  "http_response_set_stream res fn user_data =
     res\<lparr>rs_stream_fn := fn, rs_stream_user := user_data, rs_body := strbuf_init, rs_suppress_body := False\<rparr>"

definition http_response_stream_write :: "http_response \<Rightarrow> char list \<Rightarrow> http_response" where
  "http_response_stream_write res data =
     (let res1 = (if rs_stream_fn res = None \<and> length (rs_stream_chunks res) = 0
                  then res\<lparr>rs_body := strbuf_init, rs_suppress_body := False\<rparr> else res);
          res2 = (if length (rs_stream_chunks res1) = rs_stream_chunk_cap res1
                  then res1\<lparr>rs_stream_chunk_cap := (if rs_stream_chunk_cap res1 \<noteq> 0 then rs_stream_chunk_cap res1 * 2 else 8)\<rparr>
                  else res1)
      in res2\<lparr>rs_stream_chunks := rs_stream_chunks res2 @ [data]\<rparr>)"

definition http_response_stream_write_cstr :: "http_response \<Rightarrow> char list \<Rightarrow> http_response" where
  "http_response_stream_write_cstr res str = http_response_stream_write res (c_str str)"

text \<open>
  The search of \<open>response_has_header\<close> and \<open>http_response_get_header\<close>: the text from the matching line
  on. The loop stops when the name no longer fits, so the byte behind the text is never read.
\<close>

function find_header_line :: "sv \<Rightarrow> sv \<Rightarrow> sv option" where
  "find_header_line s name =
     (if length name < length s
      then if line_matches s NUL name then Some s else find_header_line (tl (drop (length (line_of s)) s)) name
      else None)"
  by pat_completeness auto
termination
  by (relation "measure (\<lambda>(s, name). length s)") auto

declare find_header_line.simps [simp del]

definition response_has_header :: "http_response \<Rightarrow> char list \<Rightarrow> bool" where
  "response_has_header res name \<longleftrightarrow> find_header_line (strbuf_view (rs_headers res)) (c_str name) \<noteq> None"

definition trim_value :: "sv \<Rightarrow> sv" where
  "trim_value v =
     (let v1 = dropWhile (\<lambda>c. c = CHR '' '' \<or> c = CHR 0x09) v
      in rev (dropWhile (\<lambda>c. c = CHR '' '' \<or> c = CHR 0x09 \<or> c = CR) (rev v1)))"

definition http_response_get_header :: "http_response \<Rightarrow> char list \<Rightarrow> char list option" where
  "http_response_get_header res name =
     (case find_header_line (strbuf_view (rs_headers res)) (c_str name) of
        None \<Rightarrow> None
      | Some s \<Rightarrow> Some (c_str (trim_value (drop (length (c_str name) + 1) (line_of s)))))"

definition http_response_redirect :: "http_response \<Rightarrow> http_status \<Rightarrow> char list \<Rightarrow> http_response" where
  "http_response_redirect res status location =
     (let status1 = (if status \<in> {301, 302, 303, 307, 308} then status else 302);
          res1 = http_response_set_header (http_response_set_status res status1) ''Location'' location
      in if \<not> response_has_header res1 ''Content-Type''
         then http_response_set_header res1 ''Content-Type'' ''text/plain; charset=utf-8'' else res1)"

definition http_response_json_raw :: "http_response \<Rightarrow> http_status \<Rightarrow> char list \<Rightarrow> http_response" where
  "http_response_json_raw res status body =
     http_response_add_body_cstr
       (http_response_set_header_replace (http_response_set_status res status)
          ''Content-Type'' ''application/json; charset=utf-8'') body"

definition http_response_set_cors :: "http_response \<Rightarrow> char list \<Rightarrow> http_response" where
  "http_response_set_cors res origin =
     http_response_set_header (http_response_set_header res ''Access-Control-Allow-Origin'' origin) ''Vary'' ''Origin''"

definition http_response_set_cors_allow ::
  "http_response \<Rightarrow> char list \<Rightarrow> char list option \<Rightarrow> int \<Rightarrow> http_response" where
  "http_response_set_cors_allow res methods request_headers max_age_seconds =
     (let res1 = http_response_set_header res ''Access-Control-Allow-Methods'' methods;
          res2 = (case request_headers of
                    Some h \<Rightarrow> http_response_set_header res1 ''Access-Control-Allow-Headers'' h | None \<Rightarrow> res1)
      in if max_age_seconds > 0
         then http_response_set_header res2 ''Access-Control-Max-Age'' (snprintf_str 32 (dec_of_int max_age_seconds))
         else res2)"

text \<open>The second line scanner, which looks for the colon first.\<close>

function has_header_loop :: "sv \<Rightarrow> sv \<Rightarrow> bool" where
  "has_header_loop p name =
     (if p = [] then False
      else
        let line = line_of p; klen = sv_scan line (CHR '':'')
        in if klen = length name \<and> list_all2 (\<lambda>a b. toupper a = toupper b) (take klen p) name then True
           else if length line = length p then False
           else has_header_loop (drop (length line + 1) p) name)"
  by pat_completeness auto
termination
  by (relation "measure (\<lambda>(p, name). length p)") auto

declare has_header_loop.simps [simp del]

definition has_header :: "http_response \<Rightarrow> char list \<Rightarrow> bool" where
  "has_header res name = has_header_loop (strbuf_view (rs_headers res)) (c_str name)"

definition status_has_no_body :: "http_status \<Rightarrow> bool" where
  "status_has_no_body status \<longleftrightarrow> status < 200 \<or> status = 204 \<or> status = 304"

text \<open>The two formatted lines of the head.\<close>

definition status_line :: "http_status \<Rightarrow> char list" where
  "status_line status = ''HTTP/1.1 '' @ dec_of_nat status @ '' '' @ http_status_reason status @ [CR, LF]"

definition content_length_line :: "nat \<Rightarrow> char list" where
  "content_length_line n = ''Content-Length: '' @ dec_of_nat n @ [CR, LF]"

text \<open>\<open>now\<close> is the value of \<open>time(NULL)\<close>.\<close>

definition http_response_serialize_head :: "http_response \<Rightarrow> int \<Rightarrow> strbuf \<Rightarrow> strbuf" where
  "http_response_serialize_head res now out =
     (let informational = (100 \<le> rs_status res \<and> rs_status res < 200);
          out1 = strbuf_append_cstr out
            (snprintf_str 128 (status_line (rs_status res)));
          out2 = strbuf_append out1 (strbuf_view (rs_headers res));
          streaming = (rs_stream_fn res \<noteq> None \<or> length (rs_stream_chunks res) > 0);
          out3 = (if \<not> status_has_no_body (rs_status res)
                  then if streaming then strbuf_append_cstr out2 (''Transfer-Encoding: chunked'' @ [CR, LF])
                       else strbuf_append_cstr out2
                              (snprintf_str 64 (content_length_line (sb_count (rs_body res))))
                  else out2);
          out4 = (if \<not> informational \<and> \<not> has_header res ''date''
                  then strbuf_append_cstr (strbuf_append_cstr (strbuf_append_cstr out3 ''Date: '') (http_date_rfc7231 now 64)) [CR, LF]
                  else out3)
      in if informational then strbuf_append_cstr out4 [CR, LF]
         else strbuf_append_cstr
                (strbuf_append_cstr out4
                   ((if rs_keep_alive res then ''Connection: keep-alive'' else ''Connection: close'') @ [CR, LF]))
                [CR, LF])"

definition http_response_serialize :: "http_response \<Rightarrow> int \<Rightarrow> strbuf \<Rightarrow> strbuf" where
  "http_response_serialize res now out =
     (let out1 = http_response_serialize_head res now out
      in if rs_stream_fn res \<noteq> None \<or> length (rs_stream_chunks res) > 0 then out1
         else if \<not> status_has_no_body (rs_status res) \<and> \<not> rs_suppress_body res
              then strbuf_append out1 (strbuf_view (rs_body res))
              else out1)"

subsection \<open>Header text as a list of fields\<close>

definition field_line :: "char list \<times> char list \<Rightarrow> sv" where
  "field_line f = fst f @ '': '' @ snd f @ [CR, LF]"

definition render_headers :: "(char list \<times> char list) list \<Rightarrow> sv" where
  "render_headers fs = concat (map field_line fs)"

definition name_ok :: "char list \<Rightarrow> bool" where
  "name_ok n \<longleftrightarrow> n \<noteq> [] \<and> list_all (\<lambda>c. c \<noteq> CHR '':'' \<and> c \<noteq> CR \<and> c \<noteq> LF \<and> c \<noteq> NUL) n"

definition value_ok :: "char list \<Rightarrow> bool" where
  "value_ok v \<longleftrightarrow> list_all (\<lambda>c. c \<noteq> CR \<and> c \<noteq> LF \<and> c \<noteq> NUL) v"

abbreviation field_ok :: "char list \<times> char list \<Rightarrow> bool" where
  "field_ok f \<equiv> name_ok (fst f) \<and> value_ok (snd f)"

definition same_name :: "char list \<Rightarrow> char list \<Rightarrow> bool" where
  "same_name a b \<longleftrightarrow> map tolower a = map tolower b"

lemma same_name_refl [simp]: "same_name a a" by (simp add: same_name_def)

lemma same_name_sym: "same_name a b \<Longrightarrow> same_name b a" by (simp add: same_name_def)

lemma same_name_trans: "same_name a b \<Longrightarrow> same_name b c \<Longrightarrow> same_name a c" by (simp add: same_name_def)

lemma tolower_colon: "tolower c = CHR '':'' \<longleftrightarrow> c = CHR '':''"
proof
  assume a: "tolower c = CHR '':''"
  have "ucode (tolower c) = ucode c + 32" if "isupper c" using that by (simp add: tolower_def isupper_def)
  moreover have "ucode (tolower c) = 58" using a by simp
  ultimately have "\<not> isupper c" by (auto simp: isupper_def)
  then show "c = CHR '':''" using a by (simp add: tolower_def)
qed (simp add: tolower_def isupper_def)

lemma name_ok_facts: "name_ok n \<Longrightarrow> CHR '':'' \<notin> set n \<and> LF \<notin> set n \<and> NUL \<notin> set n \<and> c_str n = n"
  unfolding name_ok_def list_all_iff by (intro conjI c_str_id) blast+

lemma value_ok_facts: "value_ok v \<Longrightarrow> LF \<notin> set v \<and> NUL \<notin> set v \<and> c_str v = v"
  unfolding value_ok_def list_all_iff by (intro conjI c_str_id) blast+

lemma line_of_field: "field_ok f \<Longrightarrow> line_of (field_line f @ t) = fst f @ '': '' @ snd f @ [CR]"
  using name_ok_facts [of "fst f"] value_ok_facts [of "snd f"]
    takeWhile_append_stop [of "\<lambda>c. c \<noteq> LF" "fst f @ '': '' @ snd f @ [CR]" LF t]
  by (simp add: line_of_def field_line_def)

lemma list_all2_map: "list_all2 (\<lambda>a b. f a = f b) xs ys \<longleftrightarrow> map f xs = map f ys"
  by (auto simp: list_all2_conv_all_nth list_eq_iff_nth_eq)

lemma line_matches_field:
  assumes "field_ok f" and "name_ok name"
  shows "line_matches (field_line f @ t) past name \<longleftrightarrow> same_name (fst f) name"
proof -
  let ?s = "field_line f @ t" and ?k = "length name"
  have no: "CHR '':'' \<notin> set (fst f)" "CHR '':'' \<notin> set name" using assms name_ok_facts by auto
  have at: "?s ! length (fst f) = CHR '':''" "length (fst f) < length ?s" by (simp_all add: field_line_def nth_append)
  consider "?k < length (fst f)" | "?k = length (fst f)" | "?k > length (fst f)" by linarith
  then show ?thesis
  proof cases
    case 1
    then have "?s ! ?k \<in> set (fst f)" by (simp add: field_line_def nth_append)
    then have "?s ! ?k \<noteq> CHR '':''" using no by metis
    moreover have "\<not> same_name (fst f) name" using 1 map_eq_imp_length_eq by (fastforce simp: same_name_def)
    ultimately show ?thesis using 1 at by (simp add: line_matches_def)
  next
    case 2
    have "take ?k ?s = fst f" using 2 by (simp add: field_line_def)
    then show ?thesis
      using 2 at line_of_field [OF assms(1), of t] by (simp add: line_matches_def list_all2_map same_name_def)
  next
    case 3
    have "map tolower (take ?k ?s) \<noteq> map tolower name"
    proof
      assume eq: "map tolower (take ?k ?s) = map tolower name"
      have i: "length (fst f) < length (take ?k ?s)" using 3 at(2) by simp
      have "map tolower (take ?k ?s) ! length (fst f) = tolower (CHR '':'')"
        using i at 3 by (simp only: nth_map nth_take)
      then have "tolower (name ! length (fst f)) = CHR '':''" using eq 3 by (simp add: tolower_colon)
      then show False using no(2) 3 by (metis tolower_colon nth_mem)
    qed
    moreover have "\<not> same_name (fst f) name" using 3 map_eq_imp_length_eq by (fastforce simp: same_name_def)
    ultimately show ?thesis by (simp add: line_matches_def list_all2_map)
  qed
qed

lemma render_headers_simps [simp]:
  "render_headers [] = []" "render_headers (f # fs) = field_line f @ render_headers fs"
  "render_headers (fs @ gs) = render_headers fs @ render_headers gs"
  by (simp_all add: render_headers_def)

lemma drop_line: "field_ok f \<Longrightarrow> drop (length (line_of (field_line f @ t))) (field_line f @ t) = LF # t"
  using append_eq_conv_conj [of "fst f @ '': '' @ snd f @ [CR]" "LF # t" "field_line f @ t"]
  by (simp only: line_of_field) (simp add: field_line_def)

lemma field_line_nonempty [simp]: "field_line f \<noteq> []" by (simp add: field_line_def)

lemma emit_lines_render:
  "list_all field_ok fs \<Longrightarrow> name_ok name \<Longrightarrow> strbuf_inv out \<Longrightarrow>
   case emit_lines out (render_headers fs) past name matched of (out', matched') \<Rightarrow>
     strbuf_inv out' \<and> strbuf_view out' = strbuf_view out @ render_headers (filter (\<lambda>f. \<not> same_name (fst f) name) fs)
     \<and> matched' = (case matched of Some m \<Rightarrow> Some m
                    | None \<Rightarrow> map_option fst (List.find (\<lambda>f. same_name (fst f) name) fs))"
proof (induction fs arbitrary: out matched)
  case Nil
  then show ?case by (simp add: emit_lines.simps split: option.splits)
next
  case (Cons f fs)
  let ?s = "field_line f @ render_headers fs"
  have f: "field_ok f" using Cons.prems by simp
  show ?case
  proof (cases "same_name (fst f) name")
    case True
    have "length name = length (fst f)" using True map_eq_imp_length_eq by (fastforce simp: same_name_def)
    then have t: "take (length name) ?s = fst f" by (simp add: field_line_def)
    have "emit_lines out ?s past name matched
        = emit_lines out (render_headers fs) past name (if matched = None then Some (fst f) else matched)"
      using True by (subst emit_lines.simps) (simp add: Let_def drop_line [OF f] line_matches_field [OF f Cons.prems(2)] t del: drop_append take_append)
    then show ?thesis
      using Cons.IH [of out "if matched = None then Some (fst f) else matched"] Cons.prems True
      by (auto split: option.splits)
  next
    case False
    let ?o = "strbuf_append_char (strbuf_append out (line_of ?s)) LF"
    have o: "strbuf_inv ?o" "strbuf_view ?o = strbuf_view out @ field_line f"
      using Cons.prems line_of_field [OF f, of "render_headers fs"]
      by (simp_all add: view_simps inv_intros field_line_def)
    have "emit_lines out ?s past name matched = emit_lines ?o (render_headers fs) past name matched"
      using False by (subst emit_lines.simps) (simp add: Let_def drop_line [OF f] line_matches_field [OF f Cons.prems(2)] del: drop_append drop_eq_Nil drop_eq_Nil2)
    then show ?thesis using Cons.IH [of ?o matched] Cons.prems o False by (simp split: option.splits prod.splits)
  qed
qed

lemma find_header_line_render:
  "list_all field_ok fs \<Longrightarrow> name_ok name \<Longrightarrow>
   (case List.find (\<lambda>f. same_name (fst f) name) fs of
      None \<Rightarrow> find_header_line (render_headers fs) name = None
    | Some f \<Rightarrow> \<exists>t. find_header_line (render_headers fs) name = Some (field_line f @ t))"
proof (induction fs)
  case Nil
  then show ?case by (simp add: find_header_line.simps name_ok_def)
next
  case (Cons f fs)
  let ?s = "field_line f @ render_headers fs"
  have f: "field_ok f" using Cons.prems by simp
  show ?case
  proof (cases "same_name (fst f) name")
    case True
    have "length name = length (fst f)" using True map_eq_imp_length_eq by (fastforce simp: same_name_def)
    then have "length name < length ?s" by (simp add: field_line_def)
    then have "find_header_line ?s name = Some ?s"
      using True by (simp add: find_header_line.simps [of ?s] line_matches_field [OF f Cons.prems(2)])
    then show ?thesis using True by auto
  next
    case False
    have short: "find_header_line (render_headers fs) name = None" if "\<not> length name < length ?s"
      using that by (simp add: find_header_line.simps [of "render_headers fs"])
    have "find_header_line ?s name = find_header_line (render_headers fs) name"
      using False short by (subst find_header_line.simps) (simp add: drop_line [OF f] line_matches_field [OF f Cons.prems(2)] del: drop_append)
    then show ?thesis using Cons False by (auto split: option.splits)
  qed
qed

subsection \<open>Operations on the fields\<close>

text \<open>The response carries the fields \<open>fs\<close>.\<close>

definition carries :: "http_response \<Rightarrow> (char list \<times> char list) list \<Rightarrow> bool" where
  "carries res fs \<longleftrightarrow> strbuf_inv (rs_headers res) \<and> strbuf_view (rs_headers res) = render_headers fs \<and> list_all field_ok fs"

definition field_spelling :: "(char list \<times> char list) list \<Rightarrow> char list \<Rightarrow> char list" where
  "field_spelling fs name = (case List.find (\<lambda>f. same_name (fst f) name) fs of Some f \<Rightarrow> fst f | None \<Rightarrow> name)"

definition replace_field :: "(char list \<times> char list) list \<Rightarrow> char list \<Rightarrow> char list \<Rightarrow> (char list \<times> char list) list" where
  "replace_field fs name value =
     filter (\<lambda>f. \<not> same_name (fst f) name) fs @ [(field_spelling fs name, value)]"

lemma carries_init [simp]: "carries http_response_init []"
  by (simp add: carries_def http_response_init_def)

lemma field_spelling_ok:
  assumes "list_all field_ok fs" and "name_ok name"
  shows "name_ok (field_spelling fs name)" "same_name (field_spelling fs name) name"
proof -
  consider "List.find (\<lambda>f. same_name (fst f) name) fs = None"
    | f where "List.find (\<lambda>f. same_name (fst f) name) fs = Some f" "f \<in> set fs" "same_name (fst f) name"
    by (cases "List.find (\<lambda>f. same_name (fst f) name) fs") (auto simp: find_Some_iff)
  then show "name_ok (field_spelling fs name)" "same_name (field_spelling fs name) name"
    using assms by (cases; auto simp: field_spelling_def list_all_iff)+
qed

lemma crlf_cstr [simp]: "c_str [CR, LF] = [CR, LF]" "c_str '': '' = '': ''"
  by (simp_all add: c_str_def)

lemma set_header_carries:
  assumes "carries res fs" and "name_ok name" and "value_ok value"
  shows "carries (http_response_set_header res name value) (replace_field fs name value)"
proof -
  let ?past = "the (sb_items (rs_headers res) ! sb_count (rs_headers res))"
  obtain out m where e: "emit_lines strbuf_init (render_headers fs) ?past name None = (out, m)" by fastforce
  have fs: "list_all field_ok fs" and v: "strbuf_view (rs_headers res) = render_headers fs"
    using assms(1) by (simp_all add: carries_def)
  have o: "strbuf_inv out" "strbuf_view out = render_headers (filter (\<lambda>f. \<not> same_name (fst f) name) fs)"
      "m = map_option fst (List.find (\<lambda>f. same_name (fst f) name) fs)"
    using emit_lines_render [OF fs assms(2) strbuf_inv_init, where past = ?past and matched = None] e by simp_all
  have n: "(case m of Some m \<Rightarrow> m | None \<Rightarrow> name) = field_spelling fs name"
    by (simp add: o(3) field_spelling_def split: option.splits)
  have cn: "c_str name = name" using name_ok_facts [OF assms(2)] by blast
  let ?out = "strbuf_append_cstr (strbuf_append_cstr (strbuf_append_cstr
      (strbuf_append out (field_spelling fs name)) '': '') value) [CR, LF]"
  have w: "strbuf_inv ?out" "strbuf_view ?out = render_headers (replace_field fs name value)"
    using o(1,2) value_ok_facts [OF assms(3)]
    by (simp_all add: view_simps inv_intros replace_field_def field_line_def)
  have "http_response_set_header res name value = res\<lparr>rs_headers := strbuf_null_terminate ?out\<rparr>"
    unfolding http_response_set_header_def response_emit_header_def v cn e prod.case Let_def n by simp
  moreover have "list_all field_ok (replace_field fs name value)"
    using fs assms(2,3) field_spelling_ok [OF fs assms(2)] by (simp add: replace_field_def list_all_iff)
  ultimately show ?thesis
    using strbuf_null_terminate_facts [OF w(1)] w(2) by (simp add: carries_def)
qed

lemma append_header_carries:
  assumes "carries res fs" and "name_ok name" and "value_ok value"
  shows "carries (http_response_append_header res name value) (fs @ [(name, value)])"
  using assms name_ok_facts [OF assms(2)] value_ok_facts [OF assms(3)]
  by (simp add: carries_def http_response_append_header_def response_emit_header_def view_simps inv_intros field_line_def)

lemma get_header_carries:
  assumes "carries res fs" and "name_ok name"
  shows "http_response_get_header res name =
    map_option (\<lambda>f. trim_value (CHR '' '' # snd f @ [CR])) (List.find (\<lambda>f. same_name (fst f) name) fs)"
proof -
  note f = find_header_line_render [of fs name] and n = name_ok_facts [OF assms(2)]
  show ?thesis
  proof (cases "List.find (\<lambda>f. same_name (fst f) name) fs")
    case None
    then show ?thesis using f assms n by (simp add: http_response_get_header_def carries_def)
  next
    case (Some g)
    then have g: "field_ok g" "same_name (fst g) name"
      using assms(1) by (auto simp: carries_def find_Some_iff list_all_length)
    then have l: "length name = length (fst g)" using map_eq_imp_length_eq by (fastforce simp: same_name_def)
    obtain t where t: "find_header_line (render_headers fs) name = Some (field_line g @ t)"
      using f Some assms by (auto simp: carries_def)
    have "set (trim_value x) \<subseteq> set x" for x
      by (auto simp: trim_value_def Let_def dest!: set_dropWhileD)
    from this [of "CHR '' '' # snd g @ [CR]"] have "NUL \<notin> set (trim_value (CHR '' '' # snd g @ [CR]))"
      using value_ok_facts [of "snd g"] g by auto
    then show ?thesis
      using Some t assms n l line_of_field [OF g(1), of t]
      by (simp add: http_response_get_header_def carries_def c_str_id)
  qed
qed

lemma has_header_carries:
  assumes "carries res fs" and "name_ok name"
  shows "response_has_header res name \<longleftrightarrow> (\<exists>f \<in> set fs. same_name (fst f) name)"
  using assms find_header_line_render [of fs name] name_ok_facts [OF assms(2)]
  by (auto simp: response_has_header_def carries_def find_None_iff find_Some_iff split: option.splits)

subsection \<open>Serialization\<close>

text \<open>The lines of the head behind the fields of the handler.\<close>

definition framing_fields :: "http_response \<Rightarrow> (char list \<times> char list) list" where
  "framing_fields res =
     (if status_has_no_body (rs_status res) then []
      else if rs_stream_fn res \<noteq> None \<or> rs_stream_chunks res \<noteq> [] then [(''Transfer-Encoding'', ''chunked'')]
      else [(''Content-Length'', dec_of_nat (sb_count (rs_body res)))])"

definition date_fields :: "http_response \<Rightarrow> int \<Rightarrow> (char list \<times> char list) list" where
  "date_fields res now = (if has_header res ''date'' then [] else [(''Date'', http_date_rfc7231 now 64)])"

definition head_text :: "http_response \<Rightarrow> int \<Rightarrow> (char list \<times> char list) list \<Rightarrow> sv" where
  "head_text res now fs =
     status_line (rs_status res) @ render_headers (fs @ framing_fields res @ date_fields res now
         @ [(''Connection'', if rs_keep_alive res then ''keep-alive'' else ''close'')]) @ [CR, LF]"

definition reason_ok :: "char list \<Rightarrow> bool" where
  "reason_ok r \<longleftrightarrow> length r \<le> 22 \<and> list_all (\<lambda>c. c \<noteq> NUL \<and> c \<noteq> LF \<and> c \<noteq> CR) r"

lemma reason_ok: "reason_ok (http_status_reason st)"
proof -
  have t: "list_all (\<lambda>p. reason_ok (snd p)) http_status_table" "reason_ok ''Unknown''" by code_simp+
  then have "reason_ok r" if "map_of http_status_table st = Some r" for r
    using map_of_SomeD [OF that] by (auto simp: list_all_iff)
  then show ?thesis using t(2) unfolding http_status_reason_def by (cases "map_of http_status_table st") simp_all
qed

lemma reason_short: "length (http_status_reason st) \<le> 22 \<and> NUL \<notin> set (http_status_reason st) \<and> LF \<notin> set (http_status_reason st)
    \<and> CR \<notin> set (http_status_reason st)"
  using reason_ok [of st] unfolding reason_ok_def list_all_iff by blast

lemma decimal_cstr: "NUL \<notin> set (dec_of_nat n)" "CR \<notin> set (dec_of_nat n)" "LF \<notin> set (dec_of_nat n)"
  using digits_no_break by (fastforce simp: isdigit_def)+

lemma status_line_text:
  assumes "st < 1000"
  shows "c_str (snprintf_str 128 (status_line st)) = status_line st"
proof -
  have "length (dec_of_nat st) \<le> 3" using assms length_dec_of_nat [of st 3] by simp
  then have "snprintf_str 128 (status_line st) = status_line st"
    unfolding snprintf_str_def using reason_short [of st] by (intro take_all) (simp add: status_line_def)
  then show ?thesis
    using reason_short [of st] decimal_cstr(1) [of st] by (simp only:) (intro c_str_id, simp add: status_line_def)
qed

lemma content_length_text:
  assumes "n < 2 ^ 64"
  shows "c_str (snprintf_str 64 (content_length_line n)) = content_length_line n"
proof -
  have "length (dec_of_nat n) \<le> 20" using assms length_dec_of_nat [of n 20] by simp
  then have "snprintf_str 64 (content_length_line n) = content_length_line n"
    unfolding snprintf_str_def by (intro take_all) (simp add: content_length_line_def)
  then show ?thesis using decimal_cstr(1) [of n] by (simp only:) (intro c_str_id, simp add: content_length_line_def)
qed

lemma http_date_cstr:
  assumes "0 \<le> t" and "t < 253402300800"
  shows "c_str (http_date_rfc7231 t 64) = http_date_rfc7231 t 64" and "value_ok (http_date_rfc7231 t 64)"
proof -
  have "c \<noteq> NUL \<and> c \<noteq> CR \<and> c \<noteq> LF" if "date_char c" for c
    using that by (intro conjI notI) (simp_all add: date_char_def isalnum_def isalpha_def isupper_def islower_def isdigit_def)
  then have c: "c \<noteq> NUL \<and> c \<noteq> CR \<and> c \<noteq> LF" if "c \<in> set (http_date_rfc7231 t 64)" for c
    using http_date_chars [OF assms, of 64] that by (simp add: list_all_iff)
  show "c_str (http_date_rfc7231 t 64) = http_date_rfc7231 t 64" using c by (intro c_str_id) blast
  show "value_ok (http_date_rfc7231 t 64)" unfolding value_ok_def list_all_iff using c by blast
qed

lemma writes_serialize_head:
  assumes "carries res fs" and "rs_status res < 1000" and "200 \<le> rs_status res" and "sb_count (rs_body res) < 2 ^ 64"
    and "0 \<le> now" and "now < 253402300800"
  shows "sb.writes (http_response_serialize_head res now) (head_text res now fs)"
proof (rule sb.writesI)
  fix out assume i: "strbuf_inv out"
  have e: "c_str ''Date: '' = ''Date: ''" "c_str (''Transfer-Encoding: chunked'' @ [CR, LF]) = ''Transfer-Encoding: chunked'' @ [CR, LF]"
    "c_str ((if b then ''Connection: keep-alive'' else ''Connection: close'') @ [CR, LF])
      = (if b then ''Connection: keep-alive'' else ''Connection: close'') @ [CR, LF]" for b
    by (simp_all add: c_str_def)
  have v: "strbuf_view (rs_headers res) = render_headers fs" using assms(1) by (simp add: carries_def)
  have l: "field_line (''Content-Length'', dec_of_nat n) = content_length_line n"
    "field_line (''Transfer-Encoding'', ''chunked'') = ''Transfer-Encoding: chunked'' @ [CR, LF]"
    "field_line (''Date'', d) = ''Date: '' @ d @ [CR, LF]"
    "field_line (''Connection'', if b then ''keep-alive'' else ''close'')
      = (if b then ''Connection: keep-alive'' else ''Connection: close'') @ [CR, LF]" for n d b
    by (simp_all add: field_line_def content_length_line_def)
  show "strbuf_inv (http_response_serialize_head res now out)
      \<and> strbuf_view (http_response_serialize_head res now out) = strbuf_view out @ head_text res now fs"
    using i assms(2,3)
    by (simp add: http_response_serialize_head_def Let_def view_simps inv_intros v status_line_text e
        content_length_text [OF assms(4)] http_date_cstr [OF assms(5,6)] head_text_def framing_fields_def date_fields_def l c_str_cons)
qed

lemma serialize_view:
  assumes "carries res fs" and "rs_status res < 1000" and "200 \<le> rs_status res" and "sb_count (rs_body res) < 2 ^ 64"
    and "0 \<le> now" and "now < 253402300800" and "strbuf_inv out"
  shows "strbuf_view (http_response_serialize res now out) = strbuf_view out @ head_text res now fs
    @ (if rs_stream_fn res \<noteq> None \<or> rs_stream_chunks res \<noteq> [] \<or> status_has_no_body (rs_status res) \<or> rs_suppress_body res
       then [] else strbuf_view (rs_body res))"
proof -
  have w: "strbuf_inv (http_response_serialize_head res now out)"
      "strbuf_view (http_response_serialize_head res now out) = strbuf_view out @ head_text res now fs"
    using sb.writes_inv [OF writes_serialize_head [OF assms(1-6)] assms(7)]
      sb.writes_view [OF writes_serialize_head [OF assms(1-6)] assms(7)] by simp_all
  then show ?thesis by (simp add: http_response_serialize_def Let_def sb.view_put)
qed

text \<open>The head as a block of lines in the sense of the request parser.\<close>

definition head_lines :: "http_response \<Rightarrow> int \<Rightarrow> (char list \<times> char list) list \<Rightarrow> sv list" where
  "head_lines res now fs =
     (''HTTP/1.1 '' @ dec_of_nat (rs_status res) @ '' '' @ http_status_reason (rs_status res))
     # map (\<lambda>f. fst f @ '': '' @ snd f) (fs @ framing_fields res @ date_fields res now
         @ [(''Connection'', if rs_keep_alive res then ''keep-alive'' else ''close'')])"

lemma head_text_block: "head_text res now fs = header_block (head_lines res now fs)"
proof -
  have "render_headers gs = concat (map crlf_line (map (\<lambda>f. fst f @ '': '' @ snd f) gs))" for gs
    by (induction gs) (simp_all add: field_line_def crlf_line_def)
  then show ?thesis
    unfolding head_text_def head_lines_def header_block_def by (simp add: crlf_line_def status_line_def)
qed

lemma own_fields_ok:
  assumes "0 \<le> now" and "now < 253402300800"
  shows "list_all field_ok (framing_fields res @ date_fields res now
    @ [(''Connection'', if rs_keep_alive res then ''keep-alive'' else ''close'')])"
proof -
  have "value_ok (dec_of_nat n)" for n
    using decimal_cstr [of n] unfolding value_ok_def list_all_iff by metis
  then show ?thesis
    using http_date_cstr(2) [OF assms]
    by (simp add: framing_fields_def date_fields_def) (simp add: name_ok_def value_ok_def)
qed

lemma head_lines_ok:
  assumes "list_all field_ok fs" and "0 \<le> now" and "now < 253402300800"
  shows "list_all (\<lambda>l. l \<noteq> [] \<and> CR \<notin> set l) (head_lines res now fs)"
proof -
  have f: "CR \<notin> set (fst f @ '': '' @ snd f) \<and> fst f @ '': '' @ snd f \<noteq> []" if "field_ok f" for f
    using that by (auto simp: name_ok_def value_ok_def list_all_iff)
  then have g: "list_all (\<lambda>l. l \<noteq> [] \<and> CR \<notin> set l) (map (\<lambda>f. fst f @ '': '' @ snd f) gs)" if "list_all field_ok gs" for gs
    using that by (induction gs) simp_all
  have "list_all field_ok (fs @ framing_fields res @ date_fields res now
      @ [(''Connection'', if rs_keep_alive res then ''keep-alive'' else ''close'')])"
    using assms(1) own_fields_ok [OF assms(2,3), of res] by (simp add: list_all_append)
  from g [OF this] show ?thesis
    unfolding head_lines_def using reason_short [of "rs_status res"] decimal_cstr(2) by simp
qed

subsection \<open>Properties\<close>

text \<open>
  Response headers. On a response whose header text is a list of well-formed fields, setting
  a field leaves exactly one field of that name (any case), reading it back gives the value
  without surrounding blanks, and every other field reads as before; appending keeps the earlier
  fields of the same name.
\<close>

theorem set_header_correct:
  assumes "carries res fs" and "name_ok name" and "value_ok value" and "name_ok other" and "\<not> same_name other name"
  shows "carries (http_response_set_header res name value) (replace_field fs name value)
    \<and> http_response_get_header (http_response_set_header res name value) name = Some (trim_value (CHR '' '' # value @ [CR]))
    \<and> http_response_get_header (http_response_set_header res name value) other = http_response_get_header res other
    \<and> carries (http_response_append_header res name value) (fs @ [(name, value)])"
proof -
  let ?res = "http_response_set_header res name value"
  note c = set_header_carries [OF assms(1-3)]
  have fs: "list_all field_ok fs" using assms(1) by (simp add: carries_def)
  have sp: "same_name (field_spelling fs name) name" using field_spelling_ok(2) [OF fs assms(2)] .
  have skip: "List.find P (filter Q xs @ ys) = (case List.find P xs of None \<Rightarrow> List.find P ys | x \<Rightarrow> x)"
    if "\<And>x. P x \<Longrightarrow> Q x" for P Q and xs ys :: "(char list \<times> char list) list"
    using that by (induction xs) auto
  have none: "List.find P (filter (\<lambda>x. \<not> P x) xs @ ys) = List.find P ys" for P and xs ys :: "(char list \<times> char list) list"
    by (induction xs) auto
  have "List.find (\<lambda>f. same_name (fst f) name) (replace_field fs name value) = Some (field_spelling fs name, value)"
    unfolding replace_field_def none using sp by simp
  moreover have "List.find (\<lambda>f. same_name (fst f) other) (replace_field fs name value)
      = List.find (\<lambda>f. same_name (fst f) other) fs"
  proof -
    have "\<not> same_name (field_spelling fs name) other" using sp assms(5) same_name_sym same_name_trans by blast
    moreover have "same_name (fst f) other \<Longrightarrow> \<not> same_name (fst f) name" for f :: "char list \<times> char list"
      using assms(5) same_name_sym same_name_trans by blast
    ultimately show ?thesis
      unfolding replace_field_def by (subst skip) (auto split: option.splits)
  qed
  ultimately show ?thesis
    using c append_header_carries [OF assms(1-3)] get_header_carries [OF c assms(2)] get_header_carries [OF c assms(4)]
      get_header_carries [OF assms(1,4)] by simp
qed

theorem set_header_correct_witness:
  "http_response_get_header (http_response_set_header http_response_init ''Content-Type'' ''text/html'') ''Content-Type''
     = Some ''text/html''"
proof -
  have "name_ok ''Content-Type''" "value_ok ''text/html''" "name_ok ''Vary''" "\<not> same_name ''Vary'' ''Content-Type''"
    by (simp_all add: name_ok_def value_ok_def same_name_def)
  from set_header_correct [OF carries_init this] show ?thesis by (simp add: trim_value_def)
qed



end
