(* ===== verification/Forms.thy ===== *)
theory Forms
  imports Strmap Codecs Http_Response
begin

text \<open>
  What a request carries besides its path: \<open>src/http/params.c\<close> (query strings and url-encoded
  bodies), \<open>src/http/cookie.c\<close> and \<open>src/http/multipart.c\<close>. All of them fill a \<open>Str_Map\<close>; the
  proofs use the table only through the interpreted contract \<open>string_map\<close>. A result \<^const>\<open>None\<close>
  would be a table operation that does not return; the properties show that it does not occur.
\<close>

subsection \<open>Parameters\<close>

definition params_key :: "sv \<Rightarrow> sv" where
  "params_key pair = take (sv_scan pair (CHR ''='')) pair"

definition params_value :: "sv \<Rightarrow> sv" where
  "params_value pair =
     (let eq = sv_scan pair (CHR ''='') in if eq < length pair then drop (eq + 1) pair else [])"

fun params_loop :: "str_map \<Rightarrow> sv list \<Rightarrow> (int \<times> str_map) option" where
  "params_loop m [] = Some (0, m)"
| "params_loop m (pair # pairs) =
     (if length pair = 0 then params_loop m pairs
      else
        case url_decode_alloc (params_key pair) of
          None \<Rightarrow> Some (-1, m)
        | Some dk \<Rightarrow>
            (case url_decode_alloc (params_value pair) of
               None \<Rightarrow> Some (-1, m)
             | Some dv \<Rightarrow>
                 (case strmap_set m (sv_from_cstr dk) (sv_from_cstr dv) of
                    None \<Rightarrow> None
                  | Some (rc, m') \<Rightarrow> if rc \<noteq> 0 then Some (-1, m') else params_loop m' pairs)))"

definition params_parse_into :: "str_map \<Rightarrow> sv \<Rightarrow> (int \<times> str_map) option" where
  "params_parse_into m s = params_loop m (sv_pieces s (CHR ''&''))"

subsection \<open>Cookies\<close>

datatype cookie_samesite = COOKIE_SAMESITE_DEFAULT | COOKIE_SAMESITE_NONE | COOKIE_SAMESITE_LAX | COOKIE_SAMESITE_STRICT

record cookie_attrs =
  ca_path :: "char list option"
  ca_max_age :: int
  ca_http_only :: bool
  ca_secure :: bool
  ca_same_site :: cookie_samesite

definition cookie_attr_text :: "strbuf \<Rightarrow> cookie_attrs \<Rightarrow> strbuf" where
  "cookie_attr_text h attrs =
     (let h1 = (case ca_path attrs of Some p \<Rightarrow> strbuf_append_cstr (strbuf_append_cstr h ''; Path='') p | None \<Rightarrow> h);
          h2 = (if ca_max_age attrs \<ge> 0
                then strbuf_append_cstr h1 (snprintf_str 32 (''; Max-Age='' @ dec_of_int (ca_max_age attrs))) else h1);
          h3 = (if ca_http_only attrs then strbuf_append_cstr h2 ''; HttpOnly'' else h2);
          h4 = (if ca_secure attrs \<or> ca_same_site attrs = COOKIE_SAMESITE_NONE
                then strbuf_append_cstr h3 ''; Secure'' else h3)
      in case ca_same_site attrs of
           COOKIE_SAMESITE_NONE \<Rightarrow> strbuf_append_cstr h4 ''; SameSite=None''
         | COOKIE_SAMESITE_LAX \<Rightarrow> strbuf_append_cstr h4 ''; SameSite=Lax''
         | COOKIE_SAMESITE_STRICT \<Rightarrow> strbuf_append_cstr h4 ''; SameSite=Strict''
         | COOKIE_SAMESITE_DEFAULT \<Rightarrow> h4)"

definition http_response_set_cookie ::
  "http_response \<Rightarrow> char list \<Rightarrow> char list \<Rightarrow> cookie_attrs option \<Rightarrow> http_response" where
  "http_response_set_cookie res name value attrs =
     (let h = strbuf_append_cstr (strbuf_append_char (strbuf_append_cstr strbuf_init name) (CHR ''='')) value;
          h1 = (case attrs of Some a \<Rightarrow> cookie_attr_text h a | None \<Rightarrow> h)
      in http_response_append_header res ''Set-Cookie'' (strbuf_cstr (strbuf_null_terminate h1)))"

definition strip_quotes :: "sv \<Rightarrow> sv" where
  "strip_quotes value =
     (if length value \<ge> 2 \<and> value ! 0 = DQUOTE \<and> value ! (length value - 1) = DQUOTE
      then take (length value - 2) (drop 1 value) else value)"

fun cookie_loop :: "str_map \<Rightarrow> sv list \<Rightarrow> str_map option" where
  "cookie_loop jar [] = Some jar"
| "cookie_loop jar (p # ps) =
     (let pair = sv_trim p
      in if length pair = 0 then cookie_loop jar ps
         else
           case sv_chop_by_delim pair (CHR ''='') of (name, rest) \<Rightarrow>
             if length name = 0 then cookie_loop jar ps
             else
               case strmap_set jar (sv_trim name) (strip_quotes (sv_trim rest)) of
                 None \<Rightarrow> None
               | Some (rc, jar') \<Rightarrow> cookie_loop jar' ps)"

definition http_cookie_parse :: "str_map \<Rightarrow> sv \<Rightarrow> str_map option" where
  "http_cookie_parse jar header = cookie_loop jar (sv_pieces header (CHR '';''))"

subsection \<open>Multipart bodies\<close>

record multipart_part =
  mp_headers :: str_map
  mp_name :: sv
  mp_filename :: sv
  mp_content :: sv

definition MULTIPART_MAX_BOUNDARY :: nat where "MULTIPART_MAX_BOUNDARY = 200"

fun boundary_param :: "sv list \<Rightarrow> nat \<Rightarrow> sv option" where
  "boundary_param [] out_sz = None"
| "boundary_param (p # ps) out_sz =
     (case sv_chop_by_delim (sv_trim p) (CHR ''='') of (key, param) \<Rightarrow>
        if sv_equal (sv_trim key) (sv_from_cstr ''boundary'')
        then let value = strip_quotes (sv_trim param)
             in if length value = 0 \<or> length value \<ge> out_sz then None else Some value
        else boundary_param ps out_sz)"

text \<open>The C string left in \<open>out\<close>, \<^const>\<open>None\<close> for \<open>return -1\<close>.\<close>

definition multipart_boundary :: "sv \<Rightarrow> nat \<Rightarrow> char list option" where
  "multipart_boundary header_value out_sz =
     (case sv_chop_by_delim (sv_trim header_value) (CHR '';'') of (media, rest) \<Rightarrow>
        if \<not> sv_equal (sv_trim media) (sv_from_cstr ''multipart/form-data'') then None
        else map_option c_str (boundary_param (sv_pieces rest (CHR '';'')) out_sz))"

text \<open>
  \<open>find_delimiter\<close> over the bytes from \<open>start\<close> on; the result is the offset of the CR, counted from
  \<open>start\<close> (the source returns that index plus two).
\<close>

function find_delimiter :: "sv \<Rightarrow> sv \<Rightarrow> nat option" where
  "find_delimiter s boundary =
     (if length boundary + 6 \<le> length s
      then if s ! 0 = CR \<and> s ! 1 = LF \<and> s ! 2 = CHR ''-'' \<and> s ! 3 = CHR ''-''
              \<and> take (length boundary) (drop 4 s) = boundary
              \<and> (let a = s ! (4 + length boundary); b = s ! (5 + length boundary)
                 in a = CR \<and> b = LF \<or> a = CHR ''-'' \<and> b = CHR ''-'')
           then Some 0
           else map_option Suc (find_delimiter (tl s) boundary)
      else None)"
  by pat_completeness auto
termination
  by (relation "measure (\<lambda>(s, boundary). length s)") auto

declare find_delimiter.simps [simp del]

text \<open>\<open>unquote\<close> looks at the first character only, and drops the last one whatever it is.\<close>

definition unquote :: "sv \<Rightarrow> sv" where
  "unquote v = (if length v \<ge> 2 \<and> v ! 0 = DQUOTE then take (length v - 2) (drop 1 v) else v)"

fun disposition_params :: "sv list \<Rightarrow> sv \<Rightarrow> sv \<Rightarrow> sv \<times> sv" where
  "disposition_params [] name filename = (name, filename)"
| "disposition_params (p # ps) name filename =
     (case sv_chop_by_delim (sv_trim p) (CHR ''='') of (key, param) \<Rightarrow>
        let val = unquote (sv_trim param)
        in if sv_equal (sv_trim key) (sv_from_cstr ''name'') then disposition_params ps val filename
           else if sv_equal (sv_trim key) (sv_from_cstr ''filename'') then disposition_params ps name val
           else disposition_params ps name filename)"

definition parse_disposition :: "sv \<Rightarrow> sv \<times> sv" where
  "parse_disposition value =
     (case sv_chop_by_delim value (CHR '';'') of (first, rest) \<Rightarrow>
        disposition_params (sv_pieces rest (CHR '';'')) [] [])"

definition lower_key :: "sv \<Rightarrow> char list" where
  "lower_key key = map tolower (take (if length key < 255 then length key else 255) key)"

fun part_header_loop :: "multipart_part \<Rightarrow> sv list \<Rightarrow> (int \<times> multipart_part) option" where
  "part_header_loop part [] = Some (0, part)"
| "part_header_loop part (l # ls) =
     (let line = sv_trim l; c = sv_scan line (CHR '':'')
      in if length line = 0 then part_header_loop part ls
         else if c \<ge> length line then part_header_loop part ls
         else
           let key = sv_trim_right (take c line); value = sv_trim (drop (c + 1) line)
           in if length key = 0 then part_header_loop part ls
              else
                let lk = sv_from_cstr (lower_key key)
                in case strmap_set (mp_headers part) lk value of
                     None \<Rightarrow> None
                   | Some (rc, hs) \<Rightarrow>
                       if rc \<noteq> 0 then Some (-1, part\<lparr>mp_headers := hs\<rparr>)
                       else
                         let part1 = part\<lparr>mp_headers := hs\<rparr>;
                             part2 = (if sv_equal lk (sv_from_cstr ''content-disposition'')
                                      then case parse_disposition value of (n, f) \<Rightarrow> part1\<lparr>mp_name := n, mp_filename := f\<rparr>
                                      else part1)
                         in part_header_loop part2 ls)"

definition parse_part_headers :: "multipart_part \<Rightarrow> sv \<Rightarrow> (int \<times> multipart_part) option" where
  "parse_part_headers part block = part_header_loop part (sv_pieces block LF)"

definition empty_part :: multipart_part where
  "empty_part = \<lparr>mp_headers = strmap_init, mp_name = [], mp_filename = [], mp_content = []\<rparr>"

text \<open>The blank line behind the part headers: its offset from the start of the headers.\<close>

fun find_blank_line :: "sv \<Rightarrow> nat option" where
  "find_blank_line (a # b # c # d # s) =
     (if a = CR \<and> b = LF \<and> c = CR \<and> d = LF then Some 0 else map_option Suc (find_blank_line (b # c # d # s)))"
| "find_blank_line _ = None"

text \<open>
  The loop of \<open>multipart_parse\<close> over the body from \<open>pos\<close> on; the parts read so far are \<open>acc\<close>. On
  failure the parts are freed and the list is empty.
\<close>

function multipart_loop :: "sv \<Rightarrow> sv \<Rightarrow> multipart_part list \<Rightarrow> (int \<times> multipart_part list) option" where
  "multipart_loop s boundary acc =
     (if 1 < length s \<and> s ! 0 = CHR ''-'' \<and> s ! 1 = CHR ''-'' then Some (0, acc)
      else if 1 \<ge> length s \<or> s ! 0 \<noteq> CR \<or> s ! 1 \<noteq> LF then Some (-1, acc)
      else
        let h = drop 2 s
        in case find_blank_line h of
             None \<Rightarrow> Some (-1, acc)
           | Some h_end \<Rightarrow>
               (case parse_part_headers empty_part (take h_end h) of
                  None \<Rightarrow> None
                | Some (rc, part) \<Rightarrow>
                    if rc \<noteq> 0 then Some (-1, [])
                    else
                      let body = drop (h_end + 4) h
                      in case find_delimiter body boundary of
                           None \<Rightarrow> Some (-1, [])
                         | Some d \<Rightarrow>
                             multipart_loop (drop (d + 4 + length boundary) body) boundary
                               (acc @ [part\<lparr>mp_content := take d body\<rparr>])))"
  by pat_completeness auto
termination
  by (relation "measure (\<lambda>(s, boundary, acc). length s)") auto

declare multipart_loop.simps [simp del]

definition multipart_parse :: "sv \<Rightarrow> char list \<Rightarrow> (int \<times> multipart_part list) option" where
  "multipart_parse body boundary0 =
     (let boundary = c_str boundary0; dd = 2 + length boundary
      in if length boundary = 0 \<or> length boundary > MULTIPART_MAX_BOUNDARY then Some (-1, [])
         else if length body < dd \<or> take dd body \<noteq> ''--'' @ boundary then Some (-1, [])
         else multipart_loop (drop dd body) boundary [])"

definition multipart_get :: "multipart_part list \<Rightarrow> char list \<Rightarrow> multipart_part option" where
  "multipart_get m name = List.find (\<lambda>p. mp_name p = c_str name) m"

fun last_segment :: "sv \<Rightarrow> nat \<Rightarrow> nat" where
  "last_segment [] lst = lst"
| "last_segment (c # s) lst = last_segment s (if c = CHR ''/'' \<or> c = BACKSLASH then length s else lst)"

text \<open>The path \<open>multipart_save\<close> opens (\<open>out_path\<close>) and the bytes it writes there.\<close>

definition multipart_save :: "multipart_part \<Rightarrow> char list \<Rightarrow> nat \<Rightarrow> (char list \<times> sv) option" where
  "multipart_save part dir0 out_sz =
     (let f = mp_filename part; lst = last_segment f (length f); base = drop (length f - lst) f; dir = c_str dir0;
          sep = (if length dir > 0 \<and> dir ! (length dir - 1) \<noteq> CHR ''/'' then ''/'' else '''');
          need = length dir + length sep + lst + 1
      in if lst = 0 \<or> lst = 1 \<and> base ! 0 = CHR ''.'' \<or> lst = 2 \<and> base ! 0 = CHR ''.'' \<and> base ! 1 = CHR ''.'' then None
         else if need > out_sz then None
         else Some (dir @ sep @ base, mp_content part))"

subsection \<open>Merging\<close>

fun merge_parts :: "str_map \<Rightarrow> multipart_part list \<Rightarrow> (int \<times> str_map) option" where
  "merge_parts out [] = Some (0, out)"
| "merge_parts out (p # ps) =
     (if length (mp_filename p) = 0
      then case strmap_set out (mp_name p) (mp_content p) of
             None \<Rightarrow> None
           | Some (rc, out') \<Rightarrow> if rc \<noteq> 0 then Some (-1, out') else merge_parts out' ps
      else merge_parts out ps)"

definition merge_body :: "http_request \<Rightarrow> str_map \<Rightarrow> (int \<times> str_map) option" where
  "merge_body req out =
     (case http_request_get_header req ''content-type'' of
        None \<Rightarrow> Some (0, out)
      | Some ct \<Rightarrow>
          if sv_starts_with ct ''application/x-www-form-urlencoded'' then
            (case params_parse_into out (rq_body req) of
               None \<Rightarrow> None | Some (rc, out') \<Rightarrow> Some (if rc \<noteq> 0 then -1 else 0, out'))
          else if sv_starts_with ct ''multipart/form-data'' then
            (case multipart_boundary ct MULTIPART_MAX_BOUNDARY of
               None \<Rightarrow> Some (-1, out)
             | Some boundary \<Rightarrow>
                 (case multipart_parse (rq_body req) boundary of
                    None \<Rightarrow> None
                  | Some (rc, parts) \<Rightarrow> if rc \<noteq> 0 then Some (-1, out) else merge_parts out parts))
          else Some (0, out))"

definition request_merge_params :: "http_request \<Rightarrow> str_map \<Rightarrow> (int \<times> str_map) option" where
  "request_merge_params req out =
     (if length (rq_query req) > 0
      then case params_parse_into out (rq_query req) of
             None \<Rightarrow> None
           | Some (rc, out') \<Rightarrow> if rc \<noteq> 0 then Some (-1, out') else merge_body req out'
      else merge_body req out)"

subsection \<open>Forms\<close>

definition pair_text :: "char list \<times> char list \<Rightarrow> sv" where
  "pair_text kv = url_encode (fst kv) @ ''='' @ url_encode (snd kv)"

definition form_text :: "(char list \<times> char list) list \<Rightarrow> sv" where
  "form_text kvs = join (CHR ''&'') (map pair_text kvs)"

abbreviation nul_free :: "char list \<times> char list \<Rightarrow> bool" where
  "nul_free kv \<equiv> NUL \<notin> set (fst kv) \<and> NUL \<notin> set (snd kv)"

lemma url_decode_alloc_encode: "NUL \<notin> set s \<Longrightarrow> url_decode_alloc (url_encode s) = Some s"
proof -
  assume s: "NUL \<notin> set s"
  let ?b = "foldl strbuf_append_char strbuf_init s"
  have "strbuf_inv ?b" "strbuf_view ?b = s"
    using sb.writes_inv [OF writes_append_chars [of s] strbuf_inv_init] sb.writes_view [OF writes_append_chars [of s] strbuf_inv_init]
    by simp_all
  then show ?thesis
    using s strbuf_null_terminate_facts(3) [of ?b] by (simp add: url_decode_alloc_def url_decode_encode c_str_id)
qed

lemma not_encoded: "\<not> unreserved c \<Longrightarrow> c \<noteq> CHR ''%'' \<Longrightarrow> c \<notin> set (url_encode s)"
  using url_encode_safe by blast

lemma pair_text_split: "params_key (pair_text kv) = url_encode (fst kv)" "params_value (pair_text kv) = url_encode (snd kv)"
proof -
  have eq: "CHR ''='' \<notin> set (url_encode (fst kv))" by (rule not_encoded) (simp_all add: unreserved_def)
  have "sv_scan (a @ CHR ''='' # b) (CHR ''='') = length a" if "CHR ''='' \<notin> set a" for a b
    using that by (induction a) auto
  then show "params_key (pair_text kv) = url_encode (fst kv)" "params_value (pair_text kv) = url_encode (snd kv)"
    using eq by (simp_all add: params_key_def params_value_def pair_text_def Let_def)
qed

lemma params_loop_pairs:
  "strmap_inv m \<Longrightarrow> list_all nul_free kvs \<Longrightarrow>
     params_loop m (map pair_text kvs) = map_option (\<lambda>m'. (0, m')) (sm.set_all m kvs)"
proof (induction kvs arbitrary: m)
  case (Cons kv kvs)
  have f: "NUL \<notin> set (fst kv)" "NUL \<notin> set (snd kv)" using Cons.prems(2) by simp_all
  obtain m1 where m1: "strmap_set m (fst kv) (snd kv) = Some (0, m1)" "strmap_inv m1"
    using sm.set_key [OF Cons.prems(1) f(1), of "snd kv"] by blast
  have "pair_text kv \<noteq> []" by (simp add: pair_text_def)
  then have "params_loop m (map pair_text (kv # kvs)) = params_loop m1 (map pair_text kvs)"
    using f m1 by (simp add: pair_text_split url_decode_alloc_encode sv_from_cstr_def c_str_id)
  moreover have "sm.set_all m (kv # kvs) = sm.set_all m1 kvs" using m1 by (cases kv) simp
  ultimately show ?case using Cons m1(2) by simp
qed simp

lemma form_pieces: "sv_pieces (form_text kvs) (CHR ''&'') = map pair_text kvs"
proof (cases "kvs = []")
  case False
  have amp: "CHR ''&'' \<notin> set (pair_text kv)" for kv
    using not_encoded [of "CHR ''&''"] by (simp add: pair_text_def unreserved_def)
  have "last (map pair_text kvs) \<noteq> []" using False by (simp add: last_map pair_text_def)
  then show ?thesis unfolding form_text_def using False amp by (intro sv_pieces_join) auto
qed (simp add: form_text_def)

lemma params_parse_form:
  assumes "strmap_inv m" and "list_all nul_free kvs"
  shows "\<exists>m'. params_parse_into m (form_text kvs) = Some (0, m') \<and> strmap_inv m'
    \<and> strmap_get m' = strmap_get m ++ map_of (rev kvs)"
proof -
  have "map (apsnd c_str) kvs = kvs" using assms(2) by (induction kvs) (auto simp: c_str_id)
  moreover have "\<forall>(k, v) \<in> set kvs. NUL \<notin> set k" using assms(2) by (auto simp: list_all_iff)
  ultimately show ?thesis
    using sm.set_all_ok [OF assms(1), of kvs] params_loop_pairs [OF assms] by (auto simp: params_parse_into_def form_pieces)
qed

text \<open>Parsing arbitrary text returns, with 0 or -1, and keeps the table well formed.\<close>

lemma url_decode_alloc_nul_free: "url_decode_alloc s = Some d \<Longrightarrow> NUL \<notin> set d"
proof -
  assume d: "url_decode_alloc s = Some d"
  obtain rc sb where u: "url_decode_into strbuf_init s = (rc, sb)" by fastforce
  then have "strbuf_inv sb" using url_decode_keeps_inv [OF strbuf_inv_init, of s] by simp
  then show ?thesis
    using d u strbuf_null_terminate_facts(3) [of sb] NUL_notin_c_str [of "strbuf_view sb"]
    by (auto simp: url_decode_alloc_def simp del: NUL_notin_c_str split: if_splits)
qed

lemma params_loop_total:
  "strmap_inv m \<Longrightarrow> \<exists>rc m'. params_loop m ps = Some (rc, m') \<and> rc \<in> {0, -1} \<and> strmap_inv m'"
proof (induction ps arbitrary: m)
  case (Cons p ps)
  show ?case
  proof (cases "p = [] \<or> url_decode_alloc (params_key p) = None \<or> url_decode_alloc (params_value p) = None")
    case True
    then show ?thesis using Cons by (auto split: option.splits)
  next
    case False
    then obtain dk dv where d: "url_decode_alloc (params_key p) = Some dk" "url_decode_alloc (params_value p) = Some dv" "p \<noteq> []"
      by auto
    obtain m1 where "strmap_set m (sv_from_cstr dk) (sv_from_cstr dv) = Some (0, m1)" "strmap_inv m1"
      using sm.set_key [OF Cons.prems, of "sv_from_cstr dk" "sv_from_cstr dv"] by (auto simp: sv_from_cstr_def)
    then show ?thesis using Cons.IH [of m1] d by simp
  qed
qed simp

subsection \<open>Cookies\<close>

definition cookie_ok :: "char list \<times> char list \<Rightarrow> bool" where
  "cookie_ok c \<longleftrightarrow> word_ok (fst c) \<and> word_ok (snd c) \<and> nul_free c \<and> CHR ''='' \<notin> set (fst c)
     \<and> CHR '';'' \<notin> set (fst c) \<and> CHR '';'' \<notin> set (snd c) \<and> hd (snd c) \<noteq> DQUOTE"

fun cookie_text :: "(char list \<times> char list) list \<Rightarrow> sv" where
  "cookie_text [] = []"
| "cookie_text [c] = fst c @ ''='' @ snd c"
| "cookie_text (c # d # cs) = fst c @ ''='' @ snd c @ ''; '' @ cookie_text (d # cs)"

lemma word_trim: "word_ok w \<Longrightarrow> sv_trim w = w"
  by (rule sv_trim_id) (auto simp: word_ok_def list_all_iff)

lemma trim_pair: "word_ok a \<Longrightarrow> word_ok b \<Longrightarrow> sv_trim (a @ ''='' @ b) = a @ ''='' @ b"
  by (rule sv_trim_id) (auto simp: word_ok_def list_all_iff hd_append)

lemma trim_blank: "sv_trim (CHR '' '' # s) = sv_trim s"
  by (simp add: sv_trim_def)

lemma cookie_step:
  assumes "cookie_ok c" and "strmap_inv jar" and "p = fst c @ ''='' @ snd c \<or> p = '' '' @ fst c @ ''='' @ snd c"
  shows "\<exists>jar'. strmap_inv jar' \<and> strmap_get jar' = (strmap_get jar)(fst c \<mapsto> snd c) \<and> (\<forall>ps. cookie_loop jar (p # ps) = cookie_loop jar' ps)"
proof -
  have ok: "word_ok (fst c)" "word_ok (snd c)" "NUL \<notin> set (fst c)" "NUL \<notin> set (snd c)" "CHR ''='' \<notin> set (fst c)"
      "hd (snd c) \<noteq> DQUOTE" "fst c \<noteq> []" "snd c \<noteq> []"
    using assms(1) by (auto simp: cookie_ok_def word_ok_def)
  have t: "sv_trim p = fst c @ ''='' @ snd c"
    using assms(3) trim_pair [OF ok(1,2)] trim_blank by auto
  have ch: "sv_chop_by_delim (fst c @ ''='' @ snd c) (CHR ''='') = (fst c, snd c)"
    using sv_chop_present [OF ok(5), of "snd c"] by simp
  have q: "strip_quotes (snd c) = snd c" using ok(6,8) by (simp add: strip_quotes_def hd_conv_nth)
  obtain j where j: "strmap_set jar (fst c) (snd c) = Some (0, j)" "strmap_inv j" "strmap_get j = (strmap_get jar)(fst c \<mapsto> c_str (snd c))"
    using sm.set_key [OF assms(2) ok(3), of "snd c"] by blast
  have "cookie_loop jar (p # ps) = cookie_loop j ps" for ps
    using ok j unfolding cookie_loop.simps t Let_def ch prod.case by (simp add: word_trim q)
  then show ?thesis using j ok(4) by (auto simp: c_str_id)
qed

lemma cookie_pieces:
  "list_all cookie_ok cs \<Longrightarrow> cs \<noteq> [] \<Longrightarrow>
     sv_pieces (cookie_text cs) (CHR '';'') = (fst (hd cs) @ ''='' @ snd (hd cs)) # map (\<lambda>c. '' '' @ fst c @ ''='' @ snd c) (tl cs)"
proof (induction cs rule: cookie_text.induct)
  case (2 c)
  then show ?case by (subst sv_pieces_absent) (auto simp: cookie_ok_def)
next
  case (3 c d cs)
  have sc: "CHR '';'' \<notin> set (fst c @ ''='' @ snd c)" "CHR '';'' \<notin> set ('' '' @ fst d @ ''='' @ snd d)"
    using "3.prems" by (auto simp: cookie_ok_def)
  have "sv_pieces ('' '' @ cookie_text (d # cs)) (CHR '';'')
      = ('' '' @ fst d @ ''='' @ snd d) # map (\<lambda>c. '' '' @ fst c @ ''='' @ snd c) cs"
  proof (cases cs)
    case Nil
    then show ?thesis using sv_pieces_absent [OF _ sc(2)] by simp
  next
    case (Cons e es)
    have "sv_pieces (cookie_text (d # cs)) (CHR '';'') = (fst d @ ''='' @ snd d) # sv_pieces ('' '' @ cookie_text cs) (CHR '';'')"
      using Cons sv_pieces_present [of "CHR '';''" "fst d @ ''='' @ snd d" "'' '' @ cookie_text cs"] sc(2) by simp
    moreover have "sv_pieces ('' '' @ cookie_text (d # cs)) (CHR '';'')
        = ('' '' @ fst d @ ''='' @ snd d) # sv_pieces ('' '' @ cookie_text cs) (CHR '';'')"
      using Cons sv_pieces_present [OF sc(2), of "'' '' @ cookie_text cs"] by simp
    ultimately show ?thesis using "3.IH" "3.prems" by simp
  qed
  then show ?case using sv_pieces_present [OF sc(1), of "'' '' @ cookie_text (d # cs)"] by simp
qed simp

lemma cookie_loop_all:
  "list_all cookie_ok cs \<Longrightarrow> strmap_inv jar \<Longrightarrow>
     \<exists>jar'. cookie_loop jar (map (\<lambda>c. '' '' @ fst c @ ''='' @ snd c) cs) = Some jar' \<and> strmap_inv jar'
       \<and> strmap_get jar' = strmap_get jar ++ map_of (rev cs)"
proof (induction cs arbitrary: jar)
  case (Cons c cs)
  obtain j where j: "strmap_inv j" "strmap_get j = (strmap_get jar)(fst c \<mapsto> snd c)"
      "\<And>ps. cookie_loop jar (('' '' @ fst c @ ''='' @ snd c) # ps) = cookie_loop j ps"
    using cookie_step [of c jar "'' '' @ fst c @ ''='' @ snd c"] Cons.prems by (auto simp del: cookie_loop.simps)
  obtain j' where "cookie_loop j (map (\<lambda>c. '' '' @ fst c @ ''='' @ snd c) cs) = Some j'" "strmap_inv j'"
      "strmap_get j' = strmap_get j ++ map_of (rev cs)"
    using Cons.IH [OF _ j(1)] Cons.prems(1) by auto
  moreover have "strmap_get j ++ map_of (rev cs) = strmap_get jar ++ map_of (rev (c # cs))"
    by (cases c) (simp add: j(2) map_add_assoc [symmetric])
  ultimately show ?case using j(3) by (simp del: cookie_loop.simps)
qed simp

subsection \<open>Multipart text\<close>

type_synonym form_part = "sv \<times> sv \<times> sv"

definition part_head :: "sv \<Rightarrow> sv \<Rightarrow> sv" where
  "part_head n f = ''Content-Disposition: form-data; name='' @ [DQUOTE] @ n @ [DQUOTE]
     @ (if f = [] then [] else ''; filename='' @ [DQUOTE] @ f @ [DQUOTE])"

definition part_text :: "sv \<Rightarrow> form_part \<Rightarrow> sv" where
  "part_text b p = (case p of (n, f, c) \<Rightarrow> [CR, LF] @ part_head n f @ [CR, LF, CR, LF] @ c @ [CR, LF] @ ''--'' @ b)"

definition multipart_text :: "sv \<Rightarrow> form_part list \<Rightarrow> sv" where
  "multipart_text b ps = ''--'' @ b @ concat (map (part_text b) ps) @ ''--''"

definition delim_free :: "sv \<Rightarrow> sv \<Rightarrow> bool" where
  "delim_free b c \<longleftrightarrow> list_all (\<lambda>i. take (4 + length b) (drop i (c @ CR # LF # ''--'' @ b)) \<noteq> CR # LF # ''--'' @ b) [0..<length c]"

definition plain_text :: "sv \<Rightarrow> bool" where
  "plain_text n \<longleftrightarrow> list_all (\<lambda>c. c \<noteq> CHR '';'' \<and> c \<noteq> CR \<and> c \<noteq> LF \<and> c \<noteq> NUL) n"

definition part_ok :: "sv \<Rightarrow> form_part \<Rightarrow> bool" where
  "part_ok b p \<longleftrightarrow> (case p of (n, f, c) \<Rightarrow> plain_text n \<and> plain_text f \<and> delim_free b c)"

lemma plain_text_facts: "plain_text n \<Longrightarrow> CHR '';'' \<notin> set n \<and> CR \<notin> set n \<and> LF \<notin> set n \<and> NUL \<notin> set n"
  unfolding plain_text_def list_all_iff by blast

lemma find_blank_line_skip: "CR \<notin> set h \<Longrightarrow> find_blank_line (h @ CR # LF # CR # LF # t) = Some (length h)"
proof (induction h)
  case (Cons x h)
  obtain a b c u where s: "h @ CR # LF # CR # LF # t = a # b # c # u"
    by (cases h; cases "tl h"; cases "tl (tl h)") auto
  have x: "x \<noteq> CR" using Cons.prems by auto
  have "find_blank_line (x # a # b # c # u) = map_option Suc (find_blank_line (a # b # c # u))" using x by simp
  then show ?case using Cons by (simp add: s [symmetric])
qed simp

lemma find_delimiter_here:
  assumes "t = CR # LF # u \<or> t = ''--'' @ u"
  shows "find_delimiter (CR # LF # ''--'' @ b @ t) b = Some 0"
  using assms by (subst find_delimiter.simps) (auto simp: nth_append nth_Cons' Let_def)

lemma find_delimiter_skip:
  assumes "take (4 + length b) s \<noteq> CR # LF # ''--'' @ b" and "length b + 6 \<le> length s"
  shows "find_delimiter s b = map_option Suc (find_delimiter (tl s) b)"
proof -
  have "\<not> (s ! 0 = CR \<and> s ! 1 = LF \<and> s ! 2 = CHR ''-'' \<and> s ! 3 = CHR ''-'' \<and> take (length b) (drop 4 s) = b)"
  proof
    assume a: "s ! 0 = CR \<and> s ! 1 = LF \<and> s ! 2 = CHR ''-'' \<and> s ! 3 = CHR ''-'' \<and> take (length b) (drop 4 s) = b"
    obtain x0 x1 x2 x3 u where "s = x0 # x1 # x2 # x3 # u"
      using assms(2) by (cases s; cases "tl s"; cases "tl (tl s)"; cases "tl (tl (tl s))") auto
    then show False using a assms(1) by (simp add: numeral_eq_Suc)
  qed
  then show ?thesis using assms(2) by (subst find_delimiter.simps, simp only: if_True) (rule if_not_P, blast)
qed

lemma find_delimiter_content:
  assumes "delim_free b c" and "t = CR # LF # u \<or> t = ''--'' @ u"
  shows "find_delimiter (c @ CR # LF # ''--'' @ b @ t) b = Some (length c)"
  using assms(1)
proof (induction c)
  case Nil
  then show ?case using find_delimiter_here [OF assms(2)] by simp
next
  case (Cons x c)
  let ?d = "CR # LF # ''--'' @ b"
  have tl: "2 \<le> length t" using assms(2) by auto
  have f: "take (4 + length b) (drop i (x # c @ ?d)) \<noteq> ?d" if "i < Suc (length c)" for i
    using Cons.prems that unfolding delim_free_def list_all_iff by (simp del: upt_Suc)
  have "delim_free b c" unfolding delim_free_def list_all_iff using f [of "Suc _"] by simp
  moreover have "take (4 + length b) (x # c @ ?d @ t) = take (4 + length b) (x # c @ ?d)"
    using take_append [of "4 + length b" "x # c @ ?d" t] by simp
  then have "find_delimiter (x # c @ ?d @ t) b = map_option Suc (find_delimiter (c @ ?d @ t) b)"
    using f [of 0] tl by (subst find_delimiter_skip) simp_all
  ultimately show ?case using Cons.IH by simp
qed

lemma sv_trim_quoted: "sv_trim (DQUOTE # s @ [DQUOTE]) = DQUOTE # s @ [DQUOTE]"
  by (rule sv_trim_id) (auto simp: isspace_def)

lemma unquote_quoted: "unquote (DQUOTE # s @ [DQUOTE]) = s"
  by (simp add: unquote_def)

lemma disposition_param:
  assumes "k = ''name'' \<or> k = ''filename''"
  shows "disposition_params (('' '' @ k @ ''='' @ [DQUOTE] @ v @ [DQUOTE]) # ps) n f =
    (if k = ''name'' then disposition_params ps v f else disposition_params ps n v)"
proof -
  have k: "CHR ''='' \<notin> set k" "k \<noteq> []" "\<not> isspace (hd k)" "\<not> isspace (last k)"
    using assms by (auto simp: isspace_def)
  have "sv_trim (k @ ''='' @ [DQUOTE] @ v @ [DQUOTE]) = k @ CHR ''='' # DQUOTE # v @ [DQUOTE]"
    using k by (subst sv_trim_id) (auto simp: isspace_def hd_append)
  then have t: "sv_trim ('' '' @ k @ ''='' @ [DQUOTE] @ v @ [DQUOTE]) = k @ CHR ''='' # DQUOTE # v @ [DQUOTE]"
    by (simp add: trim_blank)
  have "sv_trim k = k" using k by (intro sv_trim_id) auto
  moreover have "sv_from_cstr ''name'' = ''name''" "sv_from_cstr ''filename'' = ''filename''"
    by (simp_all add: sv_from_cstr_def c_str_def)
  ultimately show ?thesis
    using assms unfolding disposition_params.simps t sv_chop_present [OF k(1)] prod.case Let_def sv_trim_quoted unquote_quoted
    by auto
qed

lemma parse_disposition_text:
  assumes "plain_text n" and "plain_text f"
  shows "parse_disposition (''form-data; name='' @ [DQUOTE] @ n @ [DQUOTE]
      @ (if f = [] then [] else ''; filename='' @ [DQUOTE] @ f @ [DQUOTE])) = (n, f)"
proof -
  let ?p = "'' '' @ ''name'' @ ''='' @ [DQUOTE] @ n @ [DQUOTE]"
  let ?q = "'' '' @ ''filename'' @ ''='' @ [DQUOTE] @ f @ [DQUOTE]"
  have sc: "CHR '';'' \<notin> set ?p" "CHR '';'' \<notin> set ?q" "?p \<noteq> []" "?q \<noteq> []" using assms plain_text_facts by auto
  have ch: "sv_chop_by_delim (''form-data'' @ CHR '';'' # r) (CHR '';'') = (''form-data'', r)" for r
    by (rule sv_chop_present) simp
  show ?thesis
  proof (cases "f = []")
    case True
    have "sv_pieces ?p (CHR '';'') = [?p]" using sv_pieces_absent [OF sc(3,1)] .
    moreover have "''form-data; name='' @ [DQUOTE] @ n @ [DQUOTE] = ''form-data'' @ CHR '';'' # ?p" by simp
    ultimately show ?thesis
      using True disposition_param [of "''name''" n "[]" "[]" "[]"] ch [of ?p] by (simp add: parse_disposition_def)
  next
    case False
    have "sv_pieces (?p @ CHR '';'' # ?q) (CHR '';'') = [?p, ?q]"
      using sv_pieces_present [OF sc(1), of ?q] sv_pieces_absent [OF sc(4,2)] by simp
    moreover have "''form-data; name='' @ [DQUOTE] @ n @ [DQUOTE] @ ''; filename='' @ [DQUOTE] @ f @ [DQUOTE]
        = ''form-data'' @ CHR '';'' # ?p @ CHR '';'' # ?q" by simp
    ultimately show ?thesis
      using False disposition_param [of "''name''" n "[?q]" "[]" "[]"] disposition_param [of "''filename''" f "[]" n "[]"]
        ch [of "?p @ CHR '';'' # ?q"] by (simp add: parse_disposition_def)
  qed
qed

lemma part_head_parse:
  assumes "plain_text n" and "plain_text f"
  shows "\<exists>part. parse_part_headers empty_part (part_head n f) = Some (0, part) \<and> mp_name part = n \<and> mp_filename part = f
    \<and> strmap_inv (mp_headers part)"
proof -
  let ?v = "''form-data; name='' @ [DQUOTE] @ n @ [DQUOTE] @ (if f = [] then [] else ''; filename='' @ [DQUOTE] @ f @ [DQUOTE])"
  let ?k = "''Content-Disposition''" and ?lk = "''content-disposition''"
  have h: "part_head n f = ?k @ CHR '':'' # CHR '' '' # ?v" by (simp add: part_head_def)
  have ends: "?v \<noteq> []" "\<not> isspace (hd ?v)" "\<not> isspace (last ?v)" "last ?v = DQUOTE" by (auto simp: isspace_def)
  have "LF \<notin> set (part_head n f)" using assms plain_text_facts by (auto simp: part_head_def)
  then have p: "sv_pieces (part_head n f) LF = [part_head n f]" by (intro sv_pieces_absent) (simp add: part_head_def)
  have t: "sv_trim (part_head n f) = part_head n f"
    unfolding h using ends(4) by (intro sv_trim_id) (simp_all add: isspace_def)
  have sc: "sv_scan (part_head n f) (CHR '':'') = length ?k" unfolding h by simp
  have key: "sv_trim_right (take (length ?k) (part_head n f)) = ?k"
    unfolding h by (simp add: sv_trim_right_rev isspace_def)
  have val: "sv_trim (drop (length ?k + 1) (part_head n f)) = ?v"
    unfolding h using sv_trim_id [of ?v] ends(2,3) by (simp add: trim_blank)
  have lk: "sv_from_cstr (lower_key ?k) = ?lk" "sv_from_cstr ?lk = ?lk"
    by (simp_all add: lower_key_def sv_from_cstr_def eval_simps)
  have len: "\<not> length (part_head n f) \<le> length ?k" "length (part_head n f) \<noteq> 0" "length ?k \<noteq> 0" unfolding h by simp_all
  obtain hs where hs: "strmap_set (mp_headers empty_part) ?lk ?v = Some (0, hs)" "strmap_inv hs"
    using sm.set_key [of strmap_init ?lk ?v] by (auto simp: empty_part_def)
  have "parse_part_headers empty_part (part_head n f) = Some (0, empty_part\<lparr>mp_headers := hs, mp_name := n, mp_filename := f\<rparr>)"
    unfolding parse_part_headers_def p part_header_loop.simps t Let_def sc key val lk hs(1)
      if_not_P [OF len(1)] if_not_P [OF len(2)] if_not_P [OF len(3)]
    using parse_disposition_text [OF assms] lk(2) by simp
  then show ?thesis using hs(2) by (intro exI) auto
qed

lemma multipart_loop_part:
  assumes "part_ok b (n, f, c)" and "t = CR # LF # u \<or> t = ''--'' @ u"
  shows "\<exists>part. multipart_loop (part_text b (n, f, c) @ t) b acc = multipart_loop t b (acc @ [part])
    \<and> mp_name part = n \<and> mp_filename part = f \<and> mp_content part = c \<and> strmap_inv (mp_headers part)"
proof -
  have ok: "plain_text n" "plain_text f" "delim_free b c" using assms(1) by (simp_all add: part_ok_def)
  let ?s = "part_text b (n, f, c) @ t" and ?body = "c @ CR # LF # ''--'' @ b @ t"
  have s: "?s = CR # LF # part_head n f @ CR # LF # CR # LF # ?body" by (simp add: part_text_def)
  have "CR \<notin> set (part_head n f)" using ok plain_text_facts by (auto simp: part_head_def)
  then have blank: "find_blank_line (part_head n f @ CR # LF # CR # LF # ?body) = Some (length (part_head n f))"
    by (rule find_blank_line_skip)
  obtain part where part: "parse_part_headers empty_part (part_head n f) = Some (0, part)" "mp_name part = n" "mp_filename part = f"
      "strmap_inv (mp_headers part)"
    using part_head_parse [OF ok(1,2)] by blast
  have d: "find_delimiter ?body b = Some (length c)" using find_delimiter_content [OF ok(3) assms(2)] .
  have drops: "drop (length (part_head n f) + 4) (part_head n f @ CR # LF # CR # LF # ?body) = ?body"
      "drop (length c + 4 + length b) ?body = t" "take (length c) ?body = c"
    by (simp_all add: numeral_eq_Suc)
  have "multipart_loop ?s b acc = multipart_loop t b (acc @ [part\<lparr>mp_content := c\<rparr>])"
    unfolding multipart_loop.simps [of ?s] Let_def unfolding s using blank part(1) d drops by simp
  then show ?thesis using part(2-4) by (intro exI [of _ "part\<lparr>mp_content := c\<rparr>"]) simp
qed

definition part_view :: "multipart_part \<Rightarrow> form_part" where
  "part_view p = (mp_name p, mp_filename p, mp_content p)"

lemma multipart_loop_all:
  "list_all (part_ok b) ps \<Longrightarrow> \<exists>parts. multipart_loop (concat (map (part_text b) ps) @ ''--'' @ rest) b acc = Some (0, acc @ parts)
     \<and> map part_view parts = ps"
proof (induction ps arbitrary: acc)
  case Nil
  then show ?case by (subst multipart_loop.simps) simp
next
  case (Cons p ps)
  obtain n f c where p: "p = (n, f, c)" by (cases p)
  let ?t = "concat (map (part_text b) ps) @ ''--'' @ rest"
  have t: "\<exists>u. ?t = CR # LF # u \<or> ?t = ''--'' @ u" by (cases ps) (auto simp: part_text_def split: prod.splits)
  obtain part where part: "multipart_loop (part_text b p @ ?t) b acc = multipart_loop ?t b (acc @ [part])" "part_view part = p"
    using multipart_loop_part [of b n f c ?t] t Cons.prems p by (auto simp: part_view_def)
  obtain parts where "multipart_loop ?t b (acc @ [part]) = Some (0, (acc @ [part]) @ parts)" "map part_view parts = ps"
    using Cons.IH [of "acc @ [part]"] Cons.prems by auto
  then show ?case using part by (intro exI [of _ "part # parts"]) simp
qed

definition is_sep :: "char \<Rightarrow> bool" where
  "is_sep c \<longleftrightarrow> c = CHR ''/'' \<or> c = BACKSLASH"

lemma last_segment_spec:
  "last_segment s k = (if \<exists>c \<in> set s. is_sep c then length (takeWhile (\<lambda>c. \<not> is_sep c) (rev s)) else k)"
proof (induction s arbitrary: k)
  case (Cons x s)
  have step: "last_segment (x # s) k = last_segment s (if is_sep x then length s else k)" by (simp add: is_sep_def)
  have some: "takeWhile (\<lambda>c. \<not> is_sep c) (rev s @ [x]) = takeWhile (\<lambda>c. \<not> is_sep c) (rev s)" if "\<exists>c \<in> set s. is_sep c"
    using that by (subst takeWhile_append) auto
  have none: "takeWhile (\<lambda>c. \<not> is_sep c) (rev s @ [x]) = rev s @ takeWhile (\<lambda>c. \<not> is_sep c) [x]" if "\<not> (\<exists>c \<in> set s. is_sep c)"
    using that by (subst takeWhile_append) auto
  show ?case
    unfolding step Cons.IH using some none by (cases "\<exists>c \<in> set s. is_sep c"; cases "is_sep x") simp_all
qed simp

lemma last_segment_base:
  "let b = drop (length f - last_segment f (length f)) f in list_all (\<lambda>c. \<not> is_sep c) b \<and> length b = last_segment f (length f)"
proof -
  let ?w = "takeWhile (\<lambda>c. \<not> is_sep c) (rev f)"
  have "?w = rev f" if "\<not> (\<exists>c \<in> set f. is_sep c)"
    using that by (subst takeWhile_eq_all_conv) auto
  then have "length ?w = length f" if "\<not> (\<exists>c \<in> set f. is_sep c)" using that by (metis length_rev)
  then have l: "last_segment f (length f) = length ?w" unfolding last_segment_spec by (auto split: if_splits)
  have "rev f = ?w @ dropWhile (\<lambda>c. \<not> is_sep c) (rev f)" by simp
  then have "f = rev (dropWhile (\<lambda>c. \<not> is_sep c) (rev f)) @ rev ?w" by (metis rev_append rev_rev_ident)
  then have "drop (length f - length ?w) f = rev ?w"
    by (metis add_diff_cancel_right' append_eq_conv_conj length_append length_rev)
  moreover have "list_all (\<lambda>c. \<not> is_sep c) (rev ?w)" unfolding list_all_iff by (auto dest: set_takeWhileD)
  ultimately show ?thesis unfolding l Let_def by simp
qed

subsection \<open>Properties\<close>

text \<open>
  Parameters. The query string and the url-encoded body of a request are decoded into the
  parameter table, with the body's values winning over the query's and later ones over earlier
  ones; the table operations return and keep the table well formed.
\<close>

theorem merge_params_correct:
  assumes "rq_query req = form_text q" and "rq_body req = form_text b" and "list_all nul_free (q @ b)" and "strmap_inv out"
    and "http_request_get_header req ''content-type'' = Some (''application/x-www-form-urlencoded'' @ charset)"
  shows "\<exists>out'. request_merge_params req out = Some (0, out') \<and> strmap_inv out'
    \<and> strmap_get out' = strmap_get out ++ map_of (rev (q @ b))"
proof -
  have qb: "list_all nul_free q" "list_all nul_free b" using assms(3) by simp_all
  have ct: "sv_starts_with (''application/x-www-form-urlencoded'' @ charset) ''application/x-www-form-urlencoded''"
    unfolding sv_starts_with_iff by (rule exI [of _ charset]) (simp add: c_str_def)
  have body: "\<exists>m'. merge_body req m = Some (0, m') \<and> strmap_inv m' \<and> strmap_get m' = strmap_get m ++ map_of (rev b)"
    if "strmap_inv m" for m
    using params_parse_form [OF that qb(2)] ct unfolding merge_body_def assms(2,5) by auto
  obtain m1 where m1: "params_parse_into out (form_text q) = Some (0, m1)" "strmap_inv m1" "strmap_get m1 = strmap_get out ++ map_of (rev q)"
    using params_parse_form [OF assms(4) qb(1)] by blast
  show ?thesis
  proof (cases "form_text q = []")
    case True
    then have "q = []" by (cases q; cases "tl q") (auto simp: form_text_def pair_text_def)
    then show ?thesis using body [OF assms(4)] by (simp add: request_merge_params_def assms(1) form_text_def)
  next
    case False
    then show ?thesis using body [OF m1(2)] m1 by (auto simp: request_merge_params_def assms(1))
  qed
qed

theorem merge_params_correct_witness:
  "\<exists>out'. request_merge_params
      (empty_request\<lparr>rq_query := form_text [(''id'', ''1''), (''q'', ''a b'')], rq_body := form_text [(''id'', ''2'')],
        rq_headers := [(''Content-Type'', ''application/x-www-form-urlencoded'')]\<rparr>) strmap_init = Some (0, out')
    \<and> strmap_get out' ''id'' = Some ''2'' \<and> strmap_get out' ''q'' = Some ''a b''"
proof -
  let ?req = "empty_request\<lparr>rq_query := form_text [(''id'', ''1''), (''q'', ''a b'')], rq_body := form_text [(''id'', ''2'')],
        rq_headers := [(''Content-Type'', ''application/x-www-form-urlencoded'')]\<rparr>"
  have h: "http_request_get_header ?req ''content-type'' = Some (''application/x-www-form-urlencoded'' @ [])"
    by (simp add: http_request_get_header_def eval_simps)
  have "\<exists>out'. request_merge_params ?req strmap_init = Some (0, out') \<and> strmap_inv out'
      \<and> strmap_get out' = strmap_get strmap_init ++ map_of (rev ([(''id'', ''1''), (''q'', ''a b'')] @ [(''id'', ''2'')]))"
    by (rule merge_params_correct [OF _ _ _ _ h]) simp_all
  then show ?thesis by auto
qed

text \<open>
  Cookies. A Cookie header of name=value pairs fills the jar with exactly those cookies, the
  last one of a name winning.
\<close>

theorem cookie_parse_correct:
  assumes "list_all cookie_ok cs" and "strmap_inv jar"
  shows "\<exists>jar'. http_cookie_parse jar (cookie_text cs) = Some jar' \<and> strmap_inv jar'
    \<and> strmap_get jar' = strmap_get jar ++ map_of (rev cs)"
proof (cases cs)
  case (Cons c cs')
  obtain j where j: "strmap_inv j" "strmap_get j = (strmap_get jar)(fst c \<mapsto> snd c)"
      "\<And>ps. cookie_loop jar ((fst c @ ''='' @ snd c) # ps) = cookie_loop j ps"
    using cookie_step [of c jar "fst c @ ''='' @ snd c"] assms Cons by (auto simp del: cookie_loop.simps)
  obtain j' where "cookie_loop j (map (\<lambda>c. '' '' @ fst c @ ''='' @ snd c) cs') = Some j'" "strmap_inv j'"
      "strmap_get j' = strmap_get j ++ map_of (rev cs')"
    using cookie_loop_all [of cs' j] j(1) assms Cons by auto
  moreover have "strmap_get j ++ map_of (rev cs') = strmap_get jar ++ map_of (rev (c # cs'))"
    by (cases c) (simp add: j(2) map_add_assoc [symmetric])
  ultimately show ?thesis
    using cookie_pieces [OF assms(1)] Cons j(3) by (simp add: http_cookie_parse_def del: cookie_loop.simps)
qed (simp add: http_cookie_parse_def assms)

theorem cookie_parse_correct_witness:
  "\<exists>jar'. http_cookie_parse strmap_init (cookie_text [(''sid'', ''a1''), (''theme'', ''dark''), (''sid'', ''b2'')]) = Some jar'
    \<and> strmap_get jar' ''sid'' = Some ''b2''"
proof -
  have "list_all cookie_ok [(''sid'', ''a1''), (''theme'', ''dark''), (''sid'', ''b2'')]"
    by (simp add: cookie_ok_def word_ok_def isspace_def)
  from cookie_parse_correct [OF this strmap_inv_init] show ?thesis by auto
qed





text \<open>With a NUL in the file name the check for \<open>..\<close> is passed, but the path that \<open>fopen\<close> sees ends in \<open>/..\<close>.\<close>

lemma multipart_save_nul:
  "map_option (\<lambda>p. c_str (fst p)) (multipart_save (empty_part\<lparr>mp_filename := ''..'' @ [NUL]\<rparr>) ''/var/up'' 64) = Some ''/var/up/..''"
  by (simp add: multipart_save_def Let_def c_str_def empty_part_def)

text \<open>A semicolon inside a quoted file name cuts the name; the part then counts as a plain field.\<close>

lemma disposition_semicolon:
  "parse_disposition (''form-data; name='' @ [DQUOTE] @ ''f'' @ [DQUOTE] @ ''; filename='' @ [DQUOTE] @ ''a;b'' @ [DQUOTE]) = (''f'', [])"
  by (simp add: parse_disposition_def sv_chop_by_delim_def sv_pieces.simps sv_trim_def sv_trim_left_dropWhile sv_trim_right_rev
      isspace_def unquote_def sv_from_cstr_def c_str_def Let_def)

end
