(* ===== verification/Routing.thy ===== *)
theory Routing
  imports Forms
begin

text \<open>
  \<open>src/routing/route.c\<close> and \<open>src/routing/router.c\<close>: matching paths against patterns, the table of
  routes and the dispatcher. Handlers are code of the application: they are addresses in the
  table, and \<open>call\<close>, the parameter of the dispatcher, says what running one does to request and
  response.
\<close>

subsection \<open>Matching a path\<close>

definition next_seg :: "sv \<Rightarrow> sv \<times> sv" where
  "next_seg s =
     (let s1 = dropWhile (\<lambda>c. c = CHR ''/'') s in if length s1 = 0 then ([], []) else sv_chop_by_delim s1 (CHR ''/''))"

lemma next_seg_shorter: "(seg, rest) = next_seg s \<Longrightarrow> seg \<noteq> [] \<Longrightarrow> length rest < length s"
  using sv_chop_shorter' [of seg rest "dropWhile (\<lambda>c. c = CHR ''/'') s" "CHR ''/''"] length_dropWhile_le [of "\<lambda>c. c = CHR ''/''" s]
  by (simp add: next_seg_def Let_def split: if_splits)

function route_loop :: "sv \<Rightarrow> sv \<Rightarrow> str_map option \<Rightarrow> (bool \<times> str_map option) option" where
  "route_loop p q params =
     (case next_seg p of (pseg, p') \<Rightarrow> case next_seg q of (qseg, q') \<Rightarrow>
        if length pseg = 1 \<and> pseg ! 0 = CHR ''*'' then Some (length (fst (next_seg p')) = 0, params)
        else if length pseg = 0 \<or> length qseg = 0 then Some (length pseg = 0 \<and> length qseg = 0, params)
        else if length pseg \<ge> 2 \<and> pseg ! 0 = CHR ''<'' \<and> pseg ! (length pseg - 1) = CHR ''>'' then
          let name = take (length pseg - 2) (drop 1 pseg)
          in if length name = 0 then Some (False, params)
             else
               case params of
                 None \<Rightarrow> route_loop p' q' None
               | Some m \<Rightarrow>
                   (case strmap_set m name qseg of
                      None \<Rightarrow> None
                    | Some (rc, m') \<Rightarrow> if rc \<noteq> 0 then Some (False, Some m') else route_loop p' q' (Some m'))
        else if \<not> sv_equal pseg qseg then Some (False, params)
        else route_loop p' q' params)"
  by pat_completeness auto
termination
  by (relation "measure (\<lambda>(p, q, params). length p)") (auto intro: next_seg_shorter)

declare route_loop.simps [simp del]

definition route_path_matches :: "char list \<Rightarrow> sv \<Rightarrow> str_map option \<Rightarrow> (bool \<times> str_map option) option" where
  "route_path_matches pattern path params = route_loop (sv_from_cstr pattern) path params"

definition route_match :: "http_method \<Rightarrow> char list \<Rightarrow> http_method \<Rightarrow> sv \<Rightarrow> str_map option \<Rightarrow> (bool \<times> str_map option) option" where
  "route_match route_method pattern method path params =
     (if route_method \<noteq> method then Some (False, params) else route_path_matches pattern path params)"

subsection \<open>The table of routes\<close>

record http_route =
  rt_method :: http_method
  rt_pattern :: "char list"
  rt_handler :: nat
  rt_user_data :: ptr
  rt_timeout_ms :: nat

type_synonym http_router = "http_route list"

definition router_add :: "http_router \<Rightarrow> http_method \<Rightarrow> char list \<Rightarrow> nat \<Rightarrow> ptr \<Rightarrow> http_router" where
  "router_add r method pattern handler user_data =
     r @ [\<lparr>rt_method = method, rt_pattern = c_str pattern, rt_handler = handler, rt_user_data = user_data, rt_timeout_ms = 0\<rparr>]"

definition router_add_timeout :: "http_router \<Rightarrow> http_method \<Rightarrow> char list \<Rightarrow> nat \<Rightarrow> ptr \<Rightarrow> nat \<Rightarrow> http_router" where
  "router_add_timeout r method pattern handler user_data timeout_ms =
     (let r1 = router_add r method pattern handler user_data
      in r1[length r1 - 1 := (r1 ! (length r1 - 1))\<lparr>rt_timeout_ms := timeout_ms\<rparr>])"

fun router_set_timeout :: "http_router \<Rightarrow> http_method \<Rightarrow> char list \<Rightarrow> nat \<Rightarrow> int \<times> http_router" where
  "router_set_timeout [] method pattern timeout_ms = (-1, [])"
| "router_set_timeout (t # r) method pattern timeout_ms =
     (if rt_method t = method \<and> rt_pattern t = c_str pattern then (0, t\<lparr>rt_timeout_ms := timeout_ms\<rparr> # r)
      else case router_set_timeout r method pattern timeout_ms of (rc, r') \<Rightarrow> (rc, t # r'))"

text \<open>Return value, \<open>*user_data_out\<close> (when written) and the table.\<close>

fun router_remove :: "http_router \<Rightarrow> http_method \<Rightarrow> char list \<Rightarrow> int \<times> ptr option \<times> http_router" where
  "router_remove [] method pattern = (-1, None, [])"
| "router_remove (t # r) method pattern =
     (if rt_method t = method \<and> rt_pattern t = c_str pattern then (0, Some (rt_user_data t), r)
      else case router_remove r method pattern of (rc, u, r') \<Rightarrow> (rc, u, t # r'))"

subsection \<open>Dispatch\<close>

function allow_has :: "sv \<Rightarrow> sv \<Rightarrow> bool" where
  "allow_has s name =
     (if s = [] then False
      else
        let s1 = dropWhile (\<lambda>c. c = CHR '' '') s; tok = takeWhile (\<lambda>c. c \<noteq> CHR '','') s1
        in if tok = name then True else allow_has (tl (drop (length tok) s1)) name)"
  by pat_completeness auto
termination
proof (relation "measure (\<lambda>(s, name). length s)", goal_cases)
  case (2 s name s1 tok)
  then show ?case using length_dropWhile_le [of "\<lambda>c. c = CHR '' ''" s] by (cases s) (auto simp: less_Suc_eq_le)
qed simp

declare allow_has.simps [simp del]

definition allow_add :: "sv \<Rightarrow> http_method \<Rightarrow> sv" where
  "allow_add allow method =
     (case http_method_name method of
        None \<Rightarrow> allow
      | Some name \<Rightarrow> if allow_has allow name then allow else allow @ (if length allow > 0 then '', '' else []) @ name)"

datatype dispatch_result =
    Handled http_request http_response
  | Unhandled bool sv

text \<open>The loop over the routes. \<open>Unhandled\<close> carries \<open>path_found\<close> and the text in \<open>allow\<close>.\<close>

fun dispatch_loop ::
  "(nat \<Rightarrow> http_request \<Rightarrow> http_response \<Rightarrow> str_map \<Rightarrow> ptr \<Rightarrow> http_request \<times> http_response) \<Rightarrow> http_router
   \<Rightarrow> http_request \<Rightarrow> http_response \<Rightarrow> str_map \<Rightarrow> bool \<Rightarrow> sv \<Rightarrow> dispatch_result option" where
  "dispatch_loop call [] req res params path_found allow = Some (Unhandled path_found allow)"
| "dispatch_loop call (route # routes) req res params path_found allow =
     (let as_head = (rq_method req = HTTP_HEAD); want = (if as_head then HTTP_GET else rq_method req);
          method_matches = (rt_method route = want)
      in case route_path_matches (rt_pattern route) (rq_path req) (if method_matches then Some params else None) of
           None \<Rightarrow> None
         | Some (matched, params1) \<Rightarrow>
             let params2 = (case params1 of Some m \<Rightarrow> m | None \<Rightarrow> params)
             in if matched then
                  if method_matches then
                    (case call (rt_handler route) (req\<lparr>rq_route_timeout_ms := rt_timeout_ms route\<rparr>) res params2 (rt_user_data route) of
                       (req1, res1) \<Rightarrow> Some (Handled req1 (if as_head then res1\<lparr>rs_suppress_body := True\<rparr> else res1)))
                  else dispatch_loop call routes req res params2 True (allow_add allow (rt_method route))
                else dispatch_loop call routes req res params2 path_found allow)"

definition plain_reply :: "http_response \<Rightarrow> http_status \<Rightarrow> char list option \<Rightarrow> char list \<Rightarrow> http_response" where
  "plain_reply res status allow body =
     (let res1 = http_response_set_header (http_response_set_status res status) ''Content-Type'' ''text/plain; charset=utf-8'';
          res2 = (case allow of Some a \<Rightarrow> http_response_set_header res1 ''Allow'' a | None \<Rightarrow> res1)
      in http_response_add_body_cstr res2 body)"

definition router_dispatch ::
  "(nat \<Rightarrow> http_request \<Rightarrow> http_response \<Rightarrow> str_map \<Rightarrow> ptr \<Rightarrow> http_request \<times> http_response) \<Rightarrow> http_router
   \<Rightarrow> http_request \<Rightarrow> http_response \<Rightarrow> (http_request \<times> http_response) option" where
  "router_dispatch call r req res =
     (case request_merge_params req strmap_init of
        None \<Rightarrow> None
      | Some (rc, params) \<Rightarrow>
          if rc \<noteq> 0 then Some (req, plain_reply res 400 None ''400 malformed request data'')
          else
            case dispatch_loop call r req res params False [] of
              None \<Rightarrow> None
            | Some (Handled req1 res1) \<Rightarrow> Some (req1, res1)
            | Some (Unhandled path_found allow) \<Rightarrow>
                Some (req,
                  if path_found then
                    if rq_method req = HTTP_OPTIONS
                    then let res1 = http_response_set_status res 200
                         in if length allow > 0 then http_response_set_header res1 ''Allow'' allow else res1
                    else plain_reply res 405 (if length allow > 0 then Some allow else None) ''405 method not allowed''
                  else plain_reply res 404 None ''404 not found''))"

subsection \<open>Segments\<close>

text \<open>
  The reference definition of matching: patterns and paths are lists of non-empty segments.
\<close>

definition segs :: "sv \<Rightarrow> sv list" where
  "segs s = filter (\<lambda>p. p \<noteq> []) (sv_pieces s (CHR ''/''))"

definition is_capture :: "sv \<Rightarrow> bool" where
  "is_capture p \<longleftrightarrow> length p \<ge> 2 \<and> p ! 0 = CHR ''<'' \<and> p ! (length p - 1) = CHR ''>''"

definition capture_name :: "sv \<Rightarrow> sv" where
  "capture_name p = take (length p - 2) (drop 1 p)"

fun seg_match :: "sv list \<Rightarrow> sv list \<Rightarrow> bool" where
  "seg_match [] qs = (qs = [])"
| "seg_match (p # ps) qs =
     (if p = ''*'' then ps = []
      else case qs of [] \<Rightarrow> False
           | q # qs' \<Rightarrow> (if is_capture p then capture_name p \<noteq> [] else p = q) \<and> seg_match ps qs')"

text \<open>The captures an attempt makes, also one that fails later on.\<close>

fun seg_caps :: "sv list \<Rightarrow> sv list \<Rightarrow> (sv \<times> sv) list" where
  "seg_caps (p # ps) (q # qs) =
     (if p = ''*'' then []
      else if is_capture p then if capture_name p = [] then [] else (capture_name p, q) # seg_caps ps qs
      else if p = q then seg_caps ps qs else [])"
| "seg_caps ps qs = []"

lemma sv_pieces_slash: "sv_pieces (CHR ''/'' # s) (CHR ''/'') = [] # sv_pieces s (CHR ''/'')"
  using sv_pieces_present [of "CHR ''/''" "[]" s] by simp

lemma segs_slash [simp]: "segs (CHR ''/'' # s) = segs s"
  by (simp add: segs_def sv_pieces_slash)

lemma segs_dropWhile: "segs (dropWhile (\<lambda>c. c = CHR ''/'') s) = segs s"
proof (induction s)
  case (Cons c s)
  then show ?case by (cases "c = CHR ''/''") simp_all
qed simp

lemma next_seg_segs:
  assumes "next_seg s = (seg, rest)"
  shows "segs s = (if seg = [] then [] else seg # segs rest) \<and> set seg \<subseteq> set s \<and> set rest \<subseteq> set s"
proof -
  let ?t = "dropWhile (\<lambda>c. c = CHR ''/'') s"
  have sub: "set ?t \<subseteq> set s" by (meson set_dropWhileD subsetI)
  show ?thesis
  proof (cases "?t = []")
    case True
    have "segs s = []" using segs_dropWhile [of s] unfolding True by (simp add: segs_def)
    moreover have "seg = []" "rest = []" using assms unfolding next_seg_def True by simp_all
    ultimately show ?thesis by simp
  next
    case False
    have c: "sv_chop_by_delim ?t (CHR ''/'') = (seg, rest)"
      using assms unfolding next_seg_def Let_def length_0_conv if_not_P [OF False] .
    have h: "hd ?t \<noteq> CHR ''/''" using hd_dropWhile [OF False] by auto
    show ?thesis
    proof (cases "CHR ''/'' \<in> set ?t")
      case True
      then obtain a b where ab: "?t = a @ CHR ''/'' # b" "CHR ''/'' \<notin> set a" by (meson split_list_first)
      then have "seg = a" "rest = b" using c sv_chop_present [OF ab(2), of b] by simp_all
      moreover have "a \<noteq> []" using h ab by auto
      ultimately show ?thesis
        using ab sub segs_dropWhile [of s] sv_pieces_present [OF ab(2), of b] by (auto simp: segs_def)
    next
      case no: False
      then have "seg = ?t" "rest = []" using c sv_chop_absent [OF no] by simp_all
      then show ?thesis using False sub segs_dropWhile [of s] sv_pieces_absent [OF False no] by (auto simp: segs_def)
    qed
  qed
qed

lemma star_iff: "length p = 1 \<and> p ! 0 = CHR ''*'' \<longleftrightarrow> p = ''*''"
  by (cases p) auto

lemma no_segs_iff: "fst (next_seg s) = [] \<longleftrightarrow> segs s = []"
  using next_seg_segs [of s "fst (next_seg s)" "snd (next_seg s)"] by auto

text \<open>One turn of the loop, on segments.\<close>

lemma route_loop_step:
  assumes "next_seg p = (ps, p')" and "next_seg q = (qs, q')"
  shows "route_loop p q params =
    (if ps = ''*'' then Some (segs p' = [], params)
     else if ps = [] \<or> qs = [] then Some (ps = [] \<and> qs = [], params)
     else if is_capture ps then
       if capture_name ps = [] then Some (False, params)
       else case params of
              None \<Rightarrow> route_loop p' q' None
            | Some m \<Rightarrow>
                (case strmap_set m (capture_name ps) qs of
                   None \<Rightarrow> None
                 | Some (rc, m') \<Rightarrow> if rc \<noteq> 0 then Some (False, Some m') else route_loop p' q' (Some m'))
     else if ps \<noteq> qs then Some (False, params) else route_loop p' q' params)"
  unfolding route_loop.simps [of p] assms prod.case star_iff Let_def is_capture_def [symmetric] capture_name_def [symmetric]
    length_0_conv no_segs_iff sv_equal_iff by (rule refl)

lemma route_loop_none: "route_loop p q None = Some (seg_match (segs p) (segs q), None)"
proof (induction "length p" arbitrary: p q rule: less_induct)
  case less
  obtain ps p' where p: "next_seg p = (ps, p')" by fastforce
  obtain qs q' where q: "next_seg q = (qs, q')" by fastforce
  have ih: "route_loop p' q' None = Some (seg_match (segs p') (segs q'), None)" if "ps \<noteq> []"
    using less next_seg_shorter [OF p [symmetric] that] by blast
  show ?case
    unfolding route_loop_step [OF p q] using ih next_seg_segs [OF p] next_seg_segs [OF q]
    by (cases "ps = []"; cases "qs = []"; cases "ps = ''*''"; cases "is_capture ps") simp_all
qed

lemma route_loop_some:
  "strmap_inv m \<Longrightarrow> NUL \<notin> set p \<Longrightarrow>
     route_loop p q (Some m) =
       map_option (\<lambda>m'. (seg_match (segs p) (segs q), Some m')) (sm.set_all m (seg_caps (segs p) (segs q)))"
proof (induction "length p" arbitrary: p q m rule: less_induct)
  case less
  obtain ps p' where p: "next_seg p = (ps, p')" by fastforce
  obtain qs q' where q: "next_seg q = (qs, q')" by fastforce
  have nul: "NUL \<notin> set ps" "NUL \<notin> set p'" using next_seg_segs [OF p] less.prems(2) by auto
  have "set (capture_name ps) \<subseteq> set ps" by (auto simp: capture_name_def dest: in_set_takeD in_set_dropD)
  then have "NUL \<notin> set (capture_name ps)" using nul by auto
  then obtain m1 where m1: "strmap_set m (capture_name ps) qs = Some (0, m1)" "strmap_inv m1"
    using sm.set_key [OF less.prems(1)] by blast
  have ih: "route_loop p' q' (Some k) =
      map_option (\<lambda>m'. (seg_match (segs p') (segs q'), Some m')) (sm.set_all k (seg_caps (segs p') (segs q')))"
    if "ps \<noteq> []" "strmap_inv k" for k
    using less.hyps [of p' k q'] next_seg_shorter [OF p [symmetric] that(1)] that(2) nul(2) by blast
  show ?case
  proof (cases "ps = [] \<or> qs = [] \<or> ps = ''*''")
    case True
    then show ?thesis
      unfolding route_loop_step [OF p q] using next_seg_segs [OF p] next_seg_segs [OF q]
      by (cases "ps = []"; cases "qs = []"; cases "ps = ''*''") simp_all
  next
    case False
    then show ?thesis
      unfolding route_loop_step [OF p q] using ih m1 less.prems(1) next_seg_segs [OF p] next_seg_segs [OF q]
      by (cases "is_capture ps"; cases "capture_name ps = []"; cases "ps = qs") simp_all
  qed
qed

subsection \<open>Dispatch over segments\<close>

definition path_match :: "http_route \<Rightarrow> http_request \<Rightarrow> bool" where
  "path_match t req = seg_match (segs (rt_pattern t)) (segs (rq_path req))"

definition wanted :: "http_request \<Rightarrow> http_method" where
  "wanted req = (if rq_method req = HTTP_HEAD then HTTP_GET else rq_method req)"

definition attempt_caps :: "http_route \<Rightarrow> http_request \<Rightarrow> (sv \<times> sv) list" where
  "attempt_caps t req = (if rt_method t = wanted req then seg_caps (segs (rt_pattern t)) (segs (rq_path req)) else [])"

definition pattern_ok :: "http_route \<Rightarrow> bool" where
  "pattern_ok t \<longleftrightarrow> NUL \<notin> set (rt_pattern t)"

lemma seg_caps_names: "(k, v) \<in> set (seg_caps ps qs) \<Longrightarrow> \<exists>p \<in> set ps. set k \<subseteq> set p"
proof (induction ps qs rule: seg_caps.induct)
  case (1 p ps q qs)
  have "set (capture_name p) \<subseteq> set p" by (auto simp: capture_name_def dest: in_set_takeD in_set_dropD)
  then show ?case using 1 by (auto split: if_splits)
qed auto

lemma segs_subset: "p \<in> set (segs s) \<Longrightarrow> set p \<subseteq> set s"
  using sv_pieces_subset [of p s] by (auto simp: segs_def)

lemma attempt_caps_ok: "pattern_ok t \<Longrightarrow> \<forall>(k, v) \<in> set (attempt_caps t req). NUL \<notin> set k"
  using seg_caps_names segs_subset by (fastforce simp: attempt_caps_def pattern_ok_def split: if_splits)

lemma dispatch_step:
  assumes "strmap_inv params" and "pattern_ok t"
  shows "\<exists>params'. strmap_inv params' \<and> strmap_get params' = strmap_get params ++ map_of (rev (map (apsnd c_str) (attempt_caps t req)))
    \<and> dispatch_loop call (t # ts) req res params found allow =
      (if path_match t req then
         if rt_method t = wanted req then
           (case call (rt_handler t) (req\<lparr>rq_route_timeout_ms := rt_timeout_ms t\<rparr>) res params' (rt_user_data t) of
              (req1, res1) \<Rightarrow> Some (Handled req1 (if rq_method req = HTTP_HEAD then res1\<lparr>rs_suppress_body := True\<rparr> else res1)))
         else dispatch_loop call ts req res params' True (allow_add allow (rt_method t))
       else dispatch_loop call ts req res params' found allow)"
proof (cases "rt_method t = wanted req")
  case True
  let ?caps = "seg_caps (segs (rt_pattern t)) (segs (rq_path req))"
  have n: "NUL \<notin> set (rt_pattern t)" using assms(2) by (simp add: pattern_ok_def)
  obtain m where m: "sm.set_all params ?caps = Some m" "strmap_inv m"
      "strmap_get m = strmap_get params ++ map_of (rev (map (apsnd c_str) ?caps))"
    using sm.set_all_ok [OF assms(1), of ?caps] attempt_caps_ok [OF assms(2), of req] True by (auto simp: attempt_caps_def)
  have "route_path_matches (rt_pattern t) (rq_path req) (Some params) = Some (path_match t req, Some m)"
    using route_loop_some [OF assms(1) n, of "rq_path req"] m(1) n
    by (simp add: route_path_matches_def path_match_def sv_from_cstr_def c_str_id)
  then show ?thesis
    using True m by (intro exI [of _ m]) (simp add: attempt_caps_def wanted_def [symmetric] Let_def)
next
  case False
  have n: "NUL \<notin> set (rt_pattern t)" using assms(2) by (simp add: pattern_ok_def)
  have "route_path_matches (rt_pattern t) (rq_path req) None = Some (path_match t req, None)"
    using route_loop_none n by (simp add: route_path_matches_def path_match_def sv_from_cstr_def c_str_id)
  then show ?thesis
    using False assms(1) by (intro exI [of _ params]) (simp add: attempt_caps_def wanted_def [symmetric] Let_def)
qed

lemma dispatch_skip:
  assumes "strmap_inv params" and "list_all pattern_ok pre" and "list_all (\<lambda>t. \<not> (path_match t req \<and> rt_method t = wanted req)) pre"
  shows "\<exists>params'. strmap_inv params'
    \<and> strmap_get params' = strmap_get params ++ map_of (rev (map (apsnd c_str) (concat (map (\<lambda>t. attempt_caps t req) pre))))
    \<and> dispatch_loop call (pre @ post) req res params found allow =
        dispatch_loop call post req res params' (found \<or> (\<exists>t \<in> set pre. path_match t req))
          (foldl allow_add allow (map rt_method (filter (\<lambda>t. path_match t req) pre)))"
  using assms
proof (induction pre arbitrary: params found allow)
  case (Cons t pre)
  obtain m where m: "strmap_inv m" "strmap_get m = strmap_get params ++ map_of (rev (map (apsnd c_str) (attempt_caps t req)))"
      "dispatch_loop call (t # pre @ post) req res params found allow =
        (if path_match t req then dispatch_loop call (pre @ post) req res m True (allow_add allow (rt_method t))
         else dispatch_loop call (pre @ post) req res m found allow)"
    using dispatch_step [OF Cons.prems(1), of t req call "pre @ post" res found allow] Cons.prems(2,3)
    by (cases "path_match t req") auto
  let ?found = "found \<or> path_match t req" and ?allow = "if path_match t req then allow_add allow (rt_method t) else allow"
  obtain m' where m': "strmap_inv m'"
      "strmap_get m' = strmap_get m ++ map_of (rev (map (apsnd c_str) (concat (map (\<lambda>t. attempt_caps t req) pre))))"
      "dispatch_loop call (pre @ post) req res m ?found ?allow =
        dispatch_loop call post req res m' (?found \<or> (\<exists>t \<in> set pre. path_match t req))
          (foldl allow_add ?allow (map rt_method (filter (\<lambda>t. path_match t req) pre)))"
    using Cons.IH [OF m(1), of ?found ?allow] Cons.prems(2,3) by auto
  show ?case
    using m m' by (intro exI [of _ m']) (cases "path_match t req", simp_all)
qed auto

text \<open>The Allow header: the names of the methods in the order of their first route.\<close>

fun allow_text :: "sv list \<Rightarrow> sv" where
  "allow_text [] = []"
| "allow_text [n] = n"
| "allow_text (n # m # ns) = n @ '', '' @ allow_text (m # ns)"

definition add_name :: "sv list \<Rightarrow> http_method \<Rightarrow> sv list" where
  "add_name ns method = (case http_method_name method of None \<Rightarrow> ns | Some n \<Rightarrow> if n \<in> set ns then ns else ns @ [n])"

definition method_names :: "sv list" where
  "method_names = [''GET'', ''POST'', ''PUT'', ''DELETE'', ''PATCH'', ''HEAD'', ''OPTIONS'']"

lemma method_name_in: "http_method_name m = Some n \<Longrightarrow> n \<in> set method_names"
  by (cases m) (simp_all add: method_names_def)

definition token :: "sv \<Rightarrow> bool" where
  "token n \<longleftrightarrow> n \<noteq> [] \<and> list_all (\<lambda>c. c \<noteq> CHR '','' \<and> c \<noteq> CHR '' '') n"

lemma token_facts: "token n \<Longrightarrow> n \<noteq> [] \<and> CHR '','' \<notin> set n \<and> hd n \<noteq> CHR '' ''"
  unfolding token_def list_all_iff using hd_in_set by blast

lemma method_tokens: "list_all token method_names"
  by code_simp

lemma allow_text_snoc: "allow_text (ns @ [n]) = (if ns = [] then n else allow_text ns @ '', '' @ n)"
  by (induction ns rule: allow_text.induct) simp_all

lemma allow_text_empty: "list_all token ns \<Longrightarrow> allow_text ns = [] \<longleftrightarrow> ns = []"
  by (cases ns rule: allow_text.cases) (simp_all add: token_def)

lemma allow_has_blank: "s \<noteq> [] \<Longrightarrow> hd s \<noteq> CHR '' '' \<Longrightarrow> allow_has (CHR '' '' # s) n = allow_has s n"
  by (subst (1 2) allow_has.simps) (cases s, simp_all)

lemma allow_has_text: "list_all token ns \<Longrightarrow> token n \<Longrightarrow> allow_has (allow_text ns) n \<longleftrightarrow> n \<in> set ns"
proof (induction ns rule: allow_text.induct)
  case 1
  then show ?case by (simp add: allow_has.simps)
next
  case (2 m)
  then have m: "CHR '','' \<notin> set m" "m \<noteq> []" "hd m \<noteq> CHR '' ''" using token_facts [of m] by simp_all
  have d: "dropWhile (\<lambda>c. c = CHR '' '') m = m" using m by (cases m) simp_all
  have t: "takeWhile (\<lambda>c. c \<noteq> CHR '','') m = m" using m by (intro takeWhile_all) simp
  have "allow_has m n = (if m = n then True else allow_has [] n)"
    unfolding allow_has.simps [of m] Let_def d t using m(2) by simp
  then show ?case by (auto simp: allow_has.simps [of "[]"])
next
  case (3 m k ns)
  let ?r = "allow_text (k # ns)"
  have m: "CHR '','' \<notin> set m" "m \<noteq> []" "hd m \<noteq> CHR '' ''" using token_facts [of m] "3.prems" by simp_all
  have r: "?r \<noteq> []" "hd ?r \<noteq> CHR '' ''" using token_facts [of k] "3.prems" by (cases ns; simp add: hd_append)+
  have d: "dropWhile (\<lambda>c. c = CHR '' '') (m @ CHR '','' # CHR '' '' # ?r) = m @ CHR '','' # CHR '' '' # ?r"
    using m by (cases m) simp_all
  have t: "takeWhile (\<lambda>c. c \<noteq> CHR '','') (m @ CHR '','' # CHR '' '' # ?r) = m"
    using m by (intro takeWhile_append_stop) simp_all
  have "allow_has (m @ CHR '','' # CHR '' '' # ?r) n \<longleftrightarrow> m = n \<or> allow_has (CHR '' '' # ?r) n"
    unfolding allow_has.simps [of "m @ CHR '','' # CHR '' '' # ?r"] Let_def d t by simp
  then show ?case using 3 r by (auto simp: allow_has_blank)
qed

lemma allow_add_text:
  assumes "set ns \<subseteq> set method_names"
  shows "allow_add (allow_text ns) m = allow_text (add_name ns m) \<and> set (add_name ns m) \<subseteq> set method_names
    \<and> (distinct ns \<longrightarrow> distinct (add_name ns m))"
proof (cases "http_method_name m")
  case (Some n)
  have t: "list_all token ns" "token n" using method_tokens assms method_name_in [OF Some] by (auto simp: list_all_iff)
  then show ?thesis
    using Some assms method_name_in [OF Some] allow_has_text [OF t] allow_text_empty [OF t(1)]
    by (auto simp: allow_add_def add_name_def allow_text_snoc)
qed (use assms in \<open>simp add: allow_add_def add_name_def\<close>)

lemma allow_fold:
  "set ns \<subseteq> set method_names \<Longrightarrow> distinct ns \<Longrightarrow>
     foldl allow_add (allow_text ns) ms = allow_text (foldl add_name ns ms) \<and> set (foldl add_name ns ms) \<subseteq> set method_names
     \<and> distinct (foldl add_name ns ms)"
proof (induction ms arbitrary: ns)
  case (Cons m ms)
  then show ?case using allow_add_text [of ns m] by simp
qed simp

lemma allow_text_length: "length (allow_text ns) \<le> sum_list (map length ns) + 2 * length ns"
  by (induction ns rule: allow_text.induct) simp_all

lemma allow_bound:
  assumes "set ns \<subseteq> set method_names" and "distinct ns"
  shows "length (allow_text ns) \<le> 46"
proof -
  have "sum_list (map length ns) = sum length (set ns)" using assms(2) by (simp add: sum_list_distinct_conv_sum_set)
  also have "\<dots> \<le> sum length (set method_names)" using assms(1) by (intro sum_mono2) auto
  also have "\<dots> = 32" by (simp add: method_names_def)
  finally have "sum_list (map length ns) \<le> 32" .
  moreover have "length ns \<le> 7"
    using card_mono [OF _ assms(1)] distinct_card [OF assms(2)] by (simp add: method_names_def)
  ultimately show ?thesis using allow_text_length [of ns] by simp
qed

lemma foldl_add_name_set: "set (foldl add_name ns ms) = set ns \<union> {n. \<exists>m \<in> set ms. http_method_name m = Some n}"
  by (induction ms arbitrary: ns) (auto simp: add_name_def split: option.splits)

subsection \<open>Properties\<close>

text \<open>
  C14: Path matching. The segment walk of the source decides exactly the segment-wise match of
  pattern and path, and with a parameter table it stores exactly the captures made on the way.
\<close>

theorem route_matches_segments:
  assumes "strmap_inv m"
  shows "route_path_matches pattern path None = Some (seg_match (segs (c_str pattern)) (segs path), None)
    \<and> (\<exists>m'. route_path_matches pattern path (Some m) = Some (seg_match (segs (c_str pattern)) (segs path), Some m')
        \<and> strmap_inv m'
        \<and> strmap_get m' = strmap_get m ++ map_of (rev (map (apsnd c_str) (seg_caps (segs (c_str pattern)) (segs path)))))"
proof -
  have "\<forall>(k, v) \<in> set (seg_caps (segs (c_str pattern)) (segs path)). NUL \<notin> set k"
    using seg_caps_names segs_subset NUL_notin_c_str by fastforce
  then show ?thesis
    using sm.set_all_ok [OF assms] route_loop_none [of "c_str pattern" path] route_loop_some [OF assms NUL_notin_c_str, of pattern path]
    by (auto simp: route_path_matches_def sv_from_cstr_def)
qed

theorem route_matches_segments_witness:
  "\<exists>m'. route_path_matches ''/users/<id>/*'' ''/users/7/x/y'' (Some strmap_init) = Some (True, Some m') \<and> strmap_get m' ''id'' = Some ''7''"
proof -
  have "segs (c_str ''/users/<id>/*'') = [''users'', ''<id>'', ''*'']" "segs ''/users/7/x/y'' = [''users'', ''7'', ''x'', ''y'']"
    by (simp_all add: segs_def sv_pieces.simps sv_chop_by_delim_def c_str_def)
  then show ?thesis
    using route_matches_segments [OF strmap_inv_init, of "''/users/<id>/*''" "''/users/7/x/y''"]
    by (auto simp: is_capture_def capture_name_def c_str_def)
qed

text \<open>
  C15: The first match wins. When \<open>t\<close> is the first route whose pattern matches the path and whose
  method is the one asked for (GET for a HEAD request), exactly its handler runs, with the
  route's timeout, and sees the request parameters overridden by the captures of the pattern; captures
  that earlier attempts of the same method made before they failed are still in the table below
  them. A HEAD request has its body suppressed.
\<close>

theorem dispatch_first_match:
  assumes "request_merge_params req strmap_init = Some (0, params)" and "strmap_inv params" and "list_all pattern_ok (pre @ [t])"
    and "list_all (\<lambda>s. \<not> (path_match s req \<and> rt_method s = wanted req)) pre"
    and "path_match t req" and "rt_method t = wanted req"
  shows "\<exists>params'. strmap_get params' = strmap_get params
        ++ map_of (rev (map (apsnd c_str) (concat (map (\<lambda>s. attempt_caps s req) (pre @ [t])))))
    \<and> router_dispatch call (pre @ t # post) req res =
        (case call (rt_handler t) (req\<lparr>rq_route_timeout_ms := rt_timeout_ms t\<rparr>) res params' (rt_user_data t) of
           (req1, res1) \<Rightarrow> Some (req1, if rq_method req = HTTP_HEAD then res1\<lparr>rs_suppress_body := True\<rparr> else res1))"
proof -
  have ok: "list_all pattern_ok pre" "pattern_ok t" using assms(3) by simp_all
  obtain m where m: "strmap_inv m"
      "strmap_get m = strmap_get params ++ map_of (rev (map (apsnd c_str) (concat (map (\<lambda>t. attempt_caps t req) pre))))"
      "dispatch_loop call (pre @ t # post) req res params False [] =
        dispatch_loop call (t # post) req res m (\<exists>t \<in> set pre. path_match t req)
          (foldl allow_add [] (map rt_method (filter (\<lambda>t. path_match t req) pre)))"
    using dispatch_skip [OF assms(2) ok(1) assms(4), of call "t # post" res False "[]"] by auto
  obtain m' where m': "strmap_get m' = strmap_get m ++ map_of (rev (map (apsnd c_str) (attempt_caps t req)))"
      "dispatch_loop call (t # post) req res m (\<exists>t \<in> set pre. path_match t req)
          (foldl allow_add [] (map rt_method (filter (\<lambda>t. path_match t req) pre)))
        = (case call (rt_handler t) (req\<lparr>rq_route_timeout_ms := rt_timeout_ms t\<rparr>) res m' (rt_user_data t) of
             (req1, res1) \<Rightarrow> Some (Handled req1 (if rq_method req = HTTP_HEAD then res1\<lparr>rs_suppress_body := True\<rparr> else res1)))"
    using dispatch_step [OF m(1) ok(2), of req call post res] assms(5,6) by fastforce
  show ?thesis
    using m m' assms(1) by (intro exI [of _ m']) (simp add: router_dispatch_def split: prod.splits)
qed

theorem dispatch_first_match_witness:
  "\<exists>params'. strmap_get params' ''id'' = Some ''7'' \<and>
    router_dispatch (\<lambda>h req res params user. (req, http_response_set_status res h))
      [\<lparr>rt_method = HTTP_GET, rt_pattern = ''/a'', rt_handler = 404, rt_user_data = None, rt_timeout_ms = 0\<rparr>,
       \<lparr>rt_method = HTTP_GET, rt_pattern = ''/u/<id>'', rt_handler = 201, rt_user_data = None, rt_timeout_ms = 9\<rparr>]
      (empty_request\<lparr>rq_method := HTTP_GET, rq_path := ''/u/7''\<rparr>) http_response_init
    = Some (empty_request\<lparr>rq_method := HTTP_GET, rq_path := ''/u/7'', rq_route_timeout_ms := 9\<rparr>, http_response_set_status http_response_init 201)"
proof -
  let ?req = "empty_request\<lparr>rq_method := HTTP_GET, rq_path := ''/u/7''\<rparr>"
  let ?a = "\<lparr>rt_method = HTTP_GET, rt_pattern = ''/a'', rt_handler = 404, rt_user_data = None, rt_timeout_ms = 0\<rparr>"
  let ?u = "\<lparr>rt_method = HTTP_GET, rt_pattern = ''/u/<id>'', rt_handler = 201, rt_user_data = None, rt_timeout_ms = 9\<rparr>"
  have m: "request_merge_params ?req strmap_init = Some (0, strmap_init)"
    by (simp add: request_merge_params_def merge_body_def empty_request_def http_request_get_header_def)
  have s: "segs ''/a'' = [''a'']" "segs ''/u/<id>'' = [''u'', ''<id>'']" "segs ''/u/7'' = [''u'', ''7'']"
    by (simp_all add: segs_def sv_pieces.simps sv_chop_by_delim_def)
  have p: "\<not> path_match ?a ?req" "path_match ?u ?req" "wanted ?req = HTTP_GET" "list_all pattern_ok ([?a] @ [?u])"
    by (simp_all add: path_match_def s is_capture_def capture_name_def wanted_def pattern_ok_def del: segs_slash)
  have c: "attempt_caps ?a ?req = []" "attempt_caps ?u ?req = [(''id'', ''7'')]"
    by (simp_all add: attempt_caps_def s p(3) is_capture_def capture_name_def del: segs_slash)
  have "\<exists>params'. strmap_get params' = strmap_get strmap_init
        ++ map_of (rev (map (apsnd c_str) (concat (map (\<lambda>s. attempt_caps s ?req) ([?a] @ [?u])))))
    \<and> router_dispatch (\<lambda>h req res params user. (req, http_response_set_status res h)) ([?a] @ ?u # []) ?req http_response_init =
        (case (?req\<lparr>rq_route_timeout_ms := rt_timeout_ms ?u\<rparr>, http_response_set_status http_response_init (rt_handler ?u)) of
           (req1, res1) \<Rightarrow> Some (req1, if rq_method ?req = HTTP_HEAD then res1\<lparr>rs_suppress_body := True\<rparr> else res1))"
    by (rule dispatch_first_match [OF m strmap_inv_init p(4), where call = "\<lambda>h req res params user. (req, http_response_set_status res h)"])
      (simp_all add: p)
  then obtain params' where "strmap_get params' = (strmap_get strmap_init)(''id'' \<mapsto> ''7'')"
    "router_dispatch (\<lambda>h req res params user. (req, http_response_set_status res h)) [?a, ?u] ?req http_response_init =
       Some (?req\<lparr>rq_route_timeout_ms := 9\<rparr>, http_response_set_status http_response_init 201)"
    by (auto simp: c c_str_def)
  then show ?thesis by (intro exI [of _ params']) simp
qed

text \<open>
  C16: No match. When no route matches path and method, no handler runs: the answer is 404 if no
  pattern matches, otherwise 405 (200 for OPTIONS) with an Allow header that lists exactly the methods of
  the routes whose pattern matches, each once; the list always fits the 128-byte buffer.
\<close>

theorem dispatch_no_match:
  assumes "request_merge_params req strmap_init = Some (0, params)" and "strmap_inv params" and "list_all pattern_ok r"
    and "list_all (\<lambda>t. \<not> (path_match t req \<and> rt_method t = wanted req)) r"
  shows "\<exists>names. set names = {n. \<exists>t \<in> set r. path_match t req \<and> http_method_name (rt_method t) = Some n} \<and> distinct names
    \<and> length (allow_text names) + 1 \<le> 128
    \<and> router_dispatch call r req res = Some (req,
        if \<not> list_ex (\<lambda>t. path_match t req) r then plain_reply res 404 None ''404 not found''
        else if rq_method req = HTTP_OPTIONS
          then if names = [] then http_response_set_status res 200
               else http_response_set_header (http_response_set_status res 200) ''Allow'' (allow_text names)
        else plain_reply res 405 (if names = [] then None else Some (allow_text names)) ''405 method not allowed'')"
proof -
  let ?ms = "map rt_method (filter (\<lambda>t. path_match t req) r)"
  let ?names = "foldl add_name [] ?ms"
  have f: "foldl allow_add [] ?ms = allow_text ?names" "set ?names \<subseteq> set method_names" "distinct ?names"
    using allow_fold [of "[]" ?ms] by simp_all
  have e: "allow_text ?names = [] \<longleftrightarrow> ?names = []"
    using method_tokens f(2) by (intro allow_text_empty) (auto simp: list_all_iff)
  have "dispatch_loop call r req res params False [] = Some (Unhandled (\<exists>t \<in> set r. path_match t req) (allow_text ?names))"
    using dispatch_skip [OF assms(2-4), of call "[]" res False "[]"] by (auto simp: f(1))
  then have "router_dispatch call r req res = Some (req,
        if \<not> list_ex (\<lambda>t. path_match t req) r then plain_reply res 404 None ''404 not found''
        else if rq_method req = HTTP_OPTIONS
          then if ?names = [] then http_response_set_status res 200
               else http_response_set_header (http_response_set_status res 200) ''Allow'' (allow_text ?names)
        else plain_reply res 405 (if ?names = [] then None else Some (allow_text ?names)) ''405 method not allowed'')"
    using assms(1) e by (simp add: router_dispatch_def Let_def list_ex_iff)
  moreover have "set ?names = {n. \<exists>t \<in> set r. path_match t req \<and> http_method_name (rt_method t) = Some n}"
    by (auto simp: foldl_add_name_set)
  moreover have "length (allow_text ?names) + 1 \<le> 128" using allow_bound [OF f(2,3)] by simp
  ultimately show ?thesis using f(3) by (intro exI [of _ ?names]) simp
qed

theorem dispatch_no_match_witness:
  "\<exists>names. set names = {''POST''} \<and>
    router_dispatch (\<lambda>h req res params user. (req, res))
      [\<lparr>rt_method = HTTP_POST, rt_pattern = ''/a'', rt_handler = 1, rt_user_data = None, rt_timeout_ms = 0\<rparr>]
      (empty_request\<lparr>rq_method := HTTP_GET, rq_path := ''/a''\<rparr>) http_response_init
    = Some (empty_request\<lparr>rq_method := HTTP_GET, rq_path := ''/a''\<rparr>,
        plain_reply http_response_init 405 (Some (allow_text names)) ''405 method not allowed'')"
proof -
  let ?req = "empty_request\<lparr>rq_method := HTTP_GET, rq_path := ''/a''\<rparr>"
  let ?a = "\<lparr>rt_method = HTTP_POST, rt_pattern = ''/a'', rt_handler = 1, rt_user_data = None, rt_timeout_ms = 0\<rparr>"
  have m: "request_merge_params ?req strmap_init = Some (0, strmap_init)"
    by (simp add: request_merge_params_def merge_body_def empty_request_def http_request_get_header_def)
  have "segs ''/a'' = [''a'']" by (simp add: segs_def sv_pieces.simps sv_chop_by_delim_def)
  then have p: "path_match ?a ?req" "wanted ?req = HTTP_GET" "pattern_ok ?a"
    by (simp_all add: path_match_def is_capture_def wanted_def pattern_ok_def del: segs_slash)
  have ok: "list_all pattern_ok [?a]" "list_all (\<lambda>t. \<not> (path_match t ?req \<and> rt_method t = wanted ?req)) [?a]"
    using p by simp_all
  obtain names where n: "set names = {n. \<exists>t \<in> set [?a]. path_match t ?req \<and> http_method_name (rt_method t) = Some n}"
    "router_dispatch (\<lambda>h req res params user. (req, res)) [?a] ?req http_response_init = Some (?req,
        if \<not> list_ex (\<lambda>t. path_match t ?req) [?a] then plain_reply http_response_init 404 None ''404 not found''
        else if rq_method ?req = HTTP_OPTIONS
          then if names = [] then http_response_set_status http_response_init 200
               else http_response_set_header (http_response_set_status http_response_init 200) ''Allow'' (allow_text names)
        else plain_reply http_response_init 405 (if names = [] then None else Some (allow_text names)) ''405 method not allowed'')"
    using dispatch_no_match [OF m strmap_inv_init ok, of "\<lambda>h req res params user. (req, res)" http_response_init] by blast
  have s: "set names = {''POST''}" unfolding n(1) using p(1) by simp
  have ne: "names \<noteq> []" using s by (metis empty_set insert_not_empty)
  have x: "list_ex (\<lambda>t. path_match t ?req) [?a]" "rq_method ?req \<noteq> HTTP_OPTIONS" using p(1) by simp_all
  show ?thesis using n(2) unfolding if_not_P [OF ne] using s x by (intro exI [of _ names]) (simp only: if_True if_False simp_thms)
qed

text \<open>
  A failed attempt leaves its captures behind: the handler of \<open>/<b>/y\<close> sees a parameter \<open>a\<close> that
  its pattern does not have.
\<close>

lemma dispatch_capture_leak:
  "concat (map (\<lambda>s. attempt_caps s (empty_request\<lparr>rq_method := HTTP_GET, rq_path := ''/v/y''\<rparr>))
     [\<lparr>rt_method = HTTP_GET, rt_pattern = ''/<a>/x'', rt_handler = 1, rt_user_data = None, rt_timeout_ms = 0\<rparr>,
      \<lparr>rt_method = HTTP_GET, rt_pattern = ''/<b>/y'', rt_handler = 2, rt_user_data = None, rt_timeout_ms = 0\<rparr>])
   = [(''a'', ''v''), (''b'', ''v'')]"
proof -
  have "segs ''/<a>/x'' = [''<a>'', ''x'']" "segs ''/<b>/y'' = [''<b>'', ''y'']" "segs ''/v/y'' = [''v'', ''y'']"
    by (simp_all add: segs_def sv_pieces.simps sv_chop_by_delim_def)
  then show ?thesis by (simp add: attempt_caps_def wanted_def is_capture_def capture_name_def del: segs_slash)
qed

end
