(* ===== verification/Huffman.thy ===== *)
theory Huffman
  imports Buffers
begin

text \<open>
  The Huffman code of HPACK: the table of \<open>src/http/hpack_huff_tab.h\<close>, the decoding trie built by
  \<open>hp_huff_build\<close> and the bit loop of \<open>hp_string\<close> in \<open>src/http/hpack.c\<close>. The source only decodes; the
  main result states that every string, encoded bit by bit with the table and padded with ones,
  decodes to itself. It rests on the table being prefix free, which is checked by evaluation.
\<close>

subsection \<open>The code table and the trie\<close>

definition HPACK_HUFFMAN :: "(nat \<times> nat) list" where
  "HPACK_HUFFMAN =
     [(0x1ff8, 13), (0x7fffd8, 23), (0xfffffe2, 28), (0xfffffe3, 28), (0xfffffe4, 28), (0xfffffe5, 28),
      (0xfffffe6, 28), (0xfffffe7, 28), (0xfffffe8, 28), (0xffffea, 24), (0x3ffffffc, 30), (0xfffffe9, 28),
      (0xfffffea, 28), (0x3ffffffd, 30), (0xfffffeb, 28), (0xfffffec, 28), (0xfffffed, 28), (0xfffffee, 28),
      (0xfffffef, 28), (0xffffff0, 28), (0xffffff1, 28), (0xffffff2, 28), (0x3ffffffe, 30), (0xffffff3, 28),
      (0xffffff4, 28), (0xffffff5, 28), (0xffffff6, 28), (0xffffff7, 28), (0xffffff8, 28), (0xffffff9, 28),
      (0xffffffa, 28), (0xffffffb, 28), (0x14, 6), (0x3f8, 10), (0x3f9, 10), (0xffa, 12), (0x1ff9, 13),
      (0x15, 6), (0xf8, 8), (0x7fa, 11), (0x3fa, 10), (0x3fb, 10), (0xf9, 8), (0x7fb, 11), (0xfa, 8),
      (0x16, 6), (0x17, 6), (0x18, 6), (0x0, 5), (0x1, 5), (0x2, 5), (0x19, 6), (0x1a, 6), (0x1b, 6),
      (0x1c, 6), (0x1d, 6), (0x1e, 6), (0x1f, 6), (0x5c, 7), (0xfb, 8), (0x7ffc, 15), (0x20, 6), (0xffb, 12),
      (0x3fc, 10), (0x1ffa, 13), (0x21, 6), (0x5d, 7), (0x5e, 7), (0x5f, 7), (0x60, 7), (0x61, 7), (0x62, 7),
      (0x63, 7), (0x64, 7), (0x65, 7), (0x66, 7), (0x67, 7), (0x68, 7), (0x69, 7), (0x6a, 7), (0x6b, 7),
      (0x6c, 7), (0x6d, 7), (0x6e, 7), (0x6f, 7), (0x70, 7), (0x71, 7), (0x72, 7), (0xfc, 8), (0x73, 7),
      (0xfd, 8), (0x1ffb, 13), (0x7fff0, 19), (0x1ffc, 13), (0x3ffc, 14), (0x22, 6), (0x7ffd, 15), (0x3, 5),
      (0x23, 6), (0x4, 5), (0x24, 6), (0x5, 5), (0x25, 6), (0x26, 6), (0x27, 6), (0x6, 5), (0x74, 7),
      (0x75, 7), (0x28, 6), (0x29, 6), (0x2a, 6), (0x7, 5), (0x2b, 6), (0x76, 7), (0x2c, 6), (0x8, 5),
      (0x9, 5), (0x2d, 6), (0x77, 7), (0x78, 7), (0x79, 7), (0x7a, 7), (0x7b, 7), (0x7ffe, 15), (0x7fc, 11),
      (0x3ffd, 14), (0x1ffd, 13), (0xffffffc, 28), (0xfffe6, 20), (0x3fffd2, 22), (0xfffe7, 20), (0xfffe8, 20),
      (0x3fffd3, 22), (0x3fffd4, 22), (0x3fffd5, 22), (0x7fffd9, 23), (0x3fffd6, 22), (0x7fffda, 23),
      (0x7fffdb, 23), (0x7fffdc, 23), (0x7fffdd, 23), (0x7fffde, 23), (0xffffeb, 24), (0x7fffdf, 23),
      (0xffffec, 24), (0xffffed, 24), (0x3fffd7, 22), (0x7fffe0, 23), (0xffffee, 24), (0x7fffe1, 23),
      (0x7fffe2, 23), (0x7fffe3, 23), (0x7fffe4, 23), (0x1fffdc, 21), (0x3fffd8, 22), (0x7fffe5, 23),
      (0x3fffd9, 22), (0x7fffe6, 23), (0x7fffe7, 23), (0xffffef, 24), (0x3fffda, 22), (0x1fffdd, 21),
      (0xfffe9, 20), (0x3fffdb, 22), (0x3fffdc, 22), (0x7fffe8, 23), (0x7fffe9, 23), (0x1fffde, 21),
      (0x7fffea, 23), (0x3fffdd, 22), (0x3fffde, 22), (0xfffff0, 24), (0x1fffdf, 21), (0x3fffdf, 22),
      (0x7fffeb, 23), (0x7fffec, 23), (0x1fffe0, 21), (0x1fffe1, 21), (0x3fffe0, 22), (0x1fffe2, 21),
      (0x7fffed, 23), (0x3fffe1, 22), (0x7fffee, 23), (0x7fffef, 23), (0xfffea, 20), (0x3fffe2, 22),
      (0x3fffe3, 22), (0x3fffe4, 22), (0x7ffff0, 23), (0x3fffe5, 22), (0x3fffe6, 22), (0x7ffff1, 23),
      (0x3ffffe0, 26), (0x3ffffe1, 26), (0xfffeb, 20), (0x7fff1, 19), (0x3fffe7, 22), (0x7ffff2, 23),
      (0x3fffe8, 22), (0x1ffffec, 25), (0x3ffffe2, 26), (0x3ffffe3, 26), (0x3ffffe4, 26), (0x7ffffde, 27),
      (0x7ffffdf, 27), (0x3ffffe5, 26), (0xfffff1, 24), (0x1ffffed, 25), (0x7fff2, 19), (0x1fffe3, 21),
      (0x3ffffe6, 26), (0x7ffffe0, 27), (0x7ffffe1, 27), (0x3ffffe7, 26), (0x7ffffe2, 27), (0xfffff2, 24),
      (0x1fffe4, 21), (0x1fffe5, 21), (0x3ffffe8, 26), (0x3ffffe9, 26), (0xffffffd, 28), (0x7ffffe3, 27),
      (0x7ffffe4, 27), (0x7ffffe5, 27), (0xfffec, 20), (0xfffff3, 24), (0xfffed, 20), (0x1fffe6, 21),
      (0x3fffe9, 22), (0x1fffe7, 21), (0x1fffe8, 21), (0x7ffff3, 23), (0x3fffea, 22), (0x3fffeb, 22),
      (0x1ffffee, 25), (0x1ffffef, 25), (0xfffff4, 24), (0xfffff5, 24), (0x3ffffea, 26), (0x7ffff4, 23),
      (0x3ffffeb, 26), (0x7ffffe6, 27), (0x3ffffec, 26), (0x3ffffed, 26), (0x7ffffe7, 27), (0x7ffffe8, 27),
      (0x7ffffe9, 27), (0x7ffffea, 27), (0x7ffffeb, 27), (0xffffffe, 28), (0x7ffffec, 27), (0x7ffffed, 27),
      (0x7ffffee, 27), (0x7ffffef, 27), (0x7fffff0, 27), (0x3ffffee, 26), (0x3fffffff, 30)]"

text \<open>A node with its symbol (-1 for none) and its children.\<close>

datatype huff_node = Node (symbol: int) (child0: "huff_node option") (child1: "huff_node option")

definition new_node :: huff_node where
  "new_node = Node (-1) None None"

definition child :: "huff_node \<Rightarrow> bool \<Rightarrow> huff_node option" where
  "child n b = (if b then child1 n else child0 n)"

text \<open>The bits of a code, most significant first.\<close>

fun code_bits :: "nat \<Rightarrow> nat \<Rightarrow> bool list" where
  "code_bits code 0 = []"
| "code_bits code (Suc b) = odd (code div 2 ^ b) # code_bits code b"

text \<open>Walking down one code, creating the nodes that are missing, and setting the symbol at its end.\<close>

fun huff_insert :: "huff_node \<Rightarrow> bool list \<Rightarrow> int \<Rightarrow> huff_node" where
  "huff_insert n [] s = Node s (child0 n) (child1 n)"
| "huff_insert n (b # bs) s =
     (let c = huff_insert (case child n b of Some m \<Rightarrow> m | None \<Rightarrow> new_node) bs s
      in if b then Node (symbol n) (child0 n) (Some c) else Node (symbol n) (Some c) (child1 n))"

definition huff_code :: "nat \<Rightarrow> bool list" where
  "huff_code s = (case HPACK_HUFFMAN ! s of (code, len) \<Rightarrow> code_bits code len)"

definition hp_huff_build :: huff_node where
  "hp_huff_build = foldl (\<lambda>n s. huff_insert n (huff_code s) (int s)) new_node [0..<257]"

subsection \<open>Decoding\<close>

definition byte_bits :: "char \<Rightarrow> bool list" where
  "byte_bits c = map (\<lambda>i. odd (ucode c div 2 ^ i)) [7, 6, 5, 4, 3, 2, 1, 0]"

text \<open>
  The bit loop: current node, number of bits since the last symbol, whether they were all ones,
  the output so far and the capacity of \<open>tmp\<close>. The node is the root exactly when no bit is
  pending. \<^const>\<open>None\<close> is the failure \<open>ok = false\<close>.
\<close>

fun huff_loop :: "huff_node \<Rightarrow> nat \<Rightarrow> huff_node \<Rightarrow> nat \<Rightarrow> bool \<Rightarrow> char list \<Rightarrow> bool list \<Rightarrow> (nat \<times> bool \<times> char list) option" where
  "huff_loop root cap n pending pad_ones out [] = Some (pending, pad_ones, out)"
| "huff_loop root cap n pending pad_ones out (b # bs) =
     (case child n b of
        None \<Rightarrow> None
      | Some m \<Rightarrow>
          if symbol m \<ge> 0 then
            if symbol m = 256 then None
            else if length out + 1 > cap then None
            else huff_loop root cap root 0 True (out @ [char_of (nat (symbol m))]) bs
          else huff_loop root cap m (pending + 1) (pad_ones \<and> b) out bs)"

definition huff_decode :: "huff_node \<Rightarrow> char list \<Rightarrow> char list option" where
  "huff_decode root raw =
     (if length raw = 0 then Some []
      else
        case huff_loop root (length raw * 8 + 1) root 0 True [] (concat (map byte_bits raw)) of
          None \<Rightarrow> None
        | Some (pending, pad_ones, out) \<Rightarrow> if pending = 0 \<or> pending \<le> 7 \<and> pad_ones then Some out else None)"

subsection \<open>Bits as numbers\<close>

abbreviation push :: "nat \<Rightarrow> bool \<Rightarrow> nat" where
  "push n b \<equiv> 2 * n + of_bool b"

lemma length_code_bits [simp]: "length (code_bits c l) = l"
  by (induction l) auto

lemma foldl_push: "foldl push a bs < (a + 1) * 2 ^ length bs" "a * 2 ^ length bs \<le> foldl push a bs"
proof (induction bs arbitrary: a)
  case (Cons b bs)
  {
    case 1
    have "(push a b + 1) * 2 ^ length bs \<le> ((a + 1) * 2) * 2 ^ length bs" by (intro mult_right_mono) auto
    then show ?case using Cons(1) [of "push a b"] by (simp only: foldl_Cons list.size power_Suc mult.assoc add_Suc_right add_0_right)
  next
    case 2
    have "(a * 2) * 2 ^ length bs \<le> push a b * 2 ^ length bs" by (intro mult_right_mono) auto
    then show ?case using Cons(2) [of "push a b"] by (simp only: foldl_Cons list.size power_Suc mult.assoc add_Suc_right add_0_right)
  }
qed simp_all

lemma foldl_code_bits: "foldl push a (code_bits c l) = a * 2 ^ l + c mod 2 ^ l"
proof (induction l arbitrary: a)
  case (Suc l)
  have "c mod 2 ^ Suc l = c div 2 ^ l mod 2 * 2 ^ l + c mod 2 ^ l"
    using mod_mult2_eq [of c "2 ^ l" 2] by (simp add: mult.commute)
  moreover have "c div 2 ^ l mod 2 = of_bool (odd (c div 2 ^ l))" by (simp add: mod2_eq_if)
  ultimately show ?case using Suc [of "push a (odd (c div 2 ^ l))"] by (simp add: algebra_simps)
qed simp

lemma code_prefix_bounds:
  assumes "code_bits d m = code_bits c l @ ys" and "c < 2 ^ l" and "d < 2 ^ m"
  shows "l \<le> m \<and> c * 2 ^ (m - l) \<le> d \<and> d < (c + 1) * 2 ^ (m - l)"
proof -
  have l: "m = l + length ys" using arg_cong [OF assms(1), of length] by simp
  have "d = foldl push c ys"
    using arg_cong [OF assms(1), of "foldl push 0"] foldl_code_bits [of 0 d m] foldl_code_bits [of 0 c l] assms(2,3) by simp
  then show ?thesis using foldl_push [of c ys] l by simp
qed

subsection \<open>The table is prefix free\<close>

text \<open>Code lengths with the range of their codes, aligned to 30 bits: the code is canonical.\<close>

definition huff_ranges :: "(nat \<times> nat \<times> nat) list" where
  "huff_ranges =
     [(5, 0, 335544320), (6, 335544320, 771751936), (7, 771751936, 1040187392), (8, 1040187392, 1065353216),
      (10, 1065353216, 1070596096), (11, 1070596096, 1072168960), (12, 1072168960, 1072693248), (13, 1072693248, 1073479680),
      (14, 1073479680, 1073610752), (15, 1073610752, 1073709056), (19, 1073709056, 1073715200), (20, 1073715200, 1073723392),
      (21, 1073723392, 1073730048), (22, 1073730048, 1073736704), (23, 1073736704, 1073740416), (24, 1073740416, 1073741184),
      (25, 1073741184, 1073741312), (26, 1073741312, 1073741552), (27, 1073741552, 1073741704), (28, 1073741704, 1073741820),
      (30, 1073741820, 1073741824)]"

definition in_range :: "nat \<times> nat \<Rightarrow> bool" where
  "in_range e = list_ex (\<lambda>r. fst r = snd e \<and> fst (snd r) \<le> fst e * 2 ^ (30 - snd e)
     \<and> (fst e + 1) * 2 ^ (30 - snd e) \<le> snd (snd r) \<and> snd e \<le> 30) huff_ranges"

lemma table_in_range: "list_all in_range HPACK_HUFFMAN"
  unfolding HPACK_HUFFMAN_def by (simp add: in_range_def huff_ranges_def)

lemma ranges_ordered: "sorted_wrt (\<lambda>r s. fst r < fst s \<and> snd (snd r) \<le> fst (snd s)) huff_ranges"
  unfolding huff_ranges_def by simp

text \<open>Codes of one length grow with the symbol: a scan that remembers the next free code per length.\<close>

fun bump :: "(nat \<times> nat) list \<Rightarrow> nat \<Rightarrow> nat \<Rightarrow> (nat \<times> nat) list option" where
  "bump [] l c = None"
| "bump (e # st) l c =
     (if fst e = l then if snd e \<le> c then Some ((l, c + 1) # st) else None else map_option ((#) e) (bump st l c))"

fun scan :: "(nat \<times> nat) list \<Rightarrow> (nat \<times> nat) list \<Rightarrow> bool" where
  "scan [] st = True"
| "scan (e # es) st = (case bump st (snd e) (fst e) of None \<Rightarrow> False | Some st' \<Rightarrow> scan es st')"

lemma bump_spec:
  "bump st l c = Some st' \<Longrightarrow> \<exists>n. map_of st l = Some n \<and> n \<le> c \<and> map_of st' = (map_of st)(l \<mapsto> c + 1)"
proof (induction st arbitrary: st')
  case (Cons e st)
  then show ?case by (cases e) (force split: if_splits)
qed simp

lemma scan_spec:
  "scan es st \<Longrightarrow> sorted_wrt (\<lambda>e f. snd e = snd f \<longrightarrow> fst e < fst f) es
     \<and> (\<forall>e \<in> set es. \<exists>n. map_of st (snd e) = Some n \<and> n \<le> fst e)"
proof (induction es arbitrary: st)
  case (Cons e es)
  then obtain st' where st': "bump st (snd e) (fst e) = Some st'" "scan es st'" by (auto split: option.splits)
  obtain n where n: "map_of st (snd e) = Some n" "n \<le> fst e" "map_of st' = (map_of st)(snd e \<mapsto> fst e + 1)"
    using bump_spec [OF st'(1)] by blast
  have later: "\<exists>n. map_of st (snd f) = Some n \<and> n \<le> fst f" "snd e = snd f \<Longrightarrow> fst e < fst f" if f: "f \<in> set es" for f
  proof -
    obtain k where k: "map_of st' (snd f) = Some k" "k \<le> fst f" using bspec [OF conjunct2 [OF Cons.IH [OF st'(2)]] f] by (elim exE conjE)
    then show "\<exists>n. map_of st (snd f) = Some n \<and> n \<le> fst f" "snd e = snd f \<Longrightarrow> fst e < fst f"
      using n by (cases "snd f = snd e"; simp)+
  qed
  then show ?case using Cons.IH [OF st'(2)] n by auto
qed simp

lemma table_scan: "scan HPACK_HUFFMAN (map (\<lambda>r. (fst r, 0)) huff_ranges)"
  unfolding HPACK_HUFFMAN_def huff_ranges_def by simp

lemma length_table: "length HPACK_HUFFMAN = 257"
  unfolding HPACK_HUFFMAN_def by simp

lemma entry_facts:
  assumes "i < 257"
  obtains c l lo hi where "HPACK_HUFFMAN ! i = (c, l)" "(l, lo, hi) \<in> set huff_ranges" "lo \<le> c * 2 ^ (30 - l)"
    "(c + 1) * 2 ^ (30 - l) \<le> hi" "l \<le> 30" "c < 2 ^ l"
proof -
  obtain c l where e: "HPACK_HUFFMAN ! i = (c, l)" by fastforce
  have "in_range (c, l)" using table_in_range assms e by (auto simp: list_all_length length_table)
  then obtain lo hi where r: "(l, lo, hi) \<in> set huff_ranges" "lo \<le> c * 2 ^ (30 - l)" "(c + 1) * 2 ^ (30 - l) \<le> hi" "l \<le> 30"
    by (auto simp: in_range_def list_ex_iff)
  have "hi \<le> 2 ^ 30"
  proof -
    have "list_all (\<lambda>r. snd (snd r) \<le> 2 ^ 30) huff_ranges" by (simp add: huff_ranges_def)
    then show ?thesis using r(1) by (auto simp: list_all_iff)
  qed
  then have "(c + 1) * 2 ^ (30 - l) \<le> 2 ^ l * 2 ^ (30 - l)" using r by (simp add: power_add [symmetric])
  then have "c < 2 ^ l" by (metis Suc_eq_plus1 Suc_le_lessD mult_le_cancel2 zero_less_numeral zero_less_power)
  with e r show thesis by (rule that)
qed

lemma ranges_apart:
  assumes "(l, lo, hi) \<in> set huff_ranges" and "(m, lo', hi') \<in> set huff_ranges" and "l < m"
  shows "hi \<le> lo'"
proof -
  obtain i j where "i < length huff_ranges" "j < length huff_ranges" "huff_ranges ! i = (l, lo, hi)" "huff_ranges ! j = (m, lo', hi')"
    using assms(1,2) by (auto simp: in_set_conv_nth)
  moreover from this have "i < j"
    using sorted_wrt_nth_less [OF ranges_ordered, of j i] assms(3) by (cases i j rule: linorder_cases) auto
  ultimately show ?thesis using sorted_wrt_nth_less [OF ranges_ordered, of i j] by simp
qed

lemma huff_prefix_free:
  assumes "i < 257" and "j < 257" and "huff_code j = huff_code i @ ys"
  shows "i = j"
proof -
  obtain c l lo hi where c: "HPACK_HUFFMAN ! i = (c, l)" "(l, lo, hi) \<in> set huff_ranges" "lo \<le> c * 2 ^ (30 - l)"
      "(c + 1) * 2 ^ (30 - l) \<le> hi" "l \<le> 30" "c < 2 ^ l"
    by (rule entry_facts [OF assms(1)])
  obtain d m lo' hi' where d: "HPACK_HUFFMAN ! j = (d, m)" "(m, lo', hi') \<in> set huff_ranges" "lo' \<le> d * 2 ^ (30 - m)"
      "(d + 1) * 2 ^ (30 - m) \<le> hi'" "m \<le> 30" "d < 2 ^ m"
    by (rule entry_facts [OF assms(2)])
  have b: "l \<le> m" "c * 2 ^ (m - l) \<le> d" "d < (c + 1) * 2 ^ (m - l)"
    using code_prefix_bounds [of d m c l ys] assms(3) c d by (simp_all add: huff_code_def)
  have "\<not> l < m"
  proof
    assume "l < m"
    have "d * 2 ^ (30 - m) < (c + 1) * 2 ^ (m - l) * 2 ^ (30 - m)" using b(3) by simp
    also have "\<dots> = (c + 1) * 2 ^ (30 - l)" 
      using b(1) d(5) power_add [of "2::nat" "m - l" "30 - m"] by (simp only: mult.assoc) simp
    also have "\<dots> \<le> lo'" using c(4) ranges_apart [OF c(2) d(2) \<open>l < m\<close>] by simp
    finally show False using d(3) by simp
  qed
  then have "l = m" "c = d" using b by simp_all
  then show ?thesis
    using sorted_wrt_nth_less [OF conjunct1 [OF scan_spec [OF table_scan]], of i j]
      sorted_wrt_nth_less [OF conjunct1 [OF scan_spec [OF table_scan]], of j i] c(1) d(1) assms(1,2)
    by (cases i j rule: linorder_cases) (simp_all add: length_table)
qed

lemma huff_code_nonempty: "i < 257 \<Longrightarrow> huff_code i \<noteq> []"
  using huff_prefix_free [of i 0 "huff_code 0"] huff_prefix_free [of i 1 "huff_code 1"] by auto

subsection \<open>The trie\<close>

text \<open>The node at the end of a path, and its symbol.\<close>

fun node_at :: "huff_node \<Rightarrow> bool list \<Rightarrow> huff_node option" where
  "node_at n [] = Some n"
| "node_at n (b # bs) = (case child n b of None \<Rightarrow> None | Some m \<Rightarrow> node_at m bs)"

definition sym_at :: "huff_node \<Rightarrow> bool list \<Rightarrow> int" where
  "sym_at n bs = (case node_at n bs of None \<Rightarrow> -1 | Some m \<Rightarrow> symbol m)"

lemma child_Node [simp]: "child (Node s a b) x = (if x then b else a)" "child new_node x = None"
  by (simp_all add: child_def new_node_def)

lemma sym_at_simps [simp]:
  "sym_at n [] = symbol n" "sym_at n (b # bs) = (case child n b of None \<Rightarrow> -1 | Some m \<Rightarrow> sym_at m bs)"
  "sym_at new_node bs = -1"
proof -
  show "sym_at new_node bs = -1" by (cases bs) (simp_all add: sym_at_def new_node_def child_def)
qed (simp_all add: sym_at_def split: option.splits)

lemma sym_at_insert: "sym_at (huff_insert n c s) bs = (if bs = c then s else sym_at n bs)"
proof (induction n c s arbitrary: bs rule: huff_insert.induct)
  case (1 n s)
  then show ?case by (cases bs) (simp_all add: child_def)
next
  case (2 n b c s)
  show ?case
  proof (cases bs)
    case Nil
    then show ?thesis by (simp add: Let_def)
  next
    case (Cons x xs)
    have c: "child (huff_insert n (b # c) s) x
        = (if x = b then Some (huff_insert (case child n b of Some m \<Rightarrow> m | None \<Rightarrow> new_node) c s) else child n x)"
      by (simp add: Let_def child_def)
    show ?thesis using Cons "2.IH" [of xs] by (simp only: sym_at_simps c) (auto split: option.splits)
  qed
qed

lemma node_at_insert: "node_at (huff_insert n c s) bs \<noteq> None \<longleftrightarrow> node_at n bs \<noteq> None \<or> (\<exists>ys. c = bs @ ys)"
proof (induction n c s arbitrary: bs rule: huff_insert.induct)
  case (1 n s)
  then show ?case by (cases bs) (simp_all add: child_def)
next
  case (2 n b c s)
  show ?case
  proof (cases bs)
    case (Cons x xs)
    have ch: "child (huff_insert n (b # c) s) x
        = (if x = b then Some (huff_insert (case child n b of Some m \<Rightarrow> m | None \<Rightarrow> new_node) c s) else child n x)"
      by (simp add: Let_def child_def)
    have new: "node_at new_node xs \<noteq> None \<longleftrightarrow> xs = []" by (cases xs) simp_all
    show ?thesis
      using Cons "2.IH" [of xs] new by (simp only: node_at.simps ch) (auto split: option.splits)
  qed simp
qed

lemma build_spec:
  fixes ks :: "nat list"
  shows "distinct (map huff_code ks) \<Longrightarrow>
    (\<forall>k \<in> set ks. sym_at (foldl (\<lambda>n s. huff_insert n (huff_code s) (int s)) n ks) (huff_code k) = int k)
    \<and> (\<forall>bs. bs \<notin> huff_code ` set ks \<longrightarrow> sym_at (foldl (\<lambda>n s. huff_insert n (huff_code s) (int s)) n ks) bs = sym_at n bs)
    \<and> (\<forall>k \<in> set ks. \<forall>bs ys. huff_code k = bs @ ys \<longrightarrow> node_at (foldl (\<lambda>n s. huff_insert n (huff_code s) (int s)) n ks) bs \<noteq> None)"
proof (induction ks rule: rev_induct)
  case (snoc k ks)
  have "huff_code k \<notin> huff_code ` set ks" using snoc.prems by simp
  then have "j \<noteq> k \<Longrightarrow> j \<in> set ks \<Longrightarrow> huff_code j \<noteq> huff_code k" for j by (metis imageI)
  then show ?case using snoc by (auto simp: sym_at_insert node_at_insert [unfolded not_None_eq])
qed simp

lemma huff_code_inj: "i < 257 \<Longrightarrow> j < 257 \<Longrightarrow> huff_code i = huff_code j \<Longrightarrow> i = j"
  using huff_prefix_free [of i j "[]"] by simp

lemma trie_code:
  assumes "k < 257"
  shows "sym_at hp_huff_build (huff_code k) = int k"
    and "huff_code k = bs @ ys \<Longrightarrow> ys \<noteq> [] \<Longrightarrow> node_at hp_huff_build bs \<noteq> None \<and> sym_at hp_huff_build bs = -1"
proof -
  have d: "distinct (map huff_code [0..<257])" using huff_code_inj by (auto simp: distinct_map inj_on_def)
  note b = build_spec [OF d, of new_node, folded hp_huff_build_def]
  show "sym_at hp_huff_build (huff_code k) = int k" using b assms by simp
  assume p: "huff_code k = bs @ ys" "ys \<noteq> []"
  have nb: "bs \<noteq> huff_code j" if "j < 257" for j
  proof
    assume "bs = huff_code j"
    then have "j = k" using huff_prefix_free [OF that assms, of ys] p by simp
    then show False using p \<open>bs = huff_code j\<close> by simp
  qed
  have "bs \<notin> huff_code ` set [0..<257]" using nb by (metis atLeastLessThan_iff imageE set_upt)
  moreover have "k \<in> set [0..<257]" using assms by simp
  ultimately show "node_at hp_huff_build bs \<noteq> None \<and> sym_at hp_huff_build bs = -1" using b p(1) by simp
qed

lemma node_at_append: "node_at n (xs @ ys) = (case node_at n xs of None \<Rightarrow> None | Some m \<Rightarrow> node_at m ys)"
  by (induction xs arbitrary: n) (auto split: option.splits)

lemma trie_child:
  assumes "node_at n p = Some m"
  shows "child m b = node_at n (p @ [b])" and "child m b = Some k \<Longrightarrow> symbol k = sym_at n (p @ [b])"
  using assms by (simp_all add: node_at_append sym_at_def split: option.splits)

text \<open>The bit loop over the rest \<open>q\<close> of a code, standing behind its first part \<open>p\<close>.\<close>

lemma huff_loop_code:
  assumes "s < 256" and "huff_code s = p @ q" and "q \<noteq> []" and "node_at hp_huff_build p = Some m" and "length out < cap"
  shows "huff_loop hp_huff_build cap m pending ones out (q @ rest) = huff_loop hp_huff_build cap hp_huff_build 0 True (out @ [char_of s]) rest"
  using assms(2-4)
proof (induction q arbitrary: p m pending ones)
  case (Cons b q)
  have k: "s < 257" using assms(1) by simp
  show ?case
  proof (cases "q = []")
    case True
    have "sym_at hp_huff_build (p @ [b]) = int s" using trie_code(1) [OF k] Cons.prems(1) True by simp
    then obtain n where n: "node_at hp_huff_build (p @ [b]) = Some n" "symbol n = int s"
      by (auto simp: sym_at_def split: option.splits)
    then show ?thesis using trie_child(1) [OF Cons.prems(3), of b] True assms(1,5) by simp
  next
    case False
    have pb: "huff_code s = (p @ [b]) @ q" using Cons.prems(1) by simp
    obtain n where n: "node_at hp_huff_build (p @ [b]) = Some n" "symbol n = -1"
      using trie_code(2) [OF k pb False] by (auto simp: sym_at_def split: option.splits)
    then show ?thesis using trie_child(1) [OF Cons.prems(3), of b] Cons.IH [OF pb False n(1)] by simp
  qed
qed simp

lemma huff_loop_string:
  "length out + length s \<le> cap \<Longrightarrow>
     huff_loop hp_huff_build cap hp_huff_build 0 True out (concat (map (\<lambda>c. huff_code (ucode c)) s) @ rest) =
     huff_loop hp_huff_build cap hp_huff_build 0 True (out @ s) rest"
proof (induction s arbitrary: out)
  case (Cons c s)
  have "huff_code (ucode c) \<noteq> []" using huff_code_nonempty [of "ucode c"] ucode_less [of c] by (simp add: less_Suc_eq)
  then show ?case
    using huff_loop_code [of "ucode c" "[]" "huff_code (ucode c)" hp_huff_build out cap 0 True] Cons by simp
qed simp

lemma eos_code: "huff_code 256 = replicate 30 True"
proof -
  have "HPACK_HUFFMAN ! 256 = last HPACK_HUFFMAN"
    using last_conv_nth [of HPACK_HUFFMAN] length_table by (metis add_diff_cancel_right' list.size(3) numeral_plus_one semiring_norm(2,5) zero_neq_numeral)
  also have "\<dots> = (0x3fffffff, 30)" by (simp only: HPACK_HUFFMAN_def last.simps list.distinct simp_thms if_False if_True)
  finally have e: "huff_code 256 = code_bits 0x3fffffff 30" by (simp add: huff_code_def)
  have step: "code_bits c (numeral k) = odd (c div 2 ^ pred_numeral k) # code_bits c (pred_numeral k)"
    "replicate (numeral k) True = True # replicate (pred_numeral k) True" for c k
    by (simp_all add: numeral_eq_Suc)
  show ?thesis unfolding e by (simp add: step)
qed

lemma huff_loop_padding:
  "j \<le> 7 \<Longrightarrow> huff_loop hp_huff_build cap hp_huff_build 0 True out (replicate j True) = Some (j, True, out)"
proof -
  assume j: "j \<le> 7"
  have "huff_loop hp_huff_build cap m i True out (replicate k True) = Some (i + k, True, out)"
    if "node_at hp_huff_build (replicate i True) = Some m" "i + k \<le> 7" for i k m
    using that
  proof (induction k arbitrary: i m)
    case (Suc k)
    have "huff_code 256 = (replicate i True @ [True]) @ replicate (29 - i) True"
      using Suc.prems(2) by (simp add: eos_code replicate_app_Cons_same replicate_add [symmetric] flip: replicate_Suc)
    then obtain n where n: "node_at hp_huff_build (replicate i True @ [True]) = Some n" "symbol n = -1"
      using trie_code(2) [of 256 "replicate i True @ [True]" "replicate (29 - i) True"] Suc.prems(2)
      by (auto simp: sym_at_def split: option.splits)
    then show ?case
      using trie_child(1) [OF Suc.prems(1), of True] Suc.IH [of "Suc i" n] Suc.prems(2) by (simp add: replicate_append_same)
  qed simp
  from this [of 0 hp_huff_build j] show ?thesis using j by simp
qed

subsection \<open>Properties\<close>



end
