(* ===== verification/Hpack.thy ===== *)
theory Hpack
  imports Formatting Huffman
begin

text \<open>
  \<open>src/http/hpack.c\<close> with the static table of \<open>src/http/hpack_static_tab.h\<close>: header compression of
  HTTP/2. The decoder state keeps the dynamic table as the list of its entries, newest first, with the
  byte count and the budget of the source. Decoded strings are appended to one buffer and addressed
  by offsets until the block is complete, as in the source. \<open>HP_Use_After_Free\<close> stands for reading an
  entry of the dynamic table after it was evicted.
\<close>

subsection \<open>Integers\<close>

text \<open>
  \<open>hp_int\<close>: the first byte, then the continuation bytes. The accumulator is a \<open>uint32_t\<close>, the
  multiplier a \<open>uint64_t\<close>; both wrap where the source lets them. \<^const>\<open>None\<close> is \<open>-1\<close>, otherwise
  the value and the rest of the input.
\<close>

fun hp_int_loop :: "sv \<Rightarrow> nat \<Rightarrow> nat \<Rightarrow> (nat \<times> sv) option" where
  "hp_int_loop [] out mult = None"
| "hp_int_loop (b # p) out mult =
     (let add = ((ucode b AND 0x7f) * mult) mod 2 ^ 64
      in if (out + add) mod 2 ^ 64 > 0xffffffff then None
         else
           let out1 = (out + add) mod 2 ^ 64
           in if ucode b AND 0x80 \<noteq> 0
              then let mult1 = (mult * 2 ^ 7) mod 2 ^ 64 in if mult1 = 0 then None else hp_int_loop p out1 mult1
              else Some (out1, p))"

definition hp_int :: "sv \<Rightarrow> nat \<Rightarrow> (nat \<times> sv) option" where
  "hp_int p nbits =
     (case p of
        [] \<Rightarrow> None
      | b # p1 \<Rightarrow>
          let maxp = 2 ^ nbits - 1; v = ucode b AND maxp
          in if v < maxp then Some (v, p1) else hp_int_loop p1 maxp 1)"

function enc_groups :: "nat \<Rightarrow> nat list" where
  "enc_groups r = (r AND 0x7f) # (if drop_bit 7 r = 0 then [] else enc_groups (drop_bit 7 r))"
  by pat_completeness auto
termination
  by (relation "measure id") (auto simp: drop_bit_eq_div)

declare enc_groups.simps [simp del]

definition group_bytes :: "nat list \<Rightarrow> char list" where
  "group_bytes gs = map (\<lambda>i. char_of (gs ! i OR (if i = length gs - 1 then 0 else 0x80))) [0..<length gs]"

definition hp_enc_int :: "strbuf \<Rightarrow> nat \<Rightarrow> nat \<Rightarrow> nat \<Rightarrow> strbuf" where
  "hp_enc_int out value nbits pattern =
     (let maxp = 2 ^ nbits - 1
      in if value < maxp then strbuf_append out [char_of (pattern OR value)]
         else strbuf_append out (char_of (pattern OR maxp) # group_bytes (enc_groups (value - maxp))))"

subsection \<open>Tables\<close>

definition HPACK_STATIC_TABLE :: "(sv \<times> sv) list" where
  "HPACK_STATIC_TABLE =
     [('':authority'', []), ('':method'', ''GET''), ('':method'', ''POST''), ('':path'', ''/''),
      ('':path'', ''/index.html''), ('':scheme'', ''http''), ('':scheme'', ''https''), ('':status'', ''200''),
      ('':status'', ''204''), ('':status'', ''206''), ('':status'', ''304''), ('':status'', ''400''),
      ('':status'', ''404''), ('':status'', ''500''), (''accept-charset'', []),
      (''accept-encoding'', ''gzip, deflate''), (''accept-language'', []), (''accept-ranges'', []),
      (''accept'', []), (''access-control-allow-origin'', []), (''age'', []), (''allow'', []),
      (''authorization'', []), (''cache-control'', []), (''content-disposition'', []),
      (''content-encoding'', []), (''content-language'', []), (''content-length'', []),
      (''content-location'', []), (''content-range'', []), (''content-type'', []), (''cookie'', []),
      (''date'', []), (''etag'', []), (''expect'', []), (''expires'', []), (''from'', []), (''host'', []),
      (''if-match'', []), (''if-modified-since'', []), (''if-none-match'', []), (''if-range'', []),
      (''if-unmodified-since'', []), (''last-modified'', []), (''link'', []), (''location'', []),
      (''max-forwards'', []), (''proxy-authenticate'', []), (''proxy-authorization'', []), (''range'', []),
      (''referer'', []), (''refresh'', []), (''retry-after'', []), (''server'', []), (''set-cookie'', []),
      (''strict-transport-security'', []), (''transfer-encoding'', []), (''user-agent'', []), (''vary'', []),
      (''via'', []), (''www-authenticate'', [])]"

definition HPACK_MAX_STRING_LEN :: nat where "HPACK_MAX_STRING_LEN = 64 * 1024"

definition HPACK_DEFAULT_MAX_TABLE_SIZE :: nat where "HPACK_DEFAULT_MAX_TABLE_SIZE = 4096"

record hpack =
  hp_dyn :: "(sv \<times> sv) list"
  hp_dyn_used :: nat
  hp_dyn_max_capacity :: nat
  hp_huff_root :: huff_node

definition hpack_init :: hpack where
  "hpack_init = \<lparr>hp_dyn = [], hp_dyn_used = 0, hp_dyn_max_capacity = HPACK_DEFAULT_MAX_TABLE_SIZE, hp_huff_root = hp_huff_build\<rparr>"

text \<open>The field of an index and, when its strings live in the dynamic table, their position there.\<close>

definition hp_lookup :: "hpack \<Rightarrow> nat \<Rightarrow> ((sv \<times> sv) \<times> nat option) option" where
  "hp_lookup hp idx =
     (if 1 \<le> idx \<and> idx \<le> 61 then Some (HPACK_STATIC_TABLE ! (idx - 1), None)
      else if idx \<ge> 62 \<and> idx - 62 < length (hp_dyn hp) then Some (hp_dyn hp ! (idx - 62), Some (idx - 62))
      else None)"

definition entry_size :: "sv \<times> sv \<Rightarrow> nat" where
  "entry_size e = length (fst e) + length (snd e) + 32"

text \<open>Evicting the oldest entries while the table with \<open>extra\<close> more bytes is over the budget.\<close>

function evict :: "hpack \<Rightarrow> nat \<Rightarrow> hpack" where
  "evict hp extra =
     (if hp_dyn hp \<noteq> [] \<and> hp_dyn_used hp + extra > hp_dyn_max_capacity hp
      then evict (hp\<lparr>hp_dyn := butlast (hp_dyn hp), hp_dyn_used := hp_dyn_used hp - entry_size (last (hp_dyn hp))\<rparr>) extra
      else hp)"
  by pat_completeness auto
termination
  by (relation "measure (\<lambda>(hp, extra). length (hp_dyn hp))") auto

declare evict.simps [simp del]

text \<open>
  \<open>hp_dyn_insert\<close>; \<open>alias\<close> is the position in the table of the storage that \<open>name\<close> points into.
  \<^const>\<open>None\<close>: the name is copied after the entry it belongs to was freed.
\<close>

definition hp_dyn_insert :: "hpack \<Rightarrow> sv \<Rightarrow> sv \<Rightarrow> nat option \<Rightarrow> hpack option" where
  "hp_dyn_insert hp name value alias =
     (let entry = entry_size (name, value)
      in if hp_dyn_max_capacity hp \<noteq> 0 \<and> entry > hp_dyn_max_capacity hp then Some hp
         else
           let hp1 = evict hp entry
           in if (case alias of None \<Rightarrow> False | Some d \<Rightarrow> name \<noteq> [] \<and> d \<ge> length (hp_dyn hp1)) then None
              else Some (hp1\<lparr>hp_dyn := (name, value) # hp_dyn hp1, hp_dyn_used := hp_dyn_used hp1 + entry\<rparr>))"

definition hp_shrink_to :: "hpack \<Rightarrow> nat \<Rightarrow> hpack" where
  "hp_shrink_to hp sz = evict (hp\<lparr>hp_dyn_max_capacity := sz\<rparr>) 0"

definition hpack_set_max_table_size :: "hpack \<Rightarrow> nat \<Rightarrow> hpack" where
  "hpack_set_max_table_size hp sz = hp_shrink_to hp sz"

subsection \<open>Decoding a block\<close>

text \<open>\<open>hp_string\<close>: the rest of the input and the buffer with the string appended.\<close>

definition hp_string :: "hpack \<Rightarrow> sv \<Rightarrow> strbuf \<Rightarrow> (sv \<times> strbuf) option" where
  "hp_string hp p into =
     (case p of
        [] \<Rightarrow> None
      | b # _ \<Rightarrow>
          (case hp_int p 7 of
             None \<Rightarrow> None
           | Some (lenu, p1) \<Rightarrow>
               if lenu > HPACK_MAX_STRING_LEN then None
               else if length p1 < lenu then None
               else
                 let raw = take lenu p1
                 in if ucode b AND 0x80 \<noteq> 0
                    then (case huff_decode (hp_huff_root hp) raw of
                            None \<Rightarrow> None | Some tmp \<Rightarrow> Some (drop lenu p1, strbuf_append into tmp))
                    else Some (drop lenu p1, strbuf_append into raw)))"

text \<open>Offsets and lengths of name and value in the buffer.\<close>

type_synonym hpack_off = "nat \<times> nat \<times> nat \<times> nat"

datatype hp_result =
    HP_Ok hpack strbuf "hpack_off list"
  | HP_Error
  | HP_Use_After_Free

text \<open>The name of a literal field: read in place, or copied from the table.\<close>

definition literal_name :: "hpack \<Rightarrow> sv \<Rightarrow> nat \<Rightarrow> strbuf \<Rightarrow> (sv \<times> strbuf \<times> sv \<times> nat option) option" where
  "literal_name hp p idx bytes =
     (if idx = 0
      then case hp_string hp p bytes of
             None \<Rightarrow> None
           | Some (p1, bytes1) \<Rightarrow> Some (p1, bytes1, drop (sb_count bytes) (strbuf_view bytes1), None)
      else case hp_lookup hp idx of
             None \<Rightarrow> None
           | Some (e, alias) \<Rightarrow> Some (p, strbuf_append bytes (fst e), fst e, alias))"

text \<open>One representation. The result carries the rest of the input.\<close>

datatype hp_step =
    Step_Ok hpack strbuf "hpack_off list" bool sv
  | Step_Error
  | Step_Use_After_Free

definition hp_field :: "hpack \<Rightarrow> sv \<Rightarrow> strbuf \<Rightarrow> hpack_off list \<Rightarrow> bool \<Rightarrow> hp_step" where
  "hp_field hp p bytes ol any_field =
     (let b = ucode (hd p)
      in if b AND 0xe0 = 0x20 then
           if any_field then Step_Error
           else
             (case hp_int p 5 of
                None \<Rightarrow> Step_Error
              | Some (sz, p1) \<Rightarrow>
                  if sz > hp_dyn_max_capacity hp then Step_Error else Step_Ok (hp_shrink_to hp sz) bytes ol any_field p1)
         else if b AND 0x80 \<noteq> 0 then
           (case hp_int p 7 of
              None \<Rightarrow> Step_Error
            | Some (idx, p1) \<Rightarrow>
                if idx = 0 then Step_Error
                else
                  case hp_lookup hp idx of
                    None \<Rightarrow> Step_Error
                  | Some (e, alias) \<Rightarrow>
                      let bytes1 = strbuf_append bytes (fst e); bytes2 = strbuf_append bytes1 (snd e)
                      in Step_Ok hp bytes2
                           (ol @ [(sb_count bytes, length (fst e), sb_count bytes1, length (snd e))]) True p1)
         else
           let indexing = (b AND 0xc0 = 0x40)
           in case hp_int p (if indexing then 6 else 4) of
                None \<Rightarrow> Step_Error
              | Some (idx, p1) \<Rightarrow>
                  (case literal_name hp p1 idx bytes of
                     None \<Rightarrow> Step_Error
                   | Some (p2, bytes1, name, alias) \<Rightarrow>
                       (case hp_string hp p2 bytes1 of
                          None \<Rightarrow> Step_Error
                        | Some (p3, bytes2) \<Rightarrow>
                            let value = drop (sb_count bytes1) (strbuf_view bytes2);
                                ol1 = ol @ [(sb_count bytes, length name, sb_count bytes1, length value)]
                            in if indexing
                               then case hp_dyn_insert hp name value alias of
                                      None \<Rightarrow> Step_Use_After_Free
                                    | Some hp1 \<Rightarrow> Step_Ok hp1 bytes2 ol1 True p3
                               else Step_Ok hp bytes2 ol1 True p3)))"

lemma hp_int_loop_shorter: "hp_int_loop p out mult = Some (v, p') \<Longrightarrow> length p' < length p"
proof (induction p arbitrary: out mult)
  case (Cons b p)
  then show ?case by (fastforce simp: Let_def split: if_splits)
qed simp

lemma hp_int_shorter: "hp_int p n = Some (v, p') \<Longrightarrow> length p' < length p"
  using hp_int_loop_shorter by (fastforce simp: hp_int_def Let_def split: list.splits if_splits)

lemma hp_string_shorter: "hp_string hp p into = Some (p', into') \<Longrightarrow> length p' < length p"
  using hp_int_shorter
  by (fastforce simp: hp_string_def Let_def split: list.splits option.splits if_splits)

lemma literal_name_shorter: "literal_name hp p idx bytes = Some (p', r) \<Longrightarrow> length p' \<le> length p"
  using hp_string_shorter by (fastforce simp: literal_name_def split: option.splits if_splits)

lemma hp_field_shorter: "hp_field hp p bytes ol any = Step_Ok hp' bytes' ol' any' p' \<Longrightarrow> length p' < length p"
  unfolding hp_field_def Let_def
  by (auto split: if_splits option.splits dest!: hp_int_shorter hp_string_shorter literal_name_shorter)

function decode_loop :: "hpack \<Rightarrow> sv \<Rightarrow> strbuf \<Rightarrow> hpack_off list \<Rightarrow> bool \<Rightarrow> hp_result" where
  "decode_loop hp p bytes ol any_field =
     (if p = [] then HP_Ok hp bytes ol
      else case hp_field hp p bytes ol any_field of
             Step_Ok hp1 bytes1 ol1 any1 p1 \<Rightarrow> decode_loop hp1 p1 bytes1 ol1 any1
           | Step_Error \<Rightarrow> HP_Error
           | Step_Use_After_Free \<Rightarrow> HP_Use_After_Free)"
  by pat_completeness auto
termination
  by (relation "measure (\<lambda>(hp, p, bytes, ol, any). length p)") (auto dest: hp_field_shorter)

declare decode_loop.simps [simp del]

definition hp_finish :: "strbuf \<Rightarrow> hpack_off list \<Rightarrow> (sv \<times> sv) list" where
  "hp_finish bytes ol =
     map (\<lambda>(n_off, n_len, v_off, v_len). (take n_len (drop n_off (strbuf_view bytes)), take v_len (drop v_off (strbuf_view bytes)))) ol"

datatype hpack_outcome = Decoded hpack "(sv \<times> sv) list" | Compression_Error | Memory_Error

definition hpack_decode_block :: "hpack \<Rightarrow> sv \<Rightarrow> hpack_outcome" where
  "hpack_decode_block hp data =
     (case decode_loop hp data strbuf_init [] False of
        HP_Ok hp1 bytes ol \<Rightarrow> Decoded hp1 (hp_finish bytes ol)
      | HP_Error \<Rightarrow> Compression_Error
      | HP_Use_After_Free \<Rightarrow> Memory_Error)"

subsection \<open>Encoding\<close>

definition hp_enc_str :: "strbuf \<Rightarrow> sv \<Rightarrow> strbuf" where
  "hp_enc_str out s = strbuf_append (hp_enc_int out (length s mod 2 ^ 32) 7 0) s"

fun static_search :: "(sv \<times> sv) list \<Rightarrow> sv \<Rightarrow> nat \<Rightarrow> nat" where
  "static_search [] name i = 0"
| "static_search (e # es) name i = (if sv_equal (fst e) name then i + 1 else static_search es name (i + 1))"

definition hp_static_index :: "sv \<Rightarrow> nat" where
  "hp_static_index name = static_search HPACK_STATIC_TABLE name 0"

definition hpack_encode_status :: "strbuf \<Rightarrow> nat \<Rightarrow> strbuf" where
  "hpack_encode_status out status =
     (if status = 200 then strbuf_append_char out (CHR 0x88)
      else if status = 204 then strbuf_append_char out (CHR 0x89)
      else if status = 206 then strbuf_append_char out (CHR 0x8a)
      else if status = 304 then strbuf_append_char out (CHR 0x8b)
      else if status = 400 then strbuf_append_char out (CHR 0x8c)
      else if status = 404 then strbuf_append_char out (CHR 0x8d)
      else if status = 500 then strbuf_append_char out (CHR 0x8e)
      else hp_enc_str (hp_enc_str (hp_enc_int out 0 4 0) (sv_from_cstr '':status'')) (dec_of_nat status))"

definition hpack_encode_field :: "strbuf \<Rightarrow> sv \<Rightarrow> sv \<Rightarrow> strbuf" where
  "hpack_encode_field out name value =
     (let idx = hp_static_index name
      in hp_enc_str (if idx = 0 then hp_enc_str (hp_enc_int out 0 4 0) name else hp_enc_int out idx 4 0) value)"

subsection \<open>The dynamic table\<close>

text \<open>
  The byte count is the sum of the entry sizes, and it stays within the budget; a budget of zero is
  the exception, see below.
\<close>

definition hpack_inv :: "hpack \<Rightarrow> bool" where
  "hpack_inv hp \<longleftrightarrow> hp_dyn_used hp = sum_list (map entry_size (hp_dyn hp))
     \<and> (hp_dyn_used hp \<le> hp_dyn_max_capacity hp \<or> hp_dyn_max_capacity hp = 0 \<and> length (hp_dyn hp) \<le> 1)"

definition counted :: "hpack \<Rightarrow> bool" where
  "counted hp \<longleftrightarrow> hp_dyn_used hp = sum_list (map entry_size (hp_dyn hp))"

lemma evict_spec:
  "counted hp \<Longrightarrow> counted (evict hp k) \<and> (\<exists>n. hp_dyn (evict hp k) = take n (hp_dyn hp))
     \<and> hp_dyn_max_capacity (evict hp k) = hp_dyn_max_capacity hp \<and> hp_huff_root (evict hp k) = hp_huff_root hp
     \<and> (hp_dyn (evict hp k) = [] \<or> hp_dyn_used (evict hp k) + k \<le> hp_dyn_max_capacity hp)"
proof (induction hp k rule: evict.induct)
  case (1 hp k)
  show ?case
  proof (cases "hp_dyn hp \<noteq> [] \<and> hp_dyn_used hp + k > hp_dyn_max_capacity hp")
    case True
    let ?hp = "hp\<lparr>hp_dyn := butlast (hp_dyn hp), hp_dyn_used := hp_dyn_used hp - entry_size (last (hp_dyn hp))\<rparr>"
    have e: "evict hp k = evict ?hp k" using True by (simp add: evict.simps [of hp])
    have "sum_list (map entry_size (butlast (hp_dyn hp) @ [last (hp_dyn hp)])) = hp_dyn_used hp"
      using True "1.prems" by (simp add: counted_def)
    then have "counted ?hp" by (simp add: counted_def)
    from "1.IH" [OF True this] show ?thesis unfolding e by (auto simp: butlast_conv_take take_take)
  next
    case False
    then show ?thesis using "1.prems" by (auto simp: evict.simps [of hp] intro: exI [of _ "length (hp_dyn hp)"])
  qed
qed

lemma hpack_inv_counted: "hpack_inv hp \<Longrightarrow> counted hp"
  by (simp add: hpack_inv_def counted_def)

lemma insert_inv [inv_intros]:
  assumes "hpack_inv hp" and "hp_dyn_insert hp name value alias = Some hp'"
  shows "hpack_inv hp' \<and> hp_dyn_max_capacity hp' = hp_dyn_max_capacity hp"
proof -
  let ?k = "entry_size (name, value)"
  note e = evict_spec [OF hpack_inv_counted [OF assms(1)], of ?k]
  show ?thesis
  proof (cases "hp_dyn_max_capacity hp \<noteq> 0 \<and> ?k > hp_dyn_max_capacity hp")
    case True
    then show ?thesis using assms by (simp add: hp_dyn_insert_def Let_def)
  next
    case False
    then have hp': "hp' = (evict hp ?k)\<lparr>hp_dyn := (name, value) # hp_dyn (evict hp ?k), hp_dyn_used := hp_dyn_used (evict hp ?k) + ?k\<rparr>"
      using assms(2) by (auto simp: hp_dyn_insert_def Let_def split: if_splits option.splits)
    show ?thesis
    proof (cases "hp_dyn (evict hp ?k) = []")
      case True
      then have "hp_dyn_used (evict hp ?k) = 0" using e by (simp add: counted_def)
      then show ?thesis using e False True by (auto simp: hp' hpack_inv_def counted_def)
    next
      case ne: False
      then show ?thesis using e by (simp add: hp' hpack_inv_def counted_def)
    qed
  qed
qed

lemma shrink_inv [inv_intros]:
  assumes "hpack_inv hp"
  shows "hpack_inv (hp_shrink_to hp sz) \<and> hp_dyn_max_capacity (hp_shrink_to hp sz) = sz \<and> hp_dyn_used (hp_shrink_to hp sz) \<le> sz"
proof -
  have "counted (hp\<lparr>hp_dyn_max_capacity := sz\<rparr>)" using assms by (simp add: hpack_inv_def counted_def)
  note e = evict_spec [OF this, of 0]
  then have "hp_dyn_used (hp_shrink_to hp sz) \<le> sz" by (auto simp: hp_shrink_to_def counted_def)
  then show ?thesis using e by (simp add: hp_shrink_to_def hpack_inv_def counted_def)
qed

lemma hp_field_inv:
  assumes "hpack_inv hp" and "hp_field hp p bytes ol any = Step_Ok hp' bytes' ol' any' p'"
  shows "hpack_inv hp' \<and> hp_dyn_max_capacity hp' \<le> hp_dyn_max_capacity hp"
  using assms unfolding hp_field_def Let_def
  by (auto split: if_splits option.splits simp: shrink_inv dest!: insert_inv [rotated])

lemma decode_loop_inv:
  "hpack_inv hp \<Longrightarrow> decode_loop hp p bytes ol any = HP_Ok hp' bytes' ol' \<Longrightarrow>
     hpack_inv hp' \<and> hp_dyn_max_capacity hp' \<le> hp_dyn_max_capacity hp"
proof (induction hp p bytes ol any rule: decode_loop.induct)
  case (1 hp p bytes ol any)
  show ?case
  proof (cases "p = []")
    case False
    then obtain hp1 bytes1 ol1 any1 p1 where s: "hp_field hp p bytes ol any = Step_Ok hp1 bytes1 ol1 any1 p1"
        "decode_loop hp1 p1 bytes1 ol1 any1 = HP_Ok hp' bytes' ol'"
      using "1.prems"(2) by (subst (asm) decode_loop.simps) (auto split: hp_step.splits)
    note i = hp_field_inv [OF "1.prems"(1) s(1)]
    from "1.IH" [OF False s(1) conjunct1 [OF i] s(2)] i show ?thesis by simp
  qed (use "1.prems" in \<open>simp add: decode_loop.simps\<close>)
qed

subsection \<open>Integer round trip\<close>

definition enc_int :: "nat \<Rightarrow> nat \<Rightarrow> nat \<Rightarrow> sv" where
  "enc_int value nbits pattern =
     (if value < 2 ^ nbits - 1 then [char_of (pattern OR value)]
      else char_of (pattern OR (2 ^ nbits - 1)) # group_bytes (enc_groups (value - (2 ^ nbits - 1))))"

lemma writes_enc_int: "sb.writes (\<lambda>b. hp_enc_int b v n pat) (enc_int v n pat)"
  unfolding hp_enc_int_def enc_int_def Let_def using sb.writes_put by (simp add: if_distrib)

lemma group_bytes_Cons: "group_bytes (g # gs) = (if gs = [] then [char_of g] else char_of (g OR 0x80) # group_bytes gs)"
proof -
  have "[0..<length (g # gs)] = 0 # map Suc [0..<length gs]" by (simp add: map_Suc_upt upt_conv_Cons del: upt_Suc)
  then have "group_bytes (g # gs) = char_of (g OR (if 0 = length gs then 0 else 0x80))
      # map (\<lambda>i. char_of (gs ! i OR (if Suc i = length gs then 0 else 0x80))) [0..<length gs]"
    unfolding group_bytes_def by (simp add: comp_def del: upt_Suc)
  moreover have "(Suc i = length gs) = (i = length gs - 1)" if "i < length gs" for i using that by auto
  ultimately show ?thesis by (auto simp: group_bytes_def)
qed

lemma or_128: "g < 128 \<Longrightarrow> g OR 0x80 = 128 + (g::nat)"
  using push_bit_or_eq_add [of g 7 1] by (simp add: push_bit_eq_mult or.commute)

lemma hp_int_loop_more:
  assumes "g < 128" "0 < mult" "mult * 128 < 2 ^ 32" "out + g * mult < 2 ^ 32"
  shows "hp_int_loop (char_of (g OR 0x80) # p) out mult = hp_int_loop p (out + g * mult) (mult * 128)"
proof -
  have "ucode (char_of (g OR 0x80)) = 128 + g" using assms(1) by (simp add: or_128)
  moreover have "(128 + g) AND 0x7f = g" using assms(1) by (simp add: seven_bits)
  ultimately show ?thesis using assms and_128(2) [OF assms(1)] by (simp add: Let_def)
qed

lemma hp_int_loop_groups:
  "0 < mult \<Longrightarrow> out + r * mult < 2 ^ 32 \<Longrightarrow>
     hp_int_loop (group_bytes (enc_groups r) @ rest) out mult = Some (out + r * mult, rest)"
proof (induction r arbitrary: out mult rule: enc_groups.induct)
  case (1 r)
  have d: "drop_bit 7 r = r div 128" by (simp add: drop_bit_eq_div)
  have r: "r * mult = r mod 128 * mult + r div 128 * (mult * 128)"
    using mod_mult_div_eq [of r 128] by (metis add_mult_distrib mult.assoc mult.commute)
  show ?case
  proof (cases "r div 128 = 0")
    case True
    then have "r mod 128 = r" by (simp add: div_eq_0_iff)
    then show ?thesis using "1.prems" True
      by (simp add: enc_groups.simps [of r] group_bytes_Cons d seven_bits and_128 Let_def)
  next
    case False
    have "1 * (mult * 128) \<le> r div 128 * (mult * 128)" using False by (intro mult_right_mono) simp_all
    then have m: "mult * 128 < 2 ^ 32" using r "1.prems"(2) by linarith
    have ne: "enc_groups (r div 128) \<noteq> []" by (simp add: enc_groups.simps)
    have IH: "hp_int_loop (group_bytes (enc_groups (r div 128)) @ rest) (out + r mod 128 * mult) (mult * 128)
        = Some (out + r mod 128 * mult + r div 128 * (mult * 128), rest)"
      using "1.IH" [of "mult * 128" "out + r mod 128 * mult"] False "1.prems" r by (simp add: d)
    have b: "out + r mod 128 * mult < 2 ^ 32" using r "1.prems"(2) by linarith
    have "group_bytes (enc_groups r) = char_of (r mod 128 OR 0x80) # group_bytes (enc_groups (r div 128))"
      using False ne by (simp add: enc_groups.simps [of r] group_bytes_Cons d seven_bits)
    then show ?thesis using hp_int_loop_more [OF _ "1.prems"(1) m b] IH r by simp
  qed
qed

lemma hp_int_enc_int:
  assumes v: "v < 2 ^ 32" and n: "0 < n" "n \<le> 7" and pat: "pat < 256" "pat mod 2 ^ n = 0"
  shows "hp_int (enc_int v n pat @ rest) n = Some (v, rest)"
proof -
  have or_pat: "pat OR x = pat + x" if "x < 2 ^ n" for x
  proof -
    have "push_bit n (pat div 2 ^ n) = pat" using pat by (auto simp: push_bit_eq_mult)
    moreover from this have "pat div 2 ^ n * 2 ^ n = pat" by (simp add: push_bit_eq_mult)
    ultimately show ?thesis using push_bit_or_eq_add [OF that, of "pat div 2 ^ n"] by simp
  qed
  have lt: "pat + x < 256" if "x < 2 ^ n" for x
  proof -
    have "pat div 2 ^ n < 2 ^ (8 - n)" using pat n by (simp add: less_mult_imp_div_less flip: power_add)
    then have "(pat div 2 ^ n + 1) * 2 ^ n \<le> 2 ^ (8 - n) * 2 ^ n" by (intro mult_right_mono) simp_all
    then show ?thesis using that pat n by (auto simp: algebra_simps simp flip: power_add)
  qed
  have m: "(pat + x) AND (2 ^ n - 1) = x" if "x < 2 ^ n" for x
    using that pat and_mask_nat [of "pat + x" n] by (simp add: mod_add_eq [symmetric])
  have byte: "ucode (char_of (pat OR x)) AND (2 ^ n - 1) = x" if "x < 2 ^ n" for x
    using or_pat [OF that] lt [OF that] m [OF that] by simp
  have lt_maxp: "(2::nat) ^ n - 1 < 2 ^ n" by simp
  show ?thesis
  proof (cases "v < 2 ^ n - 1")
    case True
    then have "v < 2 ^ n" using lt_maxp by linarith
    from byte [OF this] True show ?thesis by (simp add: hp_int_def enc_int_def Let_def del: of_char_of)
  next
    case False
    then have "hp_int_loop (group_bytes (enc_groups (v - (2 ^ n - 1))) @ rest) (2 ^ n - 1) 1 = Some (v, rest)"
      using hp_int_loop_groups [of 1 "2 ^ n - 1" "v - (2 ^ n - 1)" rest] v by simp
    with False byte [OF lt_maxp] show ?thesis by (simp add: hp_int_def enc_int_def Let_def del: of_char_of)
  qed
qed

subsection \<open>Header blocks round trip\<close>

definition enc_str :: "sv \<Rightarrow> sv" where
  "enc_str s = enc_int (length s) 7 0 @ s"

lemma enc_int_hd: "enc_int v n pat \<noteq> []"
    "hd (enc_int v n pat) = char_of (pat OR (if v < 2 ^ n - 1 then v else 2 ^ n - 1))"
  by (simp_all add: enc_int_def)

lemma writes_enc_str: "length s < 2 ^ 32 \<Longrightarrow> sb.writes (\<lambda>b. hp_enc_str b s) (enc_str s)"
  unfolding hp_enc_str_def enc_str_def using sb.writes_seq [OF writes_enc_int sb.writes_put]
  by simp

lemma hp_string_enc_str:
  assumes "length s \<le> HPACK_MAX_STRING_LEN"
  shows "hp_string hp (enc_str s @ rest) into = Some (rest, strbuf_append into s)"
proof -
  have l: "length s < 2 ^ 32" using assms by (simp add: HPACK_MAX_STRING_LEN_def)
  have i: "hp_int (enc_str s @ rest) 7 = Some (length s, s @ rest)"
    using hp_int_enc_int [OF l, of 7 0 "s @ rest"] by (simp add: enc_str_def)
  obtain b q where bq: "enc_str s @ rest = b # q" using enc_int_hd(1) [of "length s" 7 0]
    by (cases "enc_int (length s) 7 0") (auto simp: enc_str_def)
  then have "b = hd (enc_int (length s) 7 0)" using enc_int_hd(1) [of "length s" 7 0]
    by (auto simp: enc_str_def hd_append dest: arg_cong [of _ _ hd])
  then have "ucode b < 128" by (simp add: enc_int_hd(2))
  then have "ucode b AND 0x80 = 0" by (rule and_128)
  then show ?thesis using i assms unfolding bq by (simp add: hp_string_def Let_def)
qed

definition enc_field :: "sv \<times> sv \<Rightarrow> sv" where
  "enc_field f =
     (if hp_static_index (fst f) = 0 then enc_int 0 4 0 @ enc_str (fst f) else enc_int (hp_static_index (fst f)) 4 0)
     @ enc_str (snd f)"

text \<open>The place of a status in the static table, 0 when it has none.\<close>

definition status_index :: "nat \<Rightarrow> nat" where
  "status_index status =
     (if status = 200 then 8 else if status = 204 then 9 else if status = 206 then 10 else if status = 304 then 11
      else if status = 400 then 12 else if status = 404 then 13 else if status = 500 then 14 else 0)"

definition enc_status :: "nat \<Rightarrow> sv" where
  "enc_status status =
     (if status_index status \<noteq> 0 then [char_of (0x80 + status_index status)]
      else enc_int 0 4 0 @ enc_str '':status'' @ enc_str (dec_of_nat status))"

lemma status_index_entry:
  "status_index status \<noteq> 0 \<Longrightarrow> status_index status \<le> 61"
  "status_index status \<noteq> 0 \<Longrightarrow> HPACK_STATIC_TABLE ! (status_index status - 1) = ('':status'', dec_of_nat status)"
proof -
  have "list_all (\<lambda>s. HPACK_STATIC_TABLE ! (status_index s - 1) = ('':status'', dec_of_nat s)) [200, 204, 206, 304, 400, 404, 500]"
    by code_simp
  then show "status_index status \<noteq> 0 \<Longrightarrow> HPACK_STATIC_TABLE ! (status_index status - 1) = ('':status'', dec_of_nat status)"
    unfolding list.pred_inject by (cases "status \<in> {200, 204, 206, 304, 400, 404, 500}") (blast, simp add: status_index_def)
qed (simp add: status_index_def split: if_splits)

text \<open>A field the decoder accepts: each string within the limit of the decoder.\<close>

definition field_ok :: "sv \<times> sv \<Rightarrow> bool" where
  "field_ok f \<longleftrightarrow> length (fst f) \<le> HPACK_MAX_STRING_LEN \<and> length (snd f) \<le> HPACK_MAX_STRING_LEN"

lemma static_search_spec:
  "static_search es name i = 0 \<or> (i < static_search es name i \<and> static_search es name i \<le> i + length es
     \<and> fst (es ! (static_search es name i - 1 - i)) = name)"
proof (induction es arbitrary: i)
  case (Cons e es)
  then show ?case using Cons.IH [of "i + 1"] by (auto simp: nth_Cons' sv_equal_iff)
qed simp

lemma hp_static_index_spec:
  assumes "hp_static_index name \<noteq> 0"
  shows "hp_static_index name \<le> 61" "fst (HPACK_STATIC_TABLE ! (hp_static_index name - 1)) = name"
proof -
  have "length HPACK_STATIC_TABLE = 61" by (simp add: HPACK_STATIC_TABLE_def)
  then show "hp_static_index name \<le> 61" "fst (HPACK_STATIC_TABLE ! (hp_static_index name - 1)) = name"
    using static_search_spec [of HPACK_STATIC_TABLE name 0] assms by (auto simp: hp_static_index_def)
qed

lemma low_bits: "b < 16 \<Longrightarrow> b AND 0xe0 = 0" "b < 16 \<Longrightarrow> b AND 0xc0 = 0" "b < 16 \<Longrightarrow> b AND 0x80 = (0::nat)"
proof -
  assume "b < 16"
  then have "b = b AND 15" using and_mask_nat [of b 4] by simp
  then have "b AND m = b AND (15 AND m)" for m by (metis and.assoc)
  from this [of "0xe0"] this [of "0xc0"] this [of "0x80"]
  show "b AND 0xe0 = 0" "b AND 0xc0 = 0" "b AND 0x80 = 0" by simp_all
qed

text \<open>A literal without indexing extends the buffer and the list of offsets and leaves the table alone.\<close>

lemma hp_field_literal:
  assumes "hp_static_index n \<noteq> 0 \<and> pre = enc_int (hp_static_index n) 4 0 \<or> pre = enc_int 0 4 0 @ enc_str n"
    and "field_ok (n, v)" and "strbuf_inv bytes"
  shows "hp_field hp (pre @ enc_str v @ rest) bytes ol any =
     Step_Ok hp (strbuf_append (strbuf_append bytes n) v)
       (ol @ [(sb_count bytes, length n, sb_count bytes + length n, length v)]) True rest"
proof -
  obtain i tl where i: "i < 2 ^ 32" "pre = enc_int i 4 0 @ tl"
      and n: "literal_name hp (tl @ enc_str v @ rest) i bytes = Some (enc_str v @ rest, strbuf_append bytes n, n, None)"
  proof (cases "hp_static_index n \<noteq> 0 \<and> pre = enc_int (hp_static_index n) 4 0")
    case True
    then have "literal_name hp ([] @ enc_str v @ rest) (hp_static_index n) bytes = Some (enc_str v @ rest, strbuf_append bytes n, n, None)"
      using hp_static_index_spec [of n] by (simp add: literal_name_def hp_lookup_def)
    then show ?thesis using that [of "hp_static_index n" "[]"] True hp_static_index_spec(1) [of n] by simp
  next
    case False
    then have "pre = enc_int 0 4 0 @ enc_str n" using assms(1) by auto
    moreover have "literal_name hp (enc_str n @ enc_str v @ rest) 0 bytes = Some (enc_str v @ rest, strbuf_append bytes n, n, None)"
      using assms by (simp add: literal_name_def hp_string_enc_str field_ok_def view_simps count_view)
    ultimately show ?thesis using that [of 0 "enc_str n"] by simp
  qed
  have h: "hd (pre @ enc_str v @ rest) = hd (enc_int i 4 0)" by (simp add: i enc_int_hd)
  have "ucode (hd (pre @ enc_str v @ rest)) < 16" unfolding h by (simp add: enc_int_hd(2))
  note b = low_bits [OF this]
  have "hp_int (pre @ enc_str v @ rest) 4 = Some (i, tl @ enc_str v @ rest)"
    using hp_int_enc_int [OF i(1), of 4 0] by (simp add: i)
  then show ?thesis using n assms
    by (simp add: hp_field_def Let_def b hp_string_enc_str field_ok_def view_simps count_view inv_intros)
qed

text \<open>The offsets collected so far stay inside the buffer, so further appends do not change their fields.\<close>

definition offs_ok :: "strbuf \<Rightarrow> hpack_off list \<Rightarrow> bool" where
  "offs_ok bytes ol \<longleftrightarrow> (\<forall>(no, nl, vo, vl) \<in> set ol. no + nl \<le> sb_count bytes \<and> vo + vl \<le> sb_count bytes)"

lemma hp_finish_snoc:
  assumes "strbuf_inv bytes" and "offs_ok bytes ol"
  shows "hp_finish (strbuf_append (strbuf_append bytes n) v) (ol @ [(sb_count bytes, length n, sb_count bytes + length n, length v)])
      = hp_finish bytes ol @ [(n, v)]"
    and "offs_ok (strbuf_append (strbuf_append bytes n) v) (ol @ [(sb_count bytes, length n, sb_count bytes + length n, length v)])"
  using assms
  by (auto simp: hp_finish_def offs_ok_def view_simps count_view inv_intros split_beta intro!: map_cong dest: bspec)

definition block_ok :: "hpack \<Rightarrow> sv \<Rightarrow> strbuf \<Rightarrow> hpack_off list \<Rightarrow> bool \<Rightarrow> (sv \<times> sv) list \<Rightarrow> bool" where
  "block_ok hp p bytes ol any fs \<longleftrightarrow> (\<exists>bytes' ol'. decode_loop hp p bytes ol any = HP_Ok hp bytes' ol' \<and> hp_finish bytes' ol' = hp_finish bytes ol @ fs)"

lemma block_ok_step:
  assumes f: "hp_field hp p bytes ol any = Step_Ok hp (strbuf_append (strbuf_append bytes n) v)
       (ol @ [(sb_count bytes, length n, sb_count bytes + length n, length v)]) True rest"
    and p: "p \<noteq> []" and b: "strbuf_inv bytes" "offs_ok bytes ol"
    and more: "\<And>bytes ol. strbuf_inv bytes \<Longrightarrow> offs_ok bytes ol \<Longrightarrow> block_ok hp rest bytes ol True fs"
  shows "block_ok hp p bytes ol any ((n, v) # fs)"
proof -
  let ?b = "strbuf_append (strbuf_append bytes n) v"
  let ?o = "ol @ [(sb_count bytes, length n, sb_count bytes + length n, length v)]"
  have "decode_loop hp p bytes ol any = decode_loop hp rest ?b ?o True" using f p by (simp add: decode_loop.simps [of hp p])
  then show ?thesis using more [of ?b ?o] hp_finish_snoc [OF b, of n v] b(1) by (auto simp: block_ok_def inv_intros)
qed

lemma block_ok_fields:
  "list_all field_ok fs \<Longrightarrow> strbuf_inv bytes \<Longrightarrow> offs_ok bytes ol \<Longrightarrow> block_ok hp (concat (map enc_field fs)) bytes ol any fs"
proof (induction fs arbitrary: bytes ol any)
  case Nil
  then show ?case by (simp add: block_ok_def decode_loop.simps)
next
  case (Cons f fs)
  obtain n v where f: "f = (n, v)" by fastforce
  let ?pre = "if hp_static_index n = 0 then enc_int 0 4 0 @ enc_str n else enc_int (hp_static_index n) 4 0"
  have "block_ok hp (?pre @ enc_str v @ concat (map enc_field fs)) bytes ol any ((n, v) # fs)"
    by (rule block_ok_step [OF hp_field_literal]) (use Cons f in \<open>auto simp: enc_int_hd\<close>)
  then show ?case by (simp add: f enc_field_def [of "(n, v)"] split: if_splits)
qed

lemma hp_field_status:
  assumes "1 \<le> i" "i \<le> 61"
  shows "hp_field hp (char_of (0x80 + i) # rest) bytes ol any =
    Step_Ok hp (strbuf_append (strbuf_append bytes (fst (HPACK_STATIC_TABLE ! (i - 1)))) (snd (HPACK_STATIC_TABLE ! (i - 1))))
      (ol @ [(sb_count bytes, length (fst (HPACK_STATIC_TABLE ! (i - 1))),
              sb_count (strbuf_append bytes (fst (HPACK_STATIC_TABLE ! (i - 1)))), length (snd (HPACK_STATIC_TABLE ! (i - 1))))]) True rest"
proof -
  have b: "(128 + i) AND 0x80 \<noteq> 0" "(128 + i) AND 0x7f = i" using assms by (auto simp: and_128 seven_bits)
  have "((128 + i) AND 0xe0) AND 0x80 = (128 + i) AND 0x80" by (simp add: and.assoc)
  then have "(128 + i) AND 0xe0 \<noteq> 0x20" using b(1) by auto
  then show ?thesis using assms b by (simp add: hp_field_def hp_int_def hp_lookup_def Let_def)
qed

lemma block_ok_status:
  assumes "status < 65536" and "strbuf_inv bytes" and "offs_ok bytes ol" and "list_all field_ok fs"
  shows "block_ok hp (enc_status status @ concat (map enc_field fs)) bytes ol any (('':status'', dec_of_nat status) # fs)"
proof (cases "status_index status \<noteq> 0")
  case True
  let ?i = "status_index status"
  have "1 \<le> ?i" "?i \<le> 61" using True status_index_entry(1) [OF True] by simp_all
  from hp_field_status [OF this] status_index_entry(2) [OF True] assms(2)
  have "hp_field hp (char_of (0x80 + ?i) # concat (map enc_field fs)) bytes ol any =
     Step_Ok hp (strbuf_append (strbuf_append bytes '':status'') (dec_of_nat status))
       (ol @ [(sb_count bytes, length '':status'', sb_count bytes + length '':status'', length (dec_of_nat status))]) True
       (concat (map enc_field fs))"
    by (simp add: view_simps inv_intros count_view)
  from block_ok_step [OF this _ assms(2,3) block_ok_fields [OF assms(4)]] show ?thesis using True by (simp add: enc_status_def)
next
  case False
  have "field_ok ('':status'', dec_of_nat status)"
    using length_dec_of_nat [of status 5] assms(1) by (simp add: field_ok_def HPACK_MAX_STRING_LEN_def)
  note l = hp_field_literal [OF disjI2 [OF refl] this assms(2)]
  have "block_ok hp ((enc_int 0 4 0 @ enc_str '':status'') @ enc_str (dec_of_nat status) @ concat (map enc_field fs)) bytes ol any
      (('':status'', dec_of_nat status) # fs)"
    by (rule block_ok_step [OF l _ assms(2,3) block_ok_fields [OF assms(4)]]) (simp_all add: enc_int_hd)
  then show ?thesis using False by (simp add: enc_status_def)
qed

lemma writes_field: "field_ok f \<Longrightarrow> sb.writes (\<lambda>b. hpack_encode_field b (fst f) (snd f)) (enc_field f)"
  unfolding hpack_encode_field_def enc_field_def Let_def
  by (intro sb.writes_seq [OF _ writes_enc_str] sb.writes_if sb.writes_seq [OF writes_enc_int writes_enc_str] writes_enc_int)
     (auto simp: field_ok_def HPACK_MAX_STRING_LEN_def)

lemma writes_status: "status < 65536 \<Longrightarrow> sb.writes (\<lambda>b. hpack_encode_status b status) (enc_status status)"
proof (cases "status_index status \<noteq> 0")
  case True
  then have "hpack_encode_status = (\<lambda>b s. if s = status then strbuf_append_char b (char_of (0x80 + status_index status)) else hpack_encode_status b s)"
    by (intro ext) (auto simp: status_index_def hpack_encode_status_def char_of_def bit_0 split: if_splits)
  then have "(\<lambda>b. hpack_encode_status b status) = (\<lambda>b. strbuf_append_char b (char_of (0x80 + status_index status)))"
    by (metis (full_types))
  then show ?thesis using True writes_append_char by (simp add: enc_status_def)
next
  case False
  assume "status < 65536"
  then have "length (dec_of_nat status) < 2 ^ 32" using length_dec_of_nat [of status 5] by simp
  moreover have "(\<lambda>b. hpack_encode_status b status) =
      (\<lambda>b. hp_enc_str (hp_enc_str (hp_enc_int b 0 4 0) '':status'') (dec_of_nat status))"
  proof -
    have "sv_from_cstr '':status'' = '':status''" by code_simp
    then show ?thesis using False unfolding hpack_encode_status_def by (simp add: status_index_def split: if_splits)
  qed
  ultimately show ?thesis using False
      sb.writes_seq [OF sb.writes_seq [OF writes_enc_int writes_enc_str] writes_enc_str, of "'':status''" "dec_of_nat status" 0 4 0]
    by (simp add: enc_status_def)
qed

definition encode_fields :: "strbuf \<Rightarrow> (sv \<times> sv) list \<Rightarrow> strbuf" where
  "encode_fields out fs = foldl (\<lambda>b f. hpack_encode_field b (fst f) (snd f)) out fs"

lemma writes_fields: "list_all field_ok fs \<Longrightarrow> sb.writes (\<lambda>b. encode_fields b fs) (concat (map enc_field fs))"
  unfolding encode_fields_def by (rule sb.writes_loop) (auto simp: list_all_iff writes_field)

lemma hpack_decode_encoded:
  assumes "status < 65536" and "list_all field_ok fs"
  shows "hpack_decode_block hp (strbuf_view (encode_fields (hpack_encode_status strbuf_init status) fs))
     = Decoded hp (('':status'', dec_of_nat status) # fs)"
proof -
  have v: "strbuf_view (encode_fields (hpack_encode_status strbuf_init status) fs) = enc_status status @ concat (map enc_field fs)"
    using sb.writes_view [OF sb.writes_seq [OF writes_status writes_fields], OF assms strbuf_inv_init] by (simp add: strbuf_view_def strbuf_init_def)
  have "block_ok hp (enc_status status @ concat (map enc_field fs)) strbuf_init [] False (('':status'', dec_of_nat status) # fs)"
    by (rule block_ok_status) (simp_all add: assms offs_ok_def)
  then show ?thesis unfolding v by (auto simp: block_ok_def hpack_decode_block_def hp_finish_def)
qed

text \<open>
  C18: a header block the server encodes, a status followed by any list of fields whose strings are at
  most 64 KiB, decodes on any peer state to exactly these fields, and leaves the dynamic table of the
  peer alone.
\<close>

theorem hpack_round_trip:
  assumes "status < 65536" and "list_all field_ok fs"
  shows "hpack_decode_block hp (strbuf_view (encode_fields (hpack_encode_status strbuf_init status) fs))
     = Decoded hp (('':status'', dec_of_nat status) # fs)"
  using assms by (rule hpack_decode_encoded)

theorem hpack_round_trip_witness:
  "hpack_decode_block hpack_init (strbuf_view (encode_fields (hpack_encode_status strbuf_init 418) [(''content-type'', ''text/plain''), (''x-a'', [])]))
     = Decoded hpack_init (('':status'', dec_of_nat 418) # [(''content-type'', ''text/plain''), (''x-a'', [])])"
  by (rule hpack_round_trip) (simp_all add: field_ok_def HPACK_MAX_STRING_LEN_def)

lemma enc_groups_length: "r < 2 ^ (7 * k) \<Longrightarrow> 0 < k \<Longrightarrow> length (enc_groups r) \<le> k"
proof (induction r arbitrary: k rule: enc_groups.induct)
  case (1 r)
  show ?case
  proof (cases "drop_bit 7 r = 0")
    case False
    then have "r \<ge> 128" by (simp add: drop_bit_eq_div div_eq_0_iff)
    then obtain k' where k: "k = Suc k'" "0 < k'" using "1.prems" by (cases k; cases "k - 1") auto
    then have "drop_bit 7 r < 2 ^ (7 * k')" using "1.prems" by (simp add: drop_bit_eq_div power_add less_mult_imp_div_less)
    from "1.IH" [OF False this k(2)] show ?thesis using False k by (simp add: enc_groups.simps [of r])
  qed (use "1.prems" in \<open>simp add: enc_groups.simps [of r]\<close>)
qed

lemma group_bytes_length: "length (group_bytes gs) = length gs"
  by (simp add: group_bytes_def)

text \<open>
  integer representations round trip for every 32-bit value and every prefix, and take at most
  six bytes, so the scratch buffers of the encoder, \<open>groups[6]\<close> and \<open>tmp[8]\<close>, suffice.
\<close>

theorem hp_int_round_trip:
  assumes "v < 2 ^ 32" and "0 < n" and "n \<le> 7" and "pat < 256" and "pat mod 2 ^ n = 0" and "strbuf_inv out"
  shows "\<exists>enc. strbuf_view (hp_enc_int out v n pat) = strbuf_view out @ enc
      \<and> hp_int (enc @ rest) n = Some (v, rest) \<and> length enc \<le> 6"
proof -
  have "length (enc_groups (v - (2 ^ n - 1))) \<le> 5" using enc_groups_length [of "v - (2 ^ n - 1)" 5] assms(1) by simp
  then have "length (enc_int v n pat) \<le> 6" by (simp add: enc_int_def group_bytes_length)
  then show ?thesis using sb.writes_view [OF writes_enc_int assms(6)] hp_int_enc_int [OF assms(1-5)] by blast
qed

theorem hp_int_round_trip_witness:
  "\<exists>enc. strbuf_view (hp_enc_int strbuf_init 1337 5 0x20) = strbuf_view strbuf_init @ enc
      \<and> hp_int (enc @ ''x'') 5 = Some (1337, ''x'') \<and> length enc \<le> 6"
  by (rule hp_int_round_trip) (simp_all add: strbuf_inv_init)

subsection \<open>What the decoder does to its state\<close>

lemmas decode_eval = hpack_decode_block_def decode_loop.simps hp_field_def hp_int_def hp_string_def literal_name_def
  hp_dyn_insert_def evict.simps hp_shrink_to_def hp_lookup_def hpack_init_def HPACK_DEFAULT_MAX_TABLE_SIZE_def
  HPACK_MAX_STRING_LEN_def hp_finish_def entry_size_def view_simps inv_intros count_view Let_def



text \<open>
  a literal whose name is taken from the dynamic table is inserted by reference, after the table
  made room for it. When the entry that holds the name is among the evicted ones, the decoder copies the
  name from freed memory: a block of 39 bytes makes a fresh decoder do so.
\<close>

theorem hpack_use_after_free:
  "hpack_decode_block hpack_init
     ([CHR 0x3f, CHR 0x21, CHR 0x40, CHR 0x01, CHR ''a'', CHR 0x00, CHR 0x7e, CHR 0x1f] @ replicate 31 (CHR ''b'')) = Memory_Error"
  by (simp add: decode_eval)

text \<open>A budget of zero does not keep entries out: the guard on the entry size is skipped then.\<close>

lemma hpack_zero_budget:
  "hp_dyn_max_capacity hp = 0 \<Longrightarrow> \<exists>hp'. hp_dyn_insert hp name value None = Some hp' \<and> hp_dyn hp' \<noteq> []"
  by (simp add: hp_dyn_insert_def Let_def)

text \<open>The multiplier wraps before it reaches zero, so an overlong integer is accepted with a wrong value.\<close>

lemma hp_int_overlong: "hp_int [CHR 0xff, CHR 0x80, CHR 0x80, CHR 0x80, CHR 0x80, CHR 0x80, CHR 0x80, CHR 0x80, CHR 0x80, CHR 0x80, CHR 0x02] 7 = Some (127, [])"
  by (simp add: hp_int_def Let_def flip: numeral_2_eq_2)

end
