(* ===== verification/Json.thy ===== *)
theory Json
  imports Formatting
begin

text \<open>
  \<open>src/utils/json.c\<close>: the JSON parser, the lookups and builders on the tree and the serializer.
  A string node is its C string, so a value holds no NUL bytes. Numbers are \<open>double\<close>s, which the
  code only creates with \<open>strtod\<close> and renders with \<open>%.17g\<close>: their type is a parameter of the tree and
  the two functions are arguments of the parser and of the serializer.

  The parser keeps the rest of the input; the nesting depth is counted down, so \<open>n\<close> stands for
  \<open>JSON_MAX_DEPTH + 1 - depth\<close>. The loops over the elements of a container need not end by their
  form alone; \<^const>\<open>None\<close> stands for not returning, and \<open>json_parse_total\<close> shows that it never happens.
\<close>

datatype 'd json_value =
    JNull
  | JBool bool
  | JNumber 'd
  | JString sv
  | JArray "'d json_value list"
  | JObject "(sv \<times> 'd json_value) list"

definition JSON_MAX_DEPTH :: nat where "JSON_MAX_DEPTH = 512"

text \<open>A failed parse is its reason.\<close>

type_synonym json_error = "char list"

subsection \<open>Lookups and builders\<close>

fun json_pairs_get :: "(sv \<times> 'd json_value) list \<Rightarrow> sv \<Rightarrow> 'd json_value option" where
  "json_pairs_get [] name = None"
| "json_pairs_get (p # ps) name = (if fst p = c_str name then Some (snd p) else json_pairs_get ps name)"

definition json_get :: "'d json_value \<Rightarrow> sv \<Rightarrow> 'd json_value option" where
  "json_get obj name = (case obj of JObject ps \<Rightarrow> json_pairs_get ps name | _ \<Rightarrow> None)"

definition json_get_string :: "'d json_value \<Rightarrow> sv \<Rightarrow> sv option" where
  "json_get_string obj name = (case json_get obj name of Some (JString s) \<Rightarrow> Some s | _ \<Rightarrow> None)"

definition json_get_number :: "'d \<Rightarrow> 'd json_value \<Rightarrow> sv \<Rightarrow> 'd" where
  "json_get_number zero obj name = (case json_get obj name of Some (JNumber d) \<Rightarrow> d | _ \<Rightarrow> zero)"

definition json_get_bool :: "'d json_value \<Rightarrow> sv \<Rightarrow> bool" where
  "json_get_bool obj name = (case json_get obj name of Some (JBool b) \<Rightarrow> b | _ \<Rightarrow> False)"

definition json_array_length :: "'d json_value \<Rightarrow> nat" where
  "json_array_length arr = (case arr of JArray vs \<Rightarrow> length vs | _ \<Rightarrow> 0)"

definition json_array_get :: "'d json_value \<Rightarrow> nat \<Rightarrow> 'd json_value option" where
  "json_array_get arr index =
     (case arr of JArray vs \<Rightarrow> if index \<ge> length vs then None else Some (vs ! index) | _ \<Rightarrow> None)"

definition json_make_null :: "'d json_value" where "json_make_null = JNull"

definition json_make_bool :: "bool \<Rightarrow> 'd json_value" where "json_make_bool b = JBool b"

definition json_make_number :: "'d \<Rightarrow> 'd json_value" where "json_make_number n = JNumber n"

definition json_make_string :: "sv \<Rightarrow> 'd json_value" where "json_make_string s = JString (c_str s)"

definition json_make_array :: "'d json_value" where "json_make_array = JArray []"

definition json_make_object :: "'d json_value" where "json_make_object = JObject []"

definition json_array_append :: "'d json_value list \<Rightarrow> 'd json_value \<Rightarrow> 'd json_value list" where
  "json_array_append arr child = arr @ [child]"

fun json_object_set :: "(sv \<times> 'd json_value) list \<Rightarrow> sv \<Rightarrow> 'd json_value \<Rightarrow> (sv \<times> 'd json_value) list" where
  "json_object_set [] key child = [(c_str key, child)]"
| "json_object_set (p # ps) key child =
     (if fst p = c_str key then (fst p, child) # ps else p # json_object_set ps key child)"

subsection \<open>Strings\<close>

definition json_ws :: "char \<Rightarrow> bool" where
  "json_ws c \<longleftrightarrow> c = CHR '' '' \<or> c = CHR 0x09 \<or> c = CHR 0x0a \<or> c = CHR 0x0d"

definition skip_ws :: "sv \<Rightarrow> sv" where
  "skip_ws p = dropWhile json_ws p"

definition hex_val :: "char \<Rightarrow> int" where
  "hex_val c =
     (if 48 \<le> ucode c \<and> ucode c \<le> 57 then int (ucode c) - 48
      else if 97 \<le> ucode c \<and> ucode c \<le> 102 then int (ucode c) - 97 + 10
      else if 65 \<le> ucode c \<and> ucode c \<le> 70 then int (ucode c) - 65 + 10
      else - 1)"

fun xdigits :: "sv \<Rightarrow> nat \<Rightarrow> nat option" where
  "xdigits [] v = Some v"
| "xdigits (c # cs) v = (if hex_val c < 0 then None else xdigits cs (push_bit 4 v OR nat (hex_val c)))"

definition parse_hex4 :: "sv \<Rightarrow> json_error + (nat \<times> sv)" where
  "parse_hex4 p =
     (if length p < 4 then Inl (''truncated '' @ CHR 0x5c # ''u escape'')
      else case xdigits (take 4 p) 0 of None \<Rightarrow> Inl (''bad '' @ CHR 0x5c # ''u escape'') | Some v \<Rightarrow> Inr (v, drop 4 p))"

definition utf8_append :: "strbuf \<Rightarrow> nat \<Rightarrow> strbuf" where
  "utf8_append out cp =
     (if cp < 0x80 then strbuf_append_char out (char_of cp)
      else if cp < 0x800 then
        strbuf_append_char (strbuf_append_char out (char_of (0xC0 OR drop_bit 6 cp))) (char_of (0x80 OR (cp AND 0x3F)))
      else if cp < 0x10000 then
        strbuf_append_char (strbuf_append_char (strbuf_append_char out
          (char_of (0xE0 OR drop_bit 12 cp))) (char_of (0x80 OR (drop_bit 6 cp AND 0x3F)))) (char_of (0x80 OR (cp AND 0x3F)))
      else
        strbuf_append_char (strbuf_append_char (strbuf_append_char (strbuf_append_char out
          (char_of (0xF0 OR drop_bit 18 cp))) (char_of (0x80 OR (drop_bit 12 cp AND 0x3F))))
          (char_of (0x80 OR (drop_bit 6 cp AND 0x3F)))) (char_of (0x80 OR (cp AND 0x3F))))"

text \<open>The code point of a \<open>\u\<close> escape, surrogate pairs merged.\<close>

definition parse_unicode :: "sv \<Rightarrow> json_error + (nat \<times> sv)" where
  "parse_unicode p =
     (case parse_hex4 p of
        Inl e \<Rightarrow> Inl e
      | Inr (cp, p1) \<Rightarrow>
          if cp \<ge> 0xD800 \<and> cp \<le> 0xDBFF then
            if length p1 \<ge> 2 \<and> p1 ! 0 = CHR 0x5c \<and> p1 ! 1 = CHR ''u'' then
              (case parse_hex4 (drop 2 p1) of
                 Inl e \<Rightarrow> Inl e
               | Inr (lo, p2) \<Rightarrow>
                   if lo \<ge> 0xDC00 \<and> lo \<le> 0xDFFF then Inr (0x10000 + push_bit 10 (cp - 0xD800) + (lo - 0xDC00), p2)
                   else Inl ''lone high surrogate'')
            else Inl ''lone high surrogate''
          else if cp \<ge> 0xDC00 \<and> cp \<le> 0xDFFF then Inl ''lone low surrogate''
          else Inr (cp, p1))"

definition simple_escape :: "char \<Rightarrow> char option" where
  "simple_escape e =
     (if e = CHR 0x22 \<or> e = CHR 0x5c \<or> e = CHR ''/'' then Some e
      else if e = CHR ''b'' then Some (CHR 0x08)
      else if e = CHR ''f'' then Some (CHR 0x0c)
      else if e = CHR ''n'' then Some (CHR 0x0a)
      else if e = CHR ''r'' then Some (CHR 0x0d)
      else if e = CHR ''t'' then Some (CHR 0x09)
      else None)"

lemma parse_hex4_shorter: "parse_hex4 p = Inr (v, p') \<Longrightarrow> length p' < length p"
  by (auto simp: parse_hex4_def split: if_splits option.splits)

lemma parse_unicode_shorter: "parse_unicode p = Inr (v, p') \<Longrightarrow> length p' < length p"
  by (auto simp: parse_unicode_def split: if_splits sum.splits dest!: parse_hex4_shorter)

function string_loop :: "sv \<Rightarrow> strbuf \<Rightarrow> json_error + (strbuf \<times> sv)" where
  "string_loop p out =
     (case p of
        [] \<Rightarrow> Inl ''unterminated string''
      | c # p1 \<Rightarrow>
          if c = CHR 0x22 then Inr (out, p1)
          else if c = CHR 0x5c then
            (case p1 of
               [] \<Rightarrow> Inl ''truncated escape''
             | e # p2 \<Rightarrow>
                 (case simple_escape e of
                    Some ch \<Rightarrow> string_loop p2 (strbuf_append_char out ch)
                  | None \<Rightarrow>
                      if e = CHR ''u'' then
                        (case parse_unicode p2 of
                           Inl err \<Rightarrow> Inl err
                         | Inr (cp, p3) \<Rightarrow> string_loop p3 (utf8_append out cp))
                      else Inl ''unknown escape''))
          else if ucode c < 0x20 then Inl ''control character in string''
          else string_loop p1 (strbuf_append_char out c))"
  by pat_completeness auto
termination
  by (relation "measure (\<lambda>(p, out). length p)") (auto dest: parse_unicode_shorter)

declare string_loop.simps [simp del]

definition parse_string_raw :: "sv \<Rightarrow> strbuf \<Rightarrow> json_error + (strbuf \<times> sv)" where
  "parse_string_raw p out =
     (case p of
        c # p1 \<Rightarrow> if c \<noteq> CHR 0x22 then Inl ''expected a string'' else string_loop p1 out
      | [] \<Rightarrow> Inl ''expected a string'')"

text \<open>The owned C string of a buffer that was closed with a NUL byte.\<close>

definition node_string :: "strbuf \<Rightarrow> sv" where
  "node_string buf = c_str (strbuf_view (strbuf_append_char buf NUL))"

definition parse_string :: "sv \<Rightarrow> json_error + ('d json_value \<times> sv)" where
  "parse_string p =
     (case parse_string_raw p strbuf_init of
        Inl e \<Rightarrow> Inl e
      | Inr (buf, p1) \<Rightarrow> Inr (JString (node_string buf), p1))"

subsection \<open>Numbers\<close>

text \<open>A nonempty run of digits: what follows it, or \<^const>\<open>None\<close>.\<close>

definition digit_run :: "sv \<Rightarrow> sv option" where
  "digit_run p = (if p = [] \<or> \<not> isdigit (hd p) then None else Some (dropWhile isdigit p))"

text \<open>The end of the number that starts at the given place.\<close>

definition number_fraction :: "sv \<Rightarrow> json_error + sv" where
  "number_fraction p =
     (if p \<noteq> [] \<and> hd p = CHR ''.''
      then case digit_run (tl p) of None \<Rightarrow> Inl ''malformed number'' | Some p1 \<Rightarrow> Inr p1
      else Inr p)"

definition number_exponent :: "sv \<Rightarrow> json_error + sv" where
  "number_exponent p =
     (if p \<noteq> [] \<and> (hd p = CHR ''e'' \<or> hd p = CHR ''E'')
      then let p1 = tl p; p2 = (if p1 \<noteq> [] \<and> (hd p1 = CHR ''+'' \<or> hd p1 = CHR ''-'') then tl p1 else p1)
           in case digit_run p2 of None \<Rightarrow> Inl ''malformed exponent'' | Some p3 \<Rightarrow> Inr p3
      else Inr p)"

definition number_end :: "sv \<Rightarrow> json_error + sv" where
  "number_end p =
     (case digit_run (if p \<noteq> [] \<and> hd p = CHR ''-'' then tl p else p) of
        None \<Rightarrow> Inl ''malformed number''
      | Some p1 \<Rightarrow>
          (case number_fraction p1 of
             Inl e \<Rightarrow> Inl e
           | Inr p2 \<Rightarrow> number_exponent p2))"

definition parse_number :: "(sv \<Rightarrow> 'd) \<Rightarrow> sv \<Rightarrow> json_error + ('d json_value \<times> sv)" where
  "parse_number strtod p =
     (case number_end p of
        Inl e \<Rightarrow> Inl e
      | Inr p1 \<Rightarrow>
          let len = length p - length p1
          in if len \<ge> 64 then Inl ''number too long'' else Inr (JNumber (strtod (take len p)), p1))"

subsection \<open>Containers\<close>

text \<open>The loops of \<open>parse_array\<close> and \<open>parse_object\<close>, over the parser of one element.\<close>

type_synonym 'd value_parser = "sv \<Rightarrow> (json_error + ('d json_value \<times> sv)) option"

partial_function (option) array_loop :: "'d value_parser \<Rightarrow> sv \<Rightarrow> 'd json_value list \<Rightarrow> (json_error + ('d json_value \<times> sv)) option" where
  "array_loop pv p arr =
     (case pv p of
        None \<Rightarrow> None
      | Some (Inl e) \<Rightarrow> Some (Inl e)
      | Some (Inr (item, p1)) \<Rightarrow>
          (case skip_ws p1 of
             [] \<Rightarrow> Some (Inl ''unterminated array'')
           | c # p2 \<Rightarrow>
               if c = CHR '','' then array_loop pv p2 (json_array_append arr item)
               else if c = CHR '']'' then Some (Inr (JArray (json_array_append arr item), p2))
               else Some (Inl ''expected , or ] in array'')))"

definition parse_array :: "'d value_parser \<Rightarrow> sv \<Rightarrow> (json_error + ('d json_value \<times> sv)) option" where
  "parse_array pv p =
     (let p1 = skip_ws (tl p)
      in if p1 \<noteq> [] \<and> hd p1 = CHR '']'' then Some (Inr (json_make_array, tl p1)) else array_loop pv p1 [])"

text \<open>One key up to and including its colon.\<close>

definition parse_key :: "sv \<Rightarrow> json_error + (sv \<times> sv)" where
  "parse_key p =
     (let p1 = skip_ws p
      in if p1 = [] \<or> hd p1 \<noteq> CHR 0x22 then Inl ''object keys must be strings''
         else case parse_string_raw p1 strbuf_init of
                Inl e \<Rightarrow> Inl e
              | Inr (key, p2) \<Rightarrow>
                  let p3 = skip_ws p2
                  in if p3 = [] \<or> hd p3 \<noteq> CHR '':'' then Inl ''expected : after object key''
                     else Inr (node_string key, tl p3))"

partial_function (option) object_loop :: "'d value_parser \<Rightarrow> sv \<Rightarrow> (sv \<times> 'd json_value) list \<Rightarrow> (json_error + ('d json_value \<times> sv)) option" where
  "object_loop pv p obj =
     (case parse_key p of
        Inl e \<Rightarrow> Some (Inl e)
      | Inr (key, p1) \<Rightarrow>
          (case pv p1 of
             None \<Rightarrow> None
           | Some (Inl e) \<Rightarrow> Some (Inl e)
           | Some (Inr (val, p2)) \<Rightarrow>
               (case skip_ws p2 of
                  [] \<Rightarrow> Some (Inl ''unterminated object'')
                | c # p3 \<Rightarrow>
                    if c = CHR '','' then object_loop pv p3 (json_object_set obj key val)
                    else if c = CHR ''}'' then Some (Inr (JObject (json_object_set obj key val), p3))
                    else Some (Inl ''expected , or } in object''))))"

definition parse_object :: "'d value_parser \<Rightarrow> sv \<Rightarrow> (json_error + ('d json_value \<times> sv)) option" where
  "parse_object pv p =
     (let p1 = skip_ws (tl p)
      in if p1 \<noteq> [] \<and> hd p1 = CHR ''}'' then Some (Inr (json_make_object, tl p1)) else object_loop pv p1 [])"

primrec parse_value :: "nat \<Rightarrow> (sv \<Rightarrow> 'd) \<Rightarrow> 'd value_parser" where
  "parse_value 0 strtod = (\<lambda>p. Some (Inl ''nesting too deep''))"
| "parse_value (Suc n) strtod =
     (\<lambda>p. case skip_ws p of
        [] \<Rightarrow> Some (Inl ''unexpected end of input'')
      | c # p1 \<Rightarrow>
          let q = c # p1
          in if c = CHR 0x7b then parse_object (parse_value n strtod) q
             else if c = CHR ''['' then parse_array (parse_value n strtod) q
             else if c = CHR 0x22 then Some (parse_string q)
             else if c = CHR ''n'' \<and> length q \<ge> 4 \<and> take 4 q = ''null'' then Some (Inr (json_make_null, drop 4 q))
             else if c = CHR ''t'' \<and> length q \<ge> 4 \<and> take 4 q = ''true'' then Some (Inr (json_make_bool True, drop 4 q))
             else if c = CHR ''f'' \<and> length q \<ge> 5 \<and> take 5 q = ''false'' then Some (Inr (json_make_bool False, drop 5 q))
             else if c = CHR ''-'' \<or> isdigit c then Some (parse_number strtod q)
             else Some (Inl ''expected a JSON value''))"

definition json_parse :: "(sv \<Rightarrow> 'd) \<Rightarrow> sv \<Rightarrow> (json_error + 'd json_value) option" where
  "json_parse strtod src =
     (case parse_value (JSON_MAX_DEPTH + 1) strtod (skip_ws src) of
        None \<Rightarrow> None
      | Some (Inl e) \<Rightarrow> Some (Inl e)
      | Some (Inr (root, p)) \<Rightarrow>
          if skip_ws p \<noteq> [] then Some (Inl ''trailing characters after value'') else Some (Inr root))"

subsection \<open>Serialization\<close>

definition xdigit :: "nat \<Rightarrow> char" where
  "xdigit n = ''0123456789abcdef'' ! n"

definition ser_char :: "char \<Rightarrow> char list" where
  "ser_char c =
     (if c = CHR 0x22 then [CHR 0x5c, CHR 0x22]
      else if c = CHR 0x5c then [CHR 0x5c, CHR 0x5c]
      else if c = CHR 0x08 then CHR 0x5c # ''b''
      else if c = CHR 0x0c then CHR 0x5c # ''f''
      else if c = CHR 0x0a then CHR 0x5c # ''n''
      else if c = CHR 0x0d then CHR 0x5c # ''r''
      else if c = CHR 0x09 then CHR 0x5c # ''t''
      else if ucode c < 0x20 then CHR 0x5c # ''u00'' @ [xdigit (ucode c div 16), xdigit (ucode c mod 16)]
      else [c])"

definition ser_string :: "strbuf \<Rightarrow> sv \<Rightarrow> strbuf" where
  "ser_string out s =
     strbuf_append_char
       (foldl (\<lambda>b c. strbuf_append b (ser_char c)) (strbuf_append_char out (CHR 0x22)) (c_str s)) (CHR 0x22)"

definition indent :: "strbuf \<Rightarrow> nat \<Rightarrow> nat \<Rightarrow> strbuf" where
  "indent out depth spaces =
     foldl (\<lambda>b i. strbuf_append_char b (CHR '' '')) (strbuf_append_char out (CHR 0x0a)) [0..<depth * spaces]"

fun ser :: "('d \<Rightarrow> sv) \<Rightarrow> 'd json_value \<Rightarrow> strbuf \<Rightarrow> nat \<Rightarrow> nat \<Rightarrow> strbuf"
  and ser_items :: "('d \<Rightarrow> sv) \<Rightarrow> 'd json_value list \<Rightarrow> bool \<Rightarrow> strbuf \<Rightarrow> nat \<Rightarrow> nat \<Rightarrow> strbuf"
  and ser_pairs :: "('d \<Rightarrow> sv) \<Rightarrow> (sv \<times> 'd json_value) list \<Rightarrow> bool \<Rightarrow> strbuf \<Rightarrow> nat \<Rightarrow> nat \<Rightarrow> strbuf" where
  "ser fmt JNull out depth spaces = strbuf_append_cstr out ''null''"
| "ser fmt (JBool b) out depth spaces = strbuf_append_cstr out (if b then ''true'' else ''false'')"
| "ser fmt (JNumber d) out depth spaces = strbuf_append_cstr out (take 63 (fmt d))"
| "ser fmt (JString s) out depth spaces = ser_string out s"
| "ser fmt (JArray vs) out depth spaces =
     (let out1 = ser_items fmt vs True (strbuf_append_char out (CHR ''['')) depth spaces;
          out2 = (if spaces > 0 \<and> length vs > 0 then indent out1 depth spaces else out1)
      in strbuf_append_char out2 (CHR '']''))"
| "ser fmt (JObject ps) out depth spaces =
     (let out1 = ser_pairs fmt ps True (strbuf_append_char out (CHR 0x7b)) depth spaces;
          out2 = (if spaces > 0 \<and> length ps > 0 then indent out1 depth spaces else out1)
      in strbuf_append_char out2 (CHR 0x7d))"
| "ser_items fmt [] first out depth spaces = out"
| "ser_items fmt (v # vs) first out depth spaces =
     (let out1 = (if first then out else strbuf_append_char out (CHR '',''));
          out2 = (if spaces > 0 then indent out1 (depth + 1) spaces else out1)
      in ser_items fmt vs False (ser fmt v out2 (depth + 1) spaces) depth spaces)"
| "ser_pairs fmt [] first out depth spaces = out"
| "ser_pairs fmt ((k, v) # ps) first out depth spaces =
     (let out1 = (if first then out else strbuf_append_char out (CHR '',''));
          out2 = (if spaces > 0 then indent out1 (depth + 1) spaces else out1);
          out3 = strbuf_append_cstr (ser_string out2 k) (if spaces > 0 then '': '' else '':'')
      in ser_pairs fmt ps False (ser fmt v out3 (depth + 1) spaces) depth spaces)"

definition json_serialize :: "('d \<Rightarrow> sv) \<Rightarrow> 'd json_value \<Rightarrow> strbuf \<Rightarrow> strbuf" where
  "json_serialize fmt v out = ser fmt v out 0 0"

definition json_serialize_pretty :: "('d \<Rightarrow> sv) \<Rightarrow> 'd json_value \<Rightarrow> strbuf \<Rightarrow> int \<Rightarrow> strbuf" where
  "json_serialize_pretty fmt v out spaces = ser fmt v out 0 (nat (if spaces < 1 then 1 else spaces))"

subsection \<open>The parser returns\<close>

text \<open>A parser of values that returns and, when it succeeds, has consumed something.\<close>

definition progress :: "sv \<Rightarrow> (json_error + ('d json_value \<times> sv)) option \<Rightarrow> bool" where
  "progress p x \<longleftrightarrow> (\<exists>r. x = Some r \<and> (\<forall>v p'. r = Inr (v, p') \<longrightarrow> length p' < length p))"

definition consumes :: "'d value_parser \<Rightarrow> bool" where
  "consumes pv \<longleftrightarrow> (\<forall>p. progress p (pv p))"

lemma progress_mono: "progress q x \<Longrightarrow> length q \<le> length p \<Longrightarrow> progress p x"
  unfolding progress_def using less_le_trans by fastforce

lemma progress_if: "(P \<Longrightarrow> progress p x) \<Longrightarrow> (\<not> P \<Longrightarrow> progress p y) \<Longrightarrow> progress p (if P then x else y)"
  by simp

lemma skip_ws_le: "length (skip_ws p) \<le> length p"
  by (simp add: skip_ws_def length_dropWhile_le)

lemma string_loop_Inr:
  assumes "string_loop p out = Inr (out', p')"
  shows "p = CHR 0x22 # p' \<and> out' = out \<or> (\<exists>q out1. length q < length p \<and> string_loop q out1 = Inr (out', p'))"
proof (cases p)
  case Nil
  then show ?thesis using assms by (simp add: string_loop.simps)
next
  case (Cons c p1)
  note e = assms [unfolded Cons string_loop.simps [of "c # p1"] list.case]
  show ?thesis
  proof (cases "c = CHR 0x22")
    case True
    then show ?thesis using e Cons by simp
  next
    case q: False
    show ?thesis
    proof (cases "c = CHR 0x5c")
      case True
      then show ?thesis using e q Cons
        by (simp split: list.splits option.splits if_splits sum.splits prod.splits)
           (meson less_Suc_eq less_trans lessI parse_unicode_shorter)+
    next
      case False
      then have "string_loop p1 (strbuf_append_char out c) = Inr (out', p')" using e q by (simp split: if_splits)
      then show ?thesis using Cons by (intro disjI2 exI [of _ p1]) auto
    qed
  qed
qed

lemma string_loop_shorter: "string_loop p out = Inr (out', p') \<Longrightarrow> length p' < length p"
proof (induction p arbitrary: out rule: length_induct)
  case (1 p)
  from string_loop_Inr [OF "1.prems"] show ?case using "1.IH" by (auto dest: less_trans)
qed

lemma parse_string_raw_shorter: "parse_string_raw p out = Inr (out', p') \<Longrightarrow> length p' < length p"
  by (auto simp: parse_string_raw_def split: list.splits if_splits dest: string_loop_shorter)

lemma parse_key_shorter: "parse_key p = Inr (k, p') \<Longrightarrow> length p' < length p"
proof -
  assume k: "parse_key p = Inr (k, p')"
  then obtain key p2 where r: "parse_string_raw (skip_ws p) strbuf_init = Inr (key, p2)" and p': "p' = tl (skip_ws p2)"
    by (auto simp: parse_key_def Let_def split: if_splits sum.splits)
  show ?thesis unfolding p' using parse_string_raw_shorter [OF r] skip_ws_le [of p] skip_ws_le [of p2] by simp
qed

lemma digit_run_shorter: "digit_run p = Some p' \<Longrightarrow> length p' < length p"
  by (cases p) (auto simp: digit_run_def le_imp_less_Suc length_dropWhile_le split: if_splits)

lemma number_end_shorter: "number_end p = Inr p' \<Longrightarrow> length p' < length p"
proof -
  assume e: "number_end p = Inr p'"
  then obtain p1 p2 where p1: "digit_run (if p \<noteq> [] \<and> hd p = CHR ''-'' then tl p else p) = Some p1"
      and p2: "number_fraction p1 = Inr p2" and p3: "number_exponent p2 = Inr p'"
    by (auto simp: number_end_def split: option.splits sum.splits)
  have "length p1 < length p" using digit_run_shorter [OF p1] by (auto split: if_splits)
  moreover have "length p2 \<le> length p1" using p2 digit_run_shorter [of "tl p1" p2]
    by (auto simp: number_fraction_def split: if_splits option.splits)
  moreover have "length p' \<le> length p2" using p3 digit_run_shorter [of _ p']
    by (fastforce simp: number_exponent_def Let_def split: if_splits option.splits)
  ultimately show ?thesis by simp
qed

lemma array_loop_returns:
  assumes "consumes pv"
  shows "progress p (array_loop pv p arr)"
proof (induction p arbitrary: arr rule: length_induct)
  case (1 p)
  from assms obtain r where r: "pv p = Some r" "\<And>v p'. r = Inr (v, p') \<Longrightarrow> length p' < length p"
    unfolding consumes_def progress_def by blast
  show ?case
  proof (cases r)
    case (Inl e)
    then show ?thesis using r(1) by (simp add: progress_def array_loop.simps [of pv p])
  next
    case (Inr x)
    obtain v p1 where x: "x = (v, p1)" by fastforce
    have l: "length (skip_ws p1) < length p" using r(2) Inr x skip_ws_le [of p1] by force
    show ?thesis
    proof (cases "skip_ws p1")
      case Nil
      then show ?thesis using r(1) Inr x by (simp add: progress_def array_loop.simps [of pv p])
    next
      case (Cons c p2)
      have "length p2 < length p" using l Cons by simp
      then show ?thesis using "1.IH" [rule_format, of p2 "json_array_append arr v"] r(1) Inr x Cons
        by (auto simp: progress_def array_loop.simps [of pv p] dest: less_trans)
    qed
  qed
qed

lemma object_loop_returns:
  assumes "consumes pv"
  shows "progress p (object_loop pv p obj)"
proof (induction p arbitrary: obj rule: length_induct)
  case (1 p)
  show ?case
  proof (cases "parse_key p")
    case (Inl e)
    then show ?thesis by (simp add: progress_def object_loop.simps [of pv p])
  next
    case (Inr x)
    then obtain k p0 where k: "parse_key p = Inr (k, p0)" by (cases x) simp
    from assms obtain r where r: "pv p0 = Some r" "\<And>v p'. r = Inr (v, p') \<Longrightarrow> length p' < length p0"
      unfolding consumes_def progress_def by blast
    show ?thesis
    proof (cases r)
      case (Inl e)
      then show ?thesis using r(1) k by (simp add: progress_def object_loop.simps [of pv p])
    next
      case (Inr y)
      obtain v p1 where y: "y = (v, p1)" by fastforce
      have l: "length (skip_ws p1) < length p" using r(2) Inr y skip_ws_le [of p1] parse_key_shorter [OF k] by force
      show ?thesis
      proof (cases "skip_ws p1")
        case Nil
        then show ?thesis using r(1) Inr y k by (simp add: progress_def object_loop.simps [of pv p])
      next
        case (Cons c p2)
        have "length p2 < length p" using l Cons by simp
        then show ?thesis using "1.IH" [rule_format, of p2 "json_object_set obj k v"] r(1) Inr y k Cons
          by (auto simp: progress_def object_loop.simps [of pv p] dest: less_trans)
      qed
    qed
  qed
qed

lemma skip_ws_tl: "length (tl (skip_ws p)) \<le> length p - 1"
  using skip_ws_le [of p] by simp

lemma parse_array_returns:
  assumes "consumes pv" and "p \<noteq> []"
  shows "progress p (parse_array pv p)"
proof -
  have l: "length (skip_ws (tl p)) < length p" "length (tl (skip_ws (tl p))) < length p"
    using skip_ws_le [of "tl p"] assms(2) by (cases p; simp)+
  then show ?thesis using array_loop_returns [OF assms(1), of "skip_ws (tl p)" "[]"]
    by (auto simp: parse_array_def Let_def progress_def dest: less_trans)
qed

lemma parse_object_returns:
  assumes "consumes pv" and "p \<noteq> []"
  shows "progress p (parse_object pv p)"
proof -
  have l: "length (skip_ws (tl p)) < length p" "length (tl (skip_ws (tl p))) < length p"
    using skip_ws_le [of "tl p"] assms(2) by (cases p; simp)+
  then show ?thesis using object_loop_returns [OF assms(1), of "skip_ws (tl p)" "[]"]
    by (auto simp: parse_object_def Let_def progress_def dest: less_trans)
qed

lemma parse_string_shorter: "parse_string p = Inr (v, p') \<Longrightarrow> length p' < length p"
  by (auto simp: parse_string_def split: sum.splits dest: parse_string_raw_shorter)

lemma parse_number_shorter: "parse_number strtod p = Inr (v, p') \<Longrightarrow> length p' < length p"
  by (auto simp: parse_number_def Let_def split: sum.splits if_splits dest: number_end_shorter)

lemma parse_value_consumes: "consumes (parse_value n strtod)"
proof (induction n)
  case 0
  then show ?case by (simp add: consumes_def progress_def)
next
  case (Suc n)
  have "progress p (parse_value (Suc n) strtod p)" for p
  proof (cases "skip_ws p")
    case (Cons c p1)
    let ?q = "c # p1"
    have l: "length ?q \<le> length p" using skip_ws_le [of p] Cons by simp
    have p: "progress ?q (parse_object (parse_value n strtod) ?q)" "progress ?q (parse_array (parse_value n strtod) ?q)"
        "progress ?q (Some (parse_string ?q))" "progress ?q (Some (parse_number strtod ?q))"
        "progress ?q (Some (Inl e))" "progress ?q (Some (Inr (v, drop 4 ?q)))" "progress ?q (Some (Inr (v, drop 5 ?q)))" for e v
      using parse_object_returns [OF Suc.IH, of ?q] parse_array_returns [OF Suc.IH, of ?q]
      by (auto simp: progress_def dest: parse_string_shorter parse_number_shorter)
    have "progress ?q (parse_value (Suc n) strtod p)"
      unfolding parse_value.simps Cons list.case Let_def
      by (intro progress_if) (rule p)+
    then show ?thesis using l by (rule progress_mono)
  qed (simp add: progress_def)
  then show ?case by (simp add: consumes_def)
qed

text \<open>
  C26: the parser returns on every input, whatever \<open>strtod\<close> does: a tree or a reason.
\<close>

theorem json_parse_total: "\<exists>r. json_parse strtod src = Some r"
proof -
  obtain r where "parse_value (JSON_MAX_DEPTH + 1) strtod (skip_ws src) = Some r"
    using parse_value_consumes unfolding consumes_def progress_def by blast
  then show ?thesis by (cases r) (auto simp: json_parse_def)
qed

subsection \<open>What the serializer writes\<close>

definition str_text :: "sv \<Rightarrow> sv" where
  "str_text s = CHR 0x22 # concat (map ser_char (c_str s)) @ [CHR 0x22]"

definition indent_text :: "nat \<Rightarrow> nat \<Rightarrow> sv" where
  "indent_text depth spaces = (if spaces > 0 then CHR 0x0a # replicate (depth * spaces) (CHR '' '') else [])"

definition gap_text :: "nat \<Rightarrow> sv" where
  "gap_text spaces = (if spaces > 0 then '' '' else [])"

fun json_text :: "('d \<Rightarrow> sv) \<Rightarrow> nat \<Rightarrow> nat \<Rightarrow> 'd json_value \<Rightarrow> sv"
  and items_text :: "('d \<Rightarrow> sv) \<Rightarrow> nat \<Rightarrow> nat \<Rightarrow> 'd json_value list \<Rightarrow> sv"
  and pairs_text :: "('d \<Rightarrow> sv) \<Rightarrow> nat \<Rightarrow> nat \<Rightarrow> (sv \<times> 'd json_value) list \<Rightarrow> sv" where
  "json_text fmt sp d JNull = ''null''"
| "json_text fmt sp d (JBool b) = (if b then ''true'' else ''false'')"
| "json_text fmt sp d (JNumber x) = c_str (take 63 (fmt x))"
| "json_text fmt sp d (JString s) = str_text s"
| "json_text fmt sp d (JArray vs) =
     CHR ''['' # (if vs = [] then [] else tl (items_text fmt sp d vs) @ indent_text d sp) @ '']''"
| "json_text fmt sp d (JObject ps) =
     CHR 0x7b # (if ps = [] then [] else tl (pairs_text fmt sp d ps) @ indent_text d sp) @ [CHR 0x7d]"
| "items_text fmt sp d [] = []"
| "items_text fmt sp d (v # vs) = CHR '','' # indent_text (d + 1) sp @ json_text fmt sp (d + 1) v @ items_text fmt sp d vs"
| "pairs_text fmt sp d [] = []"
| "pairs_text fmt sp d ((k, v) # ps) =
     CHR '','' # indent_text (d + 1) sp @ str_text k @ CHR '':'' # gap_text sp
       @ json_text fmt sp (d + 1) v @ pairs_text fmt sp d ps"

lemma writes_ser_string: "sb.writes (\<lambda>b. ser_string b s) (str_text s)"
proof -
  have "sb.writes (\<lambda>b. foldl (\<lambda>b c. strbuf_append b (ser_char c)) b (c_str s)) (concat (map ser_char (c_str s)))"
    by (rule sb.writes_loop) (rule sb.writes_put)
  from sb.writes_seq [OF sb.writes_seq [OF writes_append_char this] writes_append_char]
  show ?thesis by (simp add: ser_string_def str_text_def)
qed

lemma writes_indent: "spaces > 0 \<Longrightarrow> sb.writes (\<lambda>b. indent b depth spaces) (indent_text depth spaces)"
proof -
  assume s: "spaces > 0"
  have "sb.writes (\<lambda>b. foldl (\<lambda>b i. strbuf_append_char b (CHR '' '')) b [0..<depth * spaces])
      (concat (map (\<lambda>i. '' '') [0..<depth * spaces]))"
    by (rule sb.writes_loop) (rule writes_append_char)
  moreover have "concat (map (\<lambda>i. '' '') [0..<n]) = replicate n (CHR '' '')" for n
    by (induction n) (simp_all add: replicate_append_same)
  ultimately show ?thesis using s sb.writes_seq [OF writes_append_char] by (fastforce simp: indent_def indent_text_def)
qed

lemma writes_maybe_indent: "sb.writes (\<lambda>b. if spaces > 0 then indent b depth spaces else b) (indent_text depth spaces)"
  using writes_indent sb.writes_skip by (cases "spaces > 0") (simp_all add: indent_text_def)

lemma c_str_literals: "c_str ''null'' = ''null''" "c_str ''true'' = ''true''" "c_str ''false'' = ''false''" "c_str '':'' = '':''"
    "c_str '': '' = '': ''"
  by code_simp+

lemma writes_comma: "sb.writes (\<lambda>b. if first then b else strbuf_append_char b (CHR '','')) (if first then [] else '','')"
  using sb.writes_skip writes_append_char by (cases first) simp_all

lemma ser_writes:
  "sb.writes (\<lambda>b. ser fmt v b d sp) (json_text fmt sp d v)"
  "sb.writes (\<lambda>b. ser_items fmt vs first b d sp)
     (if first then tl (items_text fmt sp d vs) else items_text fmt sp d vs)"
  "sb.writes (\<lambda>b. ser_pairs fmt ps first b d sp)
     (if first then tl (pairs_text fmt sp d ps) else pairs_text fmt sp d ps)"
proof (induction fmt sp d v and fmt sp d vs and fmt sp d ps arbitrary: and first and first rule: json_text_items_text_pairs_text.induct)
  case (5 fmt sp d vs)
  note w = sb.writes_seq [OF writes_append_char 5 [of True]]
  show ?case
  proof (cases "vs = []")
    case True
    then show ?thesis using sb.writes_seq [OF writes_append_char writes_append_char] by simp
  next
    case False
    then show ?thesis using sb.writes_seq [OF sb.writes_seq [OF w writes_maybe_indent] writes_append_char]
      by (simp add: Let_def)
  qed
next
  case (6 fmt sp d ps)
  note w = sb.writes_seq [OF writes_append_char 6 [of True]]
  show ?case
  proof (cases "ps = []")
    case True
    then show ?thesis using sb.writes_seq [OF writes_append_char writes_append_char] by simp
  next
    case False
    then show ?thesis using sb.writes_seq [OF sb.writes_seq [OF w writes_maybe_indent] writes_append_char]
      by (simp add: Let_def)
  qed
next
  case (8 fmt sp d v vs)
  from sb.writes_seq [OF sb.writes_seq [OF sb.writes_seq [OF writes_comma [of first] writes_maybe_indent [of sp "d + 1"]] "8.IH"(1)] "8.IH"(2) [of False]]
  show ?case by (cases first; cases "sp > 0") (simp_all add: Let_def)
next
  case (10 fmt sp d k v ps)
  note c = sb.writes_seq [OF writes_ser_string writes_append_cstr, of k "if sp > 0 then '': '' else '':''"]
  from sb.writes_seq [OF sb.writes_seq [OF sb.writes_seq [OF sb.writes_seq [OF writes_comma [of first] writes_maybe_indent [of sp "d + 1"]] c] "10.IH"(1)] "10.IH"(2) [of False]]
  show ?case by (cases first; cases "sp > 0") (simp_all add: Let_def c_str_literals gap_text_def)
qed (use writes_append_cstr [of "''null''"] writes_append_cstr [of "''true''"] writes_append_cstr [of "''false''"]
       writes_append_cstr writes_ser_string sb.writes_skip in \<open>simp_all add: c_str_literals\<close>)

subsection \<open>The parser inverts the serializer\<close>

lemma hex_val_xdigit: "a < 16 \<Longrightarrow> hex_val (xdigit a) = int a"
proof -
  have "list_all (\<lambda>a. hex_val (xdigit a) = int a) [0..<16]" by code_simp
  then show "a < 16 \<Longrightarrow> hex_val (xdigit a) = int a" by (simp add: list_all_iff)
qed

lemma parse_unicode_control:
  assumes "ucode c < 0x20"
  shows "parse_unicode (''00'' @ [xdigit (ucode c div 16), xdigit (ucode c mod 16)] @ p) = Inr (ucode c, p)"
proof -
  have z: "hex_val (CHR ''0'') = 0" by code_simp
  have "push_bit 4 (ucode c div 16) OR ucode c mod 16 = ucode c"
    using push_bit_or_eq_add [of "ucode c mod 16" 4 "ucode c div 16"] by simp
  then have "parse_hex4 (''00'' @ [xdigit (ucode c div 16), xdigit (ucode c mod 16)] @ p) = Inr (ucode c, p)"
    using assms by (simp add: parse_hex4_def z hex_val_xdigit)
  then show ?thesis using assms by (simp add: parse_unicode_def)
qed

lemma string_loop_steps:
  "string_loop (CHR 0x22 # p) out = Inr (out, p)"
  "simple_escape e = Some ch \<Longrightarrow> string_loop (CHR 0x5c # e # p) out = string_loop p (strbuf_append_char out ch)"
  "parse_unicode p = Inr (cp, p') \<Longrightarrow> string_loop (CHR 0x5c # CHR ''u'' # p) out = string_loop p' (utf8_append out cp)"
  "c \<noteq> CHR 0x22 \<Longrightarrow> c \<noteq> CHR 0x5c \<Longrightarrow> \<not> ucode c < 0x20 \<Longrightarrow> string_loop (c # p) out = string_loop p (strbuf_append_char out c)"
  by (subst string_loop.simps, simp add: simple_escape_def)+

lemma string_loop_ser_char: "string_loop (ser_char c @ p) out = string_loop p (strbuf_append_char out c)"
proof (cases "c \<in> {CHR 0x22, CHR 0x5c, CHR 0x08, CHR 0x0c, CHR 0x0a, CHR 0x0d, CHR 0x09}")
  case True
  then show ?thesis by (elim insertE emptyE) (simp_all add: ser_char_def simple_escape_def string_loop_steps(2))
next
  case plain: False
  show ?thesis
  proof (cases "ucode c < 0x20")
    case True
    then have "string_loop (ser_char c @ p) out = string_loop p (utf8_append out (ucode c))"
      using plain string_loop_steps(3) [OF parse_unicode_control [OF True]] by (simp add: ser_char_def)
    then show ?thesis using True by (simp add: utf8_append_def)
  next
    case False
    then show ?thesis using plain by (simp add: ser_char_def string_loop_steps(4))
  qed
qed

lemma string_loop_text:
  "strbuf_inv out \<Longrightarrow> \<exists>out'. string_loop (concat (map ser_char s) @ CHR 0x22 # p) out = Inr (out', p)
     \<and> strbuf_inv out' \<and> strbuf_view out' = strbuf_view out @ s"
proof (induction s arbitrary: out)
  case (Cons c s)
  from Cons.IH [of "strbuf_append_char out c"] Cons.prems show ?case
    by (auto simp: string_loop_ser_char view_simps inv_intros)
qed (simp add: string_loop_steps)

lemma parse_string_raw_text:
  assumes "NUL \<notin> set s"
  shows "\<exists>buf. parse_string_raw (str_text s @ p) strbuf_init = Inr (buf, p) \<and> node_string buf = s"
proof -
  obtain buf where "string_loop (concat (map ser_char s) @ CHR 0x22 # p) strbuf_init = Inr (buf, p)"
      "strbuf_inv buf" "strbuf_view buf = s"
    using string_loop_text [OF strbuf_inv_init] by fastforce
  then show ?thesis using assms
    by (auto simp: parse_string_raw_def str_text_def node_string_def view_simps inv_intros c_str_id c_str_append_NUL)
qed

text \<open>What may follow a number.\<close>

definition num_stop :: "sv \<Rightarrow> bool" where
  "num_stop rest \<longleftrightarrow> rest = [] \<or> \<not> (isdigit (hd rest) \<or> hd rest \<in> {CHR ''.'', CHR ''e'', CHR ''E''})"

lemma digit_run_append: "num_stop rest \<Longrightarrow> digit_run t = Some t' \<Longrightarrow> digit_run (t @ rest) = Some (t' @ rest)"
proof -
  assume s: "num_stop rest" and d: "digit_run t = Some t'"
  have "dropWhile isdigit rest = rest" using s by (cases rest) (auto simp: num_stop_def)
  then have "dropWhile isdigit (t @ rest) = dropWhile isdigit t @ rest"
    by (cases "\<forall>x\<in>set t. isdigit x") (auto simp: dropWhile_append1 dropWhile_append2)
  then show ?thesis using d by (auto simp: digit_run_def split: if_splits)
qed

lemma number_end_append:
  assumes "num_stop rest" and "number_end t = Inr t'"
  shows "number_end (t @ rest) = Inr (t' @ rest)"
proof -
  obtain p1 p2 where p1: "digit_run (if t \<noteq> [] \<and> hd t = CHR ''-'' then tl t else t) = Some p1"
      and p2: "number_fraction p1 = Inr p2" and p3: "number_exponent p2 = Inr t'"
    using assms(2) by (auto simp: number_end_def split: option.splits sum.splits)
  have "t \<noteq> []" using p1 by (auto simp: digit_run_def)
  then have "digit_run (if t @ rest \<noteq> [] \<and> hd (t @ rest) = CHR ''-'' then tl (t @ rest) else t @ rest) = Some (p1 @ rest)"
    using digit_run_append [OF assms(1) p1] by (simp split: if_splits)
  moreover have "number_fraction (p1 @ rest) = Inr (p2 @ rest)"
    using p2 assms(1) digit_run_append [OF assms(1), of "tl p1" p2]
    by (cases p1) (auto simp: number_fraction_def num_stop_def split: if_splits option.splits)
  moreover have "number_exponent (p2 @ rest) = Inr (t' @ rest)"
  proof (cases "p2 \<noteq> [] \<and> (hd p2 = CHR ''e'' \<or> hd p2 = CHR ''E'')")
    case True
    let ?q = "\<lambda>q. if q \<noteq> [] \<and> (hd q = CHR ''+'' \<or> hd q = CHR ''-'') then tl q else q"
    have d: "digit_run (?q (tl p2)) = Some t'" using p3 True by (auto simp: number_exponent_def Let_def split: option.splits if_splits)
    then have "tl p2 \<noteq> []" by (auto simp: digit_run_def)
    then have "?q (tl p2 @ rest) = ?q (tl p2) @ rest" by simp
    then show ?thesis using True digit_run_append [OF assms(1) d] by (simp add: number_exponent_def Let_def)
  next
    case False
    then show ?thesis using p3 assms(1) by (cases p2) (auto simp: number_exponent_def num_stop_def)
  qed
  ultimately show ?thesis by (simp add: number_end_def)
qed

text \<open>
  Values that survive the trip: strings and keys are C strings, keys do not repeat, and the rendering of
  a number is a JSON number that \<open>strtod\<close> reads back. \<open>fits P n\<close> bounds the nesting by \<open>n\<close> levels and
  asks \<open>P\<close> of the numbers.
\<close>

definition num_ok :: "(sv \<Rightarrow> 'd) \<Rightarrow> ('d \<Rightarrow> sv) \<Rightarrow> 'd \<Rightarrow> bool" where
  "num_ok strtod fmt x \<longleftrightarrow> number_end (fmt x) = Inr [] \<and> NUL \<notin> set (fmt x) \<and> length (fmt x) < 64 \<and> strtod (fmt x) = x"

primrec fits :: "('d \<Rightarrow> bool) \<Rightarrow> nat \<Rightarrow> 'd json_value \<Rightarrow> bool" where
  "fits P 0 v = False"
| "fits P (Suc n) v =
     (case v of
        JNumber x \<Rightarrow> P x
      | JString s \<Rightarrow> NUL \<notin> set s
      | JArray vs \<Rightarrow> list_all (fits P n) vs
      | JObject ps \<Rightarrow> list_all (\<lambda>p. NUL \<notin> set (fst p) \<and> fits P n (snd p)) ps \<and> distinct (map fst ps)
      | _ \<Rightarrow> True)"

lemma skip_ws_blank: "list_all json_ws w \<Longrightarrow> skip_ws (w @ p) = skip_ws p"
  by (induction w) (simp_all add: skip_ws_def)

lemma skip_ws_stop: "\<not> json_ws c \<Longrightarrow> skip_ws (c # p) = c # p"
  by (simp add: skip_ws_def)

lemma parse_value_blank: "list_all json_ws w \<Longrightarrow> parse_value n strtod (w @ p) = parse_value n strtod p"
  by (cases n) (simp_all add: skip_ws_blank)

lemma indent_blank: "list_all json_ws (indent_text d sp)"
  by (auto simp: indent_text_def json_ws_def list_all_iff)

lemma number_start: "number_end t = Inr t' \<Longrightarrow> \<exists>c u. t = c # u \<and> (c = CHR ''-'' \<or> isdigit c)"
  by (cases t) (auto simp: number_end_def digit_run_def split: option.splits if_splits)

lemma num_ok_start:
  assumes "num_ok strtod fmt x"
  obtains c u where "fmt x = c # u" "c = CHR ''-'' \<or> isdigit c"
proof -
  have "number_end (fmt x) = Inr []" using assms by (simp add: num_ok_def)
  from number_start [OF this] show ?thesis using that by blast
qed

lemma digit_not_special:
  "c = CHR ''-'' \<or> isdigit c \<Longrightarrow> c \<notin> {CHR '' '', CHR 0x09, CHR 0x0a, CHR 0x0d, CHR '']'', CHR ''['', CHR 0x7b, CHR 0x7d, CHR 0x22, CHR ''n'', CHR ''t'', CHR ''f''}"
  by (elim disjE) (simp, auto simp: isdigit_def)

lemma number_text: "num_ok strtod fmt x \<Longrightarrow> c_str (take 63 (fmt x)) = fmt x"
  by (simp add: num_ok_def c_str_id)

text \<open>The first character of a value: never blank, never a closing bracket.\<close>

lemma text_start:
  assumes "fits (num_ok strtod fmt) n v"
  obtains c t where "json_text fmt sp d v = c # t" "\<not> json_ws c" "c \<noteq> CHR '']''"
proof (cases v)
  case (JNumber x)
  then have k: "num_ok strtod fmt x" using assms by (cases n) simp_all
  then obtain c u where c: "fmt x = c # u" "c = CHR ''-'' \<or> isdigit c" by (rule num_ok_start)
  then have "\<not> json_ws c" "c \<noteq> CHR '']''" using digit_not_special [OF c(2)] by (simp_all add: json_ws_def)
  with that c JNumber number_text [OF k] show ?thesis by simp
next
  case (JBool b)
  with that show ?thesis by (cases b) (simp_all add: json_ws_def)
qed (use that in \<open>simp_all add: json_ws_def str_text_def\<close>)

lemma parse_value_number:
  assumes "num_ok strtod fmt x" and "num_stop rest"
  shows "parse_value (Suc n) strtod (fmt x @ rest) = Some (Inr (JNumber x, rest))"
proof -
  obtain c u where c: "fmt x = c # u" "c = CHR ''-'' \<or> isdigit c" using assms(1) by (rule num_ok_start)
  then have k: "c \<notin> {CHR '' '', CHR 0x09, CHR 0x0a, CHR 0x0d, CHR '']'', CHR ''['', CHR 0x7b, CHR 0x7d, CHR 0x22, CHR ''n'', CHR ''t'', CHR ''f''}"
    by (intro digit_not_special)
  have "number_end (fmt x @ rest) = Inr rest" using number_end_append [OF assms(2)] assms(1) by (auto simp: num_ok_def)
  then have "parse_number strtod (fmt x @ rest) = Inr (JNumber x, rest)"
    using assms(1) by (simp add: parse_number_def num_ok_def)
  then show ?thesis using k c(2) unfolding c(1) by (simp add: skip_ws_stop json_ws_def)
qed

lemma parse_value_string:
  assumes "NUL \<notin> set s"
  shows "parse_value (Suc n) strtod (str_text s @ rest) = Some (Inr (JString s, rest))"
proof -
  obtain q where q: "str_text s @ rest = CHR 0x22 # q" by (simp add: str_text_def)
  have "parse_string (str_text s @ rest) = Inr (JString s, rest)"
    using parse_string_raw_text [OF assms, of rest] by (auto simp: parse_string_def)
  then show ?thesis unfolding q by (simp add: skip_ws_stop json_ws_def)
qed

lemma parse_key_text:
  assumes "NUL \<notin> set k" and "list_all json_ws w"
  shows "parse_key (w @ str_text k @ CHR '':'' # p) = Inr (k, p)"
proof -
  obtain q where q: "str_text k @ CHR '':'' # p = CHR 0x22 # q" by (simp add: str_text_def)
  show ?thesis using parse_string_raw_text [OF assms(1), of "CHR '':'' # p"] assms(2) unfolding q
    by (auto simp: parse_key_def skip_ws_blank skip_ws_stop json_ws_def Let_def)
qed

lemma num_stop_closing: "num_stop (CHR '','' # p)" "num_stop (CHR '']'' # p)" "num_stop (CHR 0x7d # p)" "num_stop (CHR 0x0a # p)"
  by (simp_all add: num_stop_def isdigit_def)

lemma closing_stops:
  "num_stop (items_text fmt sp d vs @ indent_text d sp @ CHR '']'' # p)"
  "num_stop (pairs_text fmt sp d ps @ indent_text d sp @ CHR 0x7d # p)"
proof -
  show "num_stop (items_text fmt sp d vs @ indent_text d sp @ CHR '']'' # p)"
    by (cases vs) (simp_all add: indent_text_def num_stop_closing)
  show "num_stop (pairs_text fmt sp d ps @ indent_text d sp @ CHR 0x7d # p)"
  proof (cases ps)
    case (Cons a b)
    then show ?thesis by (cases a) (simp add: num_stop_closing)
  qed (simp add: indent_text_def num_stop_closing)
qed

lemma json_text_closed: "\<not> json_ws (CHR '','')" "\<not> json_ws (CHR '']'')" "\<not> json_ws (CHR 0x7d)"
  by (simp_all add: json_ws_def)

definition reads :: "(sv \<Rightarrow> 'd) \<Rightarrow> ('d \<Rightarrow> sv) \<Rightarrow> nat \<Rightarrow> nat \<Rightarrow> 'd json_value \<Rightarrow> bool" where
  "reads strtod fmt sp n v \<longleftrightarrow>
     (\<forall>d rest. num_stop rest \<longrightarrow> parse_value n strtod (json_text fmt sp d v @ rest) = Some (Inr (v, rest)))"

lemma readsD: "reads strtod fmt sp n v \<Longrightarrow> num_stop rest \<Longrightarrow> list_all json_ws w \<Longrightarrow>
    parse_value n strtod (w @ json_text fmt sp d v @ rest) = Some (Inr (v, rest))"
  by (simp add: reads_def parse_value_blank)

lemma array_loop_text:
  "list_all (reads strtod fmt sp n) (v # vs) \<Longrightarrow> list_all json_ws w \<Longrightarrow>
   array_loop (parse_value n strtod) (w @ json_text fmt sp (d + 1) v @ items_text fmt sp d vs @ indent_text d sp @ CHR '']'' # rest) arr
     = Some (Inr (JArray (arr @ v # vs), rest))"
proof (induction vs arbitrary: v arr w)
  case Nil
  have "parse_value n strtod (w @ json_text fmt sp (d + 1) v @ indent_text d sp @ CHR '']'' # rest)
      = Some (Inr (v, indent_text d sp @ CHR '']'' # rest))"
    using readsD [of strtod fmt sp n v] Nil closing_stops(1) [of fmt sp d "[]"] by simp
  moreover have "skip_ws (indent_text d sp @ CHR '']'' # rest) = CHR '']'' # rest"
    using skip_ws_blank [OF indent_blank] skip_ws_stop [OF json_text_closed(2)] by simp
  ultimately show ?case by (simp add: array_loop.simps [of "parse_value n strtod"] json_array_append_def)
next
  case (Cons v' vs)
  let ?r = "indent_text (d + 1) sp @ json_text fmt sp (d + 1) v' @ items_text fmt sp d vs @ indent_text d sp @ CHR '']'' # rest"
  have "parse_value n strtod (w @ json_text fmt sp (d + 1) v @ CHR '','' # ?r) = Some (Inr (v, CHR '','' # ?r))"
    using readsD [of strtod fmt sp n v] Cons.prems num_stop_closing(1) by simp
  moreover have "array_loop (parse_value n strtod) ?r (arr @ [v]) = Some (Inr (JArray ((arr @ [v]) @ v' # vs), rest))"
    by (rule Cons.IH) (use Cons.prems indent_blank in simp_all)
  ultimately show ?case
    by (simp add: array_loop.simps [of "parse_value n strtod" "w @ _"] skip_ws_stop [OF json_text_closed(1)] json_array_append_def)
qed

lemma json_object_set_new: "k \<notin> fst ` set obj \<Longrightarrow> NUL \<notin> set k \<Longrightarrow> json_object_set obj k v = obj @ [(k, v)]"
  by (induction obj) (auto simp: c_str_id)

lemma object_loop_text:
  "list_all (\<lambda>p. NUL \<notin> set (fst p) \<and> reads strtod fmt sp n (snd p)) ((k, v) # ps) \<Longrightarrow> list_all json_ws w \<Longrightarrow>
   distinct (map fst (obj @ (k, v) # ps)) \<Longrightarrow>
   object_loop (parse_value n strtod) (w @ str_text k @ CHR '':'' # gap_text sp
       @ json_text fmt sp (d + 1) v @ pairs_text fmt sp d ps @ indent_text d sp @ CHR 0x7d # rest) obj
     = Some (Inr (JObject (obj @ (k, v) # ps), rest))"
proof (induction ps arbitrary: k v obj w)
  case Nil
  let ?w = "gap_text sp"
  have w: "list_all json_ws ?w" by (simp add: json_ws_def gap_text_def)
  have "parse_value n strtod (?w @ json_text fmt sp (d + 1) v @ indent_text d sp @ CHR 0x7d # rest)
      = Some (Inr (v, indent_text d sp @ CHR 0x7d # rest))"
    using readsD [of strtod fmt sp n v] Nil closing_stops(2) [of fmt sp d "[]"] w by simp
  moreover have "skip_ws (indent_text d sp @ CHR 0x7d # rest) = CHR 0x7d # rest"
    using skip_ws_blank [OF indent_blank] skip_ws_stop [OF json_text_closed(3)] by simp
  ultimately show ?case using Nil
    by (simp add: object_loop.simps [of "parse_value n strtod"] parse_key_text json_object_set_new)
next
  case (Cons p ps)
  obtain k' v' where p: "p = (k', v')" by fastforce
  let ?w = "gap_text sp"
  have w: "list_all json_ws ?w" by (simp add: json_ws_def gap_text_def)
  let ?r = "indent_text (d + 1) sp @ str_text k' @ CHR '':'' # ?w @ json_text fmt sp (d + 1) v'
      @ pairs_text fmt sp d ps @ indent_text d sp @ CHR 0x7d # rest"
  have "parse_value n strtod (?w @ json_text fmt sp (d + 1) v @ CHR '','' # ?r) = Some (Inr (v, CHR '','' # ?r))"
    using readsD [of strtod fmt sp n v] Cons.prems num_stop_closing(1) w by simp
  moreover have "object_loop (parse_value n strtod) ?r (obj @ [(k, v)]) = Some (Inr (JObject ((obj @ [(k, v)]) @ (k', v') # ps), rest))"
    by (rule Cons.IH) (use Cons.prems indent_blank p in simp_all)
  moreover have "json_object_set obj k v = obj @ [(k, v)]" using Cons.prems by (intro json_object_set_new) auto
  moreover have "parse_key (w @ str_text k @ CHR '':'' # ?w @ json_text fmt sp (d + 1) v @ CHR '','' # ?r)
      = Inr (k, ?w @ json_text fmt sp (d + 1) v @ CHR '','' # ?r)"
    using Cons.prems by (intro parse_key_text) simp_all
  ultimately show ?case unfolding p
    by (simp add: object_loop.simps [of "parse_value n strtod" "w @ _"] skip_ws_stop [OF json_text_closed(1)])
qed

lemma text_not_closing:
  assumes "fits (num_ok strtod fmt) n v" and "list_all json_ws w"
  shows "skip_ws (w @ json_text fmt sp d v @ p) = json_text fmt sp d v @ p" "hd (json_text fmt sp d v @ p) \<noteq> CHR '']''"
proof -
  obtain c t where "json_text fmt sp d v = c # t" "\<not> json_ws c" "c \<noteq> CHR '']''" using assms(1) by (rule text_start)
  then show "skip_ws (w @ json_text fmt sp d v @ p) = json_text fmt sp d v @ p" "hd (json_text fmt sp d v @ p) \<noteq> CHR '']''"
    using assms(2) by (simp_all add: skip_ws_blank skip_ws_stop)
qed

lemma parse_value_array:
  assumes "list_all (reads strtod fmt sp n) vs" and "list_all (fits (num_ok strtod fmt) n) vs"
  shows "parse_value (Suc n) strtod (json_text fmt sp d (JArray vs) @ rest) = Some (Inr (JArray vs, rest))"
proof -
  have "parse_array (parse_value n strtod) (json_text fmt sp d (JArray vs) @ rest) = Some (Inr (JArray vs, rest))"
  proof (cases vs)
    case Nil
    then show ?thesis by (simp add: parse_array_def skip_ws_stop json_text_closed json_make_array_def)
  next
    case (Cons v us)
    let ?p = "json_text fmt sp (d + 1) v @ items_text fmt sp d us @ indent_text d sp @ CHR '']'' # rest"
    have f: "fits (num_ok strtod fmt) n v" using assms(2) Cons by simp
    have "json_text fmt sp d (JArray vs) @ rest = CHR ''['' # indent_text (d + 1) sp @ ?p" using Cons by simp
    moreover have "array_loop (parse_value n strtod) ?p [] = Some (Inr (JArray vs, rest))"
      using array_loop_text [of strtod fmt sp n v us "[]" d rest "[]"] assms(1) Cons by simp
    moreover have "?p \<noteq> []" by simp
    ultimately show ?thesis using text_not_closing [OF f indent_blank] by (simp add: parse_array_def Let_def)
  qed
  then show ?thesis by (simp add: skip_ws_stop json_ws_def)
qed

lemma parse_value_object:
  assumes "list_all (\<lambda>p. NUL \<notin> set (fst p) \<and> reads strtod fmt sp n (snd p)) ps" and "distinct (map fst ps)"
  shows "parse_value (Suc n) strtod (json_text fmt sp d (JObject ps) @ rest) = Some (Inr (JObject ps, rest))"
proof -
  have "parse_object (parse_value n strtod) (json_text fmt sp d (JObject ps) @ rest) = Some (Inr (JObject ps, rest))"
  proof (cases ps)
    case Nil
    then show ?thesis by (simp add: parse_object_def skip_ws_stop json_text_closed json_make_object_def)
  next
    case (Cons p us)
    obtain k v where p: "p = (k, v)" by fastforce
    let ?p = "str_text k @ CHR '':'' # gap_text sp @ json_text fmt sp (d + 1) v @ pairs_text fmt sp d us @ indent_text d sp @ CHR 0x7d # rest"
    have "json_text fmt sp d (JObject ps) @ rest = CHR 0x7b # indent_text (d + 1) sp @ ?p" using Cons p by simp
    moreover have "object_loop (parse_value n strtod) ?p [] = Some (Inr (JObject ps, rest))"
      using object_loop_text [of strtod fmt sp n k v us "[]" "[]" d rest] assms Cons p by simp
    moreover obtain q where "?p = CHR 0x22 # q" by (simp add: str_text_def)
    moreover from this have "skip_ws (indent_text (d + 1) sp @ ?p) = ?p"
      using skip_ws_blank [OF indent_blank] by (simp add: skip_ws_stop json_ws_def)
    ultimately show ?thesis by (simp add: parse_object_def Let_def)
  qed
  then show ?thesis by (simp add: skip_ws_stop json_ws_def)
qed

lemma parse_value_literal:
  "parse_value (Suc n) strtod (''null'' @ rest) = Some (Inr (JNull, rest))"
  "parse_value (Suc n) strtod (''true'' @ rest) = Some (Inr (JBool True, rest))"
  "parse_value (Suc n) strtod (''false'' @ rest) = Some (Inr (JBool False, rest))"
  by (simp_all add: skip_ws_stop json_ws_def json_make_null_def json_make_bool_def)

lemma fits_reads: "fits (num_ok strtod fmt) n v \<Longrightarrow> reads strtod fmt sp n v"
proof (induction n arbitrary: v)
  case (Suc n)
  note f = Suc.prems [unfolded fits.simps]
  show ?case unfolding reads_def
  proof (intro allI impI)
    fix d rest
    assume s: "num_stop rest"
    show "parse_value (Suc n) strtod (json_text fmt sp d v @ rest) = Some (Inr (v, rest))"
    proof (cases v)
      case JNull
      then show ?thesis using parse_value_literal(1) by simp
    next
      case (JBool b)
      then show ?thesis using parse_value_literal(2,3) by (cases b) simp_all
    next
      case (JNumber x)
      then have k: "num_ok strtod fmt x" using f by simp
      show ?thesis unfolding JNumber json_text.simps number_text [OF k] by (rule parse_value_number [OF k s])
    next
      case (JString t)
      then have "NUL \<notin> set t" using f by simp
      then show ?thesis unfolding JString json_text.simps by (rule parse_value_string)
    next
      case (JArray vs)
      then have a: "list_all (fits (num_ok strtod fmt) n) vs" using f by simp
      then have "list_all (reads strtod fmt sp n) vs" using Suc.IH by (auto simp: list_all_iff)
      then show ?thesis unfolding JArray using a by (rule parse_value_array)
    next
      case (JObject ps)
      then have "list_all (\<lambda>p. NUL \<notin> set (fst p) \<and> reads strtod fmt sp n (snd p)) ps" "distinct (map fst ps)"
        using f Suc.IH by (auto simp: list_all_iff)
      then show ?thesis unfolding JObject by (rule parse_value_object)
    qed
  qed
qed simp

lemma ser_view:
  "strbuf_view (ser fmt v strbuf_init d sp) = json_text fmt sp d v"
  using sb.writes_view [OF ser_writes(1) strbuf_inv_init] by simp

lemma json_parse_text:
  assumes "fits (num_ok strtod fmt) (JSON_MAX_DEPTH + 1) v"
  shows "json_parse strtod (json_text fmt sp 0 v) = Some (Inr v)"
proof -
  have "parse_value (JSON_MAX_DEPTH + 1) strtod (json_text fmt sp 0 v) = Some (Inr (v, []))"
    using readsD [OF fits_reads [OF assms], of "[]" "[]"] by (simp add: num_stop_def)
  moreover have "skip_ws (json_text fmt sp 0 v) = json_text fmt sp 0 v"
    using text_not_closing(1) [OF assms, of "[]" sp 0 "[]"] by simp
  ultimately show ?thesis by (simp add: json_parse_def skip_ws_def)
qed

lemma fits_mono: "fits P n v \<Longrightarrow> n \<le> m \<Longrightarrow> fits P m v"
proof (induction n arbitrary: v m)
  case (Suc n)
  then obtain m' where m: "m = Suc m'" "n \<le> m'" by (cases m) auto
  have "fits P n u \<Longrightarrow> fits P m' u" for u using Suc.IH m by blast
  then show ?case using Suc.prems m by (auto simp: list_all_iff split: json_value.splits)
qed simp

text \<open>
  C25: parsing the text that the serializer writes, compact or with any indentation, gives back the very
  same tree, for every tree of C strings with distinct keys, at most 513 levels deep, whose numbers
  \<open>%.17g\<close> renders as JSON numbers that \<open>strtod\<close> reads back.
\<close>

theorem json_round_trip:
  assumes "fits (num_ok strtod fmt) (JSON_MAX_DEPTH + 1) v"
  shows "json_parse strtod (strbuf_view (json_serialize fmt v strbuf_init)) = Some (Inr v)
     \<and> json_parse strtod (strbuf_view (json_serialize_pretty fmt v strbuf_init spaces)) = Some (Inr v)"
  unfolding json_serialize_def json_serialize_pretty_def ser_view using json_parse_text [OF assms] by simp

theorem json_round_trip_witness:
  "json_parse (nat \<circ> dec_value) (strbuf_view (json_serialize dec_of_nat (JObject [(''a'', JArray [JNumber 7, JNull]), (''b'', JString [CHR 0x0a, CHR 0x01])]) strbuf_init))
      = Some (Inr (JObject [(''a'', JArray [JNumber 7, JNull]), (''b'', JString [CHR 0x0a, CHR 0x01])]))
    \<and> json_parse (nat \<circ> dec_value) (strbuf_view (json_serialize_pretty dec_of_nat (JObject [(''a'', JArray [JNumber 7, JNull]), (''b'', JString [CHR 0x0a, CHR 0x01])]) strbuf_init 2))
      = Some (Inr (JObject [(''a'', JArray [JNumber 7, JNull]), (''b'', JString [CHR 0x0a, CHR 0x01])]))"
proof (rule json_round_trip)
  have d: "dec_of_nat 7 = ''7''" by code_simp
  have "num_ok (nat \<circ> dec_value) dec_of_nat 7"
    by (simp add: num_ok_def) (simp add: d number_end_def digit_run_def number_fraction_def number_exponent_def isdigit_def)
  then have "fits (num_ok (nat \<circ> dec_value) dec_of_nat) (Suc (Suc (Suc 0))) (JObject [(''a'', JArray [JNumber 7, JNull]), (''b'', JString [CHR 0x0a, CHR 0x01])])"
    by simp
  then show "fits (num_ok (nat \<circ> dec_value) dec_of_nat) (JSON_MAX_DEPTH + 1) (JObject [(''a'', JArray [JNumber 7, JNull]), (''b'', JString [CHR 0x0a, CHR 0x01])])"
    by (rule fits_mono) (simp add: JSON_MAX_DEPTH_def)
qed

subsection \<open>The shape of parsed trees\<close>

lemma json_object_set_keys:
  "set (map fst (json_object_set obj k v)) = insert (c_str k) (set (map fst obj))"
  by (induction obj) auto

lemma json_object_set_ok:
  assumes "list_all (\<lambda>p. NUL \<notin> set (fst p) \<and> Q (snd p)) obj \<and> distinct (map fst obj)" and "Q v"
  shows "list_all (\<lambda>p. NUL \<notin> set (fst p) \<and> Q (snd p)) (json_object_set obj k v) \<and> distinct (map fst (json_object_set obj k v))"
  using assms
proof (induction obj)
  case (Cons p obj)
  then show ?case using json_object_set_keys [of obj k v] by (auto simp del: set_map simp flip: set_map)
qed simp

definition sound :: "'d value_parser \<Rightarrow> ('d json_value \<Rightarrow> bool) \<Rightarrow> bool" where
  "sound pv Q \<longleftrightarrow> (\<forall>p v p'. pv p = Some (Inr (v, p')) \<longrightarrow> Q v)"

lemma sum_pair_cases: "(\<And>e. r = Inl e \<Longrightarrow> P) \<Longrightarrow> (\<And>v p. r = Inr (v, p) \<Longrightarrow> P) \<Longrightarrow> P"
  by (cases r) auto

lemma consumesD: "consumes pv \<Longrightarrow> pv p = Some (Inr (v, p')) \<Longrightarrow> length p' < length p"
  by (auto simp: consumes_def progress_def dest: spec [of _ p])

lemma array_loop_Inr:
  assumes "array_loop pv p arr = Some (Inr (v, p'))"
  obtains item p1 c p2 where "pv p = Some (Inr (item, p1))" "skip_ws p1 = c # p2"
    "array_loop pv p2 (arr @ [item]) = Some (Inr (v, p')) \<or> v = JArray (arr @ [item])"
proof -
  note e = assms [unfolded array_loop.simps [of pv p] json_array_append_def]
  obtain item p1 where i: "pv p = Some (Inr (item, p1))"
  proof (cases "pv p")
    case (Some q)
    then show ?thesis using e that by (cases q rule: sum_pair_cases) simp_all
  qed (use e in simp)
  note e' = e [unfolded i option.case sum.case prod.case]
  obtain c p2 where s: "skip_ws p1 = c # p2" using e' by (cases "skip_ws p1") simp_all
  note e'' = e' [unfolded s list.case]
  show ?thesis using that [OF i s] e'' by (cases "c = CHR '',''"; cases "c = CHR '']''") simp_all
qed

lemma array_loop_ok:
  assumes "consumes pv" and "sound pv Q"
  shows "array_loop pv p arr = Some (Inr (v, p')) \<Longrightarrow> list_all Q arr \<Longrightarrow> \<exists>vs. v = JArray vs \<and> list_all Q vs"
proof (induction p arbitrary: arr rule: length_induct)
  case (1 p)
  from "1.prems"(1) obtain item p1 c p2 where i: "pv p = Some (Inr (item, p1))" "skip_ws p1 = c # p2"
    and r: "array_loop pv p2 (arr @ [item]) = Some (Inr (v, p')) \<or> v = JArray (arr @ [item])" by (rule array_loop_Inr)
  have "Q item" using assms(2) i(1) unfolding sound_def by blast
  then have q: "list_all Q (arr @ [item])" using "1.prems"(2) by simp
  have "length p1 < length p" using assms(1) i(1) by (rule consumesD)
  then have "length p2 < length p" using skip_ws_le [of p1] i(2) by simp
  then show ?case using "1.IH" r q by blast
qed

lemma object_loop_Inr:
  assumes "object_loop pv p obj = Some (Inr (v, p'))"
  obtains key p0 val p1 c p2 where "parse_key p = Inr (key, p0)" "pv p0 = Some (Inr (val, p1))" "skip_ws p1 = c # p2"
    "object_loop pv p2 (json_object_set obj key val) = Some (Inr (v, p')) \<or> v = JObject (json_object_set obj key val)"
proof -
  note e = assms [unfolded object_loop.simps [of pv p]]
  obtain key p0 where k: "parse_key p = Inr (key, p0)"
    using e by (cases "parse_key p" rule: sum_pair_cases) simp_all
  note e1 = e [unfolded k sum.case prod.case]
  obtain val p1 where i: "pv p0 = Some (Inr (val, p1))"
  proof (cases "pv p0")
    case (Some q)
    then show ?thesis using e1 that by (cases q rule: sum_pair_cases) simp_all
  qed (use e1 in simp)
  note e' = e1 [unfolded i option.case sum.case prod.case]
  obtain c p2 where s: "skip_ws p1 = c # p2" using e' by (cases "skip_ws p1") simp_all
  note e'' = e' [unfolded s list.case]
  show ?thesis using that [OF k i s] e'' by (cases "c = CHR '',''"; cases "c = CHR 0x7d") simp_all
qed

lemma object_loop_ok:
  assumes "consumes pv" and "sound pv Q"
  shows "object_loop pv p obj = Some (Inr (v, p')) \<Longrightarrow> list_all (\<lambda>p. NUL \<notin> set (fst p) \<and> Q (snd p)) obj \<and> distinct (map fst obj) \<Longrightarrow>
    \<exists>ps. v = JObject ps \<and> list_all (\<lambda>p. NUL \<notin> set (fst p) \<and> Q (snd p)) ps \<and> distinct (map fst ps)"
proof (induction p arbitrary: obj rule: length_induct)
  case (1 p)
  from "1.prems"(1) obtain key p0 val p1 c p2 where k: "parse_key p = Inr (key, p0)"
    and i: "pv p0 = Some (Inr (val, p1))" "skip_ws p1 = c # p2"
    and r: "object_loop pv p2 (json_object_set obj key val) = Some (Inr (v, p')) \<or> v = JObject (json_object_set obj key val)"
    by (rule object_loop_Inr)
  have "Q val" using assms(2) i(1) unfolding sound_def by blast
  note q = json_object_set_ok [OF "1.prems"(2) this, of key]
  have "length p1 < length p0" using assms(1) i(1) by (rule consumesD)
  then have "length p2 < length p" using skip_ws_le [of p1] i(2) parse_key_shorter [OF k] by simp
  then show ?case using "1.IH" r q by blast
qed

text \<open>The numbers a parser can deliver: what \<open>strtod\<close> makes of a JSON number of fewer than 64 characters.\<close>

definition read_number :: "(sv \<Rightarrow> 'd) \<Rightarrow> 'd \<Rightarrow> bool" where
  "read_number strtod x \<longleftrightarrow> (\<exists>t. length t < 64 \<and> x = strtod t)"

lemma parse_value_sound: "sound (parse_value n strtod) (fits (read_number strtod) n)"
proof (induction n)
  case 0
  then show ?case by (simp add: sound_def)
next
  case (Suc n)
  let ?Q = "fits (read_number strtod) n"
  let ?pv = "parse_value n strtod"
  let ?ok = "\<lambda>r. \<forall>v p'. r = Some (Inr (v, p')) \<longrightarrow> fits (read_number strtod) (Suc n) v"
  have if_ok: "(b \<Longrightarrow> ?ok x) \<Longrightarrow> (\<not> b \<Longrightarrow> ?ok y) \<Longrightarrow> ?ok (if b then x else y)" for b x y by simp
  have o: "?ok (parse_object ?pv q)" for q
  proof (intro allI impI)
    fix v p'
    assume "parse_object ?pv q = Some (Inr (v, p'))"
    then have "v = JObject [] \<or> object_loop ?pv (skip_ws (tl q)) [] = Some (Inr (v, p'))"
      by (simp add: parse_object_def Let_def json_make_object_def split: if_splits)
    then show "fits (read_number strtod) (Suc n) v"
      using object_loop_ok [OF parse_value_consumes Suc.IH, of "skip_ws (tl q)" "[]" v p'] by auto
  qed
  have a: "?ok (parse_array ?pv q)" for q
  proof (intro allI impI)
    fix v p'
    assume "parse_array ?pv q = Some (Inr (v, p'))"
    then have "v = JArray [] \<or> array_loop ?pv (skip_ws (tl q)) [] = Some (Inr (v, p'))"
      by (simp add: parse_array_def Let_def json_make_array_def split: if_splits)
    then show "fits (read_number strtod) (Suc n) v"
      using array_loop_ok [OF parse_value_consumes Suc.IH, of "skip_ws (tl q)" "[]" v p'] by auto
  qed
  have s: "?ok (Some (parse_string q))" for q
    by (auto simp: parse_string_def node_string_def split: sum.splits)
  have m: "?ok (Some (parse_number strtod q))" for q
    by (auto simp: parse_number_def read_number_def Let_def split: sum.splits if_splits intro!: exI [of _ "take _ q"])
  have l: "?ok (Some (Inl e))" "?ok (Some (Inr (json_make_null, p)))" "?ok (Some (Inr (json_make_bool b, p)))" for e p b
    by (auto simp: json_make_null_def json_make_bool_def)
  have "?ok (parse_value (Suc n) strtod p)" for p
  proof (cases "skip_ws p")
    case (Cons c p1)
    show ?thesis unfolding parse_value.simps Cons list.case Let_def by (intro if_ok) (rule o a s m l)+
  qed simp
  then show ?case unfolding sound_def by blast
qed

text \<open>
  C27: every tree the parser delivers is well formed: at most 513 levels deep, keys of an object
  distinct, strings and keys free of NUL, numbers read from at most 63 characters.
\<close>

theorem json_parse_wf:
  assumes "json_parse strtod src = Some (Inr v)"
  shows "fits (read_number strtod) (JSON_MAX_DEPTH + 1) v"
proof -
  obtain p where "parse_value (JSON_MAX_DEPTH + 1) strtod (skip_ws src) = Some (Inr (v, p))"
    using assms by (auto simp: json_parse_def split: option.splits sum.splits if_splits)
  then show ?thesis using parse_value_sound unfolding sound_def by blast
qed

theorem json_parse_wf_witness: "fits (read_number (\<lambda>t. 0 :: nat)) (JSON_MAX_DEPTH + 1) JNull"
  by (rule json_parse_wf [of _ "''null''"]) (simp add: json_parse_def skip_ws_def json_ws_def json_make_null_def)

text \<open>Objects behave as finite maps under \<open>json_object_set\<close> and \<open>json_get\<close>.\<close>

lemma json_get_set:
  "json_get (JObject (json_object_set obj k v)) k' = (if c_str k = c_str k' then Some v else json_get (JObject obj) k')"
  by (induction obj) (auto simp: json_get_def)

text \<open>
  Input nested deeper than the limit is refused: 514 opening brackets give the error of the depth
  check, whatever follows them, so the recursion of the parser is bounded.
\<close>

lemma parse_nested:
  "parse_value n strtod (replicate n (CHR ''['') @ CHR ''['' # p) = Some (Inl ''nesting too deep'')"
proof (induction n)
  case (Suc n)
  have r: "replicate n (CHR ''['') @ CHR ''['' # p = CHR ''['' # (replicate n (CHR ''['') @ p)" for p
    by (simp add: replicate_app_Cons_same)
  have w: "skip_ws (CHR ''['' # q) = CHR ''['' # q" for q by (simp add: skip_ws_stop json_ws_def)
  have "array_loop (parse_value n strtod) (replicate n (CHR ''['') @ CHR ''['' # p) [] = Some (Inl ''nesting too deep'')"
    using Suc by (simp add: array_loop.simps)
  then have "parse_array (parse_value n strtod) (CHR ''['' # replicate n (CHR ''['') @ CHR ''['' # p) = Some (Inl ''nesting too deep'')"
    unfolding parse_array_def list.sel r w Let_def by simp
  then show ?case by (simp add: w)
qed simp

lemma json_depth_limit:
  "json_parse strtod (replicate (JSON_MAX_DEPTH + 2) (CHR ''['') @ p) = Some (Inl ''nesting too deep'')"
proof -
  let ?s = "replicate (JSON_MAX_DEPTH + 1) (CHR ''['') @ CHR ''['' # p"
  have e: "replicate (JSON_MAX_DEPTH + 2) (CHR ''['') @ p = ?s" by (simp add: replicate_app_Cons_same)
  have w: "skip_ws ?s = ?s" by (simp add: skip_ws_def json_ws_def)
  show ?thesis unfolding json_parse_def e w parse_nested by (simp only: option.case sum.case)
qed

text \<open>
  A string cut at a NUL: the document holds two bytes and a NUL between them, the tree one byte. Keys that
  differ after a NUL collide.
\<close>

lemma json_nul_truncates:
  "json_parse strtod ([CHR 0x22, CHR ''a'', CHR 0x5c] @ ''u0000b'' @ [CHR 0x22]) = Some (Inr (JString ''a''))"
proof -
  have u: "parse_unicode (''0000'' @ ''b'' @ [CHR 0x22]) = Inr (ucode NUL, ''b'' @ [CHR 0x22])"
    using parse_unicode_control [of NUL "''b'' @ [CHR 0x22]"] by (simp add: xdigit_def)
  let ?b = "strbuf_append_char (utf8_append (strbuf_append_char strbuf_init (CHR ''a'')) 0) (CHR ''b'')"
  have "string_loop (CHR ''a'' # CHR 0x5c # CHR ''u'' # ''0000'' @ ''b'' @ [CHR 0x22]) strbuf_init = Inr (?b, [])"
    using string_loop_steps(3) [OF u] by (simp add: string_loop_steps(1,4))
  moreover have "node_string ?b = ''a''"
    by (simp add: node_string_def utf8_append_def char_of_def view_simps inv_intros c_str_def)
  ultimately show ?thesis
    by (simp add: json_parse_def skip_ws_def json_ws_def parse_string_def parse_string_raw_def)
qed

text \<open>Leading zeros are taken.\<close>

lemma json_leading_zero: "json_parse strtod ''007'' = Some (Inr (JNumber (strtod ''007'')))"
  by (simp add: json_parse_def skip_ws_def json_ws_def isdigit_def parse_number_def number_end_def digit_run_def number_fraction_def number_exponent_def)

end
