(* ===== verification/Digests.thy ===== *)
theory Digests
  imports Formatting
begin

text \<open>
  The digests of the program: SHA-1 of the WebSocket handshake (\<open>src/http/ws.c\<close>), SHA-256 and
  HMAC-SHA256 (\<open>src/security/hmac.c\<close>). Both hash functions run a compression function over the blocks
  of the padded message; the code feeds it blocks as data comes in and pads in place. The theorems say
  that what it computes is the fold over the blocks of the padded message, however the data was split.
\<close>

subsection \<open>Blocks and padding\<close>

definition be32 :: "u32 \<Rightarrow> byte list" where
  "be32 v = [ucast (drop_bit 24 v), ucast (drop_bit 16 v), ucast (drop_bit 8 v), ucast v]"

definition be64 :: "u64 \<Rightarrow> byte list" where
  "be64 v = map (\<lambda>i. ucast (drop_bit (56 - 8 * i) v)) [0..<8]"

definition load_be32 :: "byte list \<Rightarrow> nat \<Rightarrow> u32" where
  "load_be32 p i =
     push_bit 24 (ucast (p ! i)) OR push_bit 16 (ucast (p ! (i + 1))) OR push_bit 8 (ucast (p ! (i + 2))) OR ucast (p ! (i + 3))"

text \<open>The message cut into blocks of 64 bytes; a shorter rest is dropped.\<close>

function blocks :: "byte list \<Rightarrow> byte list list" where
  "blocks m = (if length m < 64 then [] else take 64 m # blocks (drop 64 m))"
  by pat_completeness auto
termination
  by (relation "measure length") auto

declare blocks.simps [simp del]

text \<open>The padding of FIPS 180: a one bit, zeros, and the length in bits in the last eight bytes.\<close>

definition pad :: "byte list \<Rightarrow> byte list" where
  "pad m = m @ 0x80 # replicate ((119 - length m mod 64) mod 64) 0 @ be64 (of_nat (8 * length m))"

lemma blocks_Nil: "length m < 64 \<Longrightarrow> blocks m = []"
  by (simp add: blocks.simps)

lemma blocks_append: "length b = 64 \<Longrightarrow> blocks (b @ m) = b # blocks m"
  by (simp add: blocks.simps [of "b @ m"])

lemma blocks_split: "length m mod 64 = 0 \<Longrightarrow> blocks (m @ n) = blocks m @ blocks n"
proof (induction m rule: blocks.induct)
  case (1 m)
  show ?case
  proof (cases "length m < 64")
    case True
    then have "m = []" using "1.prems" by simp
    then show ?thesis by (simp add: blocks_Nil)
  next
    case False
    then have "length (drop 64 m) mod 64 = 0" using "1.prems" by (simp add: le_mod_geq)
    from "1.IH" [OF False this] have "blocks (drop 64 m @ n) = blocks (drop 64 m) @ blocks n" .
    moreover have l: "length (take 64 m) = 64" using False by simp
    have "m @ n = take 64 m @ (drop 64 m @ n)" by simp
    ultimately have "blocks (m @ n) = take 64 m # blocks (drop 64 m) @ blocks n" using blocks_append [OF l] by metis
    moreover have "blocks m = take 64 m # blocks (drop 64 m)" using False by (simp add: blocks.simps [of m])
    ultimately show ?thesis by simp
  qed
qed

text \<open>Full blocks and rest of a message.\<close>

definition full :: "byte list \<Rightarrow> byte list" where
  "full m = take (length m - length m mod 64) m"

definition tail :: "byte list \<Rightarrow> byte list" where
  "tail m = drop (length m - length m mod 64) m"

lemma full_tail: "full m @ tail m = m"
  by (simp add: full_def tail_def)

lemma length_full: "length (full m) mod 64 = 0"
  by (simp add: full_def minus_mod_eq_mult_div)

lemma length_tail: "length (tail m) = length m mod 64"
  by (simp add: tail_def)

lemma blocks_full: "blocks (full m) = blocks m"
proof -
  have "blocks (full m @ tail m) = blocks (full m) @ blocks (tail m)" by (rule blocks_split [OF length_full])
  then show ?thesis by (simp add: full_tail blocks_Nil length_tail)
qed

lemma length_be64: "length (be64 v) = 8"
  by (simp add: be64_def)

lemma pad_zeros:
  "x < 56 \<Longrightarrow> (119 - x) mod 64 = 55 - (x::nat)"
  "56 \<le> x \<Longrightarrow> x < 64 \<Longrightarrow> (119 - x) mod 64 = (63 - x) + (56::nat)"
proof -
  assume "x < 56"
  then have "119 - x = 64 + (55 - x)" by simp
  then have "(119 - x) mod 64 = (64 + (55 - x)) mod 64" by (rule arg_cong)
  then show "(119 - x) mod 64 = 55 - x" by simp
qed simp

text \<open>The padded message: its full blocks, then one or two blocks that hold the rest and the length.\<close>

lemma blocks_pad:
  "blocks (pad m) = blocks m @
     (let t = tail m; l = be64 (of_nat (8 * length m))
      in if length t < 56 then [t @ 0x80 # replicate (55 - length t) 0 @ l]
         else [t @ 0x80 # replicate (63 - length t) 0, replicate 56 0 @ l])"
proof -
  let ?t = "tail m" and ?l = "be64 (of_nat (8 * length m))"
  let ?z = "(119 - length m mod 64) mod 64"
  have lt: "length ?t < 64" by (simp add: length_tail)
  have "pad m = full m @ ?t @ 0x80 # replicate ?z 0 @ ?l"
    unfolding pad_def by (metis append.assoc full_tail)
  then have b: "blocks (pad m) = blocks m @ blocks (?t @ 0x80 # replicate ?z 0 @ ?l)"
    using blocks_split [OF length_full, of m] by (simp add: blocks_full)
  show ?thesis
  proof (cases "length ?t < 56")
    case True
    then have z: "?z = 55 - length ?t" using pad_zeros(1) unfolding length_tail by blast
    have "blocks ((?t @ 0x80 # replicate ?z 0 @ ?l) @ []) = [?t @ 0x80 # replicate ?z 0 @ ?l]"
      by (subst blocks_append) (use True z in \<open>simp_all add: length_be64 blocks_Nil\<close>)
    then show ?thesis using True b z by (simp add: Let_def)
  next
    case False
    then have z: "?z = (63 - length ?t) + 56" using lt pad_zeros(2) unfolding length_tail by (simp add: not_less)
    have "blocks ((?t @ 0x80 # replicate (63 - length ?t) 0) @ (replicate 56 0 @ ?l) @ []) =
        [?t @ 0x80 # replicate (63 - length ?t) 0, replicate 56 0 @ ?l]"
      using lt by (simp only: blocks_append length_append length_Cons length_replicate length_be64) (simp add: blocks_append length_be64 blocks_Nil)
    then show ?thesis using False b z by (simp add: replicate_add Let_def)
  qed
qed

subsection \<open>SHA-1\<close>

definition ws_rol :: "u32 \<Rightarrow> nat \<Rightarrow> u32" where
  "ws_rol x bits = push_bit bits x OR drop_bit (32 - bits) x"

definition sha1_schedule :: "byte list \<Rightarrow> u32 list" where
  "sha1_schedule block =
     foldl (\<lambda>w i. w @ [ws_rol (w ! (i - 3) XOR w ! (i - 8) XOR w ! (i - 14) XOR w ! (i - 16)) 1])
       (map (\<lambda>i. load_be32 block (4 * i)) [0..<16]) [16..<80]"

definition sha1_round :: "u32 list \<Rightarrow> u32 \<times> u32 \<times> u32 \<times> u32 \<times> u32 \<Rightarrow> nat \<Rightarrow> u32 \<times> u32 \<times> u32 \<times> u32 \<times> u32" where
  "sha1_round w st i =
     (case st of (a, b, c, d, e) \<Rightarrow>
        let (f, k) = (if i < 20 then ((b AND c) OR (NOT b AND d), 0x5A827999)
                      else if i < 40 then (b XOR c XOR d, 0x6ED9EBA1)
                      else if i < 60 then ((b AND c) OR (b AND d) OR (c AND d), 0x8F1BBCDC)
                      else (b XOR c XOR d, 0xCA62C1D6));
            t = ws_rol a 5 + f + e + k + w ! i
        in (t, a, ws_rol b 30, c, d))"

definition ws_sha1_block :: "u32 list \<Rightarrow> byte list \<Rightarrow> u32 list" where
  "ws_sha1_block h block =
     (case foldl (sha1_round (sha1_schedule block)) (h ! 0, h ! 1, h ! 2, h ! 3, h ! 4) [0..<80] of
        (a, b, c, d, e) \<Rightarrow> [h ! 0 + a, h ! 1 + b, h ! 2 + c, h ! 3 + d, h ! 4 + e])"

definition sha1_iv :: "u32 list" where
  "sha1_iv = [0x67452301, 0xEFCDAB89, 0x98BADCFE, 0x10325476, 0xC3D2E1F0]"

text \<open>
  The loop of \<open>http_ws_sha1\<close>; \<open>rest\<close> is the message from \<open>at\<close> on, and the last round pads it in the block.
\<close>

definition sha1_length_field :: "byte list \<Rightarrow> u64 \<Rightarrow> byte list" where
  "sha1_length_field block bitlen = foldl (\<lambda>b i. b[63 - i := ucast (drop_bit (8 * i) bitlen)]) block [0..<8]"

function sha1_loop :: "u32 list \<Rightarrow> byte list \<Rightarrow> u64 \<Rightarrow> u32 list" where
  "sha1_loop h rest bitlen =
     (let need = length rest
      in if \<not> need < 64 then sha1_loop (ws_sha1_block h (take 64 rest)) (drop 64 rest) bitlen
         else
           let block = (rest @ replicate (64 - need) 0)[need := 0x80];
               (h1, block1) = (if need \<ge> 56 then (ws_sha1_block h block, replicate 64 0) else (h, block))
           in ws_sha1_block h1 (sha1_length_field block1 bitlen))"
  by pat_completeness auto
termination
  by (relation "measure (\<lambda>(h, rest, bitlen). length rest)") auto

declare sha1_loop.simps [simp del]

definition http_ws_sha1 :: "byte list \<Rightarrow> byte list" where
  "http_ws_sha1 data = concat (map be32 (sha1_loop sha1_iv data (of_nat (8 * length data))))"

subsection \<open>SHA-256\<close>

definition ROTR :: "u32 \<Rightarrow> nat \<Rightarrow> u32" where "ROTR x n = drop_bit n x OR push_bit (32 - n) x"

definition CH :: "u32 \<Rightarrow> u32 \<Rightarrow> u32 \<Rightarrow> u32" where "CH x y z = (x AND y) XOR (NOT x AND z)"

definition MAJ :: "u32 \<Rightarrow> u32 \<Rightarrow> u32 \<Rightarrow> u32" where "MAJ x y z = (x AND y) XOR (x AND z) XOR (y AND z)"

definition SIG0 :: "u32 \<Rightarrow> u32" where "SIG0 x = ROTR x 2 XOR ROTR x 13 XOR ROTR x 22"

definition SIG1 :: "u32 \<Rightarrow> u32" where "SIG1 x = ROTR x 6 XOR ROTR x 11 XOR ROTR x 25"

definition sig0 :: "u32 \<Rightarrow> u32" where "sig0 x = ROTR x 7 XOR ROTR x 18 XOR drop_bit 3 x"

definition sig1 :: "u32 \<Rightarrow> u32" where "sig1 x = ROTR x 17 XOR ROTR x 19 XOR drop_bit 10 x"

definition sha256_K :: "u32 list" where
  "sha256_K = concat
     [[0x428a2f98, 0x71374491, 0xb5c0fbcf, 0xe9b5dba5, 0x3956c25b],
      [0x59f111f1, 0x923f82a4, 0xab1c5ed5, 0xd807aa98, 0x12835b01],
      [0x243185be, 0x550c7dc3, 0x72be5d74, 0x80deb1fe, 0x9bdc06a7],
      [0xc19bf174, 0xe49b69c1, 0xefbe4786, 0x0fc19dc6, 0x240ca1cc],
      [0x2de92c6f, 0x4a7484aa, 0x5cb0a9dc, 0x76f988da, 0x983e5152],
      [0xa831c66d, 0xb00327c8, 0xbf597fc7, 0xc6e00bf3, 0xd5a79147],
      [0x06ca6351, 0x14292967, 0x27b70a85, 0x2e1b2138, 0x4d2c6dfc],
      [0x53380d13, 0x650a7354, 0x766a0abb, 0x81c2c92e, 0x92722c85],
      [0xa2bfe8a1, 0xa81a664b, 0xc24b8b70, 0xc76c51a3, 0xd192e819],
      [0xd6990624, 0xf40e3585, 0x106aa070, 0x19a4c116, 0x1e376c08],
      [0x2748774c, 0x34b0bcb5, 0x391c0cb3, 0x4ed8aa4a, 0x5b9cca4f],
      [0x682e6ff3, 0x748f82ee, 0x78a5636f, 0x84c87814, 0x8cc70208],
      [0x90befffa, 0xa4506ceb, 0xbef9a3f7, 0xc67178f2]]"

record sha256_ctx =
  sha_h :: "u32 list"
  sha_bytes :: u64
  sha_block :: "byte list"
  sha_used :: nat

definition sha256_iv :: "u32 list" where
  "sha256_iv = [0x6a09e667, 0xbb67ae85, 0x3c6ef372, 0xa54ff53a, 0x510e527f, 0x9b05688c, 0x1f83d9ab, 0x5be0cd19]"

text \<open>\<open>sha256_init\<close> leaves the block as it is; \<open>garbage\<close> is what the memory held.\<close>

definition sha256_init :: "byte list \<Rightarrow> sha256_ctx" where
  "sha256_init garbage = \<lparr>sha_h = sha256_iv, sha_bytes = 0, sha_block = garbage, sha_used = 0\<rparr>"

definition store_be32 :: "u32 \<Rightarrow> byte list" where
  "store_be32 v = be32 v"

definition sha256_schedule :: "byte list \<Rightarrow> u32 list" where
  "sha256_schedule block =
     foldl (\<lambda>w i. w @ [sig1 (w ! (i - 2)) + w ! (i - 7) + sig0 (w ! (i - 15)) + w ! (i - 16)])
       (map (\<lambda>i. load_be32 block (4 * i)) [0..<16]) [16..<64]"

definition sha256_round :: "u32 list \<Rightarrow> u32 list \<Rightarrow> nat \<Rightarrow> u32 list" where
  "sha256_round w st i =
     (let a = st ! 0; b = st ! 1; c = st ! 2; d = st ! 3; e = st ! 4; f = st ! 5; g = st ! 6; h = st ! 7;
          t1 = h + SIG1 e + CH e f g + sha256_K ! i + w ! i;
          t2 = SIG0 a + MAJ a b c
      in [t1 + t2, a, b, c, d + t1, e, f, g])"

definition sha256_compress :: "u32 list \<Rightarrow> byte list \<Rightarrow> u32 list" where
  "sha256_compress h block = map2 (+) h (foldl (sha256_round (sha256_schedule block)) h [0..<64])"

text \<open>
  The loop of \<open>sha256_update\<close>. More than 64 bytes are never in use (\<open>ctx_for\<close> below), so the
  subtraction from the size of the block does not wrap.
\<close>

function sha256_feed :: "sha256_ctx \<Rightarrow> byte list \<Rightarrow> sha256_ctx" where
  "sha256_feed ctx data =
     (if data = [] \<or> sha_used ctx > 64 then ctx
      else
        let n = (if length data > 64 - sha_used ctx then 64 - sha_used ctx else length data);
            block = take (sha_used ctx) (sha_block ctx) @ take n data @ drop (sha_used ctx + n) (sha_block ctx);
            ctx1 = ctx\<lparr>sha_block := block, sha_used := sha_used ctx + n\<rparr>;
            ctx2 = (if sha_used ctx1 = 64 then ctx1\<lparr>sha_h := sha256_compress (sha_h ctx1) block, sha_used := 0\<rparr> else ctx1)
        in sha256_feed ctx2 (drop n data))"
  by pat_completeness auto
termination
  by (relation "measure (\<lambda>(ctx, data). 2 * length data + (if sha_used ctx = 64 then 1 else 0))") (auto simp: Let_def split: if_splits)

declare sha256_feed.simps [simp del]

definition sha256_update :: "sha256_ctx \<Rightarrow> byte list \<Rightarrow> sha256_ctx" where
  "sha256_update ctx data = sha256_feed (ctx\<lparr>sha_bytes := sha_bytes ctx + of_nat (length data)\<rparr>) data"

definition fill_zero :: "byte list \<Rightarrow> nat \<Rightarrow> nat \<Rightarrow> byte list" where
  "fill_zero block at stop = take at block @ replicate (stop - at) 0 @ drop (max at stop) block"

text \<open>The chaining value and the last block of \<open>sha256_final\<close>; the block stays in the context.\<close>

definition sha256_padded :: "sha256_ctx \<Rightarrow> u32 list \<times> byte list" where
  "sha256_padded ctx =
     (let bits = sha_bytes ctx * 8;
          block = (sha_block ctx)[sha_used ctx := 0x80];
          used = sha_used ctx + 1;
          (h, block1, used1) = (if used > 56 then (sha256_compress (sha_h ctx) (fill_zero block used 64), fill_zero block used 64, 0)
                                else (sha_h ctx, block, used));
          block2 = fill_zero block1 used1 56
      in (h, foldl (\<lambda>b i. b[56 + i := ucast (drop_bit (56 - 8 * i) bits)]) block2 [0..<8]))"

definition sha256_final :: "sha256_ctx \<Rightarrow> byte list" where
  "sha256_final ctx = (case sha256_padded ctx of (h, block) \<Rightarrow> concat (map store_be32 (sha256_compress h block)))"

definition sha256 :: "byte list \<Rightarrow> byte list \<Rightarrow> byte list" where
  "sha256 garbage data = sha256_final (sha256_update (sha256_init garbage) data)"

subsection \<open>HMAC\<close>

definition hmac_key :: "byte list \<Rightarrow> byte list \<Rightarrow> byte list" where
  "hmac_key garbage key =
     (if length key \<le> 64 then key @ replicate (64 - length key) 0
      else sha256 garbage key @ replicate 32 0)"

definition hmac_sha256 :: "byte list \<Rightarrow> byte list \<Rightarrow> byte list \<Rightarrow> byte list" where
  "hmac_sha256 garbage key msg =
     (let k = hmac_key garbage key;
          ipad = map (\<lambda>b. b XOR 0x36) k;
          opad = map (\<lambda>b. b XOR 0x5c) k;
          ctx = sha256_update (sha256_update (sha256_init garbage) ipad) msg;
          inner = sha256_final ctx
      in sha256_final (sha256_update (sha256_update (sha256_init (snd (sha256_padded ctx))) opad) inner))"

definition mac_digits :: "char list" where "mac_digits = ''0123456789abcdef''"

definition hmac_sha256_hex :: "byte list \<Rightarrow> byte list \<Rightarrow> byte list \<Rightarrow> char list" where
  "hmac_sha256_hex garbage key msg =
     concat (map (\<lambda>b. [mac_digits ! unat (drop_bit 4 b), mac_digits ! unat (b AND 0x0f)]) (hmac_sha256 garbage key msg))"

fun byte_diff :: "byte list \<Rightarrow> byte list \<Rightarrow> byte \<Rightarrow> byte" where
  "byte_diff (a # as) (b # bs) diff = byte_diff as bs (diff OR (a XOR b))"
| "byte_diff _ _ diff = diff"

definition secure_byte_equal :: "byte list \<Rightarrow> byte list \<Rightarrow> nat \<Rightarrow> bool" where
  "secure_byte_equal a b n \<longleftrightarrow> byte_diff (take n a) (take n b) 0 = 0"

subsection \<open>The code computes the fold over the padded message\<close>

text \<open>
  A hash built from a compression function: the fold over the blocks of the message. The law says that
  whole blocks can be folded in as they come.
\<close>

locale merkle_damgard =
  fixes compress :: "'h \<Rightarrow> byte list \<Rightarrow> 'h" and iv :: 'h
begin

definition state :: "byte list \<Rightarrow> 'h" where
  "state m = foldl compress iv (blocks m)"

lemma state_blocks: "length m mod 64 = 0 \<Longrightarrow> length b = 64 \<Longrightarrow> state (m @ b) = compress (state m) b"
  using blocks_split [of m b] blocks_append [of b "[]"] by (simp add: state_def blocks_Nil)

lemma state_full: "state (full m) = state m"
  by (simp add: state_def blocks_full)

lemma state_pad:
  "state (pad m) =
     (let t = tail m; l = be64 (of_nat (8 * length m))
      in if length t < 56 then compress (state m) (t @ 0x80 # replicate (55 - length t) 0 @ l)
         else compress (compress (state m) (t @ 0x80 # replicate (63 - length t) 0)) (replicate 56 0 @ l))"
  by (simp add: state_def blocks_pad Let_def)

end

interpretation sha1: merkle_damgard ws_sha1_block sha1_iv .

interpretation sha2: merkle_damgard sha256_compress sha256_iv .

text \<open>The reference: FIPS 180 on the whole message, RFC 2104 on top of it.\<close>

definition sha1_spec :: "byte list \<Rightarrow> byte list" where
  "sha1_spec m = concat (map be32 (foldl ws_sha1_block sha1_iv (blocks (pad m))))"

definition sha256_spec :: "byte list \<Rightarrow> byte list" where
  "sha256_spec m = concat (map be32 (foldl sha256_compress sha256_iv (blocks (pad m))))"

definition hmac_spec :: "byte list \<Rightarrow> byte list \<Rightarrow> byte list" where
  "hmac_spec key msg =
     (let k = (if length key \<le> 64 then key else sha256_spec key); k0 = k @ replicate (64 - length k) 0
      in sha256_spec (map (\<lambda>b. b XOR 0x5c) k0 @ sha256_spec (map (\<lambda>b. b XOR 0x36) k0 @ msg)))"

subsection \<open>SHA-1 of the code\<close>

lemma upt_8: "[0..<8] = [0, 1, 2, 3, 4, 5, 6, 7 :: nat]"
  by (simp add: upt_rec)

lemma length_8: "length ys = 8 \<Longrightarrow> \<exists>a b c d e f g h. ys = [a, b, c, d, e, f, g, h]"
  by (auto simp: eval_nat_numeral length_Suc_conv)

lemma sha1_length_field_append:
  assumes "length xs = 56" and "length ys = 8"
  shows "sha1_length_field (xs @ ys) v = xs @ be64 v"
proof -
  obtain a b c d e f g h where "ys = [a, b, c, d, e, f, g, h]" using length_8 [OF assms(2)] by blast
  then show ?thesis using assms(1) by (simp add: sha1_length_field_def upt_8 be64_def list_update_append)
qed

lemma tail_short: "length m < 64 \<Longrightarrow> tail m = m"
  by (simp add: tail_def)

lemma tail_drop: "64 \<le> length m \<Longrightarrow> tail (drop 64 m) = tail m"
  by (simp add: tail_def le_mod_geq [of 64 "length m"])

lemma sha1_loop_spec:
  "sha1_loop h rest v =
     (let t = tail rest; s = foldl ws_sha1_block h (blocks rest)
      in if length t < 56 then ws_sha1_block s (t @ 0x80 # replicate (55 - length t) 0 @ be64 v)
         else ws_sha1_block (ws_sha1_block s (t @ 0x80 # replicate (63 - length t) 0)) (replicate 56 0 @ be64 v))"
proof (induction h rest v rule: sha1_loop.induct)
  case (1 h rest v)
  show ?case
  proof (cases "length rest < 64")
    case True
    have z: "replicate (64 - length rest) 0 = 0 # replicate (63 - length rest) (0::byte)"
      using True by (simp add: Suc_diff_Suc flip: replicate_Suc)
    have b: "(rest @ replicate (64 - length rest) 0)[length rest := 0x80] = rest @ 0x80 # replicate (63 - length rest) 0"
      unfolding z by simp
    show ?thesis
    proof (cases "length rest < 56")
      case small: True
      have "replicate (63 - length rest) (0::byte) = replicate (55 - length rest) 0 @ replicate 8 0"
        using small by (simp flip: replicate_add)
      then have "sha1_length_field (rest @ 0x80 # replicate (63 - length rest) 0) v = rest @ 0x80 # replicate (55 - length rest) 0 @ be64 v"
        using sha1_length_field_append [of "rest @ 0x80 # replicate (55 - length rest) 0" "replicate 8 0" v] small by simp
      then show ?thesis using True small
        by (simp add: sha1_loop.simps [of h rest] b tail_short blocks_Nil Let_def)
    next
      case False
      have "replicate 64 (0::byte) = replicate 56 0 @ replicate 8 0" by (simp flip: replicate_add)
      then have "sha1_length_field (replicate 64 0) v = replicate 56 0 @ be64 v"
        using sha1_length_field_append [of "replicate 56 0" "replicate 8 0" v] by simp
      then show ?thesis using True False
        by (simp add: sha1_loop.simps [of h rest] b tail_short blocks_Nil Let_def)
    qed
  next
    case False
    then have "sha1_loop h rest v = sha1_loop (ws_sha1_block h (take 64 rest)) (drop 64 rest) v"
      by (simp add: sha1_loop.simps [of h rest])
    moreover have "blocks rest = take 64 rest # blocks (drop 64 rest)" using False by (simp add: blocks.simps [of rest])
    ultimately show ?thesis using "1.IH" [OF refl False] False by (simp add: tail_drop)
  qed
qed

lemma http_ws_sha1_spec: "http_ws_sha1 m = sha1_spec m"
proof -
  have "sha1_loop sha1_iv m (of_nat (8 * length m)) = sha1.state (pad m)"
    unfolding sha1_loop_spec sha1.state_pad Let_def unfolding sha1.state_def ..
  then show ?thesis by (simp add: http_ws_sha1_def sha1_spec_def sha1.state_def)
qed

text \<open>
  the SHA-1 of the WebSocket handshake is the FIPS 180 fold of its compression function over the
  padded message, for every message length, the lengths whose padding takes a block of its own included.
\<close>

theorem http_ws_sha1_correct: "http_ws_sha1 m = sha1_spec m"
  by (rule http_ws_sha1_spec)

subsection \<open>SHA-256 of the code\<close>

lemma grow_tail:
  assumes "length (tail m) + length d < 64"
  shows "blocks (m @ d) = blocks m" and "tail (m @ d) = tail m @ d"
proof -
  have "blocks (full m @ (tail m @ d)) = blocks m"
    using blocks_split [OF length_full, of m "tail m @ d"] assms by (simp add: blocks_full blocks_Nil)
  then show "blocks (m @ d) = blocks m" using full_tail by (metis append.assoc)
  have "length (m @ d) mod 64 = length (tail m) + length d"
    using assms unfolding length_tail by (metis length_append mod_add_left_eq mod_less)
  then have "length (m @ d) - length (m @ d) mod 64 = length (full m)"
    using full_tail [of m] by (metis add_diff_cancel_right' append.assoc length_append)
  then show "tail (m @ d) = tail m @ d" unfolding tail_def [of "m @ d"] using full_tail [of m]
    by (metis append.assoc append_eq_conv_conj)
qed

lemma complete_tail:
  assumes "length (tail m) + length d = 64"
  shows "blocks (m @ d) = blocks m @ [tail m @ d]" and "tail (m @ d) = []"
proof -
  have "blocks (full m @ (tail m @ d)) = blocks m @ [tail m @ d]"
    using blocks_split [OF length_full, of m "tail m @ d"] blocks_append [of "tail m @ d" "[]"] assms
    by (simp add: blocks_full blocks_Nil)
  then show "blocks (m @ d) = blocks m @ [tail m @ d]" using full_tail by (metis append.assoc)
  have "length (m @ d) mod 64 = 0" using assms unfolding length_tail
    by (metis length_append mod_add_left_eq mod_self)
  then show "tail (m @ d) = []" by (simp add: tail_def)
qed

text \<open>The context after the bytes \<open>m\<close>.\<close>

definition ctx_for :: "byte list \<Rightarrow> sha256_ctx \<Rightarrow> bool" where
  "ctx_for m ctx \<longleftrightarrow> sha_h ctx = sha2.state m \<and> length (sha_block ctx) = 64 \<and> sha_used ctx = length (tail m)
     \<and> take (sha_used ctx) (sha_block ctx) = tail m"

lemma feed_ctx_for: "ctx_for m ctx \<Longrightarrow> ctx_for (m @ data) (sha256_feed ctx data) \<and> sha_bytes (sha256_feed ctx data) = sha_bytes ctx"
proof (induction ctx data arbitrary: m rule: sha256_feed.induct)
  case (1 ctx data)
  have used: "sha_used ctx = length (tail m)" "sha_used ctx < 64" "take (sha_used ctx) (sha_block ctx) = tail m"
      "length (sha_block ctx) = 64" "sha_h ctx = sha2.state m"
    using "1.prems" length_tail [of m] unfolding ctx_for_def by auto
  show ?case
  proof (cases "data = []")
    case True
    then show ?thesis using "1.prems" by (simp add: sha256_feed.simps)
  next
    case False
    then have go: "\<not> (data = [] \<or> sha_used ctx > 64)" using used(2) by simp
    define n where "n = (if length data > 64 - sha_used ctx then 64 - sha_used ctx else length data)"
    define block where "block = take (sha_used ctx) (sha_block ctx) @ take n data @ drop (sha_used ctx + n) (sha_block ctx)"
    define ctx1 where "ctx1 = ctx\<lparr>sha_block := block, sha_used := sha_used ctx + n\<rparr>"
    define ctx2 where "ctx2 = (if sha_used ctx1 = 64 then ctx1\<lparr>sha_h := sha256_compress (sha_h ctx1) block, sha_used := 0\<rparr> else ctx1)"
    have n: "n \<le> length data" "sha_used ctx + n \<le> 64" using used(2) by (auto simp: n_def)
    have b: "block = tail m @ take n data @ drop (sha_used ctx + n) (sha_block ctx)" by (simp add: block_def used(3))
    have len: "length block = 64" using n used by (simp add: b)
    have step: "sha256_feed ctx data = sha256_feed ctx2 (drop n data)"
      using go by (simp add: sha256_feed.simps [of ctx data] Let_def n_def block_def ctx1_def ctx2_def)
    have "ctx_for (m @ take n data) ctx2"
    proof (cases "sha_used ctx + n = 64")
      case True
      then have l: "length (tail m) + length (take n data) = 64" using n used by simp
      have "block = tail m @ take n data" using True used by (simp add: b)
      then show ?thesis using True complete_tail [OF l] len used
        by (simp add: ctx_for_def ctx2_def ctx1_def sha2.state_def)
    next
      case False
      then have l: "length (tail m) + length (take n data) < 64" using n used by simp
      show ?thesis using False grow_tail [OF l] len used n by (simp add: ctx_for_def ctx2_def ctx1_def sha2.state_def b)
    qed
    from "1.IH" [OF go n_def block_def ctx1_def ctx2_def this] show ?thesis
      unfolding step by (simp add: ctx2_def ctx1_def)
  qed
qed

lemma update_ctx_for:
  assumes "ctx_for m ctx" and "sha_bytes ctx = of_nat (length m)"
  shows "ctx_for (m @ data) (sha256_update ctx data) \<and> sha_bytes (sha256_update ctx data) = of_nat (length (m @ data))"
proof -
  have "ctx_for m (ctx\<lparr>sha_bytes := sha_bytes ctx + of_nat (length data)\<rparr>)" using assms(1) unfolding ctx_for_def by auto
  from feed_ctx_for [OF this, of data] show ?thesis using assms(2) by (simp add: sha256_update_def)
qed

lemma init_ctx_for: "length garbage = 64 \<Longrightarrow> ctx_for [] (sha256_init garbage) \<and> sha_bytes (sha256_init garbage) = of_nat (length [])"
  by (simp add: ctx_for_def sha256_init_def sha2.state_def blocks_Nil tail_def)

lemma length_field_append:
  assumes "length xs = 56" and "length ys = 8"
  shows "foldl (\<lambda>b i. b[56 + i := ucast (drop_bit (56 - 8 * i) v)]) (xs @ ys) [0..<8] = xs @ be64 (v :: u64)"
proof -
  obtain a b c d e f g h where "ys = [a, b, c, d, e, f, g, h]" using length_8 [OF assms(2)] by blast
  then show ?thesis using assms(1) by (simp add: upt_8 be64_def list_update_append)
qed

lemma padded_ctx_for:
  assumes "ctx_for m ctx" and "sha_bytes ctx = of_nat (length m)"
  shows "case sha256_padded ctx of (h, block) \<Rightarrow> sha256_compress h block = sha2.state (pad m) \<and> length block = 64"
proof -
  let ?t = "tail m"
  have used: "sha_used ctx = length ?t" "length ?t < 64" "take (length ?t) (sha_block ctx) = ?t"
      "length (sha_block ctx) = 64" "sha_h ctx = sha2.state m"
    using assms(1) length_tail [of m] unfolding ctx_for_def by auto
  obtain x xs where blk: "sha_block ctx = ?t @ x # xs" "length xs = 63 - length ?t"
  proof -
    have e: "sha_block ctx = ?t @ drop (length ?t) (sha_block ctx)" using used(3) by (metis append_take_drop_id)
    obtain x xs where d: "drop (length ?t) (sha_block ctx) = x # xs" using used by (cases "drop (length ?t) (sha_block ctx)") auto
    have "length xs = 63 - length ?t" using arg_cong [OF d, of length] used(4) by simp
    then show ?thesis using that e d by simp
  qed
  have bits: "sha_bytes ctx * 8 = of_nat (8 * length m)" using assms(2) by simp
  let ?l = "be64 (of_nat (8 * length m))"
  show ?thesis
  proof (cases "length ?t < 56")
    case True
    have p: "sha256_padded ctx = (sha2.state m, ?t @ 0x80 # replicate (55 - length ?t) 0 @ ?l)"
    proof -
      let ?xs = "?t @ 0x80 # replicate (55 - length ?t) 0"
      have "fill_zero ((sha_block ctx)[length ?t := 0x80]) (length ?t + 1) 56 = ?xs @ drop (55 - length ?t) xs"
        using True blk Suc_diff_le [of "length ?t" 55] by (simp add: fill_zero_def max_def drop_Cons')
      moreover have "length ?xs = 56" "length (drop (55 - length ?t) xs) = 8" using True blk by simp_all
      ultimately show ?thesis using True used length_field_append [of ?xs "drop (55 - length ?t) xs" "of_nat (8 * length m)"]
        unfolding sha256_padded_def bits by (simp add: Let_def)
    qed
    then show ?thesis using True by (simp add: sha2.state_pad Let_def length_be64)
  next
    case False
    have p: "sha256_padded ctx = (sha256_compress (sha2.state m) (?t @ 0x80 # replicate (63 - length ?t) 0), replicate 56 0 @ ?l)"
    proof -
      let ?b = "?t @ 0x80 # replicate (63 - length ?t) 0"
      have f: "fill_zero ((sha_block ctx)[length ?t := 0x80]) (length ?t + 1) 64 = ?b"
        using used(2) blk by (simp add: fill_zero_def max_def Suc_diff_Suc)
      have g: "fill_zero ?b 0 56 = replicate 56 0 @ drop 56 ?b" by (simp add: fill_zero_def)
      have "length (drop 56 ?b) = 8" using used(2) by simp
      then have "foldl (\<lambda>b i. b[56 + i := ucast (drop_bit (56 - 8 * i) (of_nat (8 * length m) :: u64))]) (fill_zero ?b 0 56) [0..<8] = replicate 56 0 @ ?l"
        unfolding g by (intro length_field_append) simp_all
      then show ?thesis using False used f unfolding sha256_padded_def bits by (simp add: Let_def)
    qed
    then show ?thesis using False by (simp add: sha2.state_pad Let_def length_be64)
  qed
qed

lemma final_ctx_for:
  assumes "ctx_for m ctx" and "sha_bytes ctx = of_nat (length m)"
  shows "sha256_final ctx = sha256_spec m"
  using padded_ctx_for [OF assms] by (simp add: sha256_final_def sha256_spec_def sha2.state_def store_be32_def [abs_def] split: prod.splits)

lemma sha256_spec_code: "length garbage = 64 \<Longrightarrow> sha256 garbage m = sha256_spec m"
  unfolding sha256_def using final_ctx_for update_ctx_for [OF conjunct1 conjunct2, OF init_ctx_for init_ctx_for] by fastforce

lemma two_updates:
  assumes "length garbage = 64"
  shows "sha256_final (sha256_update (sha256_update (sha256_init garbage) a) b) = sha256_spec (a @ b)"
    and "length (snd (sha256_padded (sha256_update (sha256_update (sha256_init garbage) a) b))) = 64"
proof -
  note i = init_ctx_for [OF assms]
  note u = update_ctx_for [OF conjunct1 [OF i] conjunct2 [OF i], of a]
  note v = update_ctx_for [OF conjunct1 [OF u] conjunct2 [OF u], of b]
  show "sha256_final (sha256_update (sha256_update (sha256_init garbage) a) b) = sha256_spec (a @ b)"
    using final_ctx_for [OF conjunct1 [OF v] conjunct2 [OF v]] by simp
  show "length (snd (sha256_padded (sha256_update (sha256_update (sha256_init garbage) a) b))) = 64"
    using padded_ctx_for [OF conjunct1 [OF v] conjunct2 [OF v]] by (simp split: prod.splits)
qed

lemma length_sha256_spec: "length (sha256_spec m) = 32"
proof -
  have r: "length (foldl (sha256_round w) h is) = 8" if "length h = 8" for w h "is"
    using that by (induction "is" arbitrary: h) (simp_all add: sha256_round_def Let_def)
  have "length (foldl sha256_compress h bs) = 8" if "length h = 8" for h bs
    using that by (induction bs arbitrary: h) (simp_all add: sha256_compress_def r)
  then have "length (foldl sha256_compress sha256_iv (blocks (pad m))) = 8" by (simp add: sha256_iv_def)
  moreover have "length (concat (map be32 hs)) = 4 * length hs" for hs by (induction hs) (simp_all add: be32_def)
  ultimately show ?thesis by (simp add: sha256_spec_def)
qed

lemma hmac_spec_code:
  assumes "length garbage = 64"
  shows "hmac_sha256 garbage key msg = hmac_spec key msg"
proof -
  have k: "hmac_key garbage key = (let k = (if length key \<le> 64 then key else sha256_spec key) in k @ replicate (64 - length k) 0)"
    using length_sha256_spec by (simp add: hmac_key_def Let_def sha256_spec_code [OF assms])
  show ?thesis unfolding hmac_sha256_def hmac_spec_def k Let_def
    by (subst two_updates(1) [OF two_updates(2) [OF assms]]) (simp add: two_updates(1) [OF assms])
qed

text \<open>
  C28: SHA-256 is the FIPS 180 fold over the padded message and HMAC-SHA256 is RFC 2104 on top of it, for
  every key and message length and whatever the block buffers held before: feeding a message in pieces
  to the streaming context makes no difference.
\<close>

theorem hmac_sha256_correct:
  assumes "length garbage = 64"
  shows "sha256 garbage m = sha256_spec m \<and> hmac_sha256 garbage key msg = hmac_spec key msg"
  using sha256_spec_code [OF assms] hmac_spec_code [OF assms] by blast

theorem hmac_sha256_correct_witness:
  "sha256 (replicate 64 0) [0x61, 0x62, 0x63] = sha256_spec [0x61, 0x62, 0x63]
     \<and> hmac_sha256 (replicate 64 0) (replicate 131 0xaa) [1, 2] = hmac_spec (replicate 131 0xaa) [1, 2]"
  by (rule hmac_sha256_correct) simp

lemma byte_diff_zero: "length a = length b \<Longrightarrow> byte_diff a b d = 0 \<longleftrightarrow> d = 0 \<and> a = b"
proof (induction a b d rule: byte_diff.induct)
  case (1 a as b bs diff)
  have "diff OR (a XOR b) = 0 \<longleftrightarrow> diff = 0 \<and> a = b" by (auto simp: or_eq_0_iff) (auto simp: bit_eq_iff bit_xor_iff)
  then show ?case using 1 by auto
qed auto

lemma secure_byte_equal_iff: "n \<le> length a \<Longrightarrow> n \<le> length b \<Longrightarrow> secure_byte_equal a b n \<longleftrightarrow> take n a = take n b"
  by (simp add: secure_byte_equal_def byte_diff_zero)

lemma hex_digest_length: "length garbage = 64 \<Longrightarrow> length (hmac_sha256_hex garbage key msg) = 64"
proof -
  assume g: "length garbage = 64"
  have "length (concat (map (\<lambda>b. [mac_digits ! unat (drop_bit 4 b), mac_digits ! unat (b AND 0x0f)]) bs)) = 2 * length bs" for bs :: "byte list"
    by (induction bs) simp_all
  then show ?thesis using hmac_spec_code [OF g] length_sha256_spec by (simp add: hmac_sha256_hex_def hmac_spec_def Let_def)
qed

end
