(* ===== verification/Sockets.thy ===== *)
theory Sockets
  imports Cweb_Prelude
begin

text \<open>
  \<open>net_send_all\<close> of \<open>src/http/net.c\<close>. The operating system is the argument \<open>accepts\<close>: the result of the \<open>n\<close>-th
  call of \<open>send\<close> on the socket, which never takes more than it is offered. The loop returns whether everything
  went out, how many calls have been made by then, and the bytes that are on the wire.
\<close>

function send_loop :: "(nat \<Rightarrow> int) \<Rightarrow> nat \<Rightarrow> char list \<Rightarrow> bool \<times> nat \<times> char list" where
  "send_loop accepts calls p =
     (if length p > 0
      then let sent = min (accepts calls) (int (length p)) in
           if sent \<le> 0 then (False, calls + 1, [])
           else (case send_loop accepts (calls + 1) (drop (nat sent) p) of
                   (ok, calls', wire) \<Rightarrow> (ok, calls', take (nat sent) p @ wire))
      else (True, calls, []))"
  by pat_completeness auto
termination
  by (relation "measure (\<lambda>(accepts, calls, p). length p)") auto

declare send_loop.simps [simp del]

text \<open>Nothing is invented or reordered: what is on the wire is a prefix of the data, all of it after success.\<close>

lemma send_loop_prefix: "send_loop accepts calls p = (ok, calls', w) \<Longrightarrow> \<exists>r. p = w @ r \<and> (ok \<longrightarrow> r = [])"
proof (induction accepts calls p arbitrary: ok calls' w rule: send_loop.induct)
  case (1 accepts calls p)
  let ?n = "nat (min (accepts calls) (int (length p)))"
  show ?case
  proof (cases "length p > 0 \<and> 0 < min (accepts calls) (int (length p))")
    case True
    obtain ok1 c1 w1 where r: "send_loop accepts (calls + 1) (drop ?n p) = (ok1, c1, w1)" by (metis surj_pair)
    then obtain r where "drop ?n p = w1 @ r \<and> (ok1 \<longrightarrow> r = [])" using "1.IH" True by fastforce
    moreover from this have "p = (take ?n p @ w1) @ r" by (metis append_assoc append_take_drop_id)
    moreover have "\<not> min (accepts calls) (int (length p)) \<le> 0" "length p > 0" using True by linarith+
    then have "ok = ok1" "w = take ?n p @ w1"
      using 1(2) r unfolding send_loop.simps [of accepts calls p] Let_def by simp_all
    ultimately show ?thesis by blast
  next
    case False
    then show ?thesis using 1(2) by (auto simp: send_loop.simps [of accepts calls p] Let_def split: if_splits)
  qed
qed

text \<open>As long as every call makes progress, everything is sent.\<close>

lemma send_loop_all:
  assumes "\<And>n. 0 < accepts n"
  shows "\<exists>calls'. send_loop accepts calls p = (True, calls', p)"
proof (induction "length p" arbitrary: calls p rule: less_induct)
  case less
  let ?n = "nat (min (accepts calls) (int (length p)))"
  show ?case
  proof (cases "p = []")
    case False
    then have n: "0 < min (accepts calls) (int (length p))" using assms [of calls] by simp
    then obtain calls' where "send_loop accepts (calls + 1) (drop ?n p) = (True, calls', drop ?n p)"
      using less [of "drop ?n p" "calls + 1"] by auto
    moreover have "take ?n p @ drop ?n p = p" by (rule append_take_drop_id)
    moreover have "\<not> min (accepts calls) (int (length p)) \<le> 0" using n by linarith
    ultimately show ?thesis using False unfolding send_loop.simps [of accepts calls p] Let_def by simp
  qed (simp add: send_loop.simps)
qed

end
