(* ===== verification/Websocket.thy ===== *)
theory Websocket
  imports Digests Codecs Http_Response Sockets
begin

text \<open>
  \<open>src/http/ws.c\<close>: the server side of RFC 6455. The socket is modelled by what the peer delivers, a list of
  chunks as the successive calls of \<open>net_recv\<close> would return them (an empty chunk is an orderly close, the end
  of the list a timeout or an error), by the bytes sent so far, and by the results of its calls of \<open>send\<close>
  (\<open>ws_accepts\<close>, with the number of calls made so far).
\<close>

record ws_conn =
  ws_rb :: read_buffer
  ws_incoming :: "char list list"
  ws_sent :: "char list"
  ws_calls :: nat
  ws_accepts :: "nat \<Rightarrow> int"

record ws_frame =
  wf_fin :: bool
  wf_opcode :: nat
  wf_payload_len :: nat

definition WS_OP_CONT :: nat where "WS_OP_CONT = 0x0"
definition WS_OP_TEXT :: nat where "WS_OP_TEXT = 0x1"
definition WS_OP_BIN :: nat where "WS_OP_BIN = 0x2"
definition WS_OP_CLOSE :: nat where "WS_OP_CLOSE = 0x8"
definition WS_OP_PING :: nat where "WS_OP_PING = 0x9"
definition WS_OP_PONG :: nat where "WS_OP_PONG = 0xa"

lemmas ws_ops = WS_OP_CONT_def WS_OP_TEXT_def WS_OP_BIN_def WS_OP_CLOSE_def WS_OP_PING_def WS_OP_PONG_def

subsection \<open>Receiving\<close>

function ws_ensure :: "ws_conn \<Rightarrow> nat \<Rightarrow> int \<times> ws_conn" where
  "ws_ensure conn need =
     (if \<not> length (rb_view (ws_rb conn)) < need then (0, conn)
      else
        case rb_write_head (ws_rb conn) of (off, room) \<Rightarrow>
          if room = 0 then (-1, conn)
          else
            case ws_incoming conn of
              [] \<Rightarrow> (-1, conn)
            | c # cs \<Rightarrow>
                if c = [] then (-1, conn\<lparr>ws_incoming := cs\<rparr>)
                else ws_ensure (conn\<lparr>ws_rb := rb_recv (ws_rb conn) c,
                                     ws_incoming := (if length c \<le> room then cs else drop room c # cs)\<rparr>) need)"
  by pat_completeness auto
termination
  by (relation "measure (\<lambda>(conn, need). length (concat (ws_incoming conn)))") auto

declare ws_ensure.simps [simp del]

text \<open>Reserved bits, reserved opcodes, fragmented or long control frames and unmasked frames are refused.\<close>

definition ws_head_refused :: "nat \<Rightarrow> nat \<Rightarrow> bool" where
  "ws_head_refused b0 b1 =
     (if b0 AND 0x70 \<noteq> 0 then True
      else
        let fin = (b0 AND 0x80 \<noteq> 0); opcode = b0 AND 0x0f; control = (opcode \<ge> 0x8)
        in if (if control then opcode \<noteq> WS_OP_CLOSE \<and> opcode \<noteq> WS_OP_PING \<and> opcode \<noteq> WS_OP_PONG
               else opcode \<noteq> WS_OP_CONT \<and> opcode \<noteq> WS_OP_TEXT \<and> opcode \<noteq> WS_OP_BIN) then True
           else if control \<and> (\<not> fin \<or> b1 AND 0x7f > 125) then True
           else b1 AND 0x80 = 0)"

text \<open>Size of the header and length of the payload.\<close>

definition ws_payload_length :: "ws_conn \<Rightarrow> nat \<Rightarrow> (nat \<times> nat) option \<times> ws_conn" where
  "ws_payload_length conn len =
     (if len = 126 then
        (case ws_ensure conn 4 of (rc, c1) \<Rightarrow>
           if rc \<noteq> 0 then (None, c1)
           else let v = rb_view (ws_rb c1) in (Some (4, push_bit 8 (ucode (v ! 2)) OR ucode (v ! 3)), c1))
      else if len = 127 then
        (case ws_ensure conn 10 of (rc, c1) \<Rightarrow>
           if rc \<noteq> 0 then (None, c1)
           else
             let v = rb_view (ws_rb c1)
             in if ucode (v ! 2) AND 0x80 \<noteq> 0 then (None, c1)
                else (Some (10, foldl (\<lambda>l i. push_bit 8 l OR ucode (v ! (2 + i))) 0 [0..<8]), c1))
      else (Some (2, len), conn))"

text \<open>A frame and its payload, or \<^const>\<open>None\<close> for -1. The code is 0 for a close frame and 1 otherwise.\<close>

definition http_ws_read_frame :: "ws_conn \<Rightarrow> nat \<Rightarrow> (ws_frame \<times> char list) option \<times> ws_conn" where
  "http_ws_read_frame conn payload_cap =
     (case ws_ensure conn 2 of (rc, c1) \<Rightarrow>
        if rc \<noteq> 0 then (None, c1)
        else
          let v = rb_view (ws_rb c1); b0 = ucode (v ! 0); b1 = ucode (v ! 1)
          in if ws_head_refused b0 b1 then (None, c1)
             else
               case ws_payload_length c1 (b1 AND 0x7f) of
                 (None, c2) \<Rightarrow> (None, c2)
               | (Some (hdr, len), c2) \<Rightarrow>
                   if len > payload_cap then (None, c2)
                   else
                     case ws_ensure c2 (hdr + 4 + len) of (rc, c3) \<Rightarrow>
                       if rc \<noteq> 0 then (None, c3)
                       else
                         let w = rb_view (ws_rb c3);
                             payload = map (\<lambda>i. char_of (ucode (w ! (hdr + 4 + i)) XOR ucode (w ! (hdr + (i AND 3))))) [0..<len]
                         in (Some (\<lparr>wf_fin = (b0 AND 0x80 \<noteq> 0), wf_opcode = b0 AND 0x0f, wf_payload_len = len\<rparr>, payload),
                             c3\<lparr>ws_rb := rb_discard (ws_rb c3) (hdr + 4 + len)\<rparr>))"

definition ws_code :: "(ws_frame \<times> char list) option \<Rightarrow> int" where
  "ws_code r = (case r of None \<Rightarrow> -1 | Some (f, p) \<Rightarrow> if wf_opcode f = WS_OP_CLOSE then 0 else 1)"

subsection \<open>Sending\<close>

definition net_send_all :: "ws_conn \<Rightarrow> char list \<Rightarrow> int \<times> ws_conn" where
  "net_send_all conn data =
     (case send_loop (ws_accepts conn) (ws_calls conn) data of
        (ok, calls, wire) \<Rightarrow>
          (if ok then int (length data) else -1, conn\<lparr>ws_sent := ws_sent conn @ wire, ws_calls := calls\<rparr>))"

definition ws_send_header :: "nat \<Rightarrow> nat \<Rightarrow> bool \<Rightarrow> char list" where
  "ws_send_header opcode len fin =
     char_of ((if fin then 0x80 else 0) OR (opcode AND 0x0f)) #
     (if len \<le> 125 then [char_of len]
      else if len \<le> 0xFFFF then [char_of (126 :: nat), char_of (drop_bit 8 len), char_of len]
      else char_of (127 :: nat) # map (\<lambda>i. char_of (drop_bit (56 - 8 * i) len)) [0..<8])"

definition http_ws_send :: "ws_conn \<Rightarrow> nat \<Rightarrow> char list \<Rightarrow> bool \<Rightarrow> int \<times> ws_conn" where
  "http_ws_send conn opcode payload fin =
     (case net_send_all conn (ws_send_header opcode (length payload) fin) of (rc, c1) \<Rightarrow>
        if rc < 0 then (-1, c1)
        else if length payload > 0
             then (case net_send_all c1 payload of (rc2, c2) \<Rightarrow> if rc2 < 0 then (-1, c2) else (0, c2))
             else (0, c1))"

definition http_ws_send_text :: "ws_conn \<Rightarrow> char list \<Rightarrow> int \<times> ws_conn" where
  "http_ws_send_text conn text = http_ws_send conn WS_OP_TEXT (c_str text) True"

definition http_ws_send_close :: "ws_conn \<Rightarrow> nat \<Rightarrow> int \<times> ws_conn" where
  "http_ws_send_close conn code = http_ws_send conn WS_OP_CLOSE [char_of (drop_bit 8 code), char_of code] True"

definition http_ws_send_pong :: "ws_conn \<Rightarrow> char list \<Rightarrow> int \<times> ws_conn" where
  "http_ws_send_pong conn payload = http_ws_send conn WS_OP_PONG payload True"

text \<open>
  The message loop over a callback that may use the connection and keeps a state of its own; a
  nonzero result of the callback ends the loop. \<^const>\<open>None\<close>: the loop does not return.
\<close>

partial_function (option) http_ws_loop ::
  "(ws_conn \<Rightarrow> ws_frame \<Rightarrow> char list \<Rightarrow> 'u \<Rightarrow> int \<times> ws_conn \<times> 'u) \<Rightarrow> ws_conn \<Rightarrow> nat \<Rightarrow> 'u \<Rightarrow> (int \<times> ws_conn \<times> 'u) option" where
  "http_ws_loop on_message conn buf_cap u =
     (case http_ws_read_frame conn buf_cap of
        (None, c1) \<Rightarrow> Some (-1, c1, u)
      | (Some (frame, buf), c1) \<Rightarrow>
          if wf_opcode frame = WS_OP_CLOSE then Some (0, snd (http_ws_send_close c1 1000), u)
          else if wf_opcode frame = WS_OP_PING then http_ws_loop on_message (snd (http_ws_send_pong c1 buf)) buf_cap u
          else if wf_opcode frame = WS_OP_PONG then http_ws_loop on_message c1 buf_cap u
          else case on_message c1 frame buf u of (rc, c2, u2) \<Rightarrow>
                 if rc \<noteq> 0 then Some (0, c2, u2) else http_ws_loop on_message c2 buf_cap u2)"

subsection \<open>The stream of a connection\<close>

text \<open>
  What the peer has sent and the server has not consumed: the staged bytes and the chunks to come. A healthy
  connection has a well-formed buffer and no end of stream ahead.
\<close>

definition ws_ok :: "ws_conn \<Rightarrow> bool" where
  "ws_ok conn \<longleftrightarrow> rb_inv (ws_rb conn) \<and> [] \<notin> set (ws_incoming conn)"

definition stream :: "ws_conn \<Rightarrow> char list" where
  "stream conn = rb_view (ws_rb conn) @ concat (ws_incoming conn)"

definition same_socket :: "ws_conn \<Rightarrow> ws_conn \<Rightarrow> bool" where
  "same_socket a b \<longleftrightarrow> ws_sent a = ws_sent b \<and> ws_calls a = ws_calls b \<and> ws_accepts a = ws_accepts b \<and> rb_capacity (ws_rb a) = rb_capacity (ws_rb b)"

lemma rb_capacity_recv [simp]: "rb_capacity (rb_recv b s) = rb_capacity b" "rb_capacity (rb_discard b n) = rb_capacity b"
  by (simp_all add: rb_recv_def rb_write_head_def rb_commit_def rb_discard_def Let_def)

lemma ws_ensure_ok:
  "ws_ok conn \<Longrightarrow> need \<le> length (stream conn) \<Longrightarrow> need \<le> rb_capacity (ws_rb conn) \<Longrightarrow>
   \<exists>c'. ws_ensure conn need = (0, c') \<and> ws_ok c' \<and> stream c' = stream conn \<and> need \<le> length (rb_view (ws_rb c')) \<and> same_socket c' conn"
proof (induction "length (concat (ws_incoming conn))" arbitrary: conn rule: less_induct)
  case (less conn)
  show ?case
  proof (cases "length (rb_view (ws_rb conn)) < need")
    case False
    then show ?thesis using less.prems by (simp add: ws_ensure.simps [of conn] same_socket_def)
  next
    case True
    have inv: "rb_inv (ws_rb conn)" using less.prems(1) by (simp add: ws_ok_def)
    let ?room = "rb_capacity (ws_rb conn) - rb_count (ws_rb conn)"
    have room: "?room \<noteq> 0" using True less.prems(3) length_rb_view [OF inv] by simp
    obtain c cs where c: "ws_incoming conn = c # cs" "c \<noteq> []"
      using True less.prems(1,2) by (cases "ws_incoming conn") (auto simp: stream_def ws_ok_def)
    let ?c = "conn\<lparr>ws_rb := rb_recv (ws_rb conn) c, ws_incoming := (if length c \<le> ?room then cs else drop ?room c # cs)\<rparr>"
    have step: "ws_ensure conn need = ws_ensure ?c need"
      using True room c by (simp add: ws_ensure.simps [of conn] rb_write_head_def)
    have ok: "ws_ok ?c" using less.prems(1) c rb.inv_fill [OF inv, of c] by (auto simp: ws_ok_def)
    have str: "stream ?c = stream conn" using c rb.contents_fill [OF inv, of c] by (simp add: stream_def)
    have "\<exists>c'. ws_ensure ?c need = (0, c') \<and> ws_ok c' \<and> stream c' = stream ?c \<and> need \<le> length (rb_view (ws_rb c')) \<and> same_socket c' ?c"
      using c room ok str less.prems(2,3) by (intro less.hyps) auto
    then show ?thesis unfolding step str by (auto simp: same_socket_def)
  qed
qed

lemma stream_nth: "i < length (rb_view (ws_rb c)) \<Longrightarrow> rb_view (ws_rb c) ! i = stream c ! i"
  by (simp add: stream_def nth_append)

lemma ws_discard:
  assumes "ws_ok c" and "n \<le> length (rb_view (ws_rb c))"
  shows "ws_ok (c\<lparr>ws_rb := rb_discard (ws_rb c) n\<rparr>)" "stream (c\<lparr>ws_rb := rb_discard (ws_rb c) n\<rparr>) = drop n (stream c)"
  using assms rb.contents_consume [of "ws_rb c" n] rb.inv_consume [of "ws_rb c" n] by (auto simp: ws_ok_def stream_def)

subsection \<open>Frames on the wire\<close>

text \<open>Big-endian numbers of \<open>k\<close> bytes.\<close>

fun be_bytes :: "nat \<Rightarrow> nat \<Rightarrow> char list" where
  "be_bytes 0 n = []"
| "be_bytes (Suc k) n = be_bytes k (n div 256) @ [char_of (n mod 256)]"

lemma length_be_bytes [simp]: "length (be_bytes k n) = k"
  by (induction k arbitrary: n) simp_all

lemma be_value: "foldl (\<lambda>l c. push_bit 8 l OR ucode c) 0 (be_bytes k n) = n mod 256 ^ k"
proof (induction k arbitrary: n)
  case (Suc k)
  have "n div 256 mod 256 ^ k * 256 + n mod 256 = n mod (256 * 256 ^ k)" by (simp add: mod_mult2_eq)
  then show ?case using push_bit_or_eq_add [of "n mod 256" 8 "n div 256 mod 256 ^ k"] by (simp add: Suc)
qed simp

definition len_field :: "nat \<Rightarrow> nat \<Rightarrow> char list" where
  "len_field mask_bit n =
     (if n \<le> 125 then [char_of (mask_bit + n)]
      else if n \<le> 0xFFFF then char_of (mask_bit + 126) # be_bytes 2 n
      else char_of (mask_bit + 127) # be_bytes 8 n)"

lemma be_bytes_map: "be_bytes k n = map (\<lambda>i. char_of (drop_bit (8 * (k - 1 - i)) n)) [0..<k]"
proof (induction k arbitrary: n)
  case (Suc k)
  have "drop_bit (8 * (k - 1 - i)) (n div 256) = drop_bit (8 * (k - i)) n" if "i < k" for i
  proof -
    have "8 * (k - i) = 8 + 8 * (k - 1 - i)" using that by simp
    then show ?thesis by (simp add: drop_bit_eq_div power_add div_mult2_eq)
  qed
  moreover have "char_of (n mod 256) = (char_of n :: char)" by (simp add: char_of_mod_256)
  ultimately show ?case by (simp add: Suc)
qed simp

lemma be_bytes_8: "be_bytes 8 n = map (\<lambda>i. char_of (drop_bit (56 - 8 * i) n)) [0..<8]"
  unfolding be_bytes_map by (rule map_cong) (auto simp: algebra_simps)

text \<open>A frame of a client: masked, with the shortest length field.\<close>

definition mask_bytes :: "char list \<Rightarrow> char list \<Rightarrow> char list" where
  "mask_bytes key p = map (\<lambda>i. char_of (ucode (p ! i) XOR ucode (key ! (i mod 4)))) [0..<length p]"

definition client_frame :: "bool \<Rightarrow> nat \<Rightarrow> char list \<Rightarrow> char list \<Rightarrow> char list" where
  "client_frame fin op key payload =
     char_of ((if fin then 128 else 0) + op) # len_field 128 (length payload) @ key @ mask_bytes key payload"

definition frame_ok :: "bool \<Rightarrow> nat \<Rightarrow> char list \<Rightarrow> char list \<Rightarrow> bool" where
  "frame_ok fin op key payload \<longleftrightarrow> length key = 4 \<and> length payload < 2 ^ 63
     \<and> (op \<in> {WS_OP_CONT, WS_OP_TEXT, WS_OP_BIN} \<or> op \<in> {WS_OP_CLOSE, WS_OP_PING, WS_OP_PONG} \<and> fin \<and> length payload \<le> 125)"

lemma length_mask_bytes [simp]: "length (mask_bytes key p) = length p"
  by (simp add: mask_bytes_def)

lemma head_byte:
  assumes "frame_ok fin op key payload"
  shows "ucode (char_of ((if fin then 128 else 0) + op)) = (if fin then 128 else 0) + op"
    "((if fin then 128 else 0) + op) AND 0x70 = 0" "((if fin then 128 else 0) + op) AND 0x0f = op"
    "((if fin then 128 else 0) + op) AND 0x80 \<noteq> 0 \<longleftrightarrow> fin"
proof -
  have op: "op \<in> {0, 1, 2, 8, 9, 10}" using assms by (auto simp: frame_ok_def ws_ops)
  then have l: "op < 16" by auto
  show "ucode (char_of ((if fin then 128 else 0) + op)) = (if fin then 128 else 0) + op" using l by simp
  have "\<forall>op \<in> {0, 1, 2, 8, 9, 10 :: nat}. op AND 0x70 = 0 \<and> (128 + op) AND 0x70 = 0" by simp
  then show "((if fin then 128 else 0) + op) AND 0x70 = 0" using op by (cases fin) auto
  show "((if fin then 128 else 0) + op) AND 0x0f = op"
    using l and_mask_nat [of op 4] and_mask_nat [of "128 + op" 4] mod_mult_self2 [of op 16 8] by (cases fin) (simp_all add: add.commute)
  show "((if fin then 128 else 0) + op) AND 0x80 \<noteq> 0 \<longleftrightarrow> fin" using l and_128 [of op] by (cases fin) simp_all
qed

lemma head_accepted:
  assumes "frame_ok fin op key payload" and "l < 128" and "l = length payload \<or> 125 < length payload"
  shows "\<not> ws_head_refused ((if fin then 128 else 0) + op) (128 + l)"
proof -
  have m: "(128 + l) AND 0x7f = l" using assms(2) by (simp add: seven_bits)
  have op: "op \<in> {WS_OP_CONT, WS_OP_TEXT, WS_OP_BIN} \<and> op < 8 \<or> op \<in> {WS_OP_CLOSE, WS_OP_PING, WS_OP_PONG} \<and> 8 \<le> op \<and> fin \<and> l \<le> 125"
    using assms(1,3) by (auto simp: frame_ok_def ws_ops)
  have n: "(128 + l) AND 0x80 \<noteq> 0" using assms(2) by (rule and_128)
  show ?thesis unfolding ws_head_refused_def Let_def head_byte(2-4) [OF assms(1)] m using op n by auto
qed

lemma unmask: "i < length p \<Longrightarrow> char_of (ucode (mask_bytes key p ! i) XOR ucode (key ! (i mod 4))) = p ! i"
proof -
  assume i: "i < length p"
  have "ucode a XOR ucode b < 256" for a b :: char
  proof -
    have "take_bit 8 (ucode c) = ucode c" for c :: char by (simp add: take_bit_nat_eq_self)
    then have "take_bit 8 (ucode a XOR ucode b) = ucode a XOR ucode b" by (simp add: take_bit_xor)
    then show ?thesis using take_bit_nat_less_exp [of 8 "ucode a XOR ucode b"] by simp
  qed
  then show ?thesis using i by (simp add: mask_bytes_def xor.assoc)
qed

subsection \<open>Reading what a client sent\<close>

text \<open>The header of a frame, as \<open>read_frame\<close> sees it: size of the length field and payload length.\<close>

lemma length_len_field: "length (len_field m n) = (if n \<le> 125 then 1 else if n \<le> 0xFFFF then 3 else 9)"
  by (simp add: len_field_def)

lemma payload_length_ok:
  assumes "ws_ok c" and "stream c = b # len_field 128 n @ rest" and "n < 2 ^ 63"
    and cap: "1 + length (len_field 128 n) \<le> rb_capacity (ws_rb c)"
  shows "\<exists>c'. ws_payload_length c (if n \<le> 125 then n else if n \<le> 0xFFFF then 126 else 127)
      = (Some (1 + length (len_field 128 n), n), c') \<and> ws_ok c' \<and> stream c' = stream c \<and> same_socket c' c"
proof -
  consider (small) "n \<le> 125" | (mid) "125 < n" "n \<le> 0xFFFF" | (big) "0xFFFF < n" by linarith
  then show ?thesis
  proof cases
    case small
    then show ?thesis using assms(1) by (simp add: ws_payload_length_def length_len_field same_socket_def)
  next
    case mid
    then have f: "len_field 128 n = char_of (254 :: nat) # be_bytes 2 n" by (simp add: len_field_def)
    obtain c' where c': "ws_ensure c 4 = (0, c')" "ws_ok c'" "stream c' = stream c" "4 \<le> length (rb_view (ws_rb c'))" "same_socket c' c"
      using ws_ensure_ok [OF assms(1), of 4] assms(2) cap mid f by auto
    have v: "rb_view (ws_rb c') ! 2 = be_bytes 2 n ! 0" "rb_view (ws_rb c') ! 3 = be_bytes 2 n ! 1"
      using c'(3,4) stream_nth [of 2 c'] stream_nth [of 3 c'] assms(2) f by (simp_all add: nth_append)
    have "n div 256 < 256" using mid by (simp add: less_mult_imp_div_less)
    moreover have "be_bytes 2 n = [char_of (n div 256 mod 256), char_of (n mod 256)]" by (simp add: numeral_2_eq_2)
    ultimately have "push_bit 8 (ucode (be_bytes 2 n ! 0)) OR ucode (be_bytes 2 n ! 1) = n"
      using push_bit_or_eq_add [of "n mod 256" 8 "n div 256"] by simp
    then show ?thesis using mid c' v f by (simp add: ws_payload_length_def)
  next
    case big
    then have f: "len_field 128 n = char_of (255 :: nat) # be_bytes 8 n" by (simp add: len_field_def)
    obtain c' where c': "ws_ensure c 10 = (0, c')" "ws_ok c'" "stream c' = stream c" "10 \<le> length (rb_view (ws_rb c'))" "same_socket c' c"
      using ws_ensure_ok [OF assms(1), of 10] assms(2) cap big f by auto
    have v: "rb_view (ws_rb c') ! (2 + i) = be_bytes 8 n ! i" if "i < 8" for i
      using c'(3,4) stream_nth [of "2 + i" c'] assms(2) f that by (simp add: nth_append)
    have eight: "map (\<lambda>i. rb_view (ws_rb c') ! (2 + i)) [0..<8] = be_bytes 8 n"
      using v by (intro nth_equalityI) simp_all
    have val: "foldl (\<lambda>l i. push_bit 8 l OR ucode (rb_view (ws_rb c') ! (2 + i))) 0 [0..<8] = n"
    proof -
      have "foldl (\<lambda>l c. push_bit 8 l OR ucode c) 0 (map (\<lambda>i. rb_view (ws_rb c') ! (2 + i)) [0..<8]) = n mod 256 ^ 8"
        unfolding eight by (rule be_value)
      moreover have "n mod 256 ^ 8 = n" using assms(3) by (simp add: mod_less)
      ultimately show ?thesis by (simp only: foldl_map)
    qed
    have "drop_bit 56 n < 128" using assms(3) by (simp add: drop_bit_eq_div less_mult_imp_div_less)
    then have "ucode (be_bytes 8 n ! 0) AND 0x80 = 0" by (intro and_128) (simp add: be_bytes_8)
    then show ?thesis using big c' v [of 0] val f by (simp add: ws_payload_length_def)
  qed
qed

lemma read_frame_ok:
  assumes ok: "ws_ok c" and f: "frame_ok fin op key payload"
    and str: "stream c = client_frame fin op key payload @ rest"
    and cap: "length payload \<le> payload_cap" "length (client_frame fin op key payload) \<le> rb_capacity (ws_rb c)"
  shows "\<exists>c'. http_ws_read_frame c payload_cap =
      (Some (\<lparr>wf_fin = fin, wf_opcode = op, wf_payload_len = length payload\<rparr>, payload), c')
    \<and> ws_ok c' \<and> stream c' = rest \<and> same_socket c' c"
proof -
  let ?n = "length payload"
  define b0 where "b0 = (if fin then 128 else 0) + op"
  note hb = head_byte [OF f, folded b0_def]
  define l where "l = (if ?n \<le> 125 then ?n else if ?n \<le> 0xFFFF then 126 else 127)"
  define lf where "lf = len_field 128 ?n"
  define hdr where "hdr = 1 + length lf"
  have l: "l < 128" "l = ?n \<or> 125 < ?n" by (auto simp: l_def)
  have key: "length key = 4" and n: "?n < 2 ^ 63" using f by (simp_all add: frame_ok_def)
  have lf: "lf \<noteq> []" "ucode (lf ! 0) = 128 + l" by (auto simp: lf_def len_field_def l_def)
  have frame: "stream c = char_of b0 # lf @ key @ mask_bytes key payload @ rest"
    using str by (simp add: client_frame_def lf_def b0_def)
  have len: "length (client_frame fin op key payload) = hdr + 4 + ?n" by (simp add: client_frame_def hdr_def lf_def key)
  obtain c1 where c1: "ws_ensure c 2 = (0, c1)" "ws_ok c1" "stream c1 = stream c" "2 \<le> length (rb_view (ws_rb c1))" "same_socket c1 c"
    using ws_ensure_ok [OF ok, of 2] cap(2) lf(1) unfolding len frame hdr_def by (cases lf) (auto simp: key)
  have v: "ucode (rb_view (ws_rb c1) ! 0) = b0" "ucode (rb_view (ws_rb c1) ! 1) = 128 + l"
  proof -
    have "0 < length (rb_view (ws_rb c1))" "1 < length (rb_view (ws_rb c1))" using c1(4) by linarith+
    from this [THEN stream_nth] show "ucode (rb_view (ws_rb c1) ! 0) = b0" "ucode (rb_view (ws_rb c1) ! 1) = 128 + l"
      using c1(3) lf hb(1) by (simp_all add: frame nth_append)
  qed
  have m: "(128 + l) AND 0x7f = l" using l(1) by (simp add: seven_bits)
  have sock1: "rb_capacity (ws_rb c1) = rb_capacity (ws_rb c)" using c1(5) by (simp add: same_socket_def)
  obtain c2 where c2: "ws_payload_length c1 l = (Some (hdr, ?n), c2)" "ws_ok c2" "stream c2 = stream c1" "same_socket c2 c1"
    using payload_length_ok [OF c1(2) _ n, of "char_of b0" "key @ mask_bytes key payload @ rest"] c1(3) frame cap(2) sock1
    unfolding len l_def hdr_def lf_def by fastforce
  have sock2: "rb_capacity (ws_rb c2) = rb_capacity (ws_rb c)" using c2(4) sock1 by (simp add: same_socket_def)
  obtain c3 where c3: "ws_ensure c2 (hdr + 4 + ?n) = (0, c3)" "ws_ok c3" "stream c3 = stream c2" "hdr + 4 + ?n \<le> length (rb_view (ws_rb c3))" "same_socket c3 c2"
    using ws_ensure_ok [OF c2(2), of "hdr + 4 + ?n"] c2(3) c1(3) frame cap(2) sock2 unfolding len hdr_def by (auto simp: key)
  have s3: "stream c3 = (char_of b0 # lf) @ key @ mask_bytes key payload @ rest" using c3(3) c2(3) c1(3) frame by simp
  have w: "rb_view (ws_rb c3) ! (hdr + 4 + i) = mask_bytes key payload ! i" if "i < ?n" for i
    using stream_nth [of "hdr + 4 + i" c3] c3(4) that key by (simp add: s3 hdr_def nth_append)
  have k: "rb_view (ws_rb c3) ! (hdr + (i AND 3)) = key ! (i mod 4)" for i
  proof -
    have "i AND 3 = i mod 4" using and_mask_nat [of i 2] by simp
    then show ?thesis using stream_nth [of "hdr + i mod 4" c3] c3(4) key by (simp add: s3 hdr_def nth_append)
  qed
  have p: "map (\<lambda>i. char_of (ucode (rb_view (ws_rb c3) ! (hdr + 4 + i)) XOR ucode (rb_view (ws_rb c3) ! (hdr + (i AND 3))))) [0..<?n] = payload"
    by (rule nth_equalityI) (simp_all add: w k unmask)
  let ?c = "c3\<lparr>ws_rb := rb_discard (ws_rb c3) (hdr + 4 + ?n)\<rparr>"
  have "http_ws_read_frame c payload_cap = (Some (\<lparr>wf_fin = fin, wf_opcode = op, wf_payload_len = ?n\<rparr>, payload), ?c)"
    unfolding http_ws_read_frame_def c1(1) prod.case v m Let_def c2(1)
    using head_accepted [OF f l, folded b0_def] cap(1) c3(1) p hb(3,4) by simp
  moreover have "ws_ok ?c" "stream ?c = rest"
  proof -
    have "drop (hdr + 4 + ?n) (stream c3) = drop (hdr + 4 + ?n) (((char_of b0 # lf) @ key @ mask_bytes key payload) @ rest)"
      by (simp add: s3)
    also have "\<dots> = rest" unfolding drop_append by (simp add: hdr_def key)
    finally show "ws_ok ?c" "stream ?c = rest" using ws_discard [OF c3(2,4)] by simp_all
  qed
  moreover have "same_socket ?c c" using c1(5) c2(4) c3(5) by (simp add: same_socket_def)
  ultimately show ?thesis by blast
qed

text \<open>
  a frame that a client sends, in whatever pieces the network delivers it, is read back exactly:
  opcode, FIN bit and unmasked payload, and the bytes behind it stay in the stream. Lengths of all three
  encodings are covered; the frame has to fit the receive buffer and the payload the caller's buffer.
\<close>

theorem ws_frame_round_trip:
  assumes "ws_ok c" and "frame_ok fin op key payload" and "stream c = client_frame fin op key payload @ rest"
    and "length payload \<le> payload_cap" and "length (client_frame fin op key payload) \<le> rb_capacity (ws_rb c)"
  shows "\<exists>c'. http_ws_read_frame c payload_cap =
      (Some (\<lparr>wf_fin = fin, wf_opcode = op, wf_payload_len = length payload\<rparr>, payload), c')
    \<and> ws_ok c' \<and> stream c' = rest \<and> ws_sent c' = ws_sent c"
  using read_frame_ok [OF assms] by (auto simp: same_socket_def)

theorem ws_frame_round_trip_witness:
  "\<exists>c'. http_ws_read_frame \<lparr>ws_rb = rb_init 64, ws_incoming = [[CHR 0x81], [CHR 0x82, CHR 0x11, CHR 0x12], [CHR 0x13, CHR 0x14, CHR 0x59, CHR 0x7b, CHR 0x88]], ws_sent = [], ws_calls = 0, ws_accepts = (\<lambda>n. 1)\<rparr> 16 =
      (Some (\<lparr>wf_fin = True, wf_opcode = WS_OP_TEXT, wf_payload_len = length ''Hi''\<rparr>, ''Hi''), c')
    \<and> ws_ok c' \<and> stream c' = [CHR 0x88] \<and> ws_sent c' = ws_sent \<lparr>ws_rb = rb_init 64, ws_incoming = [[CHR 0x81], [CHR 0x82, CHR 0x11, CHR 0x12], [CHR 0x13, CHR 0x14, CHR 0x59, CHR 0x7b, CHR 0x88]], ws_sent = [], ws_calls = 0, ws_accepts = (\<lambda>n. 1)\<rparr>"
proof (rule ws_frame_round_trip [where key = "[CHR 0x11, CHR 0x12, CHR 0x13, CHR 0x14]"])
  have f: "client_frame True WS_OP_TEXT [CHR 0x11, CHR 0x12, CHR 0x13, CHR 0x14] ''Hi''
      = [CHR 0x81, CHR 0x82, CHR 0x11, CHR 0x12, CHR 0x13, CHR 0x14, CHR 0x59, CHR 0x7b]"
    by (simp add: client_frame_def len_field_def mask_bytes_def WS_OP_TEXT_def upt_rec char_of_def bit_Suc_0_iff)
  show "stream \<lparr>ws_rb = rb_init 64, ws_incoming = [[CHR 0x81], [CHR 0x82, CHR 0x11, CHR 0x12], [CHR 0x13, CHR 0x14, CHR 0x59, CHR 0x7b, CHR 0x88]], ws_sent = [], ws_calls = 0, ws_accepts = (\<lambda>n. 1)\<rparr>
      = client_frame True WS_OP_TEXT [CHR 0x11, CHR 0x12, CHR 0x13, CHR 0x14] ''Hi'' @ [CHR 0x88]"
    unfolding f by (simp add: stream_def)
  show "length (client_frame True WS_OP_TEXT [CHR 0x11, CHR 0x12, CHR 0x13, CHR 0x14] ''Hi'')
      \<le> rb_capacity (ws_rb \<lparr>ws_rb = rb_init 64, ws_incoming = [[CHR 0x81], [CHR 0x82, CHR 0x11, CHR 0x12], [CHR 0x13, CHR 0x14, CHR 0x59, CHR 0x7b, CHR 0x88]], ws_sent = [], ws_calls = 0, ws_accepts = (\<lambda>n. 1)\<rparr>)"
    unfolding f by (simp add: rb_init_def)
qed (simp_all add: ws_ok_def frame_ok_def)

subsection \<open>Sending and the conversation\<close>

definition server_frame :: "bool \<Rightarrow> nat \<Rightarrow> char list \<Rightarrow> char list" where
  "server_frame fin op payload = char_of ((if fin then 128 else 0) + op) # len_field 0 (length payload) @ payload"

lemma ws_send_header_frame:
  assumes "op < 16"
  shows "ws_send_header op (length p) fin @ p = server_frame fin op p"
proof -
  have "op AND 0x0f = op" using and_mask_nat [of op 4] assms by simp
  moreover have "128 OR op = 128 + op" using push_bit_or_eq_add [of op 7 1] assms by (simp add: push_bit_eq_mult)
  moreover have "be_bytes 2 n = [char_of (drop_bit 8 n), char_of n]" for n
    by (simp add: be_bytes_map upt_rec)
  ultimately show ?thesis by (simp add: ws_send_header_def server_frame_def len_field_def be_bytes_8)
qed

lemma ws_send_ok:
  assumes "\<And>n. 0 < ws_accepts c n" and "op < 16"
  shows "\<exists>k. http_ws_send c op p fin = (0, c\<lparr>ws_sent := ws_sent c @ server_frame fin op p, ws_calls := k\<rparr>)"
proof -
  let ?h = "ws_send_header op (length p) fin"
  obtain k1 where k1: "send_loop (ws_accepts c) (ws_calls c) ?h = (True, k1, ?h)" using send_loop_all [of "ws_accepts c", OF assms(1)] by blast
  obtain k2 where k2: "send_loop (ws_accepts c) k1 p = (True, k2, p)" using send_loop_all [of "ws_accepts c", OF assms(1)] by blast
  show ?thesis using k1 k2
    by (auto simp: http_ws_send_def net_send_all_def simp flip: ws_send_header_frame [OF assms(2), of p fin])
qed

text \<open>
  A message of the client: FIN bit, opcode, masking key and payload. Pings are answered, pongs are dropped,
  everything else goes to the callback.
\<close>

type_synonym ws_msg = "bool \<times> nat \<times> char list \<times> char list"

fun wire :: "ws_msg \<Rightarrow> char list" where
  "wire (fin, op, key, p) = client_frame fin op key p"

fun msg_ok :: "nat \<Rightarrow> nat \<Rightarrow> ws_msg \<Rightarrow> bool" where
  "msg_ok cap room (fin, op, key, p) \<longleftrightarrow>
     frame_ok fin op key p \<and> op \<noteq> WS_OP_CLOSE \<and> length p \<le> cap \<and> length (client_frame fin op key p) \<le> room"

fun reply :: "ws_msg \<Rightarrow> char list" where
  "reply (fin, op, key, p) = (if op = WS_OP_PING then server_frame True WS_OP_PONG p else [])"

fun hand_over :: "(ws_frame \<Rightarrow> char list \<Rightarrow> 'u \<Rightarrow> 'u) \<Rightarrow> 'u \<Rightarrow> ws_msg \<Rightarrow> 'u" where
  "hand_over upd u (fin, op, key, p) =
     (if op = WS_OP_PING \<or> op = WS_OP_PONG then u
      else upd \<lparr>wf_fin = fin, wf_opcode = op, wf_payload_len = length p\<rparr> p u)"

lemma op_small: "frame_ok fin op key p \<Longrightarrow> op < 16"
  by (auto simp: frame_ok_def ws_ops)

lemma ws_conversation_steps:
  assumes close: "frame_ok True WS_OP_CLOSE ckey cp" "length cp \<le> cap" "length (client_frame True WS_OP_CLOSE ckey cp) \<le> room"
  shows "ws_ok c \<Longrightarrow> rb_capacity (ws_rb c) = room \<Longrightarrow> list_all (msg_ok cap room) ms \<Longrightarrow>
    stream c = concat (map wire ms) @ client_frame True WS_OP_CLOSE ckey cp @ rest \<Longrightarrow>
    (\<And>n. 0 < ws_accepts c n) \<Longrightarrow>
    \<exists>c'. http_ws_loop (\<lambda>c f b u. (0, c, upd f b u)) c cap u = Some (0, c', foldl (hand_over upd) u ms)
      \<and> ws_sent c' = ws_sent c @ concat (map reply ms) @ server_frame True WS_OP_CLOSE [CHR 0x03, CHR 0xe8] \<and> stream c' = rest"
proof (induction ms arbitrary: c u)
  case Nil
  obtain c1 where c1: "http_ws_read_frame c cap = (Some (\<lparr>wf_fin = True, wf_opcode = WS_OP_CLOSE, wf_payload_len = length cp\<rparr>, cp), c1)"
      "ws_ok c1" "stream c1 = rest" "same_socket c1 c"
    using read_frame_ok [OF Nil.prems(1) close(1), of rest cap] Nil.prems close by auto
  have "0 < ws_accepts c1 n" for n using Nil.prems(5) c1(4) by (simp add: same_socket_def)
  from ws_send_ok [OF this, of WS_OP_CLOSE "[CHR 0x03, CHR 0xe8]" True]
  obtain k where s: "http_ws_send_close c1 1000 = (0, c1\<lparr>ws_sent := ws_sent c1 @ server_frame True WS_OP_CLOSE [CHR 0x03, CHR 0xe8], ws_calls := k\<rparr>)"
    by (auto simp: http_ws_send_close_def ws_ops char_of_def bit_Suc_0_iff drop_bit_eq_div)
  show ?case using c1 s by (simp add: http_ws_loop.simps [of _ c] same_socket_def stream_def)
next
  case (Cons m ms)
  obtain fin op key p where m: "m = (fin, op, key, p)" by (metis surj_pair)
  have f: "frame_ok fin op key p" "op \<noteq> WS_OP_CLOSE" "length p \<le> cap" "length (client_frame fin op key p) \<le> room"
    and ms: "list_all (msg_ok cap room) ms" using Cons.prems(3) m by simp_all
  let ?f = "\<lparr>wf_fin = fin, wf_opcode = op, wf_payload_len = length p\<rparr>"
  let ?s = "concat (map wire ms) @ client_frame True WS_OP_CLOSE ckey cp @ rest"
  obtain c1 where c1: "http_ws_read_frame c cap = (Some (?f, p), c1)" "ws_ok c1" "stream c1 = ?s" "same_socket c1 c"
    using read_frame_ok [OF Cons.prems(1) f(1), of ?s cap] Cons.prems(2,4) f m by auto
  have o1: "\<And>n. 0 < ws_accepts c1 n" "ws_sent c1 = ws_sent c" "rb_capacity (ws_rb c1) = room"
    using c1(4) Cons.prems(2,5) by (simp_all add: same_socket_def)
  show ?case
  proof (cases "op = WS_OP_PING")
    case True
    obtain c2 k where c2: "http_ws_send_pong c1 p = (0, c2)" "c2 = c1\<lparr>ws_sent := ws_sent c1 @ server_frame True WS_OP_PONG p, ws_calls := k\<rparr>"
      using ws_send_ok [OF o1(1), of WS_OP_PONG p True] by (auto simp: http_ws_send_pong_def ws_ops)
    have "\<exists>c'. http_ws_loop (\<lambda>c f b u. (0, c, upd f b u)) c2 cap u = Some (0, c', foldl (hand_over upd) u ms)
      \<and> ws_sent c' = ws_sent c2 @ concat (map reply ms) @ server_frame True WS_OP_CLOSE [CHR 0x03, CHR 0xe8] \<and> stream c' = rest"
      by (rule Cons.IH) (use c1 c2 o1 ms in \<open>auto simp: ws_ok_def stream_def\<close>)
    then show ?thesis using c1(1) c2 True o1 by (auto simp: http_ws_loop.simps [of _ c] m ws_ops)
  next
    case noping: False
    let ?u = "if op = WS_OP_PONG then u else upd ?f p u"
    have "\<exists>c'. http_ws_loop (\<lambda>c f b u. (0, c, upd f b u)) c1 cap ?u = Some (0, c', foldl (hand_over upd) ?u ms)
      \<and> ws_sent c' = ws_sent c1 @ concat (map reply ms) @ server_frame True WS_OP_CLOSE [CHR 0x03, CHR 0xe8] \<and> stream c' = rest"
      by (rule Cons.IH) (use c1 o1 ms in auto)
    then show ?thesis using c1(1) noping f(2) o1 by (auto simp: http_ws_loop.simps [of _ c] m)
  qed
qed


definition demo_conn :: ws_conn where
  "demo_conn = \<lparr>ws_rb = rb_init 64, ws_incoming = [client_frame True WS_OP_PING ''abcd'' ''x'' @ client_frame True WS_OP_CLOSE ''abcd'' []],
     ws_sent = [], ws_calls = 0, ws_accepts = (\<lambda>n. 3)\<rparr>"


subsection \<open>The handshake\<close>

definition WS_GUID :: "char list" where
  "WS_GUID = ''258EAFA5-E914-47DA-95CA-C5AB0DC85B11''"

definition ascii_lower :: "char \<Rightarrow> char" where
  "ascii_lower c = (if 65 \<le> ucode c \<and> ucode c \<le> 90 then char_of (ucode c + 32) else c)"

fun token_loop :: "sv list \<Rightarrow> sv \<Rightarrow> bool" where
  "token_loop [] token = False"
| "token_loop (piece # rest) token =
     (let part = sv_trim piece
      in if length part = length token \<and> list_all2 (\<lambda>a b. ascii_lower a = ascii_lower b) part token then True
         else token_loop rest token)"

definition ws_header_has_token :: "http_request \<Rightarrow> char list \<Rightarrow> char list \<Rightarrow> bool" where
  "ws_header_has_token req name token =
     (case http_request_get_header req name of
        None \<Rightarrow> False
      | Some value \<Rightarrow> token_loop (sv_pieces value (CHR '','')) (c_str token))"

text \<open>
  \<open>ws_trampoline\<close>: the connection starts with what the client pipelined behind the handshake; \<open>on_open\<close> then owns it.
\<close>

definition ws_staging :: "char list \<Rightarrow> read_buffer" where
  "ws_staging leftover =
     (let cap0 = length leftover + 4096; cap = (if cap0 < 4096 * 16 then 4096 * 16 else cap0); b = rb_init cap
      in if length leftover > 0
         then b\<lparr>rb_data := memcpy_at (rb_data b) 0 leftover, rb_count := length leftover\<rparr> else b)"

definition ws_accept :: "sv \<Rightarrow> char list" where
  "ws_accept key =
     (let key_len = (if length key < 196 - 37 - 1 then length key else 196 - 37 - 1);
          joined = take key_len key @ WS_GUID;
          digest = chars_of (http_ws_sha1 (bytes_of joined))
      in c_str (strbuf_view (strbuf_append_char (base64_encode_into strbuf_init digest) NUL)))"

definition http_ws_upgrade :: "http_request \<Rightarrow> http_response \<Rightarrow> ptr \<Rightarrow> ptr \<Rightarrow> int \<times> http_response" where
  "http_ws_upgrade req res trampoline u =
     (if rq_method req \<noteq> HTTP_GET then (-1, res)
      else if \<not> sv_equal (rq_version req) (sv_from_cstr ''HTTP/1.1'') then (-1, res)
      else if \<not> ws_header_has_token req ''upgrade'' ''websocket'' then (-1, res)
      else if \<not> ws_header_has_token req ''connection'' ''upgrade'' then (-1, res)
      else
        case http_request_get_header req ''sec-websocket-key'' of
          None \<Rightarrow> (-1, res)
        | Some key \<Rightarrow>
            (case http_request_get_header req ''sec-websocket-version'' of
               None \<Rightarrow> (-1, res)
             | Some vers \<Rightarrow>
                 if \<not> sv_equal (sv_trim vers) (sv_from_cstr ''13'') then (-1, res)
                 else
                   case base64_decode_into strbuf_init key of (rc, key_bytes) \<Rightarrow>
                     if rc \<noteq> 0 \<or> sb_count key_bytes \<noteq> 16 then (-1, res)
                     else
                       let r1 = http_response_set_status res 101;
                           r2 = http_response_set_header r1 ''Upgrade'' ''websocket'';
                           r3 = http_response_set_header r2 ''Connection'' ''Upgrade'';
                           r4 = http_response_set_header r3 ''Sec-WebSocket-Accept'' (ws_accept key)
                       in (0, r4\<lparr>rs_upgrade_fn := trampoline, rs_upgrade_user := u\<rparr>)))"

text \<open>The accept value is the one of RFC 6455: the base64 text of the SHA-1 of key and GUID.\<close>

lemma ws_accept_rfc:
  assumes "length key < 158"
  shows "ws_accept key = base64_encode (chars_of (sha1_spec (bytes_of (key @ WS_GUID))))"
proof -
  let ?d = "chars_of (sha1_spec (bytes_of (key @ WS_GUID)))"
  have "NUL \<notin> set (base64_encode ?d)" using base64_plain by blast
  moreover have "strbuf_view (base64_encode_into strbuf_init ?d) = base64_encode ?d" "strbuf_inv (base64_encode_into strbuf_init ?d)"
    using sb.writes_view [OF writes_base64_encode strbuf_inv_init] sb.writes_inv [OF writes_base64_encode strbuf_inv_init] by simp_all
  ultimately show ?thesis using assms
    by (simp add: ws_accept_def http_ws_sha1_spec view_simps c_str_append_NUL del: bytes_of_append)
qed

lemma ws_upgrade_accepts:
  assumes "http_ws_upgrade req res t u = (0, res')"
  shows "rq_method req = HTTP_GET \<and> rs_status res' = 101 \<and> rs_upgrade_fn res' = t
    \<and> (\<exists>key. http_request_get_header req ''sec-websocket-key'' = Some key \<and> sb_count (snd (base64_decode_into strbuf_init key)) = 16)"
  using assms unfolding http_ws_upgrade_def
  by (auto simp: Let_def http_response_set_status_def http_response_set_header_def response_emit_header_def
      split: if_splits option.splits prod.splits)

end
