(* ===== verification/Credentials.thy ===== *)
theory Credentials
  imports Digests Forms
begin

text \<open>
  Secrets of the program: stored passwords (\<open>src/security/password.c\<close>), signed requests
  (\<open>src/http/request_sign.c\<close>) and Basic authentication (\<open>src/http/auth.c\<close>). Random salt is an argument,
  \<^const>\<open>None\<close> when the source cannot be read; \<open>g\<close> is what the block buffers of the hash held before.
\<close>

subsection \<open>PBKDF2\<close>

fun pbkdf2_rounds :: "byte list \<Rightarrow> byte list \<Rightarrow> nat \<Rightarrow> byte list \<Rightarrow> byte list \<Rightarrow> byte list" where
  "pbkdf2_rounds g pw 0 u t = t"
| "pbkdf2_rounds g pw (Suc k) u t =
     (let u1 = hmac_sha256 g pw u in pbkdf2_rounds g pw k u1 (map2 (XOR) t u1))"

function pbkdf2_loop :: "byte list \<Rightarrow> byte list \<Rightarrow> byte list \<Rightarrow> nat \<Rightarrow> nat \<Rightarrow> nat \<Rightarrow> byte list" where
  "pbkdf2_loop g pw salt iterations block_index remaining =
     (if remaining = 0 then []
      else
        let u = hmac_sha256 g pw (salt @ be32 (of_nat block_index));
            chunk = (if remaining < 32 then remaining else 32)
        in pbkdf2_rounds g pw (iterations - 1) u (take chunk u)
             @ pbkdf2_loop g pw salt iterations (block_index + 1) (remaining - chunk))"
  by pat_completeness auto
termination
  by (relation "measure (\<lambda>(g, pw, salt, iterations, block_index, remaining). remaining)") auto

declare pbkdf2_loop.simps [simp del]

definition pbkdf2_hmac_sha256 :: "byte list \<Rightarrow> byte list \<Rightarrow> byte list \<Rightarrow> nat \<Rightarrow> nat \<Rightarrow> byte list" where
  "pbkdf2_hmac_sha256 g pw salt iterations out_len = pbkdf2_loop g pw salt iterations 1 out_len"

definition CWEB_PBKDF2_ITERATIONS :: nat where "CWEB_PBKDF2_ITERATIONS = 200000"

definition CWEB_PASSWORD_HASH_MAX :: nat where "CWEB_PASSWORD_HASH_MAX = 128"

subsection \<open>Stored passwords\<close>

definition parse_record :: "sv \<Rightarrow> (sv \<times> sv \<times> sv) option" where
  "parse_record encoded =
     (case sv_chop_by_delim encoded (CHR ''$'') of (scheme, r1) \<Rightarrow>
        case sv_chop_by_delim r1 (CHR ''$'') of (iters, r2) \<Rightarrow>
          case sv_chop_by_delim r2 (CHR ''$'') of (salt, hash) \<Rightarrow>
            if sv_equal scheme (sv_from_cstr ''pbkdf2'') then Some (iters, salt, hash) else None)"

definition password_record :: "nat \<Rightarrow> byte list \<Rightarrow> byte list \<Rightarrow> strbuf" where
  "password_record iterations salt dk =
     (let r1 = strbuf_append_cstr strbuf_init ''pbkdf2$'';
          r2 = strbuf_append_cstr r1 (dec_of_nat iterations);
          r3 = strbuf_append_char r2 (CHR ''$'');
          r4 = base64_encode_into r3 (chars_of salt);
          r5 = strbuf_append_char r4 (CHR ''$'')
      in base64_encode_into r5 (chars_of dk))"

text \<open>The bytes stored into \<open>out\<close>, \<^const>\<open>None\<close> for -1.\<close>

definition cweb_password_hash :: "byte list \<Rightarrow> byte list option \<Rightarrow> char list \<Rightarrow> nat \<Rightarrow> nat \<Rightarrow> char list option" where
  "cweb_password_hash g random password iterations out_size =
     (let iters = (if iterations = 0 then CWEB_PBKDF2_ITERATIONS else iterations)
      in case random of
           None \<Rightarrow> None
         | Some salt \<Rightarrow>
             let dk = pbkdf2_hmac_sha256 g (bytes_of (c_str password)) salt iters 32;
                 record = password_record iters salt dk
             in if sb_count record + 1 > out_size then None else Some (strbuf_view record @ [NUL]))"

definition cweb_password_verify :: "byte list \<Rightarrow> char list \<Rightarrow> char list \<Rightarrow> bool" where
  "cweb_password_verify g password encoded =
     (case parse_record (sv_from_cstr encoded) of
        None \<Rightarrow> False
      | Some (iters_sv, salt_sv, hash_sv) \<Rightarrow>
          (case sv_to_i64 iters_sv of
             None \<Rightarrow> False
           | Some iterations \<Rightarrow>
               if iterations < 1 \<or> iterations > 100000000 then False
               else
                 case base64_decode_into strbuf_init salt_sv of (rc1, salt) \<Rightarrow>
                   case base64_decode_into strbuf_init hash_sv of (rc2, hash) \<Rightarrow>
                     if rc1 \<noteq> 0 \<or> rc2 \<noteq> 0 \<or> sb_count salt = 0 \<or> sb_count hash \<noteq> 32 then False
                     else
                       secure_byte_equal
                         (pbkdf2_hmac_sha256 g (bytes_of (c_str password)) (bytes_of (strbuf_view salt)) (nat iterations) 32)
                         (bytes_of (strbuf_view hash)) 32))"

lemma length_hmac: "length g = 64 \<Longrightarrow> length (hmac_sha256 g key msg) = 32"
  using hmac_spec_code length_sha256_spec by (simp add: hmac_spec_def Let_def)

lemma length_rounds: "length g = 64 \<Longrightarrow> length t \<le> 32 \<Longrightarrow> length (pbkdf2_rounds g pw k u t) = length t"
  by (induction k arbitrary: u t) (simp_all add: Let_def length_hmac)

lemma length_pbkdf2: "length g = 64 \<Longrightarrow> length (pbkdf2_loop g pw salt it i n) = n"
proof (induction g pw salt it i n rule: pbkdf2_loop.induct)
  case (1 g pw salt it i n)
  show ?case
  proof (cases "n = 0")
    case False
    then show ?thesis using 1 by (simp add: pbkdf2_loop.simps [of g pw salt it i n] Let_def length_rounds length_hmac)
  qed (simp add: pbkdf2_loop.simps)
qed

text \<open>The text of a record.\<close>

definition record_text :: "nat \<Rightarrow> byte list \<Rightarrow> byte list \<Rightarrow> char list" where
  "record_text it salt dk = ''pbkdf2$'' @ dec_of_nat it @ ''$'' @ base64_encode (chars_of salt) @ ''$'' @ base64_encode (chars_of dk)"

lemma record_view: "strbuf_inv (password_record it salt dk) \<and> strbuf_view (password_record it salt dk) = record_text it salt dk"
proof -
  have "c_str ''pbkdf2$'' = ''pbkdf2$''" by code_simp
  moreover have "c_str (dec_of_nat it) = dec_of_nat it"
    by (rule c_str_id) (auto dest: digits_no_break simp: isdigit_def)
  ultimately have "sb.writes (\<lambda>b. base64_encode_into (strbuf_append_char (base64_encode_into (strbuf_append_char
      (strbuf_append_cstr (strbuf_append_cstr b ''pbkdf2$'') (dec_of_nat it)) (CHR ''$'')) (chars_of salt)) (CHR ''$'')) (chars_of dk)) (record_text it salt dk)"
    using sb.writes_seq [OF sb.writes_seq [OF sb.writes_seq [OF sb.writes_seq [OF sb.writes_seq
      [OF writes_append_cstr writes_append_cstr] writes_append_char] writes_base64_encode] writes_append_char] writes_base64_encode,
      of "''pbkdf2$''" "dec_of_nat it" "CHR ''$''" "chars_of salt" "CHR ''$''" "chars_of dk"]
    by (simp add: record_text_def)
  from sb.writes_view [OF this strbuf_inv_init] sb.writes_inv [OF this strbuf_inv_init] show ?thesis
    by (simp add: password_record_def Let_def)
qed

subsection \<open>The standard's description\<close>

text \<open>RFC 2898, section 5.2: a block is the exclusive or of the iterates of the pseudorandom function, and
  the key is the first \<open>n\<close> bytes of the blocks.\<close>

definition prf_iterate :: "byte list \<Rightarrow> byte list \<Rightarrow> nat \<Rightarrow> nat \<Rightarrow> byte list" where
  "prf_iterate pw salt i k = (hmac_spec pw ^^ Suc k) (salt @ be32 (of_nat i))"

definition pbkdf2_block :: "byte list \<Rightarrow> byte list \<Rightarrow> nat \<Rightarrow> nat \<Rightarrow> byte list" where
  "pbkdf2_block pw salt it i = foldl (map2 (XOR)) (prf_iterate pw salt i 0) (map (prf_iterate pw salt i) [1..<it])"

definition pbkdf2_spec :: "byte list \<Rightarrow> byte list \<Rightarrow> nat \<Rightarrow> nat \<Rightarrow> byte list" where
  "pbkdf2_spec pw salt it n = take n (concat (map (pbkdf2_block pw salt it) [1..<1 + (n + 31) div 32]))"

lemma length_prf_iterate [simp]: "length (prf_iterate pw salt i k) = 32"
  by (simp add: prf_iterate_def hmac_spec_def Let_def length_sha256_spec)

lemma take_foldl_xor: "take n (foldl (map2 (XOR)) t us) = foldl (map2 (XOR)) (take n t) us"
proof (induction us arbitrary: t)
  case (Cons u us)
  have "take n (map2 (XOR) t u) = map2 (XOR) (take n t) u"
    by (rule nth_equalityI) auto
  then show ?case by (simp add: Cons)
qed simp

lemma rounds_foldl:
  assumes "length g = 64"
  shows "pbkdf2_rounds g pw k (prf_iterate pw salt i j) t
    = foldl (map2 (XOR)) t (map (prf_iterate pw salt i) [Suc j..<Suc j + k])"
proof (induction k arbitrary: j t)
  case (Suc k)
  have "hmac_sha256 g pw (prf_iterate pw salt i j) = prf_iterate pw salt i (Suc j)"
    by (simp add: hmac_spec_code [OF assms] prf_iterate_def)
  then show ?case using Suc [of "Suc j"] by (simp add: Let_def upt_conv_Cons del: upt_Suc)
qed simp

lemma length_pbkdf2_block: "length (pbkdf2_block pw salt it i) = 32"
proof -
  have "length (foldl (map2 (XOR)) t us) = 32" if "length t = 32" "\<forall>u \<in> set us. length u = 32" for t and us :: "byte list list"
    using that by (induction us arbitrary: t) auto
  then show ?thesis by (simp add: pbkdf2_block_def)
qed

lemma pbkdf2_loop_spec:
  assumes "length g = 64" "0 < it"
  shows "pbkdf2_loop g pw salt it i n = take n (concat (map (pbkdf2_block pw salt it) [i..<i + (n + 31) div 32]))"
proof (induction n arbitrary: i rule: less_induct)
  case (less n)
  show ?case
  proof (cases "n = 0")
    case False
    let ?c = "if n < 32 then n else 32"
    let ?u = "hmac_sha256 g pw (salt @ be32 (of_nat i))"
    have u: "?u = prf_iterate pw salt i 0" by (simp add: hmac_spec_code [OF assms(1)] prf_iterate_def)
    have "pbkdf2_rounds g pw (it - 1) ?u (take ?c ?u) = take ?c (pbkdf2_block pw salt it i)"
      unfolding u using rounds_foldl [OF assms(1), of pw "it - 1" salt i 0] assms(2)
      by (simp add: pbkdf2_block_def take_foldl_xor)
    then have b: "pbkdf2_rounds g pw (it - 1) ?u (take ?c ?u) = take n (pbkdf2_block pw salt it i)"
      by (simp add: length_pbkdf2_block)
    have k: "(n + 31) div 32 = Suc ((n - ?c + 31) div 32)" using False by auto
    have "pbkdf2_loop g pw salt it i n = take n (pbkdf2_block pw salt it i) @ pbkdf2_loop g pw salt it (Suc i) (n - ?c)"
      using False b by (simp add: pbkdf2_loop.simps [of g pw salt it i n] Let_def)
    also have "pbkdf2_loop g pw salt it (Suc i) (n - ?c)
        = take (n - ?c) (concat (map (pbkdf2_block pw salt it) [Suc i..<Suc i + (n - ?c + 31) div 32]))"
      using less.IH [of "n - ?c" "Suc i"] False by simp
    also have "n - ?c = n - 32" by simp
    finally show ?thesis
      unfolding k by (simp add: upt_conv_Cons length_pbkdf2_block del: upt_Suc)
  qed (simp add: pbkdf2_loop.simps)
qed

lemma pbkdf2_spec_code:
  "length g = 64 \<Longrightarrow> 0 < it \<Longrightarrow> pbkdf2_hmac_sha256 g pw salt it n = pbkdf2_spec pw salt it n"
  unfolding pbkdf2_hmac_sha256_def pbkdf2_spec_def by (rule pbkdf2_loop_spec)

lemma length_pbkdf2_spec: "0 < it \<Longrightarrow> length (pbkdf2_spec pw salt it n) = n"
  using length_pbkdf2 [of "replicate 64 0" pw salt it 1 n] pbkdf2_spec_code [of "replicate 64 0" it pw salt n]
  by (simp add: pbkdf2_hmac_sha256_def)

subsection \<open>Hashing and verifying\<close>

lemma parse_record_text: "parse_record (record_text it salt dk) = Some (dec_of_nat it, base64_encode (chars_of salt), base64_encode (chars_of dk))"
proof -
  have "CHR ''$'' \<notin> set (dec_of_nat it)" by (auto dest: digits_no_break simp: isdigit_def)
  moreover have "CHR ''$'' \<notin> set (base64_encode (chars_of salt))" using base64_plain by blast
  moreover have "sv_chop_by_delim (''pbkdf2'' @ CHR ''$'' # r) (CHR ''$'') = (''pbkdf2'', r)" for r
    by (rule sv_chop_present) simp
  moreover have "sv_equal ''pbkdf2'' (sv_from_cstr ''pbkdf2'')" by code_simp
  ultimately show ?thesis by (simp add: parse_record_def record_text_def sv_chop_present)
qed

lemma record_text_no_NUL: "NUL \<notin> set (record_text it salt dk)"
  using base64_plain [of NUL] digits_no_break [of NUL it] by (auto simp: record_text_def isdigit_def)

lemma length_record_text:
  "length salt = 16 \<Longrightarrow> length dk = 32 \<Longrightarrow> it < 2 ^ 32 \<Longrightarrow> length (record_text it salt dk) < 128"
  using length_dec_of_nat [of it 10] by (simp add: record_text_def length_base64_encode)

lemma decoded_view: "sb_count (foldl strbuf_append_char strbuf_init d) = length d"
  "strbuf_view (foldl strbuf_append_char strbuf_init d) = d"
  using sb.writes_view [OF writes_append_chars strbuf_inv_init, of d] sb.writes_inv [OF writes_append_chars strbuf_inv_init, of d]
  by (simp_all add: count_view)

lemma verify_record:
  assumes g: "length g = 64" and s: "salt \<noteq> []" and d: "length dk = 32" and it: "0 < it" "it < 2 ^ 32"
  shows "cweb_password_verify g pw (record_text it salt dk @ [NUL])
    \<longleftrightarrow> it \<le> 100000000 \<and> pbkdf2_spec (bytes_of (c_str pw)) salt it 32 = dk"
proof -
  have p: "parse_record (sv_from_cstr (record_text it salt dk @ [NUL])) = Some (dec_of_nat it, base64_encode (chars_of salt), base64_encode (chars_of dk))"
    by (simp add: sv_from_cstr_def c_str_append_NUL record_text_no_NUL parse_record_text)
  have i: "sv_to_i64 (dec_of_nat it) = Some (int it)" by (rule sv_to_i64_dec_of_nat) (use it(2) in \<open>simp add: LLONG_MAX_def\<close>)
  note l = length_pbkdf2_spec [OF it(1), of "bytes_of (c_str pw)" salt 32]
  show ?thesis
    unfolding cweb_password_verify_def p using s d it i l
    by (simp add: base64_decode_encode decoded_view pbkdf2_spec_code [OF g] secure_byte_equal_iff)
qed

text \<open>
  C30: Hashing and verifying a password agree. With 16 bytes of salt \<open>cweb_password_hash\<close> always fits its
  record into \<open>CWEB_PASSWORD_HASH_MAX\<close> bytes; the key in it is PBKDF2-HMAC-SHA256 of RFC 2898, and
  \<open>cweb_password_verify\<close> accepts a password against the record exactly if its derived key is the same one,
  so in particular the password that was hashed, for every iteration count up to the limit of 100 million
  that only the verifier has.
\<close>

theorem password_correct:
  assumes "length g = 64" "length g' = 64" "length salt = 16" "n < 2 ^ 32"
    and it: "it = (if n = 0 then CWEB_PBKDF2_ITERATIONS else n)"
  shows "\<exists>enc. cweb_password_hash g (Some salt) pw n CWEB_PASSWORD_HASH_MAX = Some enc
    \<and> (\<forall>pw'. cweb_password_verify g' pw' enc \<longleftrightarrow> it \<le> 100000000
          \<and> pbkdf2_spec (bytes_of (c_str pw')) salt it 32 = pbkdf2_spec (bytes_of (c_str pw)) salt it 32)"
proof -
  let ?dk = "pbkdf2_spec (bytes_of (c_str pw)) salt it 32"
  have i: "0 < it" "it < 2 ^ 32" using assms(4) it by (auto simp: CWEB_PBKDF2_ITERATIONS_def)
  have l: "length ?dk = 32" by (rule length_pbkdf2_spec [OF i(1)])
  have "sb_count (password_record it salt ?dk) = length (record_text it salt ?dk)"
    using record_view [of it salt ?dk] count_view by metis
  then have "cweb_password_hash g (Some salt) pw n CWEB_PASSWORD_HASH_MAX = Some (record_text it salt ?dk @ [NUL])"
    using length_record_text [OF assms(3) l i(2)] record_view [of it salt ?dk]
    by (simp add: cweb_password_hash_def Let_def it [symmetric] pbkdf2_spec_code [OF assms(1) i(1)] CWEB_PASSWORD_HASH_MAX_def)
  moreover have "salt \<noteq> []" using assms(3) by auto
  ultimately show ?thesis using verify_record [OF assms(2) _ l i] by blast
qed

theorem password_correct_witness:
  "\<exists>enc. cweb_password_hash (replicate 64 0) (Some (replicate 16 7)) ''hunter2'' 0 CWEB_PASSWORD_HASH_MAX = Some enc
    \<and> (\<forall>pw'. cweb_password_verify (replicate 64 1) pw' enc \<longleftrightarrow> (200000::nat) \<le> 100000000
          \<and> pbkdf2_spec (bytes_of (c_str pw')) (replicate 16 7) 200000 32 = pbkdf2_spec (bytes_of (c_str ''hunter2'')) (replicate 16 7) 200000 32)"
  by (rule password_correct) (simp_all add: CWEB_PBKDF2_ITERATIONS_def)

end
