(* ===== verification/Database.thy ===== *)
theory Database
  imports Buffers Views "HOL-Library.Multiset"
begin

text \<open>
  \<open>src/db/db.c\<close>: the file-backed key-value store. The store is held in memory as an array of entries and
  written whole to a temporary file that is renamed over the path. The file system is a map from paths
  to contents; what the operating system answers to a write and a rename is an argument. The mutex only
  makes each operation one step, as it is here.
\<close>

type_synonym disk = "char list \<rightharpoonup> char list"

text \<open>The key and the value are owned buffers with a NUL behind the bytes.\<close>

record db_entry =
  de_key :: "char list"
  de_klen :: nat
  de_value :: "char list"
  de_vlen :: nat

text \<open>\<open>db_entries\<close> holds the first \<open>count\<close> slots; the slots behind them are never read.\<close>

record cweb_db =
  db_path :: "char list option"
  db_entries :: "db_entry list"
  db_capacity :: nat
  db_total :: u64
  db_dirty :: bool

abbreviation db_count :: "cweb_db \<Rightarrow> nat" where
  "db_count db \<equiv> length (db_entries db)"

definition db_zero :: cweb_db where
  "db_zero = \<lparr>db_path = None, db_entries = [], db_capacity = 0, db_total = 0, db_dirty = False\<rparr>"

subsection \<open>Operations in memory\<close>

definition put_u32 :: "nat \<Rightarrow> char list" where
  "put_u32 v = [char_of (v AND 0xff), char_of (drop_bit 8 v AND 0xff), char_of (drop_bit 16 v AND 0xff), char_of (drop_bit 24 v AND 0xff)]"

definition get_u32 :: "char list \<Rightarrow> nat" where
  "get_u32 p = ucode (p ! 0) OR push_bit 8 (ucode (p ! 1)) OR push_bit 16 (ucode (p ! 2)) OR push_bit 24 (ucode (p ! 3))"

definition db_entry_size :: "db_entry \<Rightarrow> nat" where
  "db_entry_size e = 8 + de_klen e + de_vlen e"

definition own_entry :: "sv \<Rightarrow> sv \<Rightarrow> db_entry" where
  "own_entry key value = \<lparr>de_key = key @ [NUL], de_klen = length key, de_value = value @ [NUL], de_vlen = length value\<rparr>"

text \<open>The index of the first entry with this key.\<close>

fun db_find :: "db_entry list \<Rightarrow> sv \<Rightarrow> nat option" where
  "db_find [] key = None"
| "db_find (e # es) key =
     (if de_klen e = length key \<and> (length key = 0 \<or> take (length key) (de_key e) = key) then Some 0
      else map_option Suc (db_find es key))"

definition db_append :: "cweb_db \<Rightarrow> sv \<Rightarrow> sv \<Rightarrow> cweb_db" where
  "db_append db key value =
     (let db1 = (if db_count db = db_capacity db
                 then db\<lparr>db_capacity := if db_capacity db \<noteq> 0 then db_capacity db * 2 else 8\<rparr> else db)
      in db1\<lparr>db_entries := db_entries db1 @ [own_entry key value]\<rparr>)"

definition cweb_db_get :: "cweb_db \<Rightarrow> sv \<Rightarrow> sv option" where
  "cweb_db_get db key =
     (case db_find (db_entries db) key of
        Some i \<Rightarrow> let e = db_entries db ! i in Some (take (de_vlen e) (de_value e))
      | None \<Rightarrow> None)"

definition cweb_db_put :: "cweb_db \<Rightarrow> sv \<Rightarrow> sv \<Rightarrow> int \<times> cweb_db" where
  "cweb_db_put db key value =
     (let db1 =
        (case db_find (db_entries db) key of
           Some i \<Rightarrow>
             let old = db_entry_size (db_entries db ! i)
             in db\<lparr>db_entries := (db_entries db)[i := own_entry key value],
                   db_total := db_total db + (of_nat (8 + length key + length value) - of_nat old)\<rparr>
         | None \<Rightarrow>
             let db2 = db_append db key value
             in db2\<lparr>db_total := db_total db2 + of_nat (8 + length key + length value)\<rparr>)
      in (0, db1\<lparr>db_dirty := True\<rparr>))"

definition cweb_db_delete :: "cweb_db \<Rightarrow> sv \<Rightarrow> int \<times> cweb_db" where
  "cweb_db_delete db key =
     (case db_find (db_entries db) key of
        None \<Rightarrow> (-1, db)
      | Some i \<Rightarrow>
          (0, db\<lparr>db_total := db_total db - of_nat (db_entry_size (db_entries db ! i)),
                db_entries := butlast ((db_entries db)[i := db_entries db ! (db_count db - 1)]),
                db_dirty := True\<rparr>))"

subsection \<open>The file\<close>

text \<open>The framing loop of \<open>cweb_db_open\<close> over the bytes from \<open>pos\<close> on; \<^const>\<open>None\<close> is the file it refuses.\<close>

function open_loop :: "cweb_db \<Rightarrow> char list \<Rightarrow> cweb_db option" where
  "open_loop tmp rest =
     (if 8 \<le> length rest then
        let klen = get_u32 rest; r1 = drop 4 rest in
        if klen > length r1 then None
        else
          let key = take klen r1; r2 = drop klen r1 in
          if length r2 < 4 then None
          else
            let vlen = get_u32 r2; r3 = drop 4 r2 in
            if vlen > length r3 then None
            else
              let tmp1 = db_append tmp key (take vlen r3)
              in open_loop (tmp1\<lparr>db_total := db_total tmp1 + of_nat (8 + klen + vlen)\<rparr>) (drop vlen r3)
      else if rest = [] then Some tmp else None)"
  by pat_completeness auto
termination
  by (relation "measure (\<lambda>(tmp, rest). length rest)") auto

declare open_loop.simps [simp del]

text \<open>
  \<open>cweb_db_open\<close>: \<^const>\<open>None\<close> for -1, with the handle untouched. \<open>read_ok\<close> is whether an existing file can be
  read.
\<close>

definition cweb_db_open :: "disk \<Rightarrow> bool \<Rightarrow> char list \<Rightarrow> cweb_db option" where
  "cweb_db_open fs read_ok path =
     (let tmp = db_zero\<lparr>db_path := Some (c_str path)\<rparr> in
      case fs (c_str path) of
        None \<Rightarrow> Some tmp
      | Some data \<Rightarrow>
          if \<not> read_ok then None
          else if length data = 0 \<or> ucode (data ! 0) \<noteq> 1 then None
          else open_loop tmp (drop 1 data))"

definition write_entry :: "strbuf \<Rightarrow> db_entry \<Rightarrow> strbuf" where
  "write_entry buf e =
     (let b1 = strbuf_append buf (put_u32 (de_klen e mod 2 ^ 32));
          b2 = strbuf_append b1 (take (de_klen e) (de_key e));
          b3 = strbuf_append b2 (put_u32 (de_vlen e mod 2 ^ 32))
      in strbuf_append b3 (take (de_vlen e) (de_value e)))"

text \<open>
  What happens to a \<open>file_write\<close>: the file cannot be opened, it is opened and holds some bytes when the write
  fails, or everything is written.
\<close>

datatype write_outcome = Unopened | Broken "char list" | Written

definition file_write :: "disk \<Rightarrow> char list \<Rightarrow> char list \<Rightarrow> write_outcome \<Rightarrow> int \<times> disk" where
  "file_write fs path data w =
     (case w of Unopened \<Rightarrow> (-1, fs) | Broken junk \<Rightarrow> (-1, fs(path \<mapsto> junk)) | Written \<Rightarrow> (0, fs(path \<mapsto> data)))"

definition fs_rename :: "disk \<Rightarrow> char list \<Rightarrow> char list \<Rightarrow> disk" where
  "fs_rename fs old new = (fs(new := fs old))(old := None)"

definition cweb_db_sync :: "write_outcome \<Rightarrow> bool \<Rightarrow> cweb_db \<Rightarrow> disk \<Rightarrow> int \<times> cweb_db \<times> disk" where
  "cweb_db_sync w rename_ok db fs =
     (let path = the (db_path db) in
      if db_count db = 0 then (0, db\<lparr>db_dirty := False\<rparr>, fs(path := None))
      else
        let buf = foldl write_entry (strbuf_append_char strbuf_init (CHR 0x01)) (db_entries db) in
        if of_nat (sb_count buf) = db_total db + 1 then
          let tmp = path @ ''.tmp'' in
          if length tmp < 1024 then
            case file_write fs tmp (strbuf_view buf) w of (rc, fs1) \<Rightarrow>
              if rc = 0 then
                if rename_ok then (0, db\<lparr>db_dirty := False\<rparr>, fs_rename fs1 tmp path)
                else (-1, db, fs1(tmp := None))
              else (-1, db, fs1)
          else (-1, db, fs)
        else (-1, db, fs))"

definition cweb_db_close :: "write_outcome \<Rightarrow> bool \<Rightarrow> cweb_db \<Rightarrow> disk \<Rightarrow> cweb_db \<times> disk" where
  "cweb_db_close w rename_ok db fs =
     (if db_path db = None then (db, fs)
      else if db_dirty db
           then (case cweb_db_sync w rename_ok db fs of (rc, db1, fs1) \<Rightarrow> (db_zero, fs1))
           else (db_zero, fs))"

subsection \<open>Numbers of four bytes\<close>

lemma get_u32_value:
  "get_u32 p = ucode (p ! 0) + 256 * (ucode (p ! 1) + 256 * (ucode (p ! 2) + 256 * ucode (p ! 3)))"
proof -
  have low: "ucode c OR push_bit 8 n = ucode c + 256 * n" for c and n :: nat
    using push_bit_or_eq_add [of "ucode c" 8 n] ucode_less [of c] by (simp add: or.commute)
  have "get_u32 p = ucode (p ! 0) OR push_bit 8 (ucode (p ! 1) OR push_bit 8 (ucode (p ! 2) OR push_bit 8 (ucode (p ! 3))))"
    by (simp add: get_u32_def push_bit_or)
  then show ?thesis by (simp add: low)
qed

lemma put_u32_value:
  "put_u32 v = [char_of v, char_of (v div 256), char_of (v div 256 div 256), char_of (v div 256 div 256 div 256)]"
  using and_mask_nat [of _ 8] by (simp add: put_u32_def drop_bit_eq_div flip: div_mult2_eq)

lemma get_put_u32: "v < 2 ^ 32 \<Longrightarrow> get_u32 (put_u32 v @ r) = v"
proof -
  assume "v < 2 ^ 32"
  then have "v div 256 div 256 div 256 < 256" by simp
  then have "v = v mod 256 + 256 * (v div 256 mod 256 + 256 * (v div 256 div 256 mod 256 + 256 * (v div 256 div 256 div 256 mod 256)))"
    by (simp only: mod_less mod_mult_div_eq)
  then show ?thesis by (simp only: get_u32_value put_u32_value of_char_of append_Cons nth_Cons_0 nth_Cons_Suc One_nat_def numeral_2_eq_2 numeral_3_eq_3)
qed

lemma put_get_u32: "4 \<le> length p \<Longrightarrow> put_u32 (get_u32 p) = take 4 p"
proof -
  assume "4 \<le> length p"
  then obtain a b c d r where p: "p = [a, b, c, d] @ r"
    by (cases p; cases "tl p"; cases "tl (tl p)"; cases "tl (tl (tl p))") auto
  have low: "char_of (ucode x + 256 * n) = x" "(ucode x + 256 * n) div 256 = n" for x and n :: nat
    using char_of_mod_256 [of "ucode x + 256 * n"] by simp_all
  have "get_u32 p = ucode a + 256 * (ucode b + 256 * (ucode c + 256 * (ucode d + 256 * 0)))"
    unfolding p get_u32_value by simp
  then show ?thesis by (simp only: put_u32_value low) (simp add: p)
qed

lemma length_put_u32 [simp]: "length (put_u32 v) = 4"
  by (simp add: put_u32_def)

lemma get_u32_less: "get_u32 p < 2 ^ 32"
proof -
  have step: "ucode c + 256 * n < 256 * k" if "n < k" for c and n k :: nat
    using that ucode_less [of c] by (metis Suc_leI add.commute add_less_mono1 mult.commute mult_Suc mult_le_mono1 order_less_le_trans)
  have "get_u32 p < 256 * (256 * (256 * 256))" unfolding get_u32_value by (intro step ucode_less)
  then show ?thesis by simp
qed

subsection \<open>The invariant and the map it stands for\<close>

definition entry_key :: "db_entry \<Rightarrow> char list" where
  "entry_key e = take (de_klen e) (de_key e)"

definition entry_value :: "db_entry \<Rightarrow> char list" where
  "entry_value e = take (de_vlen e) (de_value e)"

definition entry_ok :: "db_entry \<Rightarrow> bool" where
  "entry_ok e \<longleftrightarrow> length (de_key e) = de_klen e + 1 \<and> length (de_value e) = de_vlen e + 1
     \<and> de_key e ! de_klen e = NUL \<and> de_value e ! de_vlen e = NUL"

definition db_inv :: "cweb_db \<Rightarrow> bool" where
  "db_inv db \<longleftrightarrow> list_all entry_ok (db_entries db) \<and> distinct (map entry_key (db_entries db))
     \<and> db_count db \<le> db_capacity db \<and> db_total db = of_nat (sum_list (map db_entry_size (db_entries db)))"

definition db_abs :: "cweb_db \<Rightarrow> char list \<rightharpoonup> char list" where
  "db_abs db = map_of (map (\<lambda>e. (entry_key e, entry_value e)) (db_entries db))"

lemma own_entry_simps [simp]:
  "entry_key (own_entry k v) = k" "entry_value (own_entry k v) = v" "entry_ok (own_entry k v)"
  "db_entry_size (own_entry k v) = 8 + length k + length v"
  by (simp_all add: own_entry_def entry_key_def entry_value_def entry_ok_def db_entry_size_def)

lemma entry_ok_lengths: "entry_ok e \<Longrightarrow> length (entry_key e) = de_klen e \<and> length (entry_value e) = de_vlen e"
  by (simp add: entry_ok_def entry_key_def entry_value_def)

lemma entry_match:
  "entry_ok e \<Longrightarrow> (de_klen e = length key \<and> (length key = 0 \<or> take (length key) (de_key e) = key)) \<longleftrightarrow> entry_key e = key"
  using entry_ok_lengths [of e] by (auto simp: entry_key_def)

lemma db_find_None: "list_all entry_ok es \<Longrightarrow> db_find es key = None \<longleftrightarrow> key \<notin> entry_key ` set es"
proof (induction es)
  case (Cons e es)
  then show ?case using entry_match [of e key] unfolding db_find.simps(2) by auto
qed simp

lemma db_find_Some:
  "list_all entry_ok es \<Longrightarrow> db_find es key = Some i \<Longrightarrow>
   \<exists>pre e post. es = pre @ e # post \<and> length pre = i \<and> entry_key e = key \<and> key \<notin> entry_key ` set pre"
proof (induction es arbitrary: i)
  case (Cons e es)
  show ?case
  proof (cases "entry_key e = key")
    case True
    then have "i = 0" using Cons.prems entry_match [of e key] unfolding db_find.simps(2) by simp
    then show ?thesis using True by (intro exI [of _ "[]"]) simp
  next
    case False
    then have "map_option Suc (db_find es key) = Some i" using Cons.prems entry_match [of e key] unfolding db_find.simps(2) by auto
    then obtain j where "db_find es key = Some j" "i = Suc j" by auto
    then obtain pre e' post where "es = pre @ e' # post" "length pre = j" "entry_key e' = key" "key \<notin> entry_key ` set pre"
      using Cons by auto
    then show ?thesis using False \<open>i = Suc j\<close> by (intro exI [of _ "e # pre"]) auto
  qed
qed simp

text \<open>Both depend only on the multiset of the entries.\<close>

lemma inv_by_mset:
  assumes "mset es = mset (db_entries db)" "db_inv db" "db_capacity db \<le> db_capacity db'" "db_entries db' = es" "db_total db' = db_total db"
  shows "db_inv db'" "db_abs db' = db_abs db"
proof -
  have m: "mset (map f es) = mset (map f (db_entries db))" for f :: "db_entry \<Rightarrow> 'a" using assms(1) by simp
  have d: "distinct (map entry_key es)" using mset_eq_imp_distinct_iff [OF m] assms(2) by (auto simp: db_inv_def)
  show "db_inv db'" unfolding db_inv_def
    using assms d mset_eq_setD [OF assms(1)] mset_eq_length [OF assms(1)] sum_mset_sum_list [of "map db_entry_size es"] m [of db_entry_size]
      sum_mset_sum_list [of "map db_entry_size (db_entries db)"]
    by (auto simp: db_inv_def list_all_iff)
  let ?f = "\<lambda>e. (entry_key e, entry_value e)"
  have "distinct (map fst (map ?f es))" "distinct (map fst (map ?f (db_entries db)))" using d assms(2) by (auto simp: db_inv_def comp_def)
  then show "db_abs db' = db_abs db"
    unfolding db_abs_def using map_of_inject_set [of "map ?f es" "map ?f (db_entries db)"] mset_eq_setD [OF assms(1)] assms(4) by simp
qed

lemma db_split:
  assumes "db_inv db" "db_find (db_entries db) key = Some i"
  obtains pre e post where "db_entries db = pre @ e # post" "length pre = i" "entry_key e = key"
    "key \<notin> entry_key ` set pre" "key \<notin> entry_key ` set post" "db_entries db ! i = e"
proof -
  from assms obtain pre e post where *: "db_entries db = pre @ e # post" "length pre = i" "entry_key e = key" "key \<notin> entry_key ` set pre"
    using db_find_Some [of "db_entries db" key i] by (auto simp: db_inv_def)
  then have "key \<notin> entry_key ` set post" using assms(1) by (auto simp: db_inv_def)
  moreover have "db_entries db ! i = e" using * by auto
  ultimately show ?thesis using * that by blast
qed

lemma db_get_abs: "db_inv db \<Longrightarrow> cweb_db_get db key = db_abs db key"
proof (cases "db_find (db_entries db) key")
  case None
  assume "db_inv db"
  then have "key \<notin> entry_key ` set (db_entries db)" using db_find_None [of "db_entries db" key] None by (simp add: db_inv_def)
  then have "db_abs db key = None" by (auto simp: db_abs_def map_of_eq_None_iff)
  then show ?thesis using None by (simp add: cweb_db_get_def)
next
  case (Some i)
  assume "db_inv db"
  then obtain pre e post where *: "db_entries db = pre @ e # post" "length pre = i" "entry_key e = key"
    "key \<notin> entry_key ` set pre" "key \<notin> entry_key ` set post" "db_entries db ! i = e" using Some by (rule db_split)
  have "map_of (map (\<lambda>e. (entry_key e, entry_value e)) pre) key = None" using *(4) by (auto simp: map_of_eq_None_iff)
  then show ?thesis using * Some unfolding cweb_db_get_def by (simp add: db_abs_def map_add_def entry_value_def [symmetric])
qed

lemma db_put_abs:
  assumes inv: "db_inv db"
  shows "fst (cweb_db_put db key v) = 0" "db_inv (snd (cweb_db_put db key v))"
    "db_abs (snd (cweb_db_put db key v)) = (db_abs db)(key \<mapsto> v)"
    "db_path (snd (cweb_db_put db key v)) = db_path db"
proof -
  let ?db = "snd (cweb_db_put db key v)"
  show "fst (cweb_db_put db key v) = 0" by (simp add: cweb_db_put_def Let_def)
  have "db_inv ?db \<and> db_abs ?db = (db_abs db)(key \<mapsto> v) \<and> db_path ?db = db_path db"
  proof (cases "db_find (db_entries db) key")
    case None
    then have "key \<notin> entry_key ` set (db_entries db)" using inv db_find_None [of "db_entries db" key] by (simp add: db_inv_def)
    moreover from this have "db_abs db key = None" by (auto simp: db_abs_def map_of_eq_None_iff)
    ultimately show ?thesis
      using inv None by (auto simp: cweb_db_put_def db_append_def Let_def db_inv_def db_abs_def map_add_def fun_eq_iff algebra_simps split: option.splits)
  next
    case (Some i)
    with inv obtain pre e post where *: "db_entries db = pre @ e # post" "length pre = i" "entry_key e = key"
      "key \<notin> entry_key ` set pre" "key \<notin> entry_key ` set post" "db_entries db ! i = e" by (rule db_split)
    have none: "map_of (map (\<lambda>e. (entry_key e, entry_value e)) pre) key = None" using *(4) by (auto simp: map_of_eq_None_iff)
    have "?db = db\<lparr>db_entries := pre @ own_entry key v # post,
        db_total := db_total db + (of_nat (8 + length key + length v) - of_nat (db_entry_size e)), db_dirty := True\<rparr>"
      using Some *(2,6) unfolding cweb_db_put_def by (simp add: Let_def) (simp add: *(1) list_update_append)
    then show ?thesis using inv * none
      by (auto simp: db_inv_def db_abs_def map_add_def fun_eq_iff algebra_simps split: option.splits)
  qed
  then show "db_inv ?db" "db_abs ?db = (db_abs db)(key \<mapsto> v)" "db_path ?db = db_path db" by blast+
qed

lemma db_delete_abs:
  assumes inv: "db_inv db"
  shows "fst (cweb_db_delete db key) = (if db_abs db key = None then -1 else 0)" "db_inv (snd (cweb_db_delete db key))"
    "db_abs (snd (cweb_db_delete db key)) = (db_abs db)(key := None)"
    "db_path (snd (cweb_db_delete db key)) = db_path db"
proof -
  let ?db = "snd (cweb_db_delete db key)"
  have "fst (cweb_db_delete db key) = (if db_abs db key = None then -1 else 0) \<and> db_inv ?db \<and> db_abs ?db = (db_abs db)(key := None) \<and> db_path ?db = db_path db"
  proof (cases "db_find (db_entries db) key")
    case None
    then have "db_abs db key = None" using db_get_abs [OF inv, of key] by (simp add: cweb_db_get_def)
    then show ?thesis using None inv by (auto simp: cweb_db_delete_def)
  next
    case (Some i)
    with inv obtain pre e post where *: "db_entries db = pre @ e # post" "length pre = i" "entry_key e = key"
      "key \<notin> entry_key ` set pre" "key \<notin> entry_key ` set post" "db_entries db ! i = e" by (rule db_split)
    have none: "map_of (map (\<lambda>e. (entry_key e, entry_value e)) xs) key = None" if "key \<notin> entry_key ` set xs" for xs
      using that by (auto simp: map_of_eq_None_iff)
    let ?es = "butlast ((db_entries db)[i := db_entries db ! (db_count db - 1)])"
    have "mset ?es = mset (pre @ post)"
    proof (cases post rule: rev_cases)
      case (snoc ps l)
      then show ?thesis using * by (simp add: list_update_append nth_append butlast_append)
    qed (use * in \<open>simp add: list_update_append butlast_append\<close>)
    moreover let ?mid = "db\<lparr>db_entries := pre @ post, db_total := db_total db - of_nat (db_entry_size e), db_dirty := True\<rparr>"
    have "db_inv ?mid" using inv * by (auto simp: db_inv_def algebra_simps)
    moreover have d: "?db = ?mid\<lparr>db_entries := ?es\<rparr>" "fst (cweb_db_delete db key) = 0"
      using Some *(2,6) by (simp_all add: cweb_db_delete_def)
    ultimately have "db_inv ?db" "db_abs ?db = db_abs ?mid"
      using inv_by_mset [of ?es ?mid ?db] by simp_all
    moreover have "db_abs ?mid = (db_abs db)(key := None)" "db_abs db key \<noteq> None"
      using * none [of pre] none [of post] by (auto simp: db_abs_def map_add_def fun_eq_iff split: option.splits)
    ultimately show ?thesis using d by simp
  qed
  then show "fst (cweb_db_delete db key) = (if db_abs db key = None then -1 else 0)" "db_inv ?db" "db_abs ?db = (db_abs db)(key := None)"
      "db_path ?db = db_path db" by blast+
qed

subsection \<open>The interface of the store\<close>

text \<open>What the clients of the store rely on: it is a finite map.\<close>

locale kv_store =
  fixes ok :: "'s \<Rightarrow> bool" and contents :: "'s \<Rightarrow> char list \<rightharpoonup> char list"
    and get :: "'s \<Rightarrow> char list \<Rightarrow> char list option"
    and put :: "'s \<Rightarrow> char list \<Rightarrow> char list \<Rightarrow> 's" and delete :: "'s \<Rightarrow> char list \<Rightarrow> 's"
  assumes get_contents: "ok s \<Longrightarrow> get s k = contents s k"
    and put_ok: "ok s \<Longrightarrow> ok (put s k v)" and put_contents: "ok s \<Longrightarrow> contents (put s k v) = (contents s)(k \<mapsto> v)"
    and delete_ok: "ok s \<Longrightarrow> ok (delete s k)" and delete_contents: "ok s \<Longrightarrow> contents (delete s k) = (contents s)(k := None)"
begin

lemma get_put: "ok s \<Longrightarrow> get (put s k v) k' = (if k' = k then Some v else get s k')"
  by (simp add: get_contents put_ok put_contents)

lemma get_delete: "ok s \<Longrightarrow> get (delete s k) k' = (if k' = k then None else get s k')"
  by (simp add: get_contents delete_ok delete_contents)

lemma put_put: "ok s \<Longrightarrow> contents (put (put s k v) k v') = contents (put s k v')"
  by (simp add: put_ok put_contents)

end

interpretation db: kv_store db_inv db_abs cweb_db_get "\<lambda>db k v. snd (cweb_db_put db k v)" "\<lambda>db k. snd (cweb_db_delete db k)"
  by unfold_locales (simp_all add: db_get_abs db_put_abs db_delete_abs)

subsection \<open>The file format\<close>

definition frame :: "char list \<times> char list \<Rightarrow> char list" where
  "frame kv = put_u32 (length (fst kv)) @ fst kv @ put_u32 (length (snd kv)) @ snd kv"

definition image_of :: "(char list \<times> char list) list \<Rightarrow> char list" where
  "image_of kvs = CHR 0x01 # concat (map frame kvs)"

definition short :: "char list \<times> char list \<Rightarrow> bool" where
  "short kv \<longleftrightarrow> length (fst kv) < 2 ^ 32 \<and> length (snd kv) < 2 ^ 32"

definition db_pairs :: "cweb_db \<Rightarrow> (char list \<times> char list) list" where
  "db_pairs db = map (\<lambda>e. (entry_key e, entry_value e)) (db_entries db)"

definition load :: "cweb_db \<Rightarrow> (char list \<times> char list) list \<Rightarrow> cweb_db" where
  "load tmp kvs = foldl (\<lambda>t kv. let t1 = db_append t (fst kv) (snd kv)
     in t1\<lparr>db_total := db_total t1 + of_nat (8 + length (fst kv) + length (snd kv))\<rparr>) tmp kvs"

lemma open_loop_step:
  assumes "short (k, v)"
  shows "open_loop tmp (frame (k, v) @ rest) = open_loop (load tmp [(k, v)]) rest"
proof -
  have k: "get_u32 (frame (k, v) @ rest) = length k" and v: "get_u32 (put_u32 (length v) @ v @ rest) = length v"
    using assms by (simp_all add: frame_def short_def get_put_u32)
  have l: "8 \<le> length (frame (k, v) @ rest)" by (simp add: frame_def)
  show ?thesis
    unfolding open_loop.simps [of tmp "frame (k, v) @ rest"] Let_def k using l v
    by (simp add: frame_def load_def Let_def)
qed

lemma open_loop_image: "list_all short kvs \<Longrightarrow> open_loop tmp (concat (map frame kvs)) = Some (load tmp kvs)"
proof (induction kvs arbitrary: tmp)
  case (Cons kv kvs)
  then show ?case using open_loop_step [of "fst kv" "snd kv" tmp "concat (map frame kvs)"] by (simp add: load_def)
qed (simp add: open_loop.simps load_def)

lemma open_loop_Some:
  "open_loop tmp rest = Some db \<Longrightarrow> \<exists>kvs. list_all short kvs \<and> rest = concat (map frame kvs) \<and> db = load tmp kvs"
proof (induction "length rest" arbitrary: tmp rest rule: less_induct)
  case less
  show ?case
  proof (cases "8 \<le> length rest")
    case False
    then have "rest = []" "db = tmp" using less.prems by (simp_all add: open_loop.simps [of tmp rest] split: if_splits)
    then show ?thesis by (intro exI [of _ "[]"]) (simp add: load_def)
  next
    case True
    define klen r1 where "klen = get_u32 rest" and "r1 = drop 4 rest"
    define key r2 where "key = take klen r1" and "r2 = drop klen r1"
    define vlen r3 where "vlen = get_u32 r2" and "r3 = drop 4 r2"
    define v where "v = take vlen r3"
    have le: "klen \<le> length r1" "4 \<le> length r2" "vlen \<le> length r3"
      using less.prems True unfolding open_loop.simps [of tmp rest]
      by (simp_all add: klen_def r1_def key_def r2_def vlen_def r3_def v_def Let_def split: if_splits)
    have sh: "short (key, v)" using le get_u32_less [of rest] get_u32_less [of r2] by (simp add: short_def key_def v_def klen_def vlen_def)
    have "rest = put_u32 klen @ r1" unfolding klen_def r1_def using put_get_u32 [of rest] True by simp
    moreover have "r1 = key @ r2" "r3 = v @ drop vlen r3" unfolding key_def r2_def v_def by simp_all
    moreover have "r2 = put_u32 vlen @ r3" unfolding vlen_def r3_def using put_get_u32 [of r2] le by simp
    ultimately have "rest = put_u32 klen @ key @ put_u32 vlen @ v @ drop vlen r3" by metis
    then have rest: "rest = frame (key, v) @ drop vlen r3" using le by (simp add: frame_def key_def v_def)
    then have "open_loop (load tmp [(key, v)]) (drop vlen r3) = Some db" using less.prems open_loop_step [OF sh] by simp
    moreover have "length (drop vlen r3) < length rest" unfolding rest by (simp add: frame_def)
    ultimately obtain kvs where "list_all short kvs" "drop vlen r3 = concat (map frame kvs)" "db = load (load tmp [(key, v)]) kvs"
      using less.hyps by blast
    then show ?thesis using rest sh by (intro exI [of _ "(key, v) # kvs"]) (simp add: load_def)
  qed
qed

lemma load_facts:
  "db_entries (load tmp kvs) = db_entries tmp @ map (\<lambda>kv. own_entry (fst kv) (snd kv)) kvs \<and> db_path (load tmp kvs) = db_path tmp
   \<and> db_dirty (load tmp kvs) = db_dirty tmp
   \<and> db_total (load tmp kvs) = db_total tmp + of_nat (sum_list (map (\<lambda>kv. 8 + length (fst kv) + length (snd kv)) kvs))
   \<and> (db_count tmp \<le> db_capacity tmp \<longrightarrow> db_count (load tmp kvs) \<le> db_capacity (load tmp kvs))"
proof (induction kvs rule: rev_induct)
  case (snoc kv kvs)
  then show ?case by (auto simp: load_def Let_def db_append_def algebra_simps)
qed (simp add: load_def)

lemma writes_entry: "entry_ok e \<Longrightarrow> short (entry_key e, entry_value e) \<Longrightarrow>
  sb.writes (\<lambda>b. write_entry b e) (frame (entry_key e, entry_value e))"
proof -
  assume e: "entry_ok e" "short (entry_key e, entry_value e)"
  then have "de_klen e mod 2 ^ 32 = length (entry_key e)" "de_vlen e mod 2 ^ 32 = length (entry_value e)"
    using entry_ok_lengths [of e] by (simp_all add: short_def)
  then show ?thesis
    using sb.writes_seq [OF sb.writes_seq [OF sb.writes_seq [OF sb.writes_put sb.writes_put] sb.writes_put] sb.writes_put]
    unfolding write_entry_def frame_def Let_def entry_key_def [symmetric] entry_value_def [symmetric] by simp
qed

text \<open>What \<open>cweb_db_sync\<close> has in its buffer, and that the byte count agrees with the accounting.\<close>

lemma sync_buffer:
  assumes "db_inv db" "list_all short (db_pairs db)"
  shows "strbuf_view (foldl write_entry (strbuf_append_char strbuf_init (CHR 0x01)) (db_entries db)) = image_of (db_pairs db)"
    and "of_nat (sb_count (foldl write_entry (strbuf_append_char strbuf_init (CHR 0x01)) (db_entries db))) = db_total db + 1"
proof -
  let ?b = "foldl write_entry (strbuf_append_char strbuf_init (CHR 0x01)) (db_entries db)"
  have ok: "entry_ok e \<and> short (entry_key e, entry_value e)" if "e \<in> set (db_entries db)" for e
    using assms that by (auto simp: db_inv_def db_pairs_def list_all_iff)
  have "sb.writes (\<lambda>b. foldl write_entry b (db_entries db)) (concat (map (\<lambda>e. frame (entry_key e, entry_value e)) (db_entries db)))"
    by (rule sb.writes_loop) (use ok writes_entry in blast)
  from sb.writes_seq [OF writes_append_char this, of "CHR 0x01"]
  have w: "sb.writes (\<lambda>b. foldl write_entry (strbuf_append_char b (CHR 0x01)) (db_entries db)) (image_of (db_pairs db))"
    by (simp add: image_of_def db_pairs_def comp_def)
  show v: "strbuf_view ?b = image_of (db_pairs db)" using sb.writes_view [OF w strbuf_inv_init] by simp
  have "length (frame (entry_key e, entry_value e)) = db_entry_size e" if "e \<in> set (db_entries db)" for e
    using ok [OF that] entry_ok_lengths [of e] by (simp add: frame_def db_entry_size_def)
  then have "sum_list (map (\<lambda>e. length (frame (entry_key e, entry_value e))) (db_entries db)) = sum_list (map db_entry_size (db_entries db))"
    by (intro arg_cong [of _ _ sum_list] map_cong) auto
  then have "length (image_of (db_pairs db)) = Suc (sum_list (map db_entry_size (db_entries db)))"
    by (simp add: image_of_def db_pairs_def length_concat comp_def)
  moreover have "sb_count ?b = length (strbuf_view ?b)" using sb.writes_inv [OF w strbuf_inv_init] by (simp add: count_view)
  ultimately show "of_nat (sb_count ?b) = db_total db + 1" using v assms(1) by (simp add: db_inv_def)
qed

lemma open_image:
  assumes "fs (c_str path) = Some (image_of kvs)" "list_all short kvs" "distinct (map fst kvs)"
  shows "\<exists>db. cweb_db_open fs True path = Some db \<and> db_inv db \<and> db_pairs db = kvs \<and> db_path db = Some (c_str path) \<and> \<not> db_dirty db"
proof -
  let ?t = "db_zero\<lparr>db_path := Some (c_str path)\<rparr>"
  have "cweb_db_open fs True path = Some (load ?t kvs)"
    using assms(1) open_loop_image [OF assms(2)] by (simp add: cweb_db_open_def image_of_def Let_def)
  moreover have "db_inv (load ?t kvs)" using load_facts [of ?t kvs] assms(3)
    by (auto simp: db_inv_def db_zero_def comp_def list_all_iff)
  ultimately show ?thesis using load_facts [of ?t kvs] by (simp add: db_pairs_def db_zero_def comp_def)
qed

subsection \<open>Correctness\<close>

datatype db_op = Put "char list" "char list" | Delete "char list"

fun db_run :: "cweb_db \<Rightarrow> db_op \<Rightarrow> cweb_db" where
  "db_run db (Put k v) = snd (cweb_db_put db k v)"
| "db_run db (Delete k) = snd (cweb_db_delete db k)"

fun map_run :: "(char list \<rightharpoonup> char list) \<Rightarrow> db_op \<Rightarrow> char list \<rightharpoonup> char list" where
  "map_run m (Put k v) = m(k \<mapsto> v)"
| "map_run m (Delete k) = m(k := None)"

lemma db_run_abs: "db_inv db \<Longrightarrow> db_inv (foldl db_run db ops) \<and> db_abs (foldl db_run db ops) = foldl map_run (db_abs db) ops"
proof (induction ops arbitrary: db)
  case (Cons a ops)
  then show ?case by (cases a) (simp_all only: foldl_Cons db_run.simps map_run.simps db_put_abs db_delete_abs)
qed simp

text \<open>
  C31: The store is a finite map. After any sequence of puts and deletes, \<open>cweb_db_get\<close> answers what a map would, and
  the invariant holds: entries with their terminators in place, no key twice, and the byte count that \<open>cweb_db_sync\<close>
  checks exactly the size of the entries.
\<close>

theorem db_refines_map:
  assumes "db_inv db"
  shows "db_inv (foldl db_run db ops) \<and> cweb_db_get (foldl db_run db ops) k = foldl map_run (db_abs db) ops k"
  using db_run_abs [OF assms, of ops] db.get_contents by simp

theorem db_refines_map_witness:
  "db_inv (foldl db_run db_zero [Put ''a'' ''1'', Put ''b'' ''2'', Put ''a'' ''3'', Delete ''b''])
   \<and> cweb_db_get (foldl db_run db_zero [Put ''a'' ''1'', Put ''b'' ''2'', Put ''a'' ''3'', Delete ''b'']) ''a'' = Some ''3''"
  using db_refines_map [of db_zero "[Put ''a'' ''1'', Put ''b'' ''2'', Put ''a'' ''3'', Delete ''b'']" "''a''"]
  by (simp add: db_inv_def db_zero_def)



text \<open>
  The format is exactly this one: an existing file is accepted if and only if it is the image of some entries, and then
  the store holds these entries.
\<close>

lemma db_open_iff:
  assumes "fs (c_str path) = Some data"
  shows "cweb_db_open fs True path = Some db
    \<longleftrightarrow> (\<exists>kvs. list_all short kvs \<and> data = image_of kvs \<and> db = load (db_zero\<lparr>db_path := Some (c_str path)\<rparr>) kvs)"
proof -
  have one: "ucode c = Suc 0 \<longleftrightarrow> c = CHR 0x01" for c using ucode_inject [of c "CHR 0x01"] by simp
  show ?thesis
  proof (cases data)
    case (Cons c rest)
    then show ?thesis using assms open_loop_image open_loop_Some [of _ rest db]
      by (auto simp: cweb_db_open_def Let_def one image_of_def)
  qed (use assms in \<open>simp add: cweb_db_open_def image_of_def\<close>)
qed

text \<open>
  A key that a file holds twice survives its own deletion: opening does not merge the entries, and deleting removes
  only the first.
\<close>

lemma db_duplicate_survives:
  "case cweb_db_open [''x'' \<mapsto> image_of [(''k'', ''1''), (''k'', ''2'')]] True ''x'' of
     Some db \<Rightarrow> fst (cweb_db_delete db ''k'') = 0 \<and> cweb_db_get (snd (cweb_db_delete db ''k'')) ''k'' = Some ''2''
   | None \<Rightarrow> False"
proof -
  have c: "c_str ''x'' = ''x''" by code_simp
  let ?db = "load (db_zero\<lparr>db_path := Some ''x''\<rparr>) [(''k'', ''1''), (''k'', ''2'')]"
  have "cweb_db_open [''x'' \<mapsto> image_of [(''k'', ''1''), (''k'', ''2'')]] True ''x'' = Some ?db"
    using db_open_iff [of "[''x'' \<mapsto> image_of [(''k'', ''1''), (''k'', ''2'')]]" "''x''" _ ?db] unfolding c
    by (auto simp: short_def intro!: exI [of _ "[(''k'', ''1''), (''k'', ''2'')]"])
  then show ?thesis
    by (simp add: load_def db_append_def cweb_db_delete_def cweb_db_get_def own_entry_def db_zero_def Let_def)
qed

end
