(* ===== verification/Sessions.thy ===== *)
theory Sessions
  imports Database Forms
begin

text \<open>
  \<open>src/http/session.c\<close>: server-side sessions in memory, mirrored into the key-value store. A session is a
  heap object, so handles survive the growth and the swaps of the slot table: the heap is a map from
  addresses to sessions, a slot is a token with the address of its session. Random bytes and the clock are
  arguments. The mutex makes each operation one step, as it is here; operations that use a \<open>Str_Map\<close> return
  \<^const>\<open>None\<close> if one of its loops never stopped.
\<close>

definition TOKEN_BYTES :: nat where "TOKEN_BYTES = 20"
definition TOKEN_HEX :: nat where "TOKEN_HEX = TOKEN_BYTES * 2"
definition SESSION_DB_PREFIX :: "char list" where "SESSION_DB_PREFIX = ''session-''"
definition STORE_GROW :: nat where "STORE_GROW = 8"

text \<open>\<open>hs_stored\<close>: the back pointer to the store is not \<open>NULL\<close>.\<close>

record http_session =
  hs_data :: str_map
  hs_expires :: int
  hs_stored :: bool

record session_store =
  ss_heap :: "nat \<rightharpoonup> http_session"
  ss_next :: nat
  ss_slots :: "(char list \<times> nat) list"
  ss_capacity :: nat
  ss_default_ttl :: int
  ss_db :: "cweb_db option"

abbreviation ss_count :: "session_store \<Rightarrow> nat" where
  "ss_count s \<equiv> length (ss_slots s)"

abbreviation slot_token :: "session_store \<Rightarrow> nat \<Rightarrow> char list" where
  "slot_token s i \<equiv> fst (ss_slots s ! i)"

abbreviation slot_session :: "session_store \<Rightarrow> nat \<Rightarrow> http_session" where
  "slot_session s i \<equiv> the (ss_heap s (snd (ss_slots s ! i)))"

subsection \<open>Tokens and slots\<close>

definition hex2 :: "byte \<Rightarrow> char list" where
  "hex2 b = [''0123456789abcdef'' ! (unat b div 16), ''0123456789abcdef'' ! (unat b mod 16)]"

definition new_token :: "byte list option \<Rightarrow> char list option" where
  "new_token random = map_option (\<lambda>rnd. concat (map hex2 (take TOKEN_BYTES rnd))) random"

definition http_session_store_init :: "int \<Rightarrow> session_store" where
  "http_session_store_init default_ttl = \<lparr>ss_heap = Map.empty, ss_next = 0, ss_slots = [], ss_capacity = 0,
     ss_default_ttl = default_ttl, ss_db = None\<rparr>"

definition http_session_store_free :: "session_store \<Rightarrow> session_store" where
  "http_session_store_free s = s\<lparr>ss_heap := foldl (\<lambda>h slot. h(snd slot := None)) (ss_heap s) (ss_slots s), ss_slots := [],
     ss_capacity := 0, ss_default_ttl := 0, ss_db := None\<rparr>"

definition http_session_store_set_db :: "session_store \<Rightarrow> cweb_db option \<Rightarrow> session_store" where
  "http_session_store_set_db s db = s\<lparr>ss_db := db\<rparr>"

fun secret_diff :: "char list \<Rightarrow> char list \<Rightarrow> nat \<Rightarrow> nat" where
  "secret_diff (a # as) (b # bs) diff = secret_diff as bs (diff OR (ucode a XOR ucode b))"
| "secret_diff _ _ diff = diff"

definition token_secret_eq :: "char list \<Rightarrow> char list \<Rightarrow> bool" where
  "token_secret_eq a b =
     (if length (c_str a) \<noteq> TOKEN_HEX \<or> length (c_str b) \<noteq> TOKEN_HEX then False
      else secret_diff (c_str a) (c_str b) 0 = 0)"

fun find_slot :: "((char list \<times> nat) \<Rightarrow> bool) \<Rightarrow> (char list \<times> nat) list \<Rightarrow> nat option" where
  "find_slot P [] = None"
| "find_slot P (x # xs) = (if P x then Some 0 else map_option Suc (find_slot P xs))"

definition find_token :: "session_store \<Rightarrow> char list \<Rightarrow> nat option" where
  "find_token s token = find_slot (\<lambda>slot. token_secret_eq (fst slot) token) (ss_slots s)"

definition session_index :: "session_store \<Rightarrow> nat \<Rightarrow> nat option" where
  "session_index s sesh = find_slot (\<lambda>slot. snd slot = sesh) (ss_slots s)"

text \<open>The key of a session in the store, in a buffer of 64 bytes.\<close>

definition session_key :: "char list \<Rightarrow> char list" where
  "session_key token = snprintf_str 64 (SESSION_DB_PREFIX @ c_str token)"

definition remove_at :: "session_store \<Rightarrow> nat \<Rightarrow> session_store" where
  "remove_at s i =
     (let db = map_option (\<lambda>db. snd (cweb_db_delete db (sv_from_cstr (session_key (slot_token s i))))) (ss_db s);
          n = ss_count s - 1;
          rest = take n (ss_slots s)
      in s\<lparr>ss_db := db, ss_heap := (ss_heap s)(snd (ss_slots s ! i) := None),
           ss_slots := if i \<noteq> n then rest[i := ss_slots s ! n] else rest\<rparr>)"

definition grow :: "session_store \<Rightarrow> session_store" where
  "grow s =
     (if ss_count s < ss_capacity s then s
      else s\<lparr>ss_capacity := if ss_capacity s \<noteq> 0 then ss_capacity s * 2 else STORE_GROW\<rparr>)"

text \<open>A fresh heap object in a new slot at the end.\<close>

definition add_slot :: "session_store \<Rightarrow> char list \<Rightarrow> http_session \<Rightarrow> session_store" where
  "add_slot s token sesh =
     s\<lparr>ss_heap := (ss_heap s)(ss_next s \<mapsto> sesh), ss_next := ss_next s + 1, ss_slots := ss_slots s @ [(token, ss_next s)]\<rparr>"

subsection \<open>Persistence\<close>

fun session_lines :: "strbuf \<Rightarrow> slot list \<Rightarrow> strbuf" where
  "session_lines buf [] = buf"
| "session_lines buf (None # es) = session_lines buf es"
| "session_lines buf (Some (k, v) # es) =
     session_lines (strbuf_append_char (strbuf_append_cstr (strbuf_append_char (strbuf_append_cstr buf k) LF) v) LF) es"

definition session_blob :: "http_session \<Rightarrow> strbuf" where
  "session_blob sesh =
     (let buf = strbuf_append_char (strbuf_append_cstr strbuf_init (snprintf_str 32 (dec_of_int (hs_expires sesh)))) LF
      in strbuf_null_terminate (session_lines buf (sm_entries (hs_data sesh))))"

definition session_to_db :: "session_store \<Rightarrow> nat \<Rightarrow> session_store" where
  "session_to_db s i =
     (case ss_db s of
        None \<Rightarrow> s
      | Some db \<Rightarrow>
          s\<lparr>ss_db := Some (snd (cweb_db_put db (sv_from_cstr (session_key (slot_token s i)))
             (sv_from_cstr (strbuf_cstr (session_blob (slot_session s i))))))\<rparr>)"

text \<open>A call of \<open>cweb_db_sync\<close>, whose result the callers ignore.\<close>

definition sync_db :: "write_outcome \<times> bool \<Rightarrow> session_store \<times> disk \<Rightarrow> session_store \<times> disk" where
  "sync_db io = (\<lambda>(s, fs).
     (case ss_db s of
        None \<Rightarrow> (s, fs)
      | Some db \<Rightarrow> (case cweb_db_sync (fst io) (snd io) db fs of (rc, db', fs') \<Rightarrow> (s\<lparr>ss_db := Some db'\<rparr>, fs'))))"

function from_db_loop :: "str_map \<Rightarrow> sv \<Rightarrow> str_map option" where
  "from_db_loop m rest =
     (if length rest = 0 then Some m
      else case sv_chop_by_delim rest LF of (k, rest1) \<Rightarrow>
        if length rest1 = 0 then Some m
        else case sv_chop_by_delim rest1 LF of (v, rest2) \<Rightarrow>
          (case strmap_set m k v of None \<Rightarrow> None | Some (rc, m') \<Rightarrow> from_db_loop m' rest2))"
  by pat_completeness auto
termination
  by (relation "measure (\<lambda>(m, rest). length rest)") (auto, metis sv_chop_shorter' less_trans)

declare from_db_loop.simps [simp del]

definition session_from_db :: "cweb_db \<Rightarrow> http_session \<Rightarrow> char list \<Rightarrow> http_session option" where
  "session_from_db db sesh token =
     (case cweb_db_get db (sv_from_cstr (session_key token)) of
        None \<Rightarrow> Some sesh
      | Some blob \<Rightarrow>
          if length blob = 0 then Some sesh
          else case sv_chop_by_delim blob LF of (line, rest) \<Rightarrow>
            let expires = (case sv_to_i64 line of Some e \<Rightarrow> e | None \<Rightarrow> 0)
            in map_option (\<lambda>m. sesh\<lparr>hs_expires := expires, hs_data := m\<rparr>) (from_db_loop (hs_data sesh) rest))"

subsection \<open>Operations\<close>

definition http_session_create ::
  "byte list option \<Rightarrow> int \<Rightarrow> write_outcome \<times> bool \<Rightarrow> session_store \<Rightarrow> disk \<Rightarrow> int \<Rightarrow> char list option \<times> session_store \<times> disk" where
  "http_session_create random now io s fs ttl =
     (case new_token random of
        None \<Rightarrow> (None, s, fs)
      | Some tok \<Rightarrow>
          let t = (if ttl < 0 then ss_default_ttl s else ttl);
              sesh = \<lparr>hs_data = strmap_init, hs_expires = (if t > 0 then now + t else 0), hs_stored = True\<rparr>;
              s1 = add_slot (grow s) tok sesh
          in (Some tok, if ss_db s1 \<noteq> None then sync_db io (session_to_db s1 (ss_count s1 - 1), fs) else (s1, fs)))"

definition set_data :: "session_store \<Rightarrow> nat \<Rightarrow> str_map \<Rightarrow> session_store" where
  "set_data s sesh m = s\<lparr>ss_heap := (ss_heap s)(sesh \<mapsto> (the (ss_heap s sesh))\<lparr>hs_data := m\<rparr>)\<rparr>"

text \<open>The write-through at the end of \<open>http_session_set\<close> and \<open>http_session_del\<close>.\<close>

definition write_through :: "write_outcome \<times> bool \<Rightarrow> session_store \<Rightarrow> disk \<Rightarrow> nat \<Rightarrow> session_store \<times> disk" where
  "write_through io s fs sesh =
     (if ss_db s = None then (s, fs)
      else case session_index s sesh of None \<Rightarrow> (s, fs) | Some i \<Rightarrow> sync_db io (session_to_db s i, fs))"

definition http_session_set ::
  "write_outcome \<times> bool \<Rightarrow> session_store \<Rightarrow> disk \<Rightarrow> nat \<Rightarrow> char list \<Rightarrow> char list \<Rightarrow> (session_store \<times> disk) option" where
  "http_session_set io s fs sesh key value =
     (let ss = the (ss_heap s sesh) in
      case strmap_set (hs_data ss) (sv_from_cstr key) (sv_from_cstr value) of
        None \<Rightarrow> None
      | Some (rc, m) \<Rightarrow>
          Some (if \<not> hs_stored ss then (set_data s sesh m, fs) else write_through io (set_data s sesh m) fs sesh))"

definition http_session_value :: "session_store \<Rightarrow> nat \<Rightarrow> char list \<Rightarrow> char list option" where
  "http_session_value s sesh key = strmap_get_cstr (hs_data (the (ss_heap s sesh))) key"

definition http_session_del ::
  "write_outcome \<times> bool \<Rightarrow> session_store \<Rightarrow> disk \<Rightarrow> nat \<Rightarrow> char list \<Rightarrow> (int \<times> session_store \<times> disk) option" where
  "http_session_del io s fs sesh key =
     (let ss = the (ss_heap s sesh); present = (strmap_get_cstr (hs_data ss) key \<noteq> None) in
      if \<not> hs_stored ss then
        map_option (\<lambda>m. (if present then 1 else 0, set_data s sesh m, fs)) (strmap_delete (hs_data ss) (sv_from_cstr key))
      else if present then
        map_option (\<lambda>m. (1, write_through io (set_data s sesh m) fs sesh)) (strmap_delete (hs_data ss) (sv_from_cstr key))
      else Some (0, s, fs))"

definition http_session_destroy :: "session_store \<Rightarrow> char list \<Rightarrow> session_store" where
  "http_session_destroy s token = (case find_token s token of Some i \<Rightarrow> remove_at s i | None \<Rightarrow> s)"

definition expired :: "int \<Rightarrow> http_session \<Rightarrow> bool" where
  "expired now sesh \<longleftrightarrow> hs_expires sesh \<noteq> 0 \<and> hs_expires sesh \<le> now"

function reap_loop :: "int \<Rightarrow> session_store \<Rightarrow> nat \<Rightarrow> session_store" where
  "reap_loop now s i =
     (if i < ss_count s
      then if expired now (slot_session s i) then reap_loop now (remove_at s i) i else reap_loop now s (i + 1)
      else s)"
  by pat_completeness auto
termination
  by (relation "measure (\<lambda>(now, s, i). ss_count s - i)") (auto simp: remove_at_def Let_def)

declare reap_loop.simps [simp del]

definition http_session_reap :: "int \<Rightarrow> session_store \<Rightarrow> session_store" where
  "http_session_reap now s = reap_loop now s 0"

text \<open>\<open>http_session_open\<close> from the lookup on: an expired session is dropped on contact.\<close>

definition open_slot :: "int \<Rightarrow> session_store \<Rightarrow> nat \<Rightarrow> nat option \<times> session_store" where
  "open_slot now s i = (if expired now (slot_session s i) then (None, remove_at s i) else (Some (snd (ss_slots s ! i)), s))"

definition http_session_open :: "int \<Rightarrow> session_store \<Rightarrow> char list \<Rightarrow> (nat option \<times> session_store) option" where
  "http_session_open now s token =
     (case (find_token s token, ss_db s) of
        (Some i, _) \<Rightarrow> Some (open_slot now s i)
      | (None, None) \<Rightarrow> Some (None, s)
      | (None, Some db) \<Rightarrow>
          if cweb_db_get db (sv_from_cstr (session_key token)) = None then Some (None, s)
          else
            map_option (\<lambda>sesh. let s1 = add_slot (grow s) (c_str token) sesh in open_slot now s1 (ss_count s1 - 1))
              (session_from_db db \<lparr>hs_data = strmap_init, hs_expires = 0, hs_stored = True\<rparr> token))"

definition http_session_from_cookie ::
  "int \<Rightarrow> session_store \<Rightarrow> http_request \<Rightarrow> char list \<Rightarrow> (nat option \<times> session_store) option" where
  "http_session_from_cookie now s req cookie_name =
     (case http_request_get_header req ''cookie'' of
        None \<Rightarrow> Some (None, s)
      | Some h \<Rightarrow>
          (case http_cookie_parse strmap_init h of
             None \<Rightarrow> None
           | Some jar \<Rightarrow>
               (case strmap_get_cstr jar cookie_name of
                  Some token \<Rightarrow> http_session_open now s token
                | None \<Rightarrow> Some (None, s))))"

definition http_session_issue_cookie :: "http_response \<Rightarrow> char list \<Rightarrow> char list \<Rightarrow> cookie_attrs option \<Rightarrow> http_response" where
  "http_session_issue_cookie res cookie_name token attrs =
     (let a = (case attrs of Some a \<Rightarrow> a
               | None \<Rightarrow> \<lparr>ca_path = Some ''/'', ca_max_age = -1, ca_http_only = True, ca_secure = False, ca_same_site = COOKIE_SAMESITE_LAX\<rparr>)
      in http_response_set_cookie res cookie_name token (Some a))"

definition http_session_store_dump :: "session_store \<Rightarrow> session_store" where
  "http_session_store_dump s =
     (if ss_db s = None then s else foldl session_to_db s [0..<ss_count s])"

subsection \<open>The record of a session\<close>

fun pairs_of :: "slot list \<Rightarrow> (char list \<times> char list) list" where
  "pairs_of [] = []"
| "pairs_of (None # es) = pairs_of es"
| "pairs_of (Some (k, v) # es) = (c_str k, c_str v) # pairs_of es"

lemma pairs_of_map: "map_of (pairs_of E) = slots_map E"
  by (induction E rule: pairs_of.induct) simp_all

lemma pairs_of_distinct: "uniq_keys E \<Longrightarrow> distinct (map fst (pairs_of E))"
proof (induction E rule: pairs_of.induct)
  case (3 k v es)
  then have "map_of (pairs_of es) (c_str k) = None" by (simp add: pairs_of_map)
  then show ?case using 3 by (auto simp: map_of_eq_None_iff image_iff)
qed simp_all

lemma pairs_of_plain: "(k, v) \<in> set (pairs_of E) \<Longrightarrow> NUL \<notin> set k \<and> NUL \<notin> set v"
  by (induction E rule: pairs_of.induct) auto

definition line_pair :: "char list \<times> char list \<Rightarrow> char list" where
  "line_pair kv = fst kv @ [LF] @ snd kv @ [LF]"

definition session_text :: "http_session \<Rightarrow> char list" where
  "session_text sesh = dec_of_int (hs_expires sesh) @ [LF] @ concat (map line_pair (pairs_of (sm_entries (hs_data sesh))))"

lemma writes_session_lines: "sb.writes (\<lambda>b. session_lines b E) (concat (map line_pair (pairs_of E)))"
proof (induction E rule: pairs_of.induct)
  case (3 k v es)
  have "sb.writes (\<lambda>b. strbuf_append_char (strbuf_append_cstr (strbuf_append_char (strbuf_append_cstr b k) LF) v) LF) (line_pair (c_str k, c_str v))"
    using sb.writes_seq [OF sb.writes_seq [OF sb.writes_seq [OF writes_append_cstr writes_append_char] writes_append_cstr] writes_append_char, of k LF v LF]
    by (simp add: line_pair_def)
  from sb.writes_seq [OF this 3] show ?case by simp
qed (simp_all add: sb.writes_skip)

definition time_ok :: "int \<Rightarrow> bool" where
  "time_ok t \<longleftrightarrow> - LLONG_MAX \<le> t \<and> t \<le> LLONG_MAX"

lemma dec_of_time:
  assumes "time_ok t"
  shows "length (dec_of_int t) \<le> 20" "NUL \<notin> set (dec_of_int t)" "LF \<notin> set (dec_of_int t)" "sv_to_i64 (dec_of_int t) = Some t"
proof -
  let ?n = "nat \<bar>t\<bar>"
  have n: "int ?n \<le> LLONG_MAX" using assms by (auto simp: time_ok_def abs_le_iff)
  then have "?n < 10 ^ 19" unfolding LLONG_MAX_def by simp
  then have l: "length (dec_of_nat ?n) \<le> 19" using length_dec_of_nat [of ?n 19] by simp
  have d: "NUL \<notin> set (dec_of_nat ?n)" "LF \<notin> set (dec_of_nat ?n)"
    using digits_no_break [of NUL ?n] digits_no_break [of LF ?n] by (auto simp: isdigit_def)
  have e: "dec_of_int t = (if t < 0 then [CHR ''-''] else []) @ dec_of_nat ?n" by (simp add: dec_of_int_def)
  have "sv_digits (dec_of_nat ?n) 0 = Some (int ?n)" using n dec_of_nat_digits by (simp add: sv_digits_dec_value)
  then show "sv_to_i64 (dec_of_int t) = Some t"
    using sv_to_i64_dec_of_nat [OF n] unfolding e by (auto simp: sv_to_i64_def Let_def)
  show "length (dec_of_int t) \<le> 20" "NUL \<notin> set (dec_of_int t)" "LF \<notin> set (dec_of_int t)"
    using l d unfolding e by (cases "t < 0"; simp)+
qed

lemma blob_text:
  assumes "time_ok (hs_expires sesh)"
  shows "strbuf_cstr (session_blob sesh) = session_text sesh" "NUL \<notin> set (session_text sesh)"
proof -
  let ?n = "dec_of_int (hs_expires sesh)"
  have n: "snprintf_str 32 ?n = ?n" "NUL \<notin> set ?n"
    using dec_of_time [OF assms] by (simp_all add: snprintf_str_def)
  have w: "sb.writes (\<lambda>b. session_lines (strbuf_append_char (strbuf_append_cstr b ?n) LF) (sm_entries (hs_data sesh))) (session_text sesh)"
    using sb.writes_seq [OF sb.writes_seq [OF writes_append_cstr writes_append_char] writes_session_lines, of ?n LF "sm_entries (hs_data sesh)"] n(2)
    by (simp add: session_text_def c_str_id)
  show p: "NUL \<notin> set (session_text sesh)"
    using n(2) pairs_of_plain by (auto simp: session_text_def line_pair_def)
  show "strbuf_cstr (session_blob sesh) = session_text sesh"
    unfolding session_blob_def Let_def n
    using strbuf_null_terminate_facts(3) [OF sb.writes_inv [OF w strbuf_inv_init]] sb.writes_view [OF w strbuf_inv_init] p
    by (simp add: c_str_id)
qed

text \<open>Reading the lines back: the pairs are set in order.\<close>

definition one_line :: "char list \<times> char list \<Rightarrow> bool" where
  "one_line kv \<longleftrightarrow> LF \<notin> set (fst kv) \<and> LF \<notin> set (snd kv)"

lemma from_db_lines:
  "strmap_inv m \<Longrightarrow> list_all one_line kvs \<Longrightarrow> (\<And>k v. (k, v) \<in> set kvs \<Longrightarrow> NUL \<notin> set k \<and> NUL \<notin> set v) \<Longrightarrow>
   \<exists>m'. from_db_loop m (concat (map line_pair kvs)) = Some m' \<and> strmap_inv m' \<and> strmap_get m' = strmap_get m ++ map_of (rev kvs)"
proof (induction kvs arbitrary: m)
  case (Cons kv kvs)
  obtain k v where kv: "kv = (k, v)" by (cases kv)
  have p: "NUL \<notin> set k" "NUL \<notin> set v" "LF \<notin> set k" "LF \<notin> set v" using Cons.prems kv by (auto simp: one_line_def)
  obtain m1 where m1: "strmap_set m k v = Some (0, m1)" "strmap_inv m1" "strmap_get m1 = (strmap_get m)(k \<mapsto> v)"
    using sm.set_key [OF Cons.prems(1) p(1), of v] p(2) by (auto simp: c_str_id)
  obtain m2 where m2: "from_db_loop m1 (concat (map line_pair kvs)) = Some m2" "strmap_inv m2" "strmap_get m2 = strmap_get m1 ++ map_of (rev kvs)"
    using Cons.IH [OF m1(2)] Cons.prems(2,3) by auto
  have "concat (map line_pair (kv # kvs)) = k @ LF # (v @ LF # concat (map line_pair kvs))" by (simp add: kv line_pair_def)
  then have "from_db_loop m (concat (map line_pair (kv # kvs))) = from_db_loop m1 (concat (map line_pair kvs))"
    using m1(1) sv_chop_present [OF p(3)] sv_chop_present [OF p(4)] by (simp add: from_db_loop.simps [of m "k @ LF # _"])
  then show ?case using m1 m2 kv by (simp add: map_add_assoc [symmetric])
qed (simp add: from_db_loop.simps)

subsection \<open>The invariant of the store\<close>

definition token_ok :: "char list \<Rightarrow> bool" where
  "token_ok t \<longleftrightarrow> length t = TOKEN_HEX \<and> NUL \<notin> set t"

definition blank :: http_session where
  "blank = \<lparr>hs_data = strmap_init, hs_expires = 0, hs_stored = True\<rparr>"

text \<open>The record of \<open>t\<close> in the store loads as a session with the contents of \<open>sesh\<close>.\<close>

definition mirrored :: "cweb_db \<Rightarrow> char list \<Rightarrow> http_session \<Rightarrow> bool" where
  "mirrored db t sesh \<longleftrightarrow> cweb_db_get db (session_key t) \<noteq> None
     \<and> (\<exists>m. session_from_db db blank t = Some \<lparr>hs_data = m, hs_expires = hs_expires sesh, hs_stored = True\<rparr>
          \<and> strmap_inv m \<and> strmap_get m = strmap_get (hs_data sesh))"

definition sess_ok :: "http_session \<Rightarrow> bool" where
  "sess_ok sesh \<longleftrightarrow> strmap_inv (hs_data sesh) \<and> hs_stored sesh \<and> time_ok (hs_expires sesh)
     \<and> (\<forall>k v. strmap_get (hs_data sesh) k = Some v \<longrightarrow> one_line (k, v))"

definition plain :: "cweb_db \<Rightarrow> bool" where
  "plain db \<longleftrightarrow> (\<forall>t blob. token_ok t \<longrightarrow> db_abs db (session_key t) = Some blob \<longrightarrow> NUL \<notin> set blob)"

definition slot_ok :: "session_store \<Rightarrow> char list \<times> nat \<Rightarrow> bool" where
  "slot_ok s slot \<longleftrightarrow> token_ok (fst slot) \<and> snd slot < ss_next s
     \<and> (\<exists>sesh. ss_heap s (snd slot) = Some sesh \<and> sess_ok sesh \<and> (\<forall>db. ss_db s = Some db \<longrightarrow> mirrored db (fst slot) sesh))"

definition store_inv :: "session_store \<Rightarrow> bool" where
  "store_inv s \<longleftrightarrow> distinct (map fst (ss_slots s)) \<and> distinct (map snd (ss_slots s)) \<and> list_all (slot_ok s) (ss_slots s)
     \<and> ss_count s \<le> ss_capacity s \<and> (\<forall>db. ss_db s = Some db \<longrightarrow> db_inv db \<and> plain db)"

lemma session_key_prefix: "token_ok t \<Longrightarrow> session_key t = SESSION_DB_PREFIX @ t"
  by (simp add: session_key_def snprintf_str_def token_ok_def TOKEN_HEX_def TOKEN_BYTES_def SESSION_DB_PREFIX_def c_str_id)

lemma session_key_token: "token_ok t \<Longrightarrow> c_str (session_key t) = session_key t" "token_ok t \<Longrightarrow> c_str t = t"
proof -
  assume t: "token_ok t"
  have "NUL \<notin> set (session_key t)" unfolding session_key_prefix [OF t] using t by (simp add: token_ok_def SESSION_DB_PREFIX_def)
  then show "c_str (session_key t) = session_key t" by (simp add: c_str_id)
qed (simp add: token_ok_def c_str_id)

lemma session_key_inject: "token_ok t \<Longrightarrow> token_ok u \<Longrightarrow> session_key t = session_key u \<longleftrightarrow> t = u"
  by (simp add: session_key_prefix)

lemma mirrored_cong:
  assumes "db_inv db" "db_inv db'" "token_ok t" "db_abs db' (session_key t) = db_abs db (session_key t)"
  shows "mirrored db' t sesh \<longleftrightarrow> mirrored db t sesh"
proof -
  have "cweb_db_get db' (session_key t) = cweb_db_get db (session_key t)"
    using db.get_contents [OF assms(1)] db.get_contents [OF assms(2)] assms(4) by simp
  then show ?thesis using session_key_token [OF assms(3)] by (simp add: mirrored_def session_from_db_def sv_from_cstr_def)
qed

text \<open>Loading the text of a session whose pairs are single lines.\<close>

lemma load_text:
  assumes "db_inv db" "token_ok t" "db_abs db (session_key t) = Some (session_text sesh)" "sess_ok sesh"
  shows "mirrored db t sesh"
proof -
  let ?n = "dec_of_int (hs_expires sesh)" and ?ps = "pairs_of (sm_entries (hs_data sesh))"
  have inv: "strmap_inv (hs_data sesh)" and tm: "time_ok (hs_expires sesh)" using assms(4) by (simp_all add: sess_ok_def)
  have g: "cweb_db_get db (session_key t) = Some (session_text sesh)" using db.get_contents [OF assms(1)] assms(3) by simp
  have abs: "strmap_get (hs_data sesh) = map_of ?ps"
    using strmap_get_abs [OF inv] by (auto simp: strmap_abs_def pairs_of_map)
  have d: "distinct (map fst ?ps)" by (rule pairs_of_distinct) (use inv table_ok_uniq_keys in \<open>simp add: strmap_inv_def\<close>)
  have one: "list_all one_line ?ps"
    using assms(4) d by (auto simp: sess_ok_def abs list_all_iff)
  obtain m where m: "from_db_loop strmap_init (concat (map line_pair ?ps)) = Some m" "strmap_inv m" "strmap_get m = strmap_get strmap_init ++ map_of (rev ?ps)"
    using from_db_lines [OF strmap_inv_init one] pairs_of_plain by blast
  have "strmap_get m = map_of ?ps"
    using m(3) d map_of_inject_set [of "rev ?ps" ?ps] by (auto simp: sm.get_empty map_add_def fun_eq_iff rev_map [symmetric] split: option.splits)
  moreover have "sv_chop_by_delim (session_text sesh) LF = (?n, concat (map line_pair ?ps))"
    using sv_chop_present [of LF ?n] dec_of_time(3) [OF tm] by (simp add: session_text_def)
  moreover have "session_text sesh \<noteq> []" by (simp add: session_text_def)
  ultimately show ?thesis
    using g m(1,2) abs dec_of_time(4) [OF tm] session_key_token [OF assms(2)]
    by (simp add: mirrored_def session_from_db_def sv_from_cstr_def blank_def)
qed

lemma distinct_slots:
  assumes "distinct (map snd xs)" "distinct (map fst xs)" "i < length xs" "x \<in> set xs"
  shows "x = xs ! i \<or> (snd x \<noteq> snd (xs ! i) \<and> fst x \<noteq> fst (xs ! i))"
proof -
  obtain j where j: "j < length xs" "x = xs ! j" using assms(4) by (auto simp: in_set_conv_nth)
  show ?thesis using nth_eq_iff_index_eq [OF assms(1), of j i] nth_eq_iff_index_eq [OF assms(2), of j i] j assms(3) by auto
qed

text \<open>The invariant but for the record of slot \<open>i\<close>, which \<open>session_to_db\<close> is about to write.\<close>

definition store_but :: "session_store \<Rightarrow> nat \<Rightarrow> bool" where
  "store_but s i \<longleftrightarrow> i < ss_count s \<and> distinct (map fst (ss_slots s)) \<and> distinct (map snd (ss_slots s))
     \<and> (\<forall>slot \<in> set (ss_slots s). slot \<noteq> ss_slots s ! i \<longrightarrow> slot_ok s slot)
     \<and> token_ok (slot_token s i) \<and> snd (ss_slots s ! i) < ss_next s
     \<and> (\<exists>sesh. ss_heap s (snd (ss_slots s ! i)) = Some sesh \<and> sess_ok sesh)
     \<and> ss_count s \<le> ss_capacity s \<and> (\<forall>db. ss_db s = Some db \<longrightarrow> db_inv db \<and> plain db)"

lemma session_to_db_ok:
  assumes but: "store_but s i"
  shows "store_inv (session_to_db s i)"
proof -
  let ?t = "slot_token s i" and ?x = "ss_slots s ! i"
  obtain sesh where sesh: "ss_heap s (snd ?x) = Some sesh" "sess_ok sesh" using but by (auto simp: store_but_def)
  have t: "token_ok ?t" "snd ?x < ss_next s" and i: "i < ss_count s" using but by (simp_all add: store_but_def)
  have ok: "slot_ok s slot" if "slot \<in> set (ss_slots s)" "slot \<noteq> ?x" for slot using but that by (simp add: store_but_def)
  show ?thesis
  proof (cases "ss_db s")
    case None
    have "slot_ok s ?x" using None t sesh by (simp add: slot_ok_def)
    then have "list_all (slot_ok s) (ss_slots s)" using ok unfolding list_all_iff by metis
    then show ?thesis using None but by (simp add: session_to_db_def store_inv_def store_but_def)
  next
    case (Some db)
    have db: "db_inv db" "plain db" using but Some by (auto simp: store_but_def)
    let ?v = "session_text sesh" and ?k = "session_key ?t"
    let ?db = "snd (cweb_db_put db ?k ?v)"
    have blob: "strbuf_cstr (session_blob sesh) = ?v" "NUL \<notin> set ?v" using blob_text [of sesh] sesh(2) by (simp_all add: sess_ok_def)
    have r: "session_to_db s i = s\<lparr>ss_db := Some ?db\<rparr>"
      using Some sesh(1) blob session_key_token [OF t(1)] by (simp add: session_to_db_def sv_from_cstr_def c_str_id)
    have d: "db_inv ?db" "db_abs ?db = (db_abs db)(?k \<mapsto> ?v)" using db_put_abs [OF db(1)] by blast+
    have "slot_ok (s\<lparr>ss_db := Some ?db\<rparr>) slot" if sl: "slot \<in> set (ss_slots s)" for slot
    proof (cases "slot = ?x")
      case True
      then show ?thesis using sesh t load_text [OF d(1) t(1) _ sesh(2)] d(2) by (simp add: slot_ok_def)
    next
      case False
      have ne: "fst slot \<noteq> ?t" using distinct_slots [OF _ _ i sl] False but by (simp add: store_but_def)
      have "token_ok (fst slot)" using ok [OF sl False] by (simp add: slot_ok_def)
      then have "mirrored ?db (fst slot) x \<longleftrightarrow> mirrored db (fst slot) x" for x
        using mirrored_cong [OF db(1) d(1), of "fst slot" x] d(2) ne session_key_inject [OF _ t(1)] by simp
      then show ?thesis using ok [OF sl False] Some by (auto simp: slot_ok_def)
    qed
    moreover have "plain ?db"
      unfolding plain_def d(2) using db(2) blob(2) by (auto simp: plain_def)
    ultimately show ?thesis using but d(1) unfolding r by (simp add: store_inv_def store_but_def list_all_iff)
  qed
qed

lemma store_inv_db:
  assumes "store_inv s" "ss_db s = Some db" "db_inv db'" "db_abs db' = db_abs db"
  shows "store_inv (s\<lparr>ss_db := Some db'\<rparr>)"
proof -
  have "db_inv db" "plain db" using assms(1,2) by (auto simp: store_inv_def)
  then have "slot_ok (s\<lparr>ss_db := Some db'\<rparr>) slot" if "slot_ok s slot" for slot
    using that mirrored_cong [of db db' "fst slot"] assms(2-4) by (auto simp: slot_ok_def)
  moreover have "plain db'" using \<open>plain db\<close> assms(4) by (simp add: plain_def)
  ultimately show ?thesis using assms(1,3) by (auto simp: store_inv_def list_all_iff)
qed

lemma sync_keeps:
  "cweb_db_sync w r db fs = (rc, db', fs') \<Longrightarrow> db_entries db' = db_entries db \<and> db_capacity db' = db_capacity db \<and> db_total db' = db_total db"
  by (auto simp: cweb_db_sync_def Let_def split: if_splits prod.splits)

lemma sync_db_ok: "store_inv s \<Longrightarrow> store_inv (fst (sync_db io (s, fs)))"
proof (cases "ss_db s")
  case (Some db)
  assume inv: "store_inv s"
  obtain rc db' fs' where r: "cweb_db_sync (fst io) (snd io) db fs = (rc, db', fs')" by (metis surj_pair)
  have "db_inv db" using inv Some by (auto simp: store_inv_def)
  then have "db_inv db'" "db_abs db' = db_abs db" using sync_keeps [OF r] by (simp_all add: db_inv_def db_abs_def)
  then show ?thesis using store_inv_db [OF inv Some] Some r by (simp add: sync_db_def)
qed (simp add: sync_db_def)

lemma sync_db_same: "ss_slots (fst (sync_db io (s, fs))) = ss_slots s" "ss_heap (fst (sync_db io (s, fs))) = ss_heap s"
  by (auto simp: sync_db_def split: option.splits prod.splits)

lemma swap_remove:
  assumes "i < length xs"
  shows "mset xs = add_mset (xs ! i) (mset (if i \<noteq> length xs - 1 then (take (length xs - 1) xs)[i := xs ! (length xs - 1)] else take (length xs - 1) xs))"
proof (cases xs rule: rev_cases)
  case (snoc ys y)
  show ?thesis
  proof (cases "i = length ys")
    case False
    then have "i < length ys" using assms snoc by simp
    then show ?thesis using snoc by (simp add: nth_append mset_update multiset_eq_iff)
  qed (use snoc in simp)
qed (use assms in simp)

lemma remove_at_ok:
  assumes inv: "store_inv s" and i: "i < ss_count s"
  shows "store_inv (remove_at s i)" "set (ss_slots (remove_at s i)) = set (ss_slots s) - {ss_slots s ! i}"
    "map_option db_abs (ss_db (remove_at s i)) = map_option (\<lambda>db. (db_abs db)(session_key (slot_token s i) := None)) (ss_db s)"
    "ss_heap (remove_at s i) = (ss_heap s)(snd (ss_slots s ! i) := None)"
proof -
  let ?r = "remove_at s i" and ?x = "ss_slots s ! i"
  have m: "mset (ss_slots s) = add_mset ?x (mset (ss_slots ?r))"
    using swap_remove [OF i] by (simp add: remove_at_def Let_def)
  have dm: "distinct (map f (ss_slots s)) \<longleftrightarrow> f ?x \<notin> f ` set (ss_slots ?r) \<and> distinct (map f (ss_slots ?r))" for f :: "char list \<times> nat \<Rightarrow> 'a"
    using mset_eq_imp_distinct_iff [of "map f (ss_slots s)" "f ?x # map f (ss_slots ?r)"] m by simp
  have sets: "set (ss_slots s) = insert ?x (set (ss_slots ?r))" using mset_eq_setD [of "ss_slots s" "?x # ss_slots ?r"] m by simp
  have d: "snd ?x \<notin> snd ` set (ss_slots ?r)" "distinct (map snd (ss_slots ?r))" "fst ?x \<notin> fst ` set (ss_slots ?r)" "distinct (map fst (ss_slots ?r))"
    using dm [of snd] dm [of fst] inv by (auto simp: store_inv_def)
  show "set (ss_slots ?r) = set (ss_slots s) - {?x}" using sets d(1) by auto
  show h: "ss_heap ?r = (ss_heap s)(snd ?x := None)" by (simp add: remove_at_def Let_def)
  have ok: "slot_ok s slot" if "slot \<in> set (ss_slots s)" for slot using inv that by (simp add: store_inv_def list_all_iff)
  have t: "token_ok (fst ?x)" using ok [of ?x] i by (simp add: slot_ok_def)
  have dbr: "ss_db ?r = map_option (\<lambda>db. snd (cweb_db_delete db (session_key (fst ?x)))) (ss_db s)"
    using session_key_token [OF t] by (simp add: remove_at_def Let_def sv_from_cstr_def)
  have dbi: "db_inv db" "plain db" if "ss_db s = Some db" for db using inv that by (auto simp: store_inv_def)
  show "map_option db_abs (ss_db ?r) = map_option (\<lambda>db. (db_abs db)(session_key (fst ?x) := None)) (ss_db s)"
    using dbr dbi db_delete_abs(3) by (cases "ss_db s") simp_all
  have other: "slot_ok ?r slot" if sl: "slot \<in> set (ss_slots ?r)" for slot
  proof -
    have ne: "snd slot \<noteq> snd ?x" "fst slot \<noteq> fst ?x" using imageI [OF sl, of snd] imageI [OF sl, of fst] d by metis+
    have o: "slot_ok s slot" using ok sets sl by blast
    then have to: "token_ok (fst slot)" by (simp add: slot_ok_def)
    have "mirrored db' (fst slot) sesh" if prem: "ss_db ?r = Some db'" "\<forall>db. ss_db s = Some db \<longrightarrow> mirrored db (fst slot) sesh" for db' sesh
    proof -
      obtain db where db: "ss_db s = Some db" "db' = snd (cweb_db_delete db (session_key (fst ?x)))" using prem(1) dbr by auto
      then show ?thesis
        using mirrored_cong [OF dbi(1) [OF db(1)] db_delete_abs(2) [OF dbi(1) [OF db(1)]] to, of "session_key (fst ?x)" sesh] prem(2)
          db_delete_abs(3) [OF dbi(1) [OF db(1)]] ne(2) session_key_inject [OF to t] by simp
    qed
    then show ?thesis using o h ne by (auto simp: slot_ok_def remove_at_def Let_def)
  qed
  have "db_inv db \<and> plain db" if "ss_db ?r = Some db" for db
    using that dbr dbi db_delete_abs(2,3) by (auto simp: plain_def split: if_splits)
  moreover have "ss_count ?r \<le> ss_capacity ?r" using inv by (auto simp: store_inv_def remove_at_def Let_def)
  ultimately show "store_inv ?r" using d other by (simp add: store_inv_def list_all_iff)
qed

lemma secret_diff_zero: "length a = length b \<Longrightarrow> secret_diff a b d = 0 \<longleftrightarrow> d = 0 \<and> a = b"
proof (induction a b d rule: secret_diff.induct)
  case (1 a as b bs diff)
  have "ucode a XOR ucode b = 0 \<longleftrightarrow> ucode a = ucode b" by (auto simp: bit_eq_iff bit_xor_iff)
  then have "diff OR (ucode a XOR ucode b) = 0 \<longleftrightarrow> diff = 0 \<and> a = b" by (simp add: or_eq_0_iff)
  then show ?case using 1 by auto
qed auto

lemma token_secret_eq_iff: "token_secret_eq a b \<longleftrightarrow> c_str a = c_str b \<and> length (c_str a) = TOKEN_HEX"
  using secret_diff_zero [of "c_str a" "c_str b" 0] by (auto simp: token_secret_eq_def)

lemma find_slot_Some: "find_slot P xs = Some i \<Longrightarrow> i < length xs \<and> P (xs ! i)"
proof (induction xs arbitrary: i)
  case (Cons x xs)
  then show ?case by (auto split: if_splits)
qed simp

lemma find_slot_None: "find_slot P xs = None \<longleftrightarrow> (\<forall>x \<in> set xs. \<not> P x)"
  by (induction xs) auto

lemma find_token_Some:
  assumes "store_inv s" "find_token s token = Some i"
  shows "i < ss_count s" "slot_token s i = c_str token" "token_ok (c_str token)" "slot_ok s (ss_slots s ! i)"
proof -
  show i: "i < ss_count s" using assms(2) find_slot_Some by (auto simp: find_token_def)
  then show ok: "slot_ok s (ss_slots s ! i)" using assms(1) by (simp add: store_inv_def list_all_length)
  have "token_secret_eq (slot_token s i) token" using assms(2) find_slot_Some by (auto simp: find_token_def)
  then show t: "slot_token s i = c_str token" using ok session_key_token(2) by (simp add: token_secret_eq_iff slot_ok_def)
  then show "token_ok (c_str token)" using ok by (simp add: slot_ok_def)
qed

lemma find_token_None:
  assumes "store_inv s" "token_ok t"
  shows "find_token s t = None \<longleftrightarrow> t \<notin> fst ` set (ss_slots s)"
proof -
  have "token_secret_eq (fst x) t \<longleftrightarrow> fst x = t" if "x \<in> set (ss_slots s)" for x
  proof -
    have "token_ok (fst x)" using assms(1) that by (auto simp: store_inv_def list_all_iff slot_ok_def)
    then show ?thesis using assms(2) session_key_token(2) by (auto simp: token_secret_eq_iff) (simp add: token_ok_def)
  qed
  then show ?thesis unfolding find_token_def find_slot_None by (auto simp: image_iff)
qed

lemma session_index_slot:
  assumes "store_inv s" "(t, a) \<in> set (ss_slots s)"
  obtains i where "session_index s a = Some i" "i < ss_count s" "ss_slots s ! i = (t, a)"
proof -
  have "session_index s a \<noteq> None" using assms(2) unfolding session_index_def find_slot_None by force
  then obtain i where i: "session_index s a = Some i" by auto
  then have *: "i < ss_count s" "snd (ss_slots s ! i) = a" using find_slot_Some by (auto simp: session_index_def)
  have "(t, a) = ss_slots s ! i"
    using distinct_slots [of "ss_slots s" i "(t, a)"] assms * by (auto simp: store_inv_def)
  then show ?thesis using that i * by simp
qed

lemma destroy_ok: "store_inv s \<Longrightarrow> store_inv (http_session_destroy s token)"
  using remove_at_ok(1) find_token_Some(1) by (auto simp: http_session_destroy_def split: option.splits)

lemma reap_ok: "store_inv s \<Longrightarrow> store_inv (reap_loop now s i)"
proof (induction now s i rule: reap_loop.induct)
  case (1 now s i)
  then show ?case using remove_at_ok(1) [of s i] by (simp add: reap_loop.simps [of now s i])
qed

lemma open_slot_ok: "store_inv s \<Longrightarrow> i < ss_count s \<Longrightarrow> store_inv (snd (open_slot now s i))"
  using remove_at_ok(1) by (simp add: open_slot_def)

text \<open>A new slot: its token is new and its session is mirrored.\<close>

lemma add_slot_but:
  assumes inv: "store_inv s" and t: "token_ok t" "t \<notin> fst ` set (ss_slots s)" and sesh: "sess_ok sesh"
  shows "store_but (add_slot (grow s) t sesh) (ss_count (add_slot (grow s) t sesh) - 1)"
proof -
  let ?s = "add_slot (grow s) t sesh"
  have ok: "slot_ok s slot" if "slot \<in> set (ss_slots s)" for slot using inv that by (simp add: store_inv_def list_all_iff)
  have [simp]: "ss_slots (grow s) = ss_slots s" "ss_heap (grow s) = ss_heap s" "ss_next (grow s) = ss_next s" "ss_db (grow s) = ss_db s"
    by (simp_all add: grow_def)
  have "slot_ok ?s slot" if "slot \<in> set (ss_slots s)" for slot using ok [OF that] by (auto simp: slot_ok_def add_slot_def)
  moreover have "ss_next s \<notin> snd ` set (ss_slots s)" using ok by (force simp: slot_ok_def)
  moreover have "ss_count ?s \<le> ss_capacity ?s" using inv by (auto simp: store_inv_def grow_def add_slot_def STORE_GROW_def)
  ultimately show ?thesis using inv t sesh by (auto simp: store_but_def store_inv_def add_slot_def)
qed

lemma store_but_inv:
  "store_but s i \<Longrightarrow> (\<And>db sesh. ss_db s = Some db \<Longrightarrow> ss_heap s (snd (ss_slots s ! i)) = Some sesh \<Longrightarrow> mirrored db (slot_token s i) sesh)
   \<Longrightarrow> store_inv s"
proof -
  assume but: "store_but s i" and m: "\<And>db sesh. ss_db s = Some db \<Longrightarrow> ss_heap s (snd (ss_slots s ! i)) = Some sesh \<Longrightarrow> mirrored db (slot_token s i) sesh"
  have "slot_ok s (ss_slots s ! i)" using but m by (auto simp: store_but_def slot_ok_def)
  then have "list_all (slot_ok s) (ss_slots s)" using but by (auto simp: store_but_def list_all_iff)
  then show ?thesis using but by (simp add: store_but_def store_inv_def)
qed

lemma add_slot_ok:
  assumes inv: "store_inv s" and t: "token_ok t" "t \<notin> fst ` set (ss_slots s)" and sesh: "sess_ok sesh"
    and mir: "\<And>db. ss_db s = Some db \<Longrightarrow> mirrored db t sesh"
  shows "store_inv (add_slot (grow s) t sesh)"
  by (rule store_but_inv [OF add_slot_but [OF assms(1-4)]]) (use mir in \<open>auto simp: add_slot_def grow_def split: if_splits\<close>)

text \<open>What \<open>session_from_db\<close> makes of any record without NULs: single lines and a time.\<close>

lemma from_db_loop_ok:
  "strmap_inv m \<Longrightarrow> NUL \<notin> set rest \<Longrightarrow> \<exists>m'. from_db_loop m rest = Some m' \<and> strmap_inv m'
     \<and> (\<forall>k v. strmap_get m' k = Some v \<longrightarrow> strmap_get m k = Some v \<or> one_line (k, v))"
proof (induction "length rest" arbitrary: m rest rule: less_induct)
  case less
  obtain k r1 where k: "sv_chop_by_delim rest LF = (k, r1)" by (metis surj_pair)
  obtain v r2 where v: "sv_chop_by_delim r1 LF = (v, r2)" by (metis surj_pair)
  have sub: "LF \<notin> set p \<and> set p \<subseteq> set x \<and> set r \<subseteq> set x" if "sv_chop_by_delim x LF = (p, r)" for x p r
    using that by (cases rule: sv_chop_cases [of LF x]) auto
  note sk = sub [OF k] and sv = sub [OF v]
  show ?case
  proof (cases "rest = [] \<or> r1 = []")
    case True
    then show ?thesis using less.prems k by (auto simp: from_db_loop.simps [of m rest])
  next
    case False
    have nul: "NUL \<notin> set k" "NUL \<notin> set v" "NUL \<notin> set r2" using sk sv less.prems(2) by blast+
    obtain m1 where m1: "strmap_set m k v = Some (0, m1)" "strmap_inv m1" "strmap_get m1 = (strmap_get m)(k \<mapsto> v)"
      using sm.set_key [OF less.prems(1) nul(1), of v] nul(2) by (auto simp: c_str_id)
    have "length r2 < length rest" using False k v sv_chop_shorter' by (metis less_trans)
    from less.hyps [OF this m1(2) nul(3)] obtain m' where m': "from_db_loop m1 r2 = Some m'" "strmap_inv m'"
      "\<forall>k v. strmap_get m' k = Some v \<longrightarrow> strmap_get m1 k = Some v \<or> one_line (k, v)" by blast
    have "from_db_loop m rest = Some m'" using False k v m1(1) m'(1) by (simp add: from_db_loop.simps [of m rest])
    moreover have "strmap_get m x = Some y \<or> one_line (x, y)" if "strmap_get m' x = Some y" for x y
      using m'(3) that m1(3) sk sv by (auto simp: one_line_def split: if_splits)
    ultimately show ?thesis using m'(2) by blast
  qed
qed

lemma sv_to_i64_range: "sv_to_i64 s = Some v \<Longrightarrow> time_ok v"
proof -
  assume "sv_to_i64 s = Some v"
  then have "\<exists>d. sv_digits d 0 = Some v \<or> sv_digits d 0 = Some (- v)"
    by (auto simp: sv_to_i64_def Let_def split: if_splits)
  then obtain d where "sv_digits d 0 = Some v \<or> sv_digits d 0 = Some (- v)" by blast
  then have "0 \<le> v \<and> v \<le> LLONG_MAX \<or> 0 \<le> - v \<and> - v \<le> LLONG_MAX"
    using dec_value_nonneg [of d] by (auto simp: sv_digits_dec_value split: if_splits)
  then show ?thesis by (auto simp: LLONG_MAX_def time_ok_def)
qed

lemma session_from_db_ok:
  assumes "db_inv db" "plain db" "token_ok t"
  obtains m e where "session_from_db db blank t = Some \<lparr>hs_data = m, hs_expires = e, hs_stored = True\<rparr>" "strmap_inv m" "time_ok e"
    "\<And>k v. strmap_get m k = Some v \<Longrightarrow> one_line (k, v)"
proof (cases "db_abs db (session_key t)")
  case None
  then show ?thesis using that [of strmap_init 0] db.get_contents [OF assms(1)] session_key_token [OF assms(3)] sm.get_empty
    by (simp add: session_from_db_def sv_from_cstr_def blank_def time_ok_def LLONG_MAX_def)
next
  case (Some blob)
  obtain line rest where c: "sv_chop_by_delim blob LF = (line, rest)" by (metis surj_pair)
  have "NUL \<notin> set blob" using assms(2,3) Some by (simp add: plain_def)
  then have "NUL \<notin> set rest" using c by (cases rule: sv_chop_cases [of LF blob]) auto
  then obtain m where m: "from_db_loop strmap_init rest = Some m" "strmap_inv m" "\<And>k v. strmap_get m k = Some v \<Longrightarrow> one_line (k, v)"
    using from_db_loop_ok [OF strmap_inv_init] sm.get_empty by (metis option.distinct(1))
  let ?e = "case sv_to_i64 line of Some e \<Rightarrow> e | None \<Rightarrow> 0"
  have e: "time_ok ?e" using sv_to_i64_range [of line] by (auto simp: time_ok_def LLONG_MAX_def split: option.splits)
  show ?thesis
  proof (cases "blob = []")
    case True
    then show ?thesis using that [of strmap_init 0] Some db.get_contents [OF assms(1)] session_key_token [OF assms(3)] sm.get_empty
      by (simp add: session_from_db_def sv_from_cstr_def blank_def time_ok_def LLONG_MAX_def)
  next
    case False
    then show ?thesis using that [of m ?e] m e c Some db.get_contents [OF assms(1)] session_key_token [OF assms(3)]
      by (simp add: session_from_db_def sv_from_cstr_def blank_def Let_def)
  qed
qed

lemma length_new_token:
  assumes "length rnd = TOKEN_BYTES"
  shows "\<exists>t. new_token (Some rnd) = Some t \<and> token_ok t"
proof -
  have "NUL \<notin> set (hex2 b)" for b :: byte
  proof -
    have digits: "unat b div 16 < 16" "unat b mod 16 < 16" using unat_byte_less [of b] by (simp_all add: less_mult_imp_div_less)
    have "list_all (\<lambda>c. c \<noteq> NUL) ''0123456789abcdef''" by code_simp
    then have "''0123456789abcdef'' ! (unat b div 16) \<noteq> NUL" "''0123456789abcdef'' ! (unat b mod 16) \<noteq> NUL"
      unfolding list_all_length using digits by simp_all
    then show ?thesis unfolding hex2_def by simp
  qed
  moreover have "length (concat (map hex2 rnd)) = 2 * length rnd" for rnd by (induction rnd) (simp_all add: hex2_def)
  ultimately show ?thesis using assms by (auto simp: new_token_def token_ok_def TOKEN_HEX_def)
qed

lemma create_ok:
  assumes inv: "store_inv s" and t: "new_token random = Some tok" "token_ok tok" "tok \<notin> fst ` set (ss_slots s)"
    and time: "0 \<le> now" "now + max ttl (ss_default_ttl s) \<le> LLONG_MAX" "now \<le> LLONG_MAX"
  shows "store_inv (fst (snd (http_session_create random now io s fs ttl)))"
proof -
  let ?t = "if ttl < 0 then ss_default_ttl s else ttl"
  let ?sesh = "\<lparr>hs_data = strmap_init, hs_expires = (if ?t > 0 then now + ?t else 0), hs_stored = True\<rparr>"
  let ?s1 = "add_slot (grow s) tok ?sesh"
  have ok: "sess_ok ?sesh" using time by (auto simp: sess_ok_def time_ok_def sm.get_empty LLONG_MAX_def)
  have db: "ss_db ?s1 = ss_db s" by (simp add: add_slot_def grow_def)
  show ?thesis
  proof (cases "ss_db s")
    case None
    then have "store_inv ?s1" by (intro add_slot_ok [OF inv t(2,3) ok]) simp
    then show ?thesis using t(1) None db by (simp add: http_session_create_def Let_def)
  next
    case (Some d)
    have "store_but ?s1 (ss_count ?s1 - 1)" by (rule add_slot_but [OF inv t(2,3) ok])
    then have "store_inv (session_to_db ?s1 (ss_count ?s1 - 1))" by (rule session_to_db_ok)
    then show ?thesis using t(1) Some db sync_db_ok by (simp add: http_session_create_def Let_def)
  qed
qed

lemma slot_heap:
  assumes "store_inv s" "(t, a) \<in> set (ss_slots s)"
  obtains sesh where "ss_heap s a = Some sesh" "sess_ok sesh" "token_ok t" "a < ss_next s" "\<And>db. ss_db s = Some db \<Longrightarrow> mirrored db t sesh"
  using assms by (auto simp: store_inv_def list_all_iff slot_ok_def)

text \<open>Changing the data of one session and writing it through.\<close>

lemma write_through_ok:
  assumes inv: "store_inv s" and a: "(t, a) \<in> set (ss_slots s)" and sesh: "ss_heap s a = Some sesh" "sess_ok (sesh\<lparr>hs_data := m\<rparr>)"
  shows "store_inv (fst (write_through io (set_data s a m) fs a))"
    "ss_slots (fst (write_through io (set_data s a m) fs a)) = ss_slots s"
    "ss_heap (fst (write_through io (set_data s a m) fs a)) = (ss_heap s)(a \<mapsto> sesh\<lparr>hs_data := m\<rparr>)"
proof -
  let ?s = "set_data s a m"
  have heap: "ss_heap ?s = (ss_heap s)(a \<mapsto> sesh\<lparr>hs_data := m\<rparr>)" "ss_slots ?s = ss_slots s" "ss_db ?s = ss_db s"
    "ss_next ?s = ss_next s" "ss_capacity ?s = ss_capacity s" using sesh by (simp_all add: set_data_def)
  obtain i where i: "session_index s a = Some i" "i < ss_count s" "ss_slots s ! i = (t, a)" using inv a by (rule session_index_slot)
  have i': "session_index ?s a = Some i" using i(1) heap(2) by (simp add: session_index_def)
  have "slot_ok ?s slot" if sl: "slot \<in> set (ss_slots s)" "slot \<noteq> (t, a)" for slot
  proof -
    have "snd slot \<noteq> a" using distinct_slots [of "ss_slots s" i slot] inv i sl by (auto simp: store_inv_def)
    moreover have "slot_ok s slot" using inv sl by (simp add: store_inv_def list_all_iff)
    ultimately show ?thesis using heap by (auto simp: slot_ok_def)
  qed
  moreover have "slot_ok s (t, a)" using inv a by (simp add: store_inv_def list_all_iff)
  ultimately have but: "store_but ?s i" using inv i heap sesh by (auto simp: store_but_def store_inv_def slot_ok_def)
  then have none: "ss_db s = None \<Longrightarrow> store_inv ?s" using store_but_inv [OF but] heap(3) by simp
  show "store_inv (fst (write_through io ?s fs a))"
    using none session_to_db_ok [OF but] sync_db_ok i' heap(3) by (simp add: write_through_def)
  have "ss_slots (session_to_db ?s i) = ss_slots s" "ss_heap (session_to_db ?s i) = ss_heap ?s"
    using heap(2) by (simp_all add: session_to_db_def split: option.splits)
  then show "ss_slots (fst (write_through io ?s fs a)) = ss_slots s" "ss_heap (fst (write_through io ?s fs a)) = (ss_heap s)(a \<mapsto> sesh\<lparr>hs_data := m\<rparr>)"
    using i' heap by (simp_all add: write_through_def sync_db_same)
qed

lemma set_ok:
  assumes inv: "store_inv s" and a: "(t, a) \<in> set (ss_slots s)" and line: "one_line (c_str k, c_str v)"
  shows "\<exists>s' fs'. http_session_set io s fs a k v = Some (s', fs') \<and> store_inv s' \<and> ss_slots s' = ss_slots s
    \<and> (\<forall>b. b \<noteq> a \<longrightarrow> ss_heap s' b = ss_heap s b)
    \<and> (\<forall>q. http_session_value s' a q = (if c_str q = c_str k then Some (c_str v) else http_session_value s a q))"
proof -
  obtain sesh where sesh: "ss_heap s a = Some sesh" "sess_ok sesh" using inv a by (rule slot_heap)
  then have m: "strmap_inv (hs_data sesh)" "hs_stored sesh" by (simp_all add: sess_ok_def)
  obtain m' where m': "strmap_set (hs_data sesh) (c_str k) (c_str v) = Some (0, m')" "strmap_inv m'" "strmap_get m' = (strmap_get (hs_data sesh))(c_str k \<mapsto> c_str v)"
    using sm.set_key [OF m(1), of "c_str k" "c_str v"] by auto
  have "sess_ok (sesh\<lparr>hs_data := m'\<rparr>)" using sesh(2) m' line by (auto simp: sess_ok_def split: if_splits)
  note w = write_through_ok [OF inv a sesh(1) this, where io = io and fs = fs]
  show ?thesis using w sesh(1) m' m(2)
    by (cases "write_through io (set_data s a m') fs a") (auto simp: http_session_set_def http_session_value_def strmap_get_cstr_def sv_from_cstr_def)
qed

lemma del_ok:
  assumes inv: "store_inv s" and a: "(t, a) \<in> set (ss_slots s)"
  shows "\<exists>s' fs'. http_session_del io s fs a k = Some (if http_session_value s a k = None then 0 else 1, s', fs') \<and> store_inv s'
    \<and> ss_slots s' = ss_slots s \<and> (\<forall>b. b \<noteq> a \<longrightarrow> ss_heap s' b = ss_heap s b)
    \<and> (\<forall>q. http_session_value s' a q = (if c_str q = c_str k then None else http_session_value s a q))"
proof -
  obtain sesh where sesh: "ss_heap s a = Some sesh" "sess_ok sesh" using inv a by (rule slot_heap)
  then have m: "strmap_inv (hs_data sesh)" "hs_stored sesh" by (simp_all add: sess_ok_def)
  obtain m' where m': "strmap_delete (hs_data sesh) (c_str k) = Some m'" "strmap_inv m'" "strmap_get m' = (strmap_get (hs_data sesh))(c_str k := None)"
    using sm.del_key [OF m(1), of "c_str k"] by auto
  have "sess_ok (sesh\<lparr>hs_data := m'\<rparr>)" using sesh(2) m' by (auto simp: sess_ok_def split: if_splits)
  note w = write_through_ok [OF inv a sesh(1) this, where io = io and fs = fs]
  show ?thesis
  proof (cases "strmap_get (hs_data sesh) (c_str k) = None")
    case True
    then show ?thesis using inv sesh(1) m(2) by (auto simp: http_session_del_def http_session_value_def strmap_get_cstr_def sv_from_cstr_def)
  next
    case False
    then show ?thesis using w sesh(1) m' m(2)
      by (cases "write_through io (set_data s a m') fs a") (auto simp: http_session_del_def http_session_value_def strmap_get_cstr_def sv_from_cstr_def)
  qed
qed

lemma open_slot_live:
  assumes "store_inv s" "(t, a) \<in> set (ss_slots s)" "\<not> expired now (the (ss_heap s a))"
  shows "http_session_open now s t = Some (Some a, s)"
proof -
  obtain sesh where t: "token_ok t" using assms(1,2) by (rule slot_heap)
  have "find_token s t \<noteq> None" using find_token_None [OF assms(1) t] assms(2) by force
  then obtain i where i: "find_token s t = Some i" by auto
  have "i < ss_count s" "slot_token s i = t" using find_token_Some [OF assms(1) i] session_key_token(2) [OF t] by simp_all
  then have "ss_slots s ! i = (t, a)" using distinct_slots [of "ss_slots s" i "(t, a)"] assms(1,2) by (auto simp: store_inv_def)
  then show ?thesis using i assms(3) by (simp add: http_session_open_def open_slot_def)
qed

text \<open>A token that is only in the backing store is loaded from it.\<close>

lemma open_loads:
  assumes inv: "store_inv s" and t: "token_ok t" "t \<notin> fst ` set (ss_slots s)" and db: "ss_db s = Some db" "cweb_db_get db (session_key t) \<noteq> None"
    and sesh: "session_from_db db blank t = Some sesh"
  shows "store_inv (add_slot (grow s) t sesh)"
    "http_session_open now s t = Some (if expired now sesh then (None, remove_at (add_slot (grow s) t sesh) (ss_count s))
       else (Some (ss_next s), add_slot (grow s) t sesh))"
proof -
  have d: "db_inv db" "plain db" using inv db(1) by (auto simp: store_inv_def)
  obtain m e where f: "session_from_db db blank t = Some \<lparr>hs_data = m, hs_expires = e, hs_stored = True\<rparr>" "strmap_inv m" "time_ok e"
    "\<And>k v. strmap_get m k = Some v \<Longrightarrow> one_line (k, v)" using session_from_db_ok [OF d t(1)] by blast
  have "sess_ok sesh" "mirrored db t sesh" using f sesh db(2) by (auto simp: sess_ok_def mirrored_def)
  then show "store_inv (add_slot (grow s) t sesh)" by (intro add_slot_ok [OF inv t]) (use db(1) in auto)
  have "find_token s t = None" using find_token_None [OF inv t(1)] t(2) by simp
  then show "http_session_open now s t = Some (if expired now sesh then (None, remove_at (add_slot (grow s) t sesh) (ss_count s))
       else (Some (ss_next s), add_slot (grow s) t sesh))"
    using db sesh session_key_token [OF t(1)] unfolding http_session_open_def blank_def
    by (auto simp: sv_from_cstr_def open_slot_def add_slot_def grow_def Let_def)
qed

lemma open_ok:
  assumes inv: "store_inv s" and t: "token_ok t"
  shows "\<exists>h s'. http_session_open now s t = Some (h, s') \<and> store_inv s' \<and> (\<forall>a. h = Some a \<longrightarrow> (t, a) \<in> set (ss_slots s'))"
proof (cases "find_token s t")
  case (Some i)
  then have "store_inv (snd (open_slot now s i))" "slot_token s i = t" "i < ss_count s"
    using find_token_Some [OF inv Some] open_slot_ok [OF inv] session_key_token(2) [OF t] by simp_all
  then show ?thesis using Some by (auto simp: http_session_open_def open_slot_def in_set_conv_nth)
next
  case None
  then have n: "t \<notin> fst ` set (ss_slots s)" using find_token_None [OF inv t] by simp
  show ?thesis
  proof (cases "\<exists>db. ss_db s = Some db \<and> cweb_db_get db (session_key t) \<noteq> None")
    case True
    then obtain db where db: "ss_db s = Some db" "cweb_db_get db (session_key t) \<noteq> None" by blast
    then have d: "db_inv db" "plain db" using inv by (auto simp: store_inv_def)
    obtain sesh where sesh: "session_from_db db blank t = Some sesh" using session_from_db_ok [OF d t] by blast
    note o = open_loads [OF inv t n db sesh]
    have c: "ss_count (add_slot (grow s) t sesh) = Suc (ss_count s)" "(t, ss_next s) \<in> set (ss_slots (add_slot (grow s) t sesh))"
      by (simp_all add: add_slot_def grow_def)
    show ?thesis using o(2) o(1) remove_at_ok(1) [OF o(1), of "ss_count s"] c by (auto split: if_splits)
  next
    case False
    then show ?thesis using None inv session_key_token(1) [OF t]
      by (auto simp: http_session_open_def sv_from_cstr_def split: option.splits)
  qed
qed

lemma to_db_keeps: "store_inv s \<Longrightarrow> i < ss_count s \<Longrightarrow> store_inv (session_to_db s i) \<and> ss_slots (session_to_db s i) = ss_slots s \<and> ss_heap (session_to_db s i) = ss_heap s"
proof -
  assume inv: "store_inv s" and i: "i < ss_count s"
  have "slot_ok s (ss_slots s ! i)" using inv i by (simp add: store_inv_def list_all_length)
  then have "store_but s i" using inv i by (auto simp: store_but_def store_inv_def list_all_iff slot_ok_def)
  then show ?thesis using session_to_db_ok by (auto simp: session_to_db_def split: option.splits)
qed

lemma dump_ok: "store_inv s \<Longrightarrow> store_inv (http_session_store_dump s)"
proof -
  assume inv: "store_inv s"
  have "store_inv (foldl session_to_db s is)" if "\<forall>i \<in> set is. i < ss_count s" for "is"
  proof -
    have "store_inv (foldl session_to_db s is) \<and> ss_slots (foldl session_to_db s is) = ss_slots s"
      using that
    proof (induction "is" rule: rev_induct)
      case (snoc i js)
      then show ?case using to_db_keeps [of "foldl session_to_db s js" i] by simp
    qed (simp add: inv)
    then show ?thesis ..
  qed
  then show ?thesis using inv by (simp add: http_session_store_dump_def)
qed

subsection \<open>Runs of the store\<close>

text \<open>
  One operation of an application on the store. Fresh tokens do not collide, the clock stays in the range of
  \<open>time_t\<close>, handles are live, and keys and values are single lines.
\<close>

inductive session_step :: "session_store \<times> disk \<Rightarrow> session_store \<times> disk \<Rightarrow> bool" where
  create: "length rnd = TOKEN_BYTES \<Longrightarrow> new_token (Some rnd) = Some tok \<Longrightarrow> tok \<notin> fst ` set (ss_slots s) \<Longrightarrow>
    0 \<le> now \<Longrightarrow> now \<le> LLONG_MAX \<Longrightarrow> now + max ttl (ss_default_ttl s) \<le> LLONG_MAX \<Longrightarrow>
    session_step (s, fs) (snd (http_session_create (Some rnd) now io s fs ttl))"
| set: "(t, a) \<in> set (ss_slots s) \<Longrightarrow> one_line (c_str k, c_str v) \<Longrightarrow> http_session_set io s fs a k v = Some st' \<Longrightarrow> session_step (s, fs) st'"
| del: "(t, a) \<in> set (ss_slots s) \<Longrightarrow> http_session_del io s fs a k = Some (r, st') \<Longrightarrow> session_step (s, fs) st'"
| destroy: "session_step (s, fs) (http_session_destroy s token, fs)"
| reap: "session_step (s, fs) (http_session_reap now s, fs)"
| opened: "token_ok t \<Longrightarrow> http_session_open now s t = Some (h, s') \<Longrightarrow> session_step (s, fs) (s', fs)"
| dump: "session_step (s, fs) (http_session_store_dump s, fs)"

inductive_cases session_stepE: "session_step (s, fs) st'"

lemma session_step_inv: "session_step st st' \<Longrightarrow> store_inv (fst st) \<Longrightarrow> store_inv (fst st')"
proof (induction rule: session_step.induct)
  case (create rnd tok s now ttl fs io)
  then have "token_ok tok" using length_new_token by fastforce
  then show ?case using create_ok [OF _ create(2), of s now ttl io fs] create by simp
next
  case (set t a s k v io fs st')
  then show ?case using set_ok [of s t a k v io fs] by auto
next
  case (del t a s io fs k r st')
  then show ?case using del_ok [of s t a io fs k] by auto
next
  case (opened t now s h s' fs)
  then show ?case using open_ok [of s t now] by auto
qed (simp_all add: destroy_ok reap_ok http_session_reap_def dump_ok)

lemma session_reachable_inv: "session_step\<^sup>*\<^sup>* st st' \<Longrightarrow> store_inv (fst st) \<Longrightarrow> store_inv (fst st')"
  by (induction rule: rtranclp_induct) (auto intro: session_step_inv)

lemma store_inv_init: "(\<And>d. db = Some d \<Longrightarrow> db_inv d \<and> plain d) \<Longrightarrow> store_inv (http_session_store_set_db (http_session_store_init ttl) db)"
  by (simp add: store_inv_def http_session_store_set_db_def http_session_store_init_def)

text \<open>Opening a mirrored session in a store that starts from the same backing store.\<close>

lemma restart_open:
  assumes inv: "store_inv s" and a: "(t, a) \<in> set (ss_slots s)" and live: "\<not> expired now (the (ss_heap s a))"
    and db: "ss_db s = Some db" "db_inv d" "db_abs d = db_abs db"
  shows "\<exists>a' s'. http_session_open now (http_session_store_set_db (http_session_store_init ttl) (Some d)) t = Some (Some a', s')
    \<and> store_inv s' \<and> (\<forall>q. http_session_value s' a' q = http_session_value s a q)"
proof -
  let ?s0 = "http_session_store_set_db (http_session_store_init ttl) (Some d)"
  have dbi: "db_inv db" "plain db" using inv db(1) by (auto simp: store_inv_def)
  have inv0: "store_inv ?s0" by (rule store_inv_init) (use db dbi(2) in \<open>auto simp: plain_def\<close>)
  obtain sesh where sesh: "ss_heap s a = Some sesh" "sess_ok sesh" "token_ok t" "mirrored db t sesh" using inv a db(1) by (elim slot_heap) auto
  then have "mirrored d t sesh" using mirrored_cong [OF dbi(1) db(2) sesh(3)] db(3) by simp
  then obtain m where m: "cweb_db_get d (session_key t) \<noteq> None" "session_from_db d blank t = Some \<lparr>hs_data = m, hs_expires = hs_expires sesh, hs_stored = True\<rparr>"
    "strmap_get m = strmap_get (hs_data sesh)" by (auto simp: mirrored_def)
  have s0: "t \<notin> fst ` set (ss_slots ?s0)" "ss_db ?s0 = Some d" by (simp_all add: http_session_store_set_db_def http_session_store_init_def)
  note o = open_loads(1) [OF inv0 sesh(3) s0 m(1,2)] open_loads(2) [OF inv0 sesh(3) s0 m(1,2), where now = now]
  have "\<not> expired now \<lparr>hs_data = m, hs_expires = hs_expires sesh, hs_stored = True\<rparr>" using live sesh(1) by (simp add: expired_def)
  then show ?thesis using o m(3) sesh(1)
    by (auto simp: http_session_value_def strmap_get_cstr_def add_slot_def grow_def)
qed

subsection \<open>Properties\<close>


definition demo_store :: session_store where
  "demo_store = fst (snd (http_session_create (Some (replicate 20 7)) 1000 (Written, True)
     (http_session_store_set_db (http_session_store_init 3600) (Some (db_zero\<lparr>db_path := Some ''s''\<rparr>))) Map.empty 0))"

lemma demo_token: "new_token (Some (replicate 20 7)) = Some (concat (replicate 20 ''07''))"
proof -
  have "hex2 7 = ''07''" by (simp add: hex2_def)
  then show ?thesis by (simp add: new_token_def TOKEN_BYTES_def map_replicate)
qed

lemma demo_db: "db_inv (db_zero\<lparr>db_path := Some ''s''\<rparr>) \<and> plain (db_zero\<lparr>db_path := Some ''s''\<rparr>)"
  by (simp add: db_inv_def db_zero_def plain_def db_abs_def)

lemma demo_step: "session_step (http_session_store_set_db (http_session_store_init 3600) (Some (db_zero\<lparr>db_path := Some ''s''\<rparr>)), Map.empty)
  (snd (http_session_create (Some (replicate 20 7)) 1000 (Written, True)
     (http_session_store_set_db (http_session_store_init 3600) (Some (db_zero\<lparr>db_path := Some ''s''\<rparr>))) Map.empty 0))"
  by (rule session_step.create [OF _ demo_token])
    (simp_all add: TOKEN_BYTES_def http_session_store_set_db_def http_session_store_init_def LLONG_MAX_def)



lemma demo_facts:
  "ss_slots demo_store = [(concat (replicate 20 ''07''), 0)]" "ss_heap demo_store 0 = Some blank" "ss_db demo_store \<noteq> None"
proof -
  let ?s0 = "http_session_store_set_db (http_session_store_init 3600) (Some (db_zero\<lparr>db_path := Some ''s''\<rparr>))"
  let ?t = "concat (replicate 20 ''07'')"
  let ?s = "add_slot (grow ?s0) ?t blank"
  have d: "demo_store = fst (sync_db (Written, True) (session_to_db ?s 0, Map.empty))"
    unfolding demo_store_def http_session_create_def demo_token blank_def
    by (simp add: Let_def http_session_store_set_db_def http_session_store_init_def add_slot_def grow_def)
  have s: "ss_slots ?s = [(?t, 0)]" "ss_heap ?s 0 = Some blank" "ss_db ?s \<noteq> None"
    by (simp_all add: http_session_store_set_db_def http_session_store_init_def add_slot_def grow_def)
  then show "ss_slots demo_store = [(?t, 0)]" "ss_heap demo_store 0 = Some blank"
    unfolding d sync_db_same by (auto simp: session_to_db_def)
  show "ss_db demo_store \<noteq> None"
    unfolding d using s(3) by (auto simp: sync_db_def session_to_db_def split: option.splits prod.splits)
qed




text \<open>
  The sweep: \<open>http_session_reap\<close> removes the expired sessions and no others.
\<close>

lemma reap_loop_slots:
  "store_inv s \<Longrightarrow> (\<forall>j < i. j < ss_count s \<longrightarrow> \<not> expired now (slot_session s j)) \<Longrightarrow>
   set (ss_slots (reap_loop now s i)) = {x \<in> set (ss_slots s). \<not> expired now (the (ss_heap s (snd x)))}"
proof (induction now s i rule: reap_loop.induct)
  case (1 now s i)
  show ?case
  proof (cases "i < ss_count s")
    case False
    have "x \<in> {x \<in> set (ss_slots s). \<not> expired now (the (ss_heap s (snd x)))}" if "x \<in> set (ss_slots s)" for x
    proof -
      obtain j where "j < ss_count s" "x = ss_slots s ! j" using \<open>x \<in> set (ss_slots s)\<close> by (auto simp: in_set_conv_nth)
      then show ?thesis using "1.prems"(2) False by auto
    qed
    then have "set (ss_slots s) = {x \<in> set (ss_slots s). \<not> expired now (the (ss_heap s (snd x)))}" by blast
    then show ?thesis using False by (simp add: reap_loop.simps [of now s i])
  next
    case i: True
    show ?thesis
    proof (cases "expired now (slot_session s i)")
      case False
      have "\<forall>j < i + 1. j < ss_count s \<longrightarrow> \<not> expired now (slot_session s j)" using "1.prems"(2) False less_Suc_eq by auto
      then show ?thesis using "1.IH"(2) [OF i False "1.prems"(1)] i False by (simp add: reap_loop.simps [of now s i])
    next
      case True
      let ?s = "remove_at s i"
      note r = remove_at_ok [OF "1.prems"(1) i]
      have uniq: "snd x = snd (ss_slots s ! i) \<longleftrightarrow> x = ss_slots s ! i" if "x \<in> set (ss_slots s)" for x
        using distinct_slots [of "ss_slots s" i x] that "1.prems"(1) i by (auto simp: store_inv_def)
      have front: "ss_slots ?s ! j = ss_slots s ! j" if "j < i" "j < ss_count ?s" for j
        using that i by (auto simp: remove_at_def Let_def split: if_splits)
      have "\<not> expired now (slot_session ?s j)" if j: "j < i" "j < ss_count ?s" for j
      proof -
        have "ss_slots ?s ! j \<in> set (ss_slots ?s)" using j(2) by simp
        then have "snd (ss_slots s ! j) \<noteq> snd (ss_slots s ! i)" unfolding r(2) front [OF j] using uniq by auto
        then show ?thesis using "1.prems"(2) j i front [OF j] by (simp add: r(4))
      qed
      then have "set (ss_slots (reap_loop now ?s i)) = {x \<in> set (ss_slots ?s). \<not> expired now (the (ss_heap ?s (snd x)))}"
        using "1.IH"(1) [OF i True r(1)] by blast
      also have "\<dots> = {x \<in> set (ss_slots s). \<not> expired now (the (ss_heap s (snd x)))}"
      proof (rule set_eqI)
        show "x \<in> {x \<in> set (ss_slots ?s). \<not> expired now (the (ss_heap ?s (snd x)))}
            \<longleftrightarrow> x \<in> {x \<in> set (ss_slots s). \<not> expired now (the (ss_heap s (snd x)))}" for x
          unfolding r(2) r(4) using uniq [of x] True by (cases "x = ss_slots s ! i") auto
      qed
      finally show ?thesis using i True by (simp add: reap_loop.simps [of now s i])
    qed
  qed
qed

text \<open>
  A value with a line break changes the session when it is loaded again: the lines behind the break become keys of
  their own.
\<close>

lemma session_newline_injects:
  "session_text \<lparr>hs_data = \<lparr>sm_entries = [Some (''name'' @ [NUL], ''x'' @ [LF] @ ''role'' @ [LF] @ ''admin'' @ [NUL])], sm_count = 1, sm_capacity = 1\<rparr>, hs_expires = 0, hs_stored = True\<rparr>
   = session_text \<lparr>hs_data = \<lparr>sm_entries = [Some (''name'' @ [NUL], ''x'' @ [NUL]), Some (''role'' @ [NUL], ''admin'' @ [NUL])], sm_count = 2, sm_capacity = 2\<rparr>, hs_expires = 0, hs_stored = True\<rparr>"
  by (simp add: session_text_def line_pair_def c_str_def)

text \<open>
  A token of another length in the backing store, such as one the application put there, is never found among the
  slots: every open loads one more copy.
\<close>

lemma session_short_token_reloads:
  assumes "length (c_str t) \<noteq> TOKEN_HEX" and "ss_db s = Some db" and "cweb_db_get db (sv_from_cstr (session_key t)) \<noteq> None"
    and "session_from_db db blank t = Some sesh" and "\<not> expired now sesh"
  shows "\<exists>a s'. http_session_open now s t = Some (Some a, s') \<and> ss_count s' = ss_count s + 1 \<and> ss_db s' = Some db"
proof -
  have "find_token s t = None" unfolding find_token_def find_slot_None using assms(1) by (auto simp: token_secret_eq_iff)
  then show ?thesis using assms unfolding http_session_open_def blank_def
    by (auto simp: open_slot_def add_slot_def grow_def Let_def)
qed

end
