(* ===== verification/Client_Address.thy ===== *)
theory Client_Address
  imports Http_Request Formatting
begin

text \<open>
  \<open>src/utils/ip.c\<close> and \<open>src/http/client_ip.c\<close>: networks in CIDR notation and the client address behind trusted
  proxies. The address parser \<open>inet_pton\<close> of the operating system is a parameter: \<open>pton4\<close> and \<open>pton6\<close> return
  the bytes of an address in network order, \<^const>\<open>None\<close> for text that is no address. What the code relies on
  is their length, 4 and 16 bytes.
\<close>

type_synonym pton = "char list \<Rightarrow> byte list option"

record http_cidr =
  ci_addr :: "byte list"
  ci_prefix :: nat
  ci_v6 :: bool

subsection \<open>Parsing and matching\<close>

definition parse_ip :: "pton \<Rightarrow> pton \<Rightarrow> sv \<Rightarrow> (byte list \<times> bool) option" where
  "parse_ip pton4 pton6 ip =
     (if length ip > 45 then None
      else let buf = c_str (ip @ [NUL]) in
           if CHR ''.'' \<in> set buf then map_option (\<lambda>a. (replicate 12 0 @ a, False)) (pton4 buf)
           else map_option (\<lambda>a. (a, True)) (pton6 buf))"

text \<open>
  \<open>strtol\<close> and \<open>strtoll\<close> in base 10: the value, clamped to the range of the 64-bit type, the text behind the number,
  and whether the value was out of range (\<open>ERANGE\<close>).
\<close>

definition strtol :: "char list \<Rightarrow> int \<times> char list \<times> bool" where
  "strtol s =
     (let t = dropWhile isspace s; neg = (t \<noteq> [] \<and> hd t = CHR ''-'');
          u = (if t \<noteq> [] \<and> (hd t = CHR ''-'' \<or> hd t = CHR ''+'') then tl t else t);
          ds = takeWhile isdigit u; v = (if neg then - dec_value ds else dec_value ds)
      in if ds = [] then (0, s, False)
         else (max (- LLONG_MAX - 1) (min v LLONG_MAX), drop (length ds) u, v < - LLONG_MAX - 1 \<or> v > LLONG_MAX))"

definition http_cidr_parse :: "pton \<Rightarrow> pton \<Rightarrow> char list \<Rightarrow> http_cidr option" where
  "http_cidr_parse pton4 pton6 text =
     (let t = c_str text; ipt = takeWhile (\<lambda>c. c \<noteq> CHR ''/'') t; suffix = drop (length ipt) t
      in if length ipt = 0 \<or> length ipt \<ge> 46 then None
         else case parse_ip pton4 pton6 (sv_from_cstr (ipt @ [NUL])) of
                None \<Rightarrow> None
              | Some (addr, v6) \<Rightarrow>
                  if suffix \<noteq> [] then
                    (case strtol (tl suffix) of (p, endp, erange) \<Rightarrow>
                       if tl suffix = [] \<or> endp \<noteq> [] then None
                       else if p < 0 \<or> p > (if v6 then 128 else 32) then None
                       else Some \<lparr>ci_addr = addr, ci_prefix = nat p, ci_v6 = v6\<rparr>)
                  else Some \<lparr>ci_addr = addr, ci_prefix = (if v6 then 128 else 32), ci_v6 = v6\<rparr>)"

definition http_cidr_contains :: "pton \<Rightarrow> pton \<Rightarrow> http_cidr \<Rightarrow> sv \<Rightarrow> int" where
  "http_cidr_contains pton4 pton6 c ip =
     (case parse_ip pton4 pton6 ip of
        None \<Rightarrow> -1
      | Some (a, v6) \<Rightarrow>
          if v6 \<noteq> ci_v6 c then 0
          else
            let base = (if v6 then 0 else 12); bits = ci_prefix c in
            if list_ex (\<lambda>i. a ! (base + i) \<noteq> ci_addr c ! (base + i)) [0..<bits div 8] then 0
            else
              let r = bits mod 8; m = push_bit (8 - r) 0xFF :: byte in
              if r \<noteq> 0 \<and> a ! (base + bits div 8) AND m \<noteq> ci_addr c ! (base + bits div 8) AND m then 0 else 1)"

subsection \<open>Behind trusted proxies\<close>

definition blank_char :: "char \<Rightarrow> bool" where
  "blank_char c \<longleftrightarrow> c = CHR '' '' \<or> c = CHR 0x09"

definition trim_hop :: "sv \<Rightarrow> sv" where
  "trim_hop e = rev (dropWhile blank_char (rev (dropWhile blank_char e)))"

function hops_loop :: "sv \<Rightarrow> nat \<Rightarrow> sv list \<Rightarrow> sv list" where
  "hops_loop xff i hops =
     (if i \<le> length xff \<and> length hops < 32 then
        let j = i + length (takeWhile (\<lambda>c. c \<noteq> CHR '','') (drop i xff));
            e = trim_hop (take (j - i) (drop i xff))
        in hops_loop xff (j + 1) (if length e > 0 then hops @ [e] else hops)
      else hops)"
  by pat_completeness auto
termination
  by (relation "measure (\<lambda>(xff, i, hops). Suc (length xff) - i)") auto

declare hops_loop.simps [simp del]

text \<open>The inner loop over the networks: whether the hop is an address and whether it is trusted.\<close>

fun hop_scan :: "pton \<Rightarrow> pton \<Rightarrow> http_cidr list \<Rightarrow> sv \<Rightarrow> bool \<Rightarrow> bool \<times> bool" where
  "hop_scan pton4 pton6 [] hop seen = (seen, False)"
| "hop_scan pton4 pton6 (c # cs) hop seen =
     (let r = http_cidr_contains pton4 pton6 c hop
      in if r = 1 then (True, True) else hop_scan pton4 pton6 cs hop (seen \<or> r = 0))"

text \<open>The walk from the last hop to the first: \<open>hops\<close> is the list in reverse.\<close>

fun pick_hop :: "pton \<Rightarrow> pton \<Rightarrow> http_cidr list \<Rightarrow> sv list \<Rightarrow> sv option" where
  "pick_hop pton4 pton6 trusted [] = None"
| "pick_hop pton4 pton6 trusted (h # hops) =
     (case hop_scan pton4 pton6 trusted h False of (seen, trust) \<Rightarrow>
        if \<not> seen then pick_hop pton4 pton6 trusted hops
        else if \<not> trust then Some h
        else pick_hop pton4 pton6 trusted hops)"

definition http_client_ip_resolve :: "pton \<Rightarrow> pton \<Rightarrow> sv \<Rightarrow> sv \<Rightarrow> http_cidr list \<Rightarrow> sv" where
  "http_client_ip_resolve pton4 pton6 xff peer trusted =
     (if trusted = [] \<or> length xff = 0 then peer
      else if \<not> list_ex (\<lambda>c. http_cidr_contains pton4 pton6 c peer = 1) trusted then peer
      else case pick_hop pton4 pton6 trusted (rev (hops_loop xff 0 [])) of Some h \<Rightarrow> h | None \<Rightarrow> peer)"

text \<open>The middleware, up to the call of the next handler: the request with the client address filled in.\<close>

definition http_client_ip_middleware :: "pton \<Rightarrow> pton \<Rightarrow> http_cidr list \<Rightarrow> http_request \<Rightarrow> http_request" where
  "http_client_ip_middleware pton4 pton6 trusted req =
     (let xff = (case http_request_get_header req ''x-forwarded-for'' of Some v \<Rightarrow> v | None \<Rightarrow> [])
      in req\<lparr>rq_client_ip := http_client_ip_resolve pton4 pton6 xff (rq_remote req) trusted\<rparr>)"

subsection \<open>Networks\<close>

text \<open>The bits of an address, the most significant first; a network is the addresses that share its first bits.\<close>

definition byte_bits :: "byte \<Rightarrow> bool list" where
  "byte_bits b = map (\<lambda>i. bit b (7 - i)) [0..<8]"

definition addr_bits :: "byte list \<Rightarrow> bool list" where
  "addr_bits bs = concat (map byte_bits bs)"

lemma length_byte_bits [simp]: "length (byte_bits b) = 8"
  by (simp add: byte_bits_def)

lemma length_addr_bits [simp]: "length (addr_bits bs) = 8 * length bs"
  by (induction bs) (simp_all add: addr_bits_def)

lemma byte_bits_inject: "byte_bits a = byte_bits b \<longleftrightarrow> a = b"
proof
  assume eq: "byte_bits a = byte_bits b"
  show "a = b"
  proof (rule bit_word_eqI)
    fix n assume "n < LENGTH(8)"
    then have "7 - (7 - n) = n" "7 - n < 8" by simp_all
    then show "bit a n \<longleftrightarrow> bit b n" using arg_cong [OF eq, of "\<lambda>l. l ! (7 - n)"] by (simp add: byte_bits_def)
  qed
qed simp

lemma addr_bits_inject: "length a = length b \<Longrightarrow> addr_bits a = addr_bits b \<longleftrightarrow> a = b"
  by (induction a b rule: list_induct2) (simp_all add: addr_bits_def byte_bits_inject)

lemma byte_mask:
  assumes "0 < r" "r < 8"
  shows "(a AND push_bit (8 - r) 0xFF) = (b AND push_bit (8 - r) (0xFF :: byte)) \<longleftrightarrow> take r (byte_bits a) = take r (byte_bits b)"
proof -
  have m: "bit (push_bit (8 - r) (0xFF :: byte)) n \<longleftrightarrow> 8 - r \<le> n \<and> n < 8" for n
    using bit_mask_iff [of 8 "n - (8 - r)", where ?'a = "8 word"] by (auto simp: bit_push_bit_iff mask_eq_exp_minus_1)
  have "(a AND push_bit (8 - r) 0xFF) = (b AND push_bit (8 - r) (0xFF :: byte)) \<longleftrightarrow> (\<forall>n. 8 - r \<le> n \<and> n < 8 \<longrightarrow> bit a n = bit b n)"
    unfolding bit_eq_iff bit_and_iff m by auto
  also have "\<dots> \<longleftrightarrow> (\<forall>i < r. bit a (7 - i) = bit b (7 - i))"
  proof
    assume *: "\<forall>i < r. bit a (7 - i) = bit b (7 - i)"
    show "\<forall>n. 8 - r \<le> n \<and> n < 8 \<longrightarrow> bit a n = bit b n"
    proof (intro allI impI)
      fix n assume "8 - r \<le> n \<and> n < 8"
      then have "7 - n < r" "7 - (7 - n) = n" using assms by auto
      then show "bit a n = bit b n" using * by metis
    qed
  next
    assume *: "\<forall>n. 8 - r \<le> n \<and> n < 8 \<longrightarrow> bit a n = bit b n"
    show "\<forall>i < r. bit a (7 - i) = bit b (7 - i)"
    proof (intro allI impI)
      fix i assume "i < r"
      then have "8 - r \<le> 7 - i \<and> 7 - i < 8" using assms by auto
      then show "bit a (7 - i) = bit b (7 - i)" using * by blast
    qed
  qed
  also have "\<dots> \<longleftrightarrow> take r (byte_bits a) = take r (byte_bits b)"
    using assms by (auto simp: byte_bits_def list_eq_iff_nth_eq)
  finally show ?thesis .
qed

lemma take_addr_bits: "take (8 * k) (addr_bits a) = addr_bits (take k a)"
proof (induction a arbitrary: k)
  case (Cons b bs)
  then show ?case by (cases k) (simp_all add: addr_bits_def)
qed (simp add: addr_bits_def)

lemma drop_addr_bits: "drop (8 * k) (addr_bits a) = addr_bits (drop k a)"
proof (induction a arbitrary: k)
  case (Cons b bs)
  then show ?case by (cases k) (simp_all add: addr_bits_def)
qed (simp add: addr_bits_def)

text \<open>The byte loop and the mask of the last byte compare the first \<open>n\<close> bits.\<close>

lemma prefix_match:
  assumes "length a = length c" "n \<le> 8 * length a"
  shows "(\<not> list_ex (\<lambda>i. a ! i \<noteq> c ! i) [0..<n div 8]
      \<and> (n mod 8 = 0 \<or> a ! (n div 8) AND push_bit (8 - n mod 8) (0xFF :: byte) = c ! (n div 8) AND push_bit (8 - n mod 8) 0xFF))
    \<longleftrightarrow> take n (addr_bits a) = take n (addr_bits c)"
proof -
  let ?k = "n div 8" and ?r = "n mod 8"
  have n: "n = 8 * ?k + ?r" by simp
  have split: "take n (addr_bits x) = addr_bits (take ?k x) @ take ?r (addr_bits (drop ?k x))" for x
    using take_add [of "8 * ?k" ?r "addr_bits x"] n by (simp only: take_addr_bits drop_addr_bits)
  have k: "?k \<le> length a" using assms(2) by simp
  have "\<not> list_ex (\<lambda>i. a ! i \<noteq> c ! i) [0..<?k] \<longleftrightarrow> take ?k a = take ?k c"
    using k assms(1) by (auto simp: list_ex_iff list_eq_iff_nth_eq)
  moreover have "take n (addr_bits a) = take n (addr_bits c) \<longleftrightarrow> take ?k a = take ?k c \<and> take ?r (addr_bits (drop ?k a)) = take ?r (addr_bits (drop ?k c))"
    unfolding split using addr_bits_inject [of "take ?k a" "take ?k c"] k assms(1) by (simp add: append_eq_append_conv)
  moreover have "take ?r (addr_bits (drop ?k a)) = take ?r (addr_bits (drop ?k c))
      \<longleftrightarrow> ?r = 0 \<or> a ! ?k AND push_bit (8 - ?r) (0xFF :: byte) = c ! ?k AND push_bit (8 - ?r) 0xFF"
  proof (cases "?r = 0")
    case False
    then have "?k < length a" using assms(2) n by linarith
    then have "drop ?k a = a ! ?k # drop (Suc ?k) a" "drop ?k c = c ! ?k # drop (Suc ?k) c"
      using assms(1) Cons_nth_drop_Suc by metis+
    moreover have "?r < 8" by simp
    ultimately show ?thesis using False byte_mask [of ?r "a ! ?k" "c ! ?k"] by (simp add: addr_bits_def)
  qed simp
  ultimately show ?thesis by auto
qed

definition pton_ok :: "pton \<Rightarrow> nat \<Rightarrow> bool" where
  "pton_ok pton n \<longleftrightarrow> (\<forall>s a. pton s = Some a \<longrightarrow> length a = n)"

definition cidr_ok :: "http_cidr \<Rightarrow> bool" where
  "cidr_ok c \<longleftrightarrow> length (ci_addr c) = 16 \<and> ci_prefix c \<le> (if ci_v6 c then 128 else 32)"

text \<open>The address proper of an image: the last four bytes for IPv4.\<close>

definition proper :: "bool \<Rightarrow> byte list \<Rightarrow> byte list" where
  "proper v6 img = drop (if v6 then 0 else 12) img"

lemma parse_ip_length: "pton_ok pton4 4 \<Longrightarrow> pton_ok pton6 16 \<Longrightarrow> parse_ip pton4 pton6 ip = Some (a, v6) \<Longrightarrow> length a = 16"
  by (auto simp: parse_ip_def pton_ok_def Let_def split: if_splits)

lemma http_cidr_parse_ok: "pton_ok pton4 4 \<Longrightarrow> pton_ok pton6 16 \<Longrightarrow> http_cidr_parse pton4 pton6 text = Some c \<Longrightarrow> cidr_ok c"
  by (auto simp: http_cidr_parse_def cidr_ok_def Let_def split: if_splits option.splits prod.splits dest!: parse_ip_length)

lemma cidr_contains_spec:
  assumes p: "pton_ok pton4 4" "pton_ok pton6 16" and c: "cidr_ok c"
  shows "http_cidr_contains pton4 pton6 c ip =
    (case parse_ip pton4 pton6 ip of
       None \<Rightarrow> -1
     | Some (a, v6) \<Rightarrow>
         if v6 = ci_v6 c \<and> take (ci_prefix c) (addr_bits (proper v6 a)) = take (ci_prefix c) (addr_bits (proper v6 (ci_addr c)))
         then 1 else 0)"
proof (cases "parse_ip pton4 pton6 ip")
  case (Some r)
  obtain a v6 where r: "r = (a, v6)" by (cases r)
  have l: "length a = 16" using parse_ip_length [OF p] Some r by blast
  let ?base = "if v6 then 0 else 12 :: nat" and ?n = "ci_prefix c"
  show ?thesis
  proof (cases "v6 = ci_v6 c")
    case True
    have lp: "length (proper v6 a) = length (proper v6 (ci_addr c))" "?n \<le> 8 * length (proper v6 a)"
      using l c True by (auto simp: proper_def cidr_ok_def)
    have nth: "proper v6 a ! i = a ! (?base + i)" "proper v6 (ci_addr c) ! i = ci_addr c ! (?base + i)" for i
      using l c by (cases "i \<le> 4"; simp add: proper_def cidr_ok_def nth_drop)+
    show ?thesis
      using prefix_match [OF lp] Some True unfolding r http_cidr_contains_def Let_def nth by auto
  qed (use Some r in \<open>simp add: http_cidr_contains_def\<close>)
qed (simp add: http_cidr_contains_def)

text \<open>
  Network membership. For every network that \<open>http_cidr_parse\<close> accepts, \<open>http_cidr_contains\<close> answers 1 exactly
  for the addresses of its family whose first \<open>prefix\<close> bits are those of the network, 0 for the other addresses and -1
  for text that is no address.
\<close>

theorem cidr_contains_correct:
  assumes "pton_ok pton4 4" "pton_ok pton6 16" "http_cidr_parse pton4 pton6 text = Some c"
  shows "http_cidr_contains pton4 pton6 c ip =
    (case parse_ip pton4 pton6 ip of
       None \<Rightarrow> -1
     | Some (a, v6) \<Rightarrow>
         if v6 = ci_v6 c \<and> take (ci_prefix c) (addr_bits (proper v6 a)) = take (ci_prefix c) (addr_bits (proper v6 (ci_addr c)))
         then 1 else 0)"
  using cidr_contains_spec [OF assms(1,2) http_cidr_parse_ok [OF assms]] .

theorem cidr_contains_correct_witness:
  "http_cidr_contains (\<lambda>s. if s = ''1.2.3.4'' then Some [1, 2, 3, 4] else None) (\<lambda>s. None)
     \<lparr>ci_addr = replicate 12 0 @ [1, 2, 3, 4], ci_prefix = 32, ci_v6 = False\<rparr> ''1.2.3.4'' = 1"
proof -
  let ?p4 = "\<lambda>s. if s = ''1.2.3.4'' then Some [1, 2, 3, 4 :: byte] else None" and ?p6 = "\<lambda>s. None :: byte list option"
  have c: "c_str (''1.2.3.4'' @ [NUL]) = ''1.2.3.4''" "c_str ''1.2.3.4'' = ''1.2.3.4''" by code_simp+
  have ip: "parse_ip ?p4 ?p6 ''1.2.3.4'' = Some (replicate 12 0 @ [1, 2, 3, 4], False)" unfolding parse_ip_def Let_def c by simp
  have "http_cidr_parse ?p4 ?p6 ''1.2.3.4'' = Some \<lparr>ci_addr = replicate 12 0 @ [1, 2, 3, 4], ci_prefix = 32, ci_v6 = False\<rparr>"
    unfolding http_cidr_parse_def Let_def c sv_from_cstr_def using ip c by simp
  from cidr_contains_correct [OF _ _ this, of "''1.2.3.4''"] show ?thesis unfolding ip by (simp add: pton_ok_def)
qed

subsection \<open>Hops\<close>

function csplit :: "sv \<Rightarrow> sv list" where
  "csplit s = (let p = takeWhile (\<lambda>c. c \<noteq> CHR '','') s in p # (if length p < length s then csplit (drop (length p + 1) s) else []))"
  by pat_completeness auto
termination by (relation "measure length") auto

declare csplit.simps [simp del]

definition hop_list :: "sv \<Rightarrow> sv list" where
  "hop_list xff = filter (\<lambda>e. e \<noteq> []) (map trim_hop (csplit xff))"

lemma hops_loop_spec:
  "i \<le> length xff \<Longrightarrow> length hops \<le> 32 \<Longrightarrow> hops_loop xff i hops = hops @ take (32 - length hops) (hop_list (drop i xff))"
proof (induction xff i hops rule: hops_loop.induct)
  case (1 xff i hops)
  show ?case
  proof (cases "length hops < 32")
    case False
    then show ?thesis using 1 by (simp add: hops_loop.simps [of xff i hops])
  next
    case True
    let ?p = "takeWhile (\<lambda>c. c \<noteq> CHR '','') (drop i xff)"
    let ?j = "i + length ?p"
    let ?e = "trim_hop ?p" and ?h = "if length (trim_hop ?p) > 0 then hops @ [trim_hop ?p] else hops"
    have p: "take (?j - i) (drop i xff) = ?p" by (simp add: takeWhile_eq_take [symmetric] length_takeWhile_le)
    have step: "hops_loop xff i hops = hops_loop xff (?j + 1) ?h"
      using "1.prems" True unfolding hops_loop.simps [of xff i hops] Let_def p by simp
    have le: "length ?p \<le> length (drop i xff)" by (rule length_takeWhile_le)
    show ?thesis
    proof (cases "length ?p < length (drop i xff)")
      case more: True
      have IH: "hops_loop xff (?j + 1) ?h = ?h @ take (32 - length ?h) (hop_list (drop (?j + 1) xff))"
        using "1.IH" [of ?j ?e] "1.prems" True more unfolding p by simp
      have "csplit (drop i xff) = ?p # csplit (drop (?j + 1) xff)"
        using more by (simp add: csplit.simps [of "drop i xff"] Let_def add.commute)
      then have "hop_list (drop i xff) = (if ?e \<noteq> [] then [?e] else []) @ hop_list (drop (?j + 1) xff)" by (simp add: hop_list_def)
      then show ?thesis using step IH True by (simp add: take_Cons')
    next
      case False
      then have "?j = length xff" using le "1.prems"(1) by simp
      then have "hops_loop xff (?j + 1) ?h = ?h" by (simp add: hops_loop.simps)
      moreover have "csplit (drop i xff) = [?p]" using False by (simp add: csplit.simps [of "drop i xff"] Let_def)
      ultimately show ?thesis using step True by (simp add: hop_list_def take_Cons')
    qed
  qed
qed

lemma hop_scan_iff:
  "hop_scan p4 p6 cs hop seen = (seen \<or> list_ex (\<lambda>c. http_cidr_contains p4 p6 c hop \<in> {0, 1}) cs, list_ex (\<lambda>c. http_cidr_contains p4 p6 c hop = 1) cs)"
proof (induction cs arbitrary: seen)
  case (Cons c cs)
  then show ?case by (auto simp: Let_def)
qed simp

definition trusts :: "pton \<Rightarrow> pton \<Rightarrow> http_cidr list \<Rightarrow> sv \<Rightarrow> bool" where
  "trusts p4 p6 trusted a \<longleftrightarrow> list_ex (\<lambda>c. http_cidr_contains p4 p6 c a = 1) trusted"

lemma pick_hop_spec:
  assumes p: "pton_ok p4 4" "pton_ok p6 16" and c: "list_all cidr_ok trusted" "trusted \<noteq> []"
  shows "pick_hop p4 p6 trusted hops = List.find (\<lambda>h. parse_ip p4 p6 h \<noteq> None \<and> \<not> trusts p4 p6 trusted h) hops"
proof -
  have "http_cidr_contains p4 p6 c h \<in> {0, 1} \<longleftrightarrow> parse_ip p4 p6 h \<noteq> None" if "cidr_ok c" for c h
    unfolding cidr_contains_spec [OF p that] by (auto split: option.splits)
  then have "list_ex (\<lambda>c. http_cidr_contains p4 p6 c h \<in> {0, 1}) trusted \<longleftrightarrow> parse_ip p4 p6 h \<noteq> None" for h
    using c by (cases trusted) (auto simp: list_ex_iff list_all_iff)
  then show ?thesis
    by (induction hops) (auto simp: hop_scan_iff trusts_def)
qed



text \<open>
  Only the first 32 hops are kept, so a client that sends 32 addresses of its own decides which one it is taken for.
\<close>

lemma client_ip_spoofed:
  assumes "pton_ok p4 4" "pton_ok p6 16" "list_all cidr_ok trusted"
    and "hop_list xff = fake @ rest" "length fake = 32" "parse_ip p4 p6 (last fake) \<noteq> None" "\<not> trusts p4 p6 trusted (last fake)"
    and "trusts p4 p6 trusted peer"
  shows "http_client_ip_resolve p4 p6 xff peer trusted = last fake"
proof -
  have t: "trusted \<noteq> []" using assms(8) by (auto simp: trusts_def)
  have x: "xff \<noteq> []" using assms(4,5) by (auto simp: hop_list_def csplit.simps trim_hop_def)
  have h: "hops_loop xff 0 [] = fake" using hops_loop_spec [of 0 xff "[]"] assms(4,5) by simp
  obtain f where f: "rev fake = last fake # f" using assms(5) by (cases fake rule: rev_cases) auto
  have "pick_hop p4 p6 trusted (rev fake) = Some (last fake)" unfolding pick_hop_spec [OF assms(1-3) t] f using assms(6,7) by simp
  then show ?thesis using assms(8) t x h by (simp add: http_client_ip_resolve_def trusts_def)
qed

end
