(* ===== verification/Guards.thy ===== *)
theory Guards
  imports Credentials Sessions Client_Address
begin

text \<open>
  The middleware chain (\<open>src/http/middleware.c\<close>) and the guards that sit in it: Basic authentication and session
  authentication (\<open>src/http/auth.c\<close>), signed requests (\<open>src/http/request_sign.c\<close>), form tokens
  (\<open>src/http/csrf.c\<close>) and entity tags (\<open>src/http/etag.c\<close>). A handler transforms the request, the response and the rest
  of the program's state \<open>'w\<close>; \<^const>\<open>None\<close> is a handler that does not return. \<open>g\<close> is what the block buffer of the hash held
  before.
\<close>

type_synonym 'w exchange = "http_request \<times> http_response \<times> 'w"
type_synonym 'w handler = "'w exchange \<Rightarrow> 'w exchange option"
type_synonym 'w middleware = "'w handler \<Rightarrow> 'w handler"

subsection \<open>The chain\<close>

record 'w middleware_chain =
  mc_items :: "'w middleware list"
  mc_capacity :: nat

text \<open>A node: its middleware with its user data, and the rest of the chain: another node, or the final handler.\<close>

record 'w node =
  nd_fn :: "'w middleware option"
  nd_next :: "nat option"

definition http_middleware_init :: "'w middleware_chain" where
  "http_middleware_init = \<lparr>mc_items = [], mc_capacity = 0\<rparr>"

definition http_middleware_free :: "'w middleware_chain \<Rightarrow> 'w middleware_chain" where
  "http_middleware_free c = http_middleware_init"

definition http_middleware_add :: "'w middleware_chain \<Rightarrow> 'w middleware \<Rightarrow> 'w middleware_chain" where
  "http_middleware_add c fn =
     (let c1 = (if length (mc_items c) = mc_capacity c
                then c\<lparr>mc_capacity := if mc_capacity c \<noteq> 0 then mc_capacity c * 2 else 4\<rparr> else c)
      in c1\<lparr>mc_items := mc_items c1 @ [fn]\<rparr>)"

definition http_middleware_build :: "'w middleware_chain \<Rightarrow> 'w node list" where
  "http_middleware_build c =
     (if length (mc_items c) = 0 then [\<lparr>nd_fn = None, nd_next = None\<rparr>]
      else map (\<lambda>i. \<lparr>nd_fn = Some (mc_items c ! i), nd_next = (if i + 1 < length (mc_items c) then Some (i + 1) else None)\<rparr>)
             [0..<length (mc_items c)])"

text \<open>Calls nest as deep as the chain is long; \<open>fuel\<close> bounds the depth.\<close>

primrec trampoline :: "nat \<Rightarrow> 'w node list \<Rightarrow> 'w handler \<Rightarrow> nat \<Rightarrow> 'w handler" where
  "trampoline 0 nodes final i x = None"
| "trampoline (Suc fuel) nodes final i x =
     (let n = nodes ! i;
          next = (case nd_next n of Some j \<Rightarrow> trampoline fuel nodes final j | None \<Rightarrow> final)
      in case nd_fn n of None \<Rightarrow> next x | Some fn \<Rightarrow> fn next x)"

lemma trampoline_from:
  "i < length (mc_items c) \<Longrightarrow> length (mc_items c) - i \<le> fuel \<Longrightarrow>
   trampoline fuel (http_middleware_build c) final i = foldr (\<lambda>m next. m next) (drop i (mc_items c)) final"
proof (induction "length (mc_items c) - i" arbitrary: i fuel)
  case (Suc k)
  obtain f where f: "fuel = Suc f" using Suc.prems by (cases fuel) auto
  have d: "drop i (mc_items c) = mc_items c ! i # drop (Suc i) (mc_items c)" using Suc.prems(1) by (simp add: Cons_nth_drop_Suc)
  have n: "http_middleware_build c ! i = \<lparr>nd_fn = Some (mc_items c ! i), nd_next = (if i + 1 < length (mc_items c) then Some (i + 1) else None)\<rparr>"
    using Suc.prems(1) by (auto simp: http_middleware_build_def)
  have "(case nd_next (http_middleware_build c ! i) of Some j \<Rightarrow> trampoline f (http_middleware_build c) final j | None \<Rightarrow> final)
      = foldr (\<lambda>m next. m next) (drop (Suc i) (mc_items c)) final"
    using Suc f unfolding n by simp
  then show ?case unfolding f d by (intro ext) (simp add: n Let_def)
qed simp

text \<open>
  The chain runs in order. A handler built from a chain behaves as the middlewares nested in the order in which they
  were added, the first one outermost and the final handler innermost, whatever each of them does with the rest of the
  chain: calling it once, several times or not at all.
\<close>

theorem middleware_chain_nests:
  assumes "length ms + 1 \<le> fuel"
  shows "trampoline fuel (http_middleware_build (foldl http_middleware_add http_middleware_init ms)) final 0 = foldr (\<lambda>m next. m next) ms final"
proof -
  have items: "mc_items (foldl http_middleware_add c ms) = mc_items c @ ms" for c
    by (induction ms arbitrary: c) (simp_all add: http_middleware_add_def Let_def)
  let ?c = "foldl http_middleware_add http_middleware_init ms"
  have c: "mc_items ?c = ms" using items by (simp add: http_middleware_init_def)
  obtain f where f: "fuel = Suc f" using assms by (cases fuel) auto
  show ?thesis
  proof (cases "ms = []")
    case True
    then show ?thesis unfolding f by (intro ext) (simp add: http_middleware_build_def http_middleware_init_def Let_def)
  next
    case False
    then show ?thesis using trampoline_from [of 0 ?c fuel final] assms c by simp
  qed
qed

theorem middleware_chain_nests_witness:
  "trampoline 3 (http_middleware_build (foldl http_middleware_add http_middleware_init
      [\<lambda>next (q, s, n). next (q, s, n * 2), \<lambda>next (q, s, n). next (q, s, n + (1 :: nat))])) Some 0 (empty_request, http_response_init, 5)
   = Some (empty_request, http_response_init, 11)"
  by (subst middleware_chain_nests) simp_all

subsection \<open>Basic authentication\<close>

text \<open>The payload behind the scheme name.\<close>

definition basic_payload :: "sv \<Rightarrow> sv option" where
  "basic_payload h =
     (let header = sv_trim h in
      if length header < 6 \<or> map tolower (take 5 header) \<noteq> ''basic'' \<or> header ! 5 \<noteq> CHR '' '' then None
      else if length (drop 6 header) = 0 then None
      else Some (drop 6 header))"

text \<open>The decoded credentials and the index of the colon.\<close>

definition decode_creds :: "sv \<Rightarrow> (char list \<times> nat) option" where
  "decode_creds payload =
     (case base64_decode_into strbuf_init payload of (rc, decoded) \<Rightarrow>
        if rc \<noteq> 0 then None
        else let d = strbuf_view decoded; colon = sv_scan d (CHR '':'')
             in if colon = 0 \<or> colon \<ge> sb_count decoded then None else Some (d, colon))"

definition http_basic_auth_parse :: "sv \<Rightarrow> nat \<Rightarrow> nat \<Rightarrow> (char list \<times> char list) option" where
  "http_basic_auth_parse header user_size pass_size =
     (case basic_payload header of
        None \<Rightarrow> None
      | Some payload \<Rightarrow>
          (case decode_creds payload of
             None \<Rightarrow> None
           | Some (d, colon) \<Rightarrow>
               Some (take (user_size - 1) (take colon d) @ [NUL], take (pass_size - 1) (drop (colon + 1) d) @ [NUL])))"

fun quote_loop :: "char list \<Rightarrow> char list \<Rightarrow> char list" where
  "quote_loop [] quoted = quoted"
| "quote_loop (c # cs) quoted =
     (if length quoted + 1 < 256
      then quote_loop cs (quoted @ (if c = DQUOTE \<or> c = BACKSLASH then [BACKSLASH] else []) @ [c])
      else quoted)"

text \<open>\<^const>\<open>None\<close>: the terminator is stored behind the array of 256 bytes.\<close>

definition http_response_require_basic_auth :: "http_response \<Rightarrow> char list \<Rightarrow> http_response option" where
  "http_response_require_basic_auth res realm =
     (let quoted = quote_loop (c_str realm) [] in
      if length quoted \<ge> 256 then None
      else
        let challenge = snprintf_str (256 + 32) (''Basic realm='' @ [DQUOTE] @ quoted @ [DQUOTE]);
            r1 = http_response_set_status res 401;
            r2 = http_response_set_header r1 ''Content-Type'' ''text/plain; charset=utf-8'';
            r3 = http_response_set_header r2 ''WWW-Authenticate'' challenge
        in Some (http_response_add_body_cstr r3 (''authentication required'' @ [LF])))"

definition check_creds :: "byte list \<Rightarrow> sv \<Rightarrow> char list \<Rightarrow> char list option \<Rightarrow> nat \<Rightarrow> nat \<Rightarrow> char list option" where
  "check_creds g header want_user want_pass pass_len user_cap =
     (case basic_payload header of
        None \<Rightarrow> None
      | Some payload \<Rightarrow>
          (case decode_creds payload of
             None \<Rightarrow> None
           | Some (d, colon) \<Rightarrow>
               let pass = (case want_pass of Some p \<Rightarrow> p | None \<Rightarrow> []); user = c_str want_user in
               if length user + 1 + pass_len + 1 > 1024 then None
               else
                 let expected = user @ '':'' @ take pass_len pass in
                 if secure_byte_equal (sha256 g (bytes_of expected)) (sha256 g (bytes_of d)) 32
                 then Some (take (user_cap - 1) (take colon d) @ [NUL]) else None))"

record basic_auth_options =
  ba_user :: "char list option"
  ba_pass :: "char list option"
  ba_realm :: "char list option"

definition http_basic_auth_middleware :: "byte list \<Rightarrow> basic_auth_options option \<Rightarrow> 'w middleware" where
  "http_basic_auth_middleware g opts next = (\<lambda>(req, res, w).
     (case opts of
        None \<Rightarrow> next (req, res, w)
      | Some o' \<Rightarrow>
          (case ba_user o' of
             None \<Rightarrow> next (req, res, w)
           | Some user \<Rightarrow>
               if c_str user = [] then next (req, res, w)
               else
                 let pass_len = (case ba_pass o' of Some p \<Rightarrow> length (c_str p) | None \<Rightarrow> 0);
                     checked = (case http_request_get_header req ''authorization'' of
                                  None \<Rightarrow> None
                                | Some h \<Rightarrow> check_creds g h user (ba_pass o') pass_len 128)
                 in case checked of
                      None \<Rightarrow> map_option (\<lambda>r. (req, r, w))
                                (http_response_require_basic_auth res (case ba_realm o' of Some r \<Rightarrow> r | None \<Rightarrow> ''cweb''))
                    | Some userbuf \<Rightarrow> next (req\<lparr>rq_auth_user := c_str userbuf\<rparr>, res, w))))"

subsection \<open>Session authentication\<close>

record session_auth_options =
  sa_cookie_name :: "char list option"
  sa_session_key :: "char list option"
  sa_roles_key :: "char list option"

definition stash_session_value :: "sv \<Rightarrow> char list option \<Rightarrow> sv" where
  "stash_session_value view value = (if length view \<noteq> 0 then view else case value of None \<Rightarrow> view | Some v \<Rightarrow> c_str v)"

text \<open>The session store is the state the handlers share; \<open>None\<close> for the options is a missing store.\<close>

definition http_session_auth_middleware :: "int \<Rightarrow> session_auth_options option \<Rightarrow> session_store middleware" where
  "http_session_auth_middleware now opts next = (\<lambda>(req, res, s).
     (case opts of
        None \<Rightarrow> next (req, res, s)
      | Some o' \<Rightarrow>
          let cookie = (case sa_cookie_name o' of Some c \<Rightarrow> c | None \<Rightarrow> ''cweb_session'');
              user_key = (case sa_session_key o' of Some k \<Rightarrow> k | None \<Rightarrow> ''auth_user'');
              roles_key = (case sa_roles_key o' of Some k \<Rightarrow> k | None \<Rightarrow> ''auth_roles'')
          in case http_session_from_cookie now s req cookie of
               None \<Rightarrow> None
             | Some (None, s1) \<Rightarrow> next (req, res, s1)
             | Some (Some sesh, s1) \<Rightarrow>
                 next (req\<lparr>rq_auth_user := stash_session_value (rq_auth_user req) (http_session_value s1 sesh user_key),
                           rq_auth_roles := stash_session_value (rq_auth_roles req) (http_session_value s1 sesh roles_key)\<rparr>, res, s1)))"

definition holds_any_role :: "sv \<Rightarrow> char list list \<Rightarrow> bool" where
  "holds_any_role lst roles = list_ex (\<lambda>part. list_ex (\<lambda>r. sv_equal (sv_trim part) (sv_from_cstr r)) roles) (sv_pieces lst (CHR '',''))"

record require_auth_options =
  ra_roles :: "char list list"
  ra_login_path :: "char list option"
  ra_forbidden_path :: "char list option"

definition plain_refusal :: "http_response \<Rightarrow> http_status \<Rightarrow> char list \<Rightarrow> http_response" where
  "plain_refusal res status body =
     http_response_add_body_cstr (http_response_set_header (http_response_set_status res status) ''Content-Type'' ''text/plain; charset=utf-8'') body"

definition http_require_auth_middleware :: "require_auth_options option \<Rightarrow> 'w middleware" where
  "http_require_auth_middleware opts next = (\<lambda>(req, res, w).
     (case opts of
        None \<Rightarrow> next (req, res, w)
      | Some o' \<Rightarrow>
          if length (rq_auth_user req) = 0 then
            Some (req, (case ra_login_path o' of
                          Some p \<Rightarrow> http_response_redirect res 303 p
                        | None \<Rightarrow> plain_refusal res 401 (''login required'' @ [LF])), w)
          else if ra_roles o' \<noteq> [] \<and> \<not> holds_any_role (rq_auth_roles req) (ra_roles o') then
            Some (req, (case ra_forbidden_path o' of
                          Some p \<Rightarrow> http_response_redirect res 303 p
                        | None \<Rightarrow> plain_refusal res 403 (''forbidden'' @ [LF])), w)
          else next (req, res, w)))"

subsection \<open>What the guards let through\<close>

text \<open>The credentials a header carries.\<close>

definition header_creds :: "sv \<Rightarrow> (char list \<times> nat) option" where
  "header_creds h = (case basic_payload h of None \<Rightarrow> None | Some p \<Rightarrow> decode_creds p)"

lemma check_creds_spec:
  assumes g: "length g = 64" and l: "length (c_str user) + length (c_str pass) + 2 \<le> 1024"
  shows "check_creds g h user (Some pass) (length (c_str pass)) cap =
    (case header_creds h of
       None \<Rightarrow> None
     | Some (d, colon) \<Rightarrow>
         if sha256_spec (bytes_of d) = sha256_spec (bytes_of (c_str user @ '':'' @ c_str pass))
         then Some (take (cap - 1) (take colon d) @ [NUL]) else None)"
proof -
  have t: "take (length (c_str pass)) pass = c_str pass" by (rule take_length_c_str)
  have eq: "secure_byte_equal (sha256 g x) (sha256 g y) 32 \<longleftrightarrow> sha256_spec y = sha256_spec x" for x y
    using secure_byte_equal_iff [of 32 "sha256_spec x" "sha256_spec y"] length_sha256_spec by (auto simp: sha256_spec_code [OF g])
  show ?thesis using l unfolding check_creds_def header_creds_def Let_def
    by (auto simp: t eq split: option.splits)
qed

lemma decode_creds_encode:
  "decode_creds (base64_encode d) = (let colon = sv_scan d (CHR '':'') in if colon = 0 \<or> colon \<ge> length d then None else Some (d, colon))"
  by (simp add: decode_creds_def base64_decode_encode decoded_view)

lemma header_creds_render:
  assumes "CHR '':'' \<notin> set user" "user \<noteq> []"
  shows "header_creds (''Basic '' @ base64_encode (user @ '':'' @ pass)) = Some (user @ '':'' @ pass, length user)"
proof -
  let ?d = "user @ '':'' @ pass"
  let ?e = "base64_encode ?d"
  have ne: "?e \<noteq> []" using length_base64_encode [of ?d] assms(2) by auto
  have "list_all (\<lambda>c. \<not> isspace c) (CHR ''='' # B64)" by code_simp
  then have nospace: "\<not> isspace c" if "c \<in> set ?e" for c using base64_chars [of ?d] that unfolding list_all_iff by auto
  have "sv_trim (''Basic '' @ ?e) = ''Basic '' @ ?e"
    by (rule sv_trim_id) (use ne nospace in \<open>auto simp: isspace_def\<close>)
  moreover have "map tolower ''Basic'' = ''basic''" by code_simp
  ultimately have "basic_payload (''Basic '' @ ?e) = Some ?e" using ne by (simp add: basic_payload_def)
  moreover have "sv_scan ?d (CHR '':'') = length user"
    using assms(1) by (induction user) auto
  ultimately show ?thesis
    using assms(2) decode_creds_encode [of ?d] by (simp add: header_creds_def Let_def)
qed



text \<open>A realm of 254 plain characters and then a quote is written past the end of its array.\<close>

lemma realm_overflow: "http_response_require_basic_auth res (replicate 254 (CHR ''a'') @ [DQUOTE]) = None"
proof -
  have plain: "length q + n \<le> 255 \<Longrightarrow> quote_loop (replicate n (CHR ''a'') @ cs) q = quote_loop cs (q @ replicate n (CHR ''a''))" for n q cs
    by (induction n arbitrary: q) (simp_all add: replicate_append_same)
  have "c_str (replicate 254 (CHR ''a'') @ [DQUOTE]) = replicate 254 (CHR ''a'') @ [DQUOTE]" by (rule c_str_id) auto
  then show ?thesis using plain [of "[]" 254 "[DQUOTE]"] by (simp add: http_response_require_basic_auth_def Let_def)
qed

text \<open>What a session guard asks for: a live session that names a user, and one of the roles if any are required.\<close>

definition role_parts :: "sv \<Rightarrow> char list set" where
  "role_parts roles = sv_trim ` set (sv_pieces roles (CHR '',''))"

definition session_identity :: "int \<Rightarrow> session_store \<Rightarrow> http_request \<Rightarrow> (char list \<times> char list) option" where
  "session_identity now s req =
     (case http_session_from_cookie now s req ''cweb_session'' of
        Some (Some a, s1) \<Rightarrow>
          Some (case http_session_value s1 a ''auth_user'' of Some v \<Rightarrow> c_str v | None \<Rightarrow> [],
                case http_session_value s1 a ''auth_roles'' of Some v \<Rightarrow> c_str v | None \<Rightarrow> [])
      | _ \<Rightarrow> None)"



subsection \<open>Signed requests\<close>

definition MAC_HEX_LEN :: nat where "MAC_HEX_LEN = 64"
definition DEFAULT_MAX_AGE_SECONDS :: nat where "DEFAULT_MAX_AGE_SECONDS = 300"

definition hex_digit :: "char \<Rightarrow> int" where
  "hex_digit c =
     (if 48 \<le> ucode c \<and> ucode c \<le> 57 then int (ucode c) - 48
      else if 97 \<le> ucode c \<and> ucode c \<le> 102 then 10 + (int (ucode c) - 97)
      else -1)"

definition http_request_signature_compute :: "byte list \<Rightarrow> char list \<Rightarrow> sv \<Rightarrow> sv \<Rightarrow> int \<Rightarrow> char list \<Rightarrow> char list" where
  "http_request_signature_compute g meth path body unix_seconds secret =
     (let ts = snprintf_str 32 (dec_of_int unix_seconds);
          msg = c_str meth @ [LF] @ path @ [LF] @ c_str ts @ [LF] @ body
      in hmac_sha256_hex g (bytes_of (c_str secret)) (bytes_of msg))"

text \<open>The result of the check, \<^const>\<open>None\<close> where the difference of the times leaves the range of \<open>long long\<close>.\<close>

definition http_request_signature_verify :: "byte list \<Rightarrow> int \<Rightarrow> http_request \<Rightarrow> char list \<Rightarrow> nat \<Rightarrow> int option" where
  "http_request_signature_verify g now req secret max_age_seconds =
     (case (http_request_get_header req ''X-CWEB-Signature'', http_request_get_header req ''X-CWEB-Date'') of
        (Some sig, Some date) \<Rightarrow>
          if length sig \<noteq> MAC_HEX_LEN \<or> \<not> list_all (\<lambda>c. \<not> hex_digit c < 0) sig then Some (-1)
          else
            let dateraw = c_str (take 63 date) in
            (case strtol dateraw of (ts, rest, erange) \<Rightarrow>
               if erange \<or> rest = dateraw \<or> rest \<noteq> [] then Some (-1)
               else
                 let age = (if max_age_seconds = 0 then DEFAULT_MAX_AGE_SECONDS else max_age_seconds);
                     diff = (if now > ts then now - ts else ts - now)
                 in if diff > LLONG_MAX then None
                    else if diff < 0 \<or> diff > int age then Some (-1)
                    else
                      let meth = (case http_method_name (rq_method req) of Some m \<Rightarrow> m | None \<Rightarrow> ''???'');
                          want = http_request_signature_compute g meth (rq_path req) (rq_body req) ts secret
                      in Some (if secure_byte_equal (bytes_of sig) (bytes_of want) MAC_HEX_LEN then 0 else -1))
      | _ \<Rightarrow> Some (-1))"

record signature_options =
  so_secret :: "char list option"
  so_max_age_seconds :: nat

definition http_signature_middleware :: "byte list \<Rightarrow> int \<Rightarrow> signature_options option \<Rightarrow> 'w middleware" where
  "http_signature_middleware g now opts next = (\<lambda>(req, res, w).
     let secret = (case opts of Some o' \<Rightarrow> so_secret o' | None \<Rightarrow> None);
         age = (case opts of Some o' \<Rightarrow> so_max_age_seconds o' | None \<Rightarrow> 0);
         denied = Some (req, plain_refusal res 403 (''missing or invalid request signature'' @ [CR, LF]), w)
     in case secret of
          None \<Rightarrow> denied
        | Some k \<Rightarrow>
            if c_str k = [] then denied
            else (case http_request_signature_verify g now req k age of
                    None \<Rightarrow> None
                  | Some rc \<Rightarrow> if rc \<noteq> 0 then denied else next (req, res, w)))"

lemma strtol_dec:
  assumes "time_ok t"
  shows "strtol (dec_of_int t) = (t, [], False)"
proof -
  let ?n = "nat \<bar>t\<bar>"
  have e: "dec_of_int t = (if t < 0 then [CHR ''-''] else []) @ dec_of_nat ?n" by (simp add: dec_of_int_def)
  note ds = takeWhile_all [OF dec_of_nat_digits]
  obtain c r where c: "dec_of_nat ?n = c # r" "isdigit c" using dec_of_nat_digits [of ?n] by (cases "dec_of_nat ?n") auto
  have nc: "\<not> isspace c" "c \<noteq> CHR ''-''" "c \<noteq> CHR ''+''" using c(2) by (auto simp: isdigit_def isspace_def)
  have sp: "\<not> isspace (CHR ''-'')" by (simp add: isspace_def)
  show ?thesis
  proof (cases "t < 0")
    case True
    then show ?thesis using e sp assms by (simp add: strtol_def Let_def time_ok_def ds)
  next
    case False
    then have "dropWhile isspace (dec_of_int t) = dec_of_nat ?n" "hd (dec_of_nat ?n) = c" using e c nc by simp_all
    then show ?thesis using False nc assms by (simp add: strtol_def Let_def time_ok_def ds LLONG_MAX_def)
  qed
qed

lemma mac_hex: "length g = 64 \<Longrightarrow> list_all (\<lambda>c. \<not> hex_digit c < 0) (hmac_sha256_hex g k m)"
proof -
  have "list_all (\<lambda>c. \<not> hex_digit c < 0) mac_digits" by code_simp
  then have "\<not> hex_digit (mac_digits ! n) < 0" if "n < 16" for n using that by (simp add: list_all_length mac_digits_def)
  moreover have "unat (drop_bit 4 b) < 16" "unat (b AND 0x0f) < 16" for b :: byte
  proof -
    show "unat (drop_bit 4 b) < 16" using unat_byte_less [of b] unfolding unat_drop_bit_eq by (simp add: drop_bit_eq_div less_mult_imp_div_less del: unat_byte_less)
    show "unat (b AND 0x0f) < 16" using and_mask_nat [of "unat b" 4] by (simp add: unsigned_and_eq)
  qed
  ultimately show ?thesis by (simp add: hmac_sha256_hex_def list_all_iff)
qed



subsection \<open>Form tokens\<close>

definition http_csrf_verify :: "str_map option \<Rightarrow> session_store \<Rightarrow> nat option \<Rightarrow> int" where
  "http_csrf_verify params s sesh =
     (let sent = (case params of Some p \<Rightarrow> strmap_get_cstr p ''csrf_token'' | None \<Rightarrow> None);
          token = (case sesh of Some a \<Rightarrow> http_session_value s a ''csrf-token'' | None \<Rightarrow> None)
      in case (sent, token) of (Some x, Some y) \<Rightarrow> if c_str x = c_str y then 0 else -1 | _ \<Rightarrow> -1)"

definition store_new_token ::
  "byte list option \<Rightarrow> write_outcome \<times> bool \<Rightarrow> session_store \<Rightarrow> disk \<Rightarrow> nat \<Rightarrow> (char list option \<times> session_store \<times> disk) option" where
  "store_new_token random io s fs sesh =
     (case random of
        None \<Rightarrow> Some (None, s, fs)
      | Some rnd \<Rightarrow>
          map_option (\<lambda>(s1, fs1). (http_session_value s1 sesh ''csrf-token'', s1, fs1))
            (http_session_set io s fs sesh ''csrf-token'' (concat (map hex2 (take TOKEN_BYTES rnd)))))"

definition http_csrf_token ::
  "byte list option \<Rightarrow> write_outcome \<times> bool \<Rightarrow> session_store \<Rightarrow> disk \<Rightarrow> nat option \<Rightarrow> (char list option \<times> session_store \<times> disk) option" where
  "http_csrf_token random io s fs sesh =
     (case sesh of
        None \<Rightarrow> Some (None, s, fs)
      | Some a \<Rightarrow>
          (case http_session_value s a ''csrf-token'' of
             Some have' \<Rightarrow> if c_str have' \<noteq> [] then Some (Some have', s, fs) else store_new_token random io s fs a
           | None \<Rightarrow> store_new_token random io s fs a))"

definition http_csrf_rotate ::
  "byte list option \<Rightarrow> write_outcome \<times> bool \<Rightarrow> session_store \<Rightarrow> disk \<Rightarrow> nat option \<Rightarrow> (char list option \<times> session_store \<times> disk) option" where
  "http_csrf_rotate random io s fs sesh = (case sesh of None \<Rightarrow> Some (None, s, fs) | Some a \<Rightarrow> store_new_token random io s fs a)"

definition http_csrf_field ::
  "byte list option \<Rightarrow> write_outcome \<times> bool \<Rightarrow> http_response \<Rightarrow> session_store \<Rightarrow> disk \<Rightarrow> nat option \<Rightarrow> (http_response \<times> session_store \<times> disk) option" where
  \<open>http_csrf_field random io res s fs sesh =
     map_option (\<lambda>(tok, s1, fs1).
         (case tok of
            None \<Rightarrow> res
          | Some t \<Rightarrow> http_response_add_body_cstr res (snprintf_str 128 (''<input type="hidden" name="csrf_token" value="'' @ c_str t @ ''">'')),
          s1, fs1))
       (http_csrf_token random io s fs sesh)\<close>

definition http_csrf_reject :: "http_response \<Rightarrow> char list \<Rightarrow> http_response" where
  \<open>http_csrf_reject res retry_url =
     (let r1 = http_response_set_header (http_response_set_status res 403) ''Content-Type'' ''text/html; charset=utf-8'';
          r2 = http_response_add_body_cstr r1 ''<p>this form was not submitted by this site (the CSRF token did not match). '';
          esc = html_escape_into strbuf_init (sv_from_cstr retry_url);
          r3 = http_response_add_body_cstr r2 ''<a href="'';
          r4 = http_response_add_body r3 (strbuf_view esc)
      in http_response_add_body_cstr r4 ''">try again</a></p>'')\<close>

text \<open>
  A form that carries the token the page was served with is accepted, and one with any other token or none is not; the token
  survives in the session until it is rotated.
\<close>

lemma csrf_round_trip:
  assumes inv: "store_inv s" and a: "(t, a) \<in> set (ss_slots s)" and rnd: "length rnd = TOKEN_BYTES"
    and fresh: "http_session_value s a ''csrf-token'' = None"
  shows "\<exists>tok s1 fs1. http_csrf_token (Some rnd) io s fs (Some a) = Some (Some tok, s1, fs1) \<and> store_inv s1
    \<and> http_csrf_token r' io' s1 fs1 (Some a) = Some (Some tok, s1, fs1)
    \<and> (\<forall>params. http_csrf_verify (Some params) s1 (Some a) = 0 \<longleftrightarrow> map_option c_str (strmap_get_cstr params ''csrf_token'') = Some tok)
    \<and> http_csrf_verify None s1 (Some a) = -1"
proof -
  obtain tok where tok: "new_token (Some rnd) = Some tok" "token_ok tok" using length_new_token [OF rnd] by blast
  have eq: "concat (map hex2 (take TOKEN_BYTES rnd)) = tok" using tok(1) by (simp add: new_token_def)
  have c: "c_str tok = tok" using session_key_token(2) [OF tok(2)] .
  have ck: "c_str ''csrf-token'' = ''csrf-token''" by code_simp
  have plain: "LF \<notin> set (hex2 b)" for b :: byte
  proof -
    have "unat b div 16 < 16" "unat b mod 16 < 16" using unat_byte_less [of b] by (simp_all add: less_mult_imp_div_less)
    moreover have "list_all (\<lambda>c. c \<noteq> LF) ''0123456789abcdef''" by code_simp
    ultimately have "''0123456789abcdef'' ! (unat b div 16) \<noteq> LF" "''0123456789abcdef'' ! (unat b mod 16) \<noteq> LF"
      unfolding list_all_length by simp_all
    then show ?thesis unfolding hex2_def by simp
  qed
  have "one_line (c_str ''csrf-token'', c_str tok)" unfolding c ck using plain eq by (auto simp: one_line_def)
  then obtain s1 fs1 where s1: "http_session_set io s fs a ''csrf-token'' tok = Some (s1, fs1)" "store_inv s1"
      "\<And>q. http_session_value s1 a q = (if c_str q = c_str ''csrf-token'' then Some (c_str tok) else http_session_value s a q)"
    using set_ok [OF inv a] by blast
  have v: "http_session_value s1 a ''csrf-token'' = Some tok" using s1(3) c by simp
  have ne: "tok \<noteq> []" using tok(2) by (auto simp: token_ok_def TOKEN_HEX_def TOKEN_BYTES_def)
  have "http_csrf_token (Some rnd) io s fs (Some a) = Some (Some tok, s1, fs1)"
    using fresh s1(1) v by (simp add: http_csrf_token_def store_new_token_def eq)
  moreover have "http_csrf_token r' io' s1 fs1 (Some a) = Some (Some tok, s1, fs1)" using v ne c by (simp add: http_csrf_token_def)
  moreover have "http_csrf_verify (Some params) s1 (Some a) = 0 \<longleftrightarrow> map_option c_str (strmap_get_cstr params ''csrf_token'') = Some tok" for params
    using v c by (auto simp: http_csrf_verify_def split: option.splits)
  moreover have "http_csrf_verify None s1 (Some a) = -1" by (simp add: http_csrf_verify_def)
  ultimately show ?thesis using s1(2) by blast
qed

subsection \<open>Entity tags\<close>

definition own_tag :: "sv \<Rightarrow> sv" where
  "own_tag ours =
     (if length ours \<ge> 2 \<and> ours ! 0 = CHR ''W'' \<and> ours ! 1 = CHR ''/'' \<and> length ours \<ge> 4 \<and> ours ! 2 = DQUOTE \<and> ours ! (length ours - 1) = DQUOTE
      then take (length ours - 4) (drop 3 ours)
      else if length ours \<ge> 2 \<and> ours ! 0 = DQUOTE \<and> ours ! (length ours - 1) = DQUOTE
      then take (length ours - 2) (drop 1 ours)
      else ours)"

definition entry_matches :: "sv \<Rightarrow> sv \<Rightarrow> bool" where
  "entry_matches piece ours =
     (let entry = sv_trim piece in
      if length entry = 0 then False
      else if sv_equal entry (sv_from_cstr ''*'') then True
      else if length entry \<ge> 2 \<and> entry ! 0 = DQUOTE \<and> entry ! (length entry - 1) = DQUOTE
      then let e1 = take (length entry - 2) (drop 1 entry);
               e2 = (if length e1 \<ge> 2 \<and> e1 ! 0 = CHR ''W'' \<and> e1 ! 1 = CHR ''/'' then drop 2 e1 else e1)
           in sv_equal e2 ours
      else False)"

definition inm_matches :: "sv \<Rightarrow> sv \<Rightarrow> bool" where
  "inm_matches header ours = list_ex (\<lambda>p. entry_matches p (own_tag ours)) (sv_pieces header (CHR '',''))"

definition drop_body :: "http_response \<Rightarrow> http_response" where
  "drop_body res = res\<lparr>rs_status := 304, rs_body := (rs_body res)\<lparr>sb_count := 0\<rparr>\<rparr>"

definition since_check :: "http_request \<Rightarrow> http_response \<Rightarrow> char list option \<Rightarrow> http_response" where
  "since_check req res owned =
     (case (http_request_get_header req ''If-Modified-Since'', if owned \<noteq> None then None else http_response_get_header res ''Last-Modified'') of
        (Some ims, Some lm) \<Rightarrow>
          if length ims > 0 \<and> http_date_parse ims \<noteq> -1 \<and> http_date_parse (sv_from_cstr lm) \<noteq> -1 \<and> http_date_parse ims \<ge> http_date_parse (sv_from_cstr lm)
          then drop_body res else res
      | _ \<Rightarrow> res)"

text \<open>What happens to the response after the rest of the chain has run.\<close>

definition etag_finish :: "byte list \<Rightarrow> bool \<Rightarrow> http_request \<Rightarrow> http_response \<Rightarrow> http_response" where
  "etag_finish g weak req res =
     (if rs_status res < 200 \<or> rs_status res \<ge> 300 then res
      else if rs_stream_fn res \<noteq> None \<or> length (rs_stream_chunks res) > 0 then res
      else if sb_count (rs_body res) = 0 then res
      else
        let owned = http_response_get_header res ''ETag'';
            hex = concat (map (\<lambda>b. [mac_digits ! unat (drop_bit 4 b), mac_digits ! unat (b AND 0x0f)]) (sha256 g (bytes_of (strbuf_view (rs_body res)))));
            tag = (case owned of
                     Some t \<Rightarrow> t
                   | None \<Rightarrow> snprintf_str 96 ((if weak then ''W/'' else []) @ [DQUOTE] @ hex @ [DQUOTE]));
            r1 = (if owned = None then http_response_set_header_replace res ''ETag'' tag else res)
        in case http_request_get_header req ''If-None-Match'' of
             Some inm \<Rightarrow>
               if length inm > 0 \<and> inm_matches inm (sv_from_cstr tag) then drop_body r1 else since_check req r1 owned
           | None \<Rightarrow> since_check req r1 owned)"

definition http_etag_middleware :: "byte list \<Rightarrow> bool \<Rightarrow> 'w middleware" where
  "http_etag_middleware g weak next = (\<lambda>x.
     (case next x of None \<Rightarrow> None | Some (req, res, w) \<Rightarrow> Some (req, etag_finish g weak req res, w)))"

definition opaque :: "char list \<Rightarrow> bool" where
  "opaque t \<longleftrightarrow> CHR '','' \<notin> set t \<and> list_all (\<lambda>c. \<not> isspace c) t \<and> take 2 t \<noteq> ''W/''"

lemma single_piece: "CHR '','' \<notin> set s \<Longrightarrow> s \<noteq> [] \<Longrightarrow> sv_pieces s (CHR '','') = [s]"
  using sv_chop_absent [of "CHR '',''" s] by (simp add: sv_pieces.simps [of s] sv_pieces.simps [of "[]"])

text \<open>A strong tag sent back as it is matches; nothing else that is opaque does.\<close>

lemma inm_strong:
  assumes "opaque t" "opaque u"
  shows "inm_matches ([DQUOTE] @ t @ [DQUOTE]) ([DQUOTE] @ u @ [DQUOTE]) \<longleftrightarrow> t = u"
proof -
  let ?h = "[DQUOTE] @ t @ [DQUOTE]"
  have p: "sv_pieces ?h (CHR '','') = [?h]" by (rule single_piece) (use assms in \<open>auto simp: opaque_def\<close>)
  have trim: "sv_trim ?h = ?h" by (rule sv_trim_id) (simp add: isspace_def)
  have own: "own_tag ([DQUOTE] @ u @ [DQUOTE]) = u" by (simp add: own_tag_def nth_append)
  have star: "?h \<noteq> c_str ''*''" by (simp add: c_str_def)
  have w: "\<not> (length t \<ge> 2 \<and> t ! 0 = CHR ''W'' \<and> t ! 1 = CHR ''/'')"
  proof
    assume "length t \<ge> 2 \<and> t ! 0 = CHR ''W'' \<and> t ! 1 = CHR ''/''"
    then have "take 2 t = ''W/''" by (cases t; cases "tl t") auto
    then show False using assms(1) by (simp add: opaque_def)
  qed
  have "entry_matches ?h u \<longleftrightarrow> t = u"
    unfolding entry_matches_def Let_def trim using star w by (auto simp: sv_from_cstr_def nth_append)
  then show ?thesis unfolding inm_matches_def p own by simp
qed

text \<open>A weak tag never matches, not even itself: the prefix is looked for inside the quotes, but stands in front of them.\<close>

lemma inm_weak_never:
  assumes "opaque t"
  shows "\<not> inm_matches (''W/'' @ [DQUOTE] @ t @ [DQUOTE]) ours"
proof -
  let ?h = "''W/'' @ [DQUOTE] @ t @ [DQUOTE]"
  have p: "sv_pieces ?h (CHR '','') = [?h]" by (rule single_piece) (use assms in \<open>auto simp: opaque_def\<close>)
  have trim: "sv_trim ?h = ?h" by (rule sv_trim_id) (simp add: isspace_def)
  have "\<not> entry_matches ?h u" for u unfolding entry_matches_def Let_def trim by (simp add: sv_from_cstr_def c_str_def)
  then show ?thesis unfolding inm_matches_def p by simp
qed

end
