(* ===== verification/Templates.thy ===== *)
theory Templates
  imports Formatting Codecs Http_Response
begin

text \<open>
  \<open>src/template/template.c\<close>: the compiler from pages (HTML with C spliced in) to C source, the names of the generated
  functions, and the capture buffer that layouts use. The thread-local buffers are the state \<open>tpl_state\<close> of one thread.
\<close>

subsection \<open>Scanning\<close>

text \<open>\<open>find_in\<close> on the text from \<open>from\<close> on; \<^const>\<open>None\<close> is \<open>SIZE_MAX\<close>.\<close>

fun find_sub :: "sv \<Rightarrow> sv \<Rightarrow> nat option" where
  "find_sub [] n = (if n = [] then Some 0 else None)"
| "find_sub (c # s) n =
     (if length n \<le> length (c # s) then
        if take (length n) (c # s) = n then Some 0 else map_option Suc (find_sub s n)
      else None)"

definition find_in :: "sv \<Rightarrow> nat \<Rightarrow> char list \<Rightarrow> nat option" where
  "find_in src from' needle = (if from' > length src then None else map_option (\<lambda>i. from' + i) (find_sub (drop from' src) (c_str needle)))"

definition bump_lines :: "sv \<Rightarrow> nat \<Rightarrow> nat" where
  "bump_lines region line = line + length (filter (\<lambda>c. c = LF) region)"

definition name_char :: "char \<Rightarrow> bool" where
  "name_char c \<longleftrightarrow> islower c \<or> isupper c \<or> c = CHR ''_''"

definition valid_fn_name :: "char list \<Rightarrow> bool" where
  "valid_fn_name name =
     (let n = c_str name in
      if n = [] then False else list_all (\<lambda>i. name_char (n ! i) \<or> isdigit (n ! i) \<and> i \<noteq> 0) [0..<length n])"

subsection \<open>Literals\<close>

definition octal3 :: "nat \<Rightarrow> char list" where
  "octal3 n = [digit (n div 64), digit (n div 8 mod 8), digit (n mod 8)]"

definition literal_char :: "char \<Rightarrow> char list" where
  "literal_char c =
     (if c = DQUOTE then [BACKSLASH, DQUOTE]
      else if c = BACKSLASH then [BACKSLASH, BACKSLASH]
      else if c = LF then [BACKSLASH, CHR ''n'']
      else if c = CR then [BACKSLASH, CHR ''r'']
      else if c = CHR 0x09 then [BACKSLASH, CHR ''t'']
      else if ucode c < 0x20 \<or> ucode c = 0x7f then BACKSLASH # octal3 (ucode c)
      else [c])"

definition emit_c_literal :: "sv \<Rightarrow> strbuf \<Rightarrow> strbuf" where
  "emit_c_literal s out =
     strbuf_append_char (foldl (\<lambda>b c. strbuf_append b (literal_char c)) (strbuf_append_char out DQUOTE) s) DQUOTE"

subsection \<open>The compiler\<close>

record tpl_body =
  tb_body :: strbuf
  tb_used_out :: bool
  tb_used_escape :: bool

definition out_text :: "tpl_body \<Rightarrow> sv \<Rightarrow> tpl_body" where
  "out_text b s =
     b\<lparr>tb_body := strbuf_append_cstr (emit_c_literal s (strbuf_append_cstr (tb_body b) ''    cweb_tpl_out(res, '')) ('');'' @ [LF]),
       tb_used_out := True\<rparr>"

definition out_call :: "tpl_body \<Rightarrow> char list \<Rightarrow> sv \<Rightarrow> strbuf" where
  "out_call b f code =
     strbuf_append_cstr (strbuf_append (strbuf_append_cstr (tb_body b) f) code) ('');'' @ [LF])"

text \<open>
  The loop, over the text from \<open>pos\<close> on: the error message, or the generated statements.
\<close>

function template_loop :: "sv \<Rightarrow> nat \<Rightarrow> tpl_body \<Rightarrow> char list + tpl_body" where
  "template_loop src line b =
     (if src = [] then Inr b
      else
        let open_c = find_in src 0 ''<?c''; open_esc = find_in src 0 ''<?h='' in
        if open_c = None \<and> open_esc = None then Inr (out_text b src)
        else
            let is_esc = (open_esc \<noteq> None \<and> (open_c = None \<or> the open_esc < the open_c));
                open' = (if is_esc then the open_esc else the open_c);
                b1 = out_text b (take open' src);
                line1 = bump_lines (take open' src) line;
                p0 = open' + (if is_esc then 4 else 3);
                out = (\<not> is_esc \<and> p0 < length src \<and> src ! p0 = CHR ''='');
                p = (if out then p0 + 1 else p0)
            in case find_in src p ''?>'' of
                 None \<Rightarrow> Inl (snprintf_str 128 (''template line '' @ dec_of_nat line1 @ '': unterminated <?c (missing ?>)''))
               | Some close' \<Rightarrow>
                   let code = take (close' - p) (drop p src);
                       b2 = (if is_esc then b1\<lparr>tb_body := out_call b1 ''    cweb_tpl_escape(res, '' code, tb_used_escape := True\<rparr>
                             else if out then b1\<lparr>tb_body := out_call b1 ''    cweb_tpl_out(res, '' code, tb_used_out := True\<rparr>
                             else b1\<lparr>tb_body := strbuf_append_char (strbuf_append (tb_body b1) code) LF\<rparr>);
                       line2 = bump_lines (take (close' + 2 - open') (drop open' src)) line1
                   in template_loop (drop (close' + 2) src) line2 b2)"
  by pat_completeness auto
termination
  by (relation "measure (\<lambda>(src, line, b). length src)") (rule wf_measure, simp only: in_measure split_conv length_drop length_greater_0_conv diff_less add_gr_0 zero_less_numeral simp_thms)

declare template_loop.simps [simp del]

definition tpl_line :: "char list \<Rightarrow> char list" where
  "tpl_line s = s @ [LF]"

definition TPL_INCLUDES :: "char list" where
  \<open>TPL_INCLUDES =
     concat (map tpl_line
       [''#include <inttypes.h>'', ''#include <stdint.h>'', ''#include <stdio.h>'', ''#include <stdlib.h>'', ''#include <string.h>'',
        ''#include <time.h>'', [], ''#include "cweb.h"'', ''#include "escape.h"'', ''#include "validate.h"'', ''#include "csrf.h"'',
        ''#include "flash.h"'', ''#include "password.h"'', ''#include "http.h"'', ''#include "request.h"'', ''#include "response.h"'',
        ''#include "params.h"'', ''#include "session.h"'', ''#include "strmap.h"'', ''#include "strbuf.h"'', ''#include "sv.h"'',
        ''#include "template.h"'', ''#include "db.h"'', [],
        ''// cweb build emits out/pages.h declaring every page, so a page'',
        ''// can render another as a partial: <?c page_x(req,res,params,user_data); ?>'',
        ''#if __has_include("pages.h")'', ''#include "pages.h"'', ''#endif'', []])\<close>

definition TPL_OUT :: "char list" where
  "TPL_OUT =
     concat (map tpl_line
       [''static void cweb_tpl_out(Http_Response *res, const char *s)'', ''{'', ''    cweb_tpl_add(res, s, strlen(s));'', ''}'', []])"

definition TPL_ESCAPE :: "char list" where
  "TPL_ESCAPE =
     concat (map tpl_line
       [''static void cweb_tpl_escape(Http_Response *res, String_View s)'', ''{'', ''    Strbuf tmp;'', ''    strbuf_init(&tmp);'',
        ''    html_escape_into(&tmp, s);'', ''    cweb_tpl_add(res, tmp.items, tmp.count);'', ''    strbuf_free(&tmp);'', ''}'', []])"

definition TPL_SIGNATURE :: "char list" where
  \<open>TPL_SIGNATURE =
     concat (map tpl_line
       [''(Http_Request *req, Http_Response *res,'', ''      Str_Map *params, void *user_data)'', ''{'', ''    (void)req;'',
        ''    (void)params;'', ''    (void)user_data;'',
        ''    http_response_set_header(res, "Content-Type", "text/html; charset=utf-8");''])\<close>

text \<open>The return code, the output buffer and the error buffer.\<close>

definition cweb_template_to_c :: "sv \<Rightarrow> char list \<Rightarrow> strbuf \<Rightarrow> strbuf option \<Rightarrow> int \<times> strbuf \<times> strbuf option" where
  "cweb_template_to_c source fn_name out err =
     (if \<not> valid_fn_name fn_name then (-1, out, map_option (\<lambda>e. strbuf_append_cstr e ''invalid generated function name'') err)
      else
        case template_loop source 1 \<lparr>tb_body = strbuf_init, tb_used_out = False, tb_used_escape = False\<rparr> of
          Inl msg \<Rightarrow> (-1, out, map_option (\<lambda>e. strbuf_append_cstr e msg) err)
        | Inr b \<Rightarrow>
            let o1 = strbuf_append_cstr out TPL_INCLUDES;
                o2 = (if tb_used_out b then strbuf_append_cstr o1 TPL_OUT else o1);
                o3 = (if tb_used_escape b then strbuf_append_cstr o2 TPL_ESCAPE else o2);
                o4 = strbuf_append_cstr (strbuf_append_cstr (strbuf_append_cstr o3 ''void '') fn_name) TPL_SIGNATURE;
                o5 = strbuf_append o4 (strbuf_view (tb_body b))
            in (0, strbuf_append_cstr o5 (tpl_line ''}''), err))"

definition stem_char :: "char \<Rightarrow> char" where
  "stem_char c = (if name_char c \<or> isdigit c then c else CHR ''_'')"

definition has_suffix :: "char list \<Rightarrow> char list \<Rightarrow> bool" where
  "has_suffix s suf \<longleftrightarrow> length s > length suf \<and> drop (length s - length suf) s = suf"

definition cweb_template_page_name :: "char list \<Rightarrow> nat \<Rightarrow> char list" where
  "cweb_template_page_name path out_size =
     (let base = rev (takeWhile (\<lambda>c. c \<noteq> CHR ''/'') (rev (c_str path)));
          sl = (if has_suffix base ''.c.html'' then length base - 7
                else if has_suffix base ''.html'' then length base - 5 else length base);
          stem = (if sl = 0 then ''page'' else take (min sl 95) base)
      in snprintf_str out_size (''page_'' @ map stem_char stem))"

text \<open>\<open>file\<close> is what \<open>file_read_all\<close> returns for the path.\<close>

definition cweb_template_compile :: "sv option \<Rightarrow> char list \<Rightarrow> strbuf \<Rightarrow> strbuf option \<Rightarrow> int \<times> strbuf \<times> strbuf option" where
  "cweb_template_compile file path out err =
     (case file of
        None \<Rightarrow> (-1, out, map_option (\<lambda>e. strbuf_append_cstr e ''cannot read template'') err)
      | Some data \<Rightarrow> cweb_template_to_c data (cweb_template_page_name path 104) out err)"

subsection \<open>Layout capture\<close>

record tpl_state =
  ts_cap :: strbuf
  ts_page :: strbuf

definition cweb_tpl_add :: "http_response \<Rightarrow> char list \<Rightarrow> http_response" where
  "cweb_tpl_add res data = http_response_add_body res data"

definition cweb_tpl_capture_begin :: "http_response \<Rightarrow> tpl_state \<Rightarrow> http_response \<times> tpl_state" where
  "cweb_tpl_capture_begin res st =
     (res\<lparr>rs_body := (ts_cap st)\<lparr>sb_count := 0\<rparr>\<rparr>, st\<lparr>ts_page := rs_body res\<rparr>)"

definition cweb_tpl_capture_end :: "http_response \<Rightarrow> tpl_state \<Rightarrow> http_response \<times> tpl_state" where
  "cweb_tpl_capture_end res st = (res\<lparr>rs_body := ts_page st\<rparr>, st\<lparr>ts_cap := rs_body res\<rparr>)"

definition cweb_tpl_layout_body :: "tpl_state \<Rightarrow> sv" where
  "cweb_tpl_layout_body st = strbuf_view (ts_cap st)"

definition cweb_tpl_layout_emit :: "http_response \<Rightarrow> tpl_state \<Rightarrow> http_response" where
  "cweb_tpl_layout_emit res st = cweb_tpl_add res (strbuf_view (ts_cap st))"

subsection \<open>Reading a literal back\<close>

text \<open>
  The characters a C compiler puts into memory for a string literal, and the source text behind it: escape sequences as in
  section 6.4.4.4 of the standard, as far as the compiler of templates uses them.
\<close>

definition octal_digit :: "char \<Rightarrow> bool" where
  "octal_digit c \<longleftrightarrow> 48 \<le> ucode c \<and> ucode c \<le> 55"

fun read_chars :: "char list \<Rightarrow> (char list \<times> char list) option" where
  "read_chars [] = None"
| "read_chars (c # s) =
     (if c = DQUOTE then Some ([], s)
      else if c = LF then None
      else if c \<noteq> BACKSLASH then map_option (apfst ((#) c)) (read_chars s)
      else case s of
             a # b # d # r \<Rightarrow>
               if octal_digit a \<and> octal_digit b \<and> octal_digit d
               then map_option (apfst ((#) (char_of ((ucode a - 48) * 64 + (ucode b - 48) * 8 + (ucode d - 48))))) (read_chars r)
               else map_option (apfst ((#) (if a = CHR ''n'' then LF else if a = CHR ''r'' then CR else if a = CHR ''t'' then CHR 0x09 else a)))
                      (read_chars (b # d # r))
           | a # r \<Rightarrow>
               map_option (apfst ((#) (if a = CHR ''n'' then LF else if a = CHR ''r'' then CR else if a = CHR ''t'' then CHR 0x09 else a))) (read_chars r)
           | [] \<Rightarrow> None)"

definition c_literal :: "char list \<Rightarrow> (char list \<times> char list) option" where
  "c_literal s = (case s of c # r \<Rightarrow> if c = DQUOTE then read_chars r else None | [] \<Rightarrow> None)"

definition literal_text :: "sv \<Rightarrow> char list" where
  "literal_text s = [DQUOTE] @ concat (map literal_char s) @ [DQUOTE]"

lemma writes_emit_c_literal: "sb.writes (emit_c_literal s) (literal_text s)"
proof -
  have "sb.writes (\<lambda>b. foldl (\<lambda>b c. strbuf_append b (literal_char c)) b s) (concat (map literal_char s))"
    by (rule sb.writes_loop) (rule sb.writes_put)
  note w = sb.writes_seq [OF sb.writes_seq [OF writes_append_char this] writes_append_char, of DQUOTE DQUOTE]
  have e: "emit_c_literal s = (\<lambda>b. strbuf_append_char (foldl (\<lambda>b c. strbuf_append b (literal_char c)) (strbuf_append_char b DQUOTE) s) DQUOTE)"
    by (rule ext) (simp add: emit_c_literal_def)
  show ?thesis using w by (simp add: e literal_text_def)
qed

lemma octal_value:
  "n < 256 \<Longrightarrow> octal_digit (digit (n div 64)) \<and> octal_digit (digit (n div 8 mod 8)) \<and> octal_digit (digit (n mod 8))
     \<and> (ucode (digit (n div 64)) - 48) * 64 + (ucode (digit (n div 8 mod 8)) - 48) * 8 + (ucode (digit (n mod 8)) - 48) = n"
proof -
  assume n: "n < 256"
  have l: "n div 64 < 4" "n div 8 mod 8 < 8" "n mod 8 < 8" using n by (simp_all add: less_mult_imp_div_less)
  have "n div 64 = n div 8 div 8" by (simp add: div_mult2_eq [symmetric])
  then have "n div 64 * 64 + n div 8 mod 8 * 8 + n mod 8 = n"
    using div_mult_mod_eq [of "n div 8" 8] div_mult_mod_eq [of n 8] by linarith
  moreover have "octal_digit (digit d)" if "d < 8" for d using that by (simp add: octal_digit_def)
  ultimately show ?thesis using l by simp
qed

lemma read_literal_char: "read_chars (literal_char c @ t) = map_option (apfst ((#) c)) (read_chars t)"
proof -
  have o: "\<not> octal_digit DQUOTE" "\<not> octal_digit BACKSLASH" "\<not> octal_digit (CHR ''n'')" "\<not> octal_digit (CHR ''r'')" "\<not> octal_digit (CHR ''t'')"
    by (simp_all add: octal_digit_def)
  have two: "read_chars (BACKSLASH # a # t) = map_option (apfst ((#) (if a = CHR ''n'' then LF else if a = CHR ''r'' then CR else if a = CHR ''t'' then CHR 0x09 else a))) (read_chars t)"
    if "\<not> octal_digit a" for a using that by (auto split: list.splits)
  consider "c = DQUOTE" | "c = BACKSLASH" | "c = LF" | "c = CR" | "c = CHR 0x09"
    | "c \<noteq> DQUOTE" "c \<noteq> BACKSLASH" "c \<noteq> LF" "c \<noteq> CR" "c \<noteq> CHR 0x09" by blast
  then show ?thesis
  proof cases
    case 6
    show ?thesis
    proof (cases "ucode c < 0x20 \<or> ucode c = 0x7f")
      case True
      then have l: "literal_char c = BACKSLASH # octal3 (ucode c)" using 6 by (simp add: literal_char_def)
      have "read_chars (BACKSLASH # digit (n div 64) # digit (n div 8 mod 8) # digit (n mod 8) # t)
          = map_option (apfst ((#) (char_of n))) (read_chars t)" if "n < 256" for n
        using octal_value [OF that] by simp
      from this [of "ucode c"] show ?thesis unfolding l octal3_def by simp
    next
      case False
      then have "literal_char c = [c]" using 6 by (simp add: literal_char_def)
      then show ?thesis using 6 by simp
    qed
  qed (simp_all add: literal_char_def two o del: read_chars.simps)
qed

lemma literal_round_trip: "c_literal (literal_text s @ t) = Some (s, t)"
proof -
  have "read_chars (concat (map literal_char s) @ DQUOTE # t) = Some (s, t)"
  proof (induction s)
    case (Cons c s)
    then show ?case using read_literal_char [of c "concat (map literal_char s) @ DQUOTE # t"] by simp
  qed simp
  then show ?thesis by (simp add: c_literal_def literal_text_def)
qed

subsection \<open>Pages\<close>

text \<open>A page: text, then directives, each followed by text.\<close>

datatype directive = Run sv | Out sv | Esc sv

fun tag :: "directive \<Rightarrow> sv" where
  "tag (Run c) = ''<?c'' @ c @ ''?>''"
| "tag (Out e) = ''<?c='' @ e @ ''?>''"
| "tag (Esc e) = ''<?h='' @ e @ ''?>''"

fun page_text :: "sv \<Rightarrow> (directive \<times> sv) list \<Rightarrow> sv" where
  "page_text t [] = t"
| "page_text t ((d, u) # ds) = t @ tag d @ page_text u ds"

definition out_stmt :: "sv \<Rightarrow> char list" where
  "out_stmt t = ''    cweb_tpl_out(res, '' @ literal_text t @ '');'' @ [LF]"

fun stmt :: "directive \<Rightarrow> char list" where
  "stmt (Run c) = c @ [LF]"
| "stmt (Out e) = ''    cweb_tpl_out(res, '' @ e @ '');'' @ [LF]"
| "stmt (Esc e) = ''    cweb_tpl_escape(res, '' @ e @ '');'' @ [LF]"

fun statements :: "sv \<Rightarrow> (directive \<times> sv) list \<Rightarrow> char list" where
  "statements t [] = (if t = [] then [] else out_stmt t)"
| "statements t ((d, u) # ds) = out_stmt t @ stmt d @ statements u ds"

text \<open>No occurrence of \<open>n\<close> in \<open>t @ u\<close> starts inside \<open>t\<close>.\<close>

fun no_start :: "sv \<Rightarrow> sv \<Rightarrow> sv \<Rightarrow> bool" where
  "no_start [] u n = True"
| "no_start (c # t) u n \<longleftrightarrow> take (length n) (c # t @ u) \<noteq> n \<and> no_start t u n"

definition text_ok :: "sv \<Rightarrow> bool" where
  "text_ok t \<longleftrightarrow> no_start t [] ''<?c'' \<and> no_start t [] ''<?h=''"

fun dir_ok :: "directive \<Rightarrow> bool" where
  "dir_ok (Run c) \<longleftrightarrow> no_start c [] ''?>'' \<and> (c = [] \<or> hd c \<noteq> CHR ''='')"
| "dir_ok (Out e) \<longleftrightarrow> no_start e [] ''?>''"
| "dir_ok (Esc e) \<longleftrightarrow> no_start e [] ''?>''"

lemma map_plus_zero [simp]: "map_option ((+) (0 :: nat)) x = x"
  by (cases x) simp_all

lemma find_sub_short: "length s < length n \<Longrightarrow> find_sub s n = None"
  by (cases s) auto

lemma find_sub_skip: "n \<noteq> [] \<Longrightarrow> no_start t u n \<Longrightarrow> find_sub (t @ u) n = map_option (\<lambda>i. length t + i) (find_sub u n)"
proof (induction t)
  case (Cons c t)
  show ?case
  proof (cases "length n \<le> length (c # t @ u)")
    case True
    then show ?thesis using Cons by (simp add: option.map_comp comp_def)
  next
    case False
    then have "find_sub u n = None" "find_sub ((c # t) @ u) n = None" by (simp_all add: find_sub_short)
    then show ?thesis by simp
  qed
qed simp

lemma find_sub_hit: "n \<noteq> [] \<Longrightarrow> find_sub (n @ r) n = Some 0"
  by (cases n) auto

text \<open>A tag cannot begin in the text before another one, nor can an end mark in the code before the end mark.\<close>

lemma no_start_tag: "text_ok t \<Longrightarrow> no_start t (CHR ''<'' # CHR ''?'' # r) ''<?c'' \<and> no_start t (CHR ''<'' # CHR ''?'' # r) ''<?h=''"
proof (induction t)
  case (Cons c t)
  have ok: "text_ok t" "take 3 (c # t) \<noteq> ''<?c''" "take 4 (c # t) \<noteq> ''<?h=''"
    using Cons.prems by (simp_all add: text_ok_def numeral_eq_Suc)
  have "take 3 (c # t @ CHR ''<'' # CHR ''?'' # r) \<noteq> ''<?c''"
  proof (cases t)
    case (Cons d t2)
    then show ?thesis using ok(2) by (cases t2) simp_all
  qed simp
  moreover have "take 4 (c # t @ CHR ''<'' # CHR ''?'' # r) \<noteq> ''<?h=''"
  proof (cases t)
    case 1: (Cons d t2)
    show ?thesis
    proof (cases t2)
      case (Cons e t3)
      then show ?thesis using ok(3) 1 by (cases t3) simp_all
    qed (simp add: 1)
  qed simp
  ultimately show ?case using Cons.IH [OF ok(1)] by (simp add: numeral_eq_Suc)
qed simp

lemma no_start_close: "no_start c [] ''?>'' \<Longrightarrow> no_start c (CHR ''?'' # r) ''?>''"
proof (induction c)
  case (Cons a c)
  then show ?case by (cases c) simp_all
qed simp

lemma find_in_close: "no_start c [] ''?>'' \<Longrightarrow> find_in (pre @ c @ ''?>'' @ r) (length pre) ''?>'' = Some (length pre + length c)"
  using find_sub_skip [OF _ no_start_close [of c "CHR ''>'' # r"]] find_sub_hit [of "''?>''" r]
  by (simp add: find_in_def c_str_def)

lemma find_in_open:
  assumes "text_ok t"
  shows "find_in (t @ ''<?'' @ r) 0 ''<?c'' = map_option (\<lambda>i. length t + i) (find_sub (''<?'' @ r) ''<?c'')"
    and "find_in (t @ ''<?'' @ r) 0 ''<?h='' = map_option (\<lambda>i. length t + i) (find_sub (''<?'' @ r) ''<?h='')"
  using find_sub_skip [of "''<?c''" t "''<?'' @ r"] find_sub_skip [of "''<?h=''" t "''<?'' @ r"] no_start_tag [OF assms, of r]
  by (simp_all add: find_in_def c_str_def del: find_sub.simps)

lemma find_in_none: "text_ok t \<Longrightarrow> find_in t 0 ''<?c'' = None \<and> find_in t 0 ''<?h='' = None"
  using find_sub_skip [of "''<?c''" t "[]"] find_sub_skip [of "''<?h=''" t "[]"] by (simp add: find_in_def c_str_def text_ok_def)

lemma writes_out_text: "sb.writes (\<lambda>b. strbuf_append_cstr (emit_c_literal t (strbuf_append_cstr b ''    cweb_tpl_out(res, '')) ('');'' @ [LF])) (out_stmt t)"
proof -
  have c: "c_str ''    cweb_tpl_out(res, '' = ''    cweb_tpl_out(res, ''" "c_str ('');'' @ [LF]) = '');'' @ [LF]" by code_simp+
  show ?thesis
    using sb.writes_seq [OF sb.writes_seq [OF writes_append_cstr writes_emit_c_literal] writes_append_cstr, of t "''    cweb_tpl_out(res, ''" "'');'' @ [LF]"]
    unfolding c out_stmt_def by simp
qed

lemma writes_out_call:
  assumes "c_str f = f"
  shows "sb.writes (\<lambda>b. strbuf_append_cstr (strbuf_append (strbuf_append_cstr b f) code) ('');'' @ [LF])) (f @ code @ '');'' @ [LF])"
proof -
  have c: "c_str ('');'' @ [LF]) = '');'' @ [LF]" by code_simp
  show ?thesis
    using sb.writes_seq [OF sb.writes_seq [OF writes_append_cstr sb.writes_put] writes_append_cstr, of f code "'');'' @ [LF]"]
    unfolding c assms by simp
qed

definition uses_escape :: "(directive \<times> sv) list \<Rightarrow> bool" where
  "uses_escape ds \<longleftrightarrow> list_ex (\<lambda>(d, u). case d of Esc e \<Rightarrow> True | _ \<Rightarrow> False) ds"

text \<open>One round of the loop, for each kind of directive.\<close>

lemma loop_esc:
  assumes "find_in src 0 ''<?h='' = Some p" "\<And>i. find_in src 0 ''<?c'' = Some i \<Longrightarrow> p < i"
    and "find_in src (p + 4) ''?>'' = Some e" "src \<noteq> []" "b1 = out_text b (take p src)"
  shows "\<exists>line'. template_loop src line b = template_loop (drop (e + 2) src) line'
    (b1\<lparr>tb_body := out_call b1 ''    cweb_tpl_escape(res, '' (take (e - (p + 4)) (drop (p + 4) src)), tb_used_escape := True\<rparr>)"
proof -
  have "find_in src 0 ''<?c'' = None \<or> p < the (find_in src 0 ''<?c'')" using assms(2) by (cases "find_in src 0 ''<?c''") simp_all
  then show ?thesis unfolding template_loop.simps [of src] Let_def assms(5) using assms(1,3,4) by (simp, blast)
qed

lemma loop_c:
  assumes "find_in src 0 ''<?c'' = Some p" "\<And>i. find_in src 0 ''<?h='' = Some i \<Longrightarrow> p \<le> i"
    and "q = (if p + 3 < length src \<and> src ! (p + 3) = CHR ''='' then p + 4 else p + 3)"
    and "find_in src q ''?>'' = Some e" "src \<noteq> []" "b1 = out_text b (take p src)"
    and "code = take (e - q) (drop q src)"
  shows "\<exists>line'. template_loop src line b = template_loop (drop (e + 2) src) line'
    (if q = p + 4 then b1\<lparr>tb_body := out_call b1 ''    cweb_tpl_out(res, '' code, tb_used_out := True\<rparr>
     else b1\<lparr>tb_body := strbuf_append_char (strbuf_append (tb_body b1) code) LF\<rparr>)"
proof -
  have n: "\<not> (find_in src 0 ''<?h='' \<noteq> None \<and> (find_in src 0 ''<?c'' = None \<or> the (find_in src 0 ''<?h='') < the (find_in src 0 ''<?c'')))"
    using assms(1,2) by (cases "find_in src 0 ''<?h=''") (simp_all add: not_less)
  show ?thesis
  proof (cases "p + 3 < length src \<and> src ! (p + 3) = CHR ''=''")
    case True
    then have q: "q = p + 4" using assms(3) by simp
    show ?thesis unfolding template_loop.simps [of src] Let_def if_not_P [OF n] assms(6,7)
      using assms(1,4,5) True n q by (simp add: eval_nat_numeral, blast)
  next
    case False
    then have q: "q = p + 3" using assms(3) by auto
    show ?thesis unfolding template_loop.simps [of src] Let_def if_not_P [OF n] assms(6,7)
      using assms(1,4,5) False n q by (simp add: eval_nat_numeral, blast)
  qed
qed

definition wrote :: "tpl_body \<Rightarrow> tpl_body \<Rightarrow> char list \<Rightarrow> bool \<Rightarrow> bool" where
  "wrote b b' s esc \<longleftrightarrow>
     strbuf_inv (tb_body b') \<and> strbuf_view (tb_body b') = strbuf_view (tb_body b) @ s
       \<and> tb_used_escape b' = (tb_used_escape b \<or> esc)"

lemma wrote_out_text: "strbuf_inv (tb_body b) \<Longrightarrow> wrote b (out_text b t) (out_stmt t) False \<and> tb_used_out (out_text b t)"
  using sb.writes_inv [OF writes_out_text] sb.writes_view [OF writes_out_text] by (simp add: out_text_def wrote_def)

lemma wrote_trans: "wrote a b s x \<Longrightarrow> wrote b c t y \<Longrightarrow> wrote a c (s @ t) (x \<or> y)"
  by (auto simp: wrote_def)

lemma wrote_call:
  assumes "strbuf_inv (tb_body b)" "c_str f = f"
  shows "wrote b (b\<lparr>tb_body := out_call b f e, tb_used_escape := True\<rparr>) (f @ e @ '');'' @ [LF]) True"
    and "wrote b (b\<lparr>tb_body := out_call b f e, tb_used_out := True\<rparr>) (f @ e @ '');'' @ [LF]) False"
  using sb.writes_inv [OF writes_out_call [OF assms(2)] assms(1)] sb.writes_view [OF writes_out_call [OF assms(2)] assms(1)]
  by (simp_all add: out_call_def wrote_def)

lemma wrote_run:
  assumes "strbuf_inv (tb_body b)"
  shows "wrote b (b\<lparr>tb_body := strbuf_append_char (strbuf_append (tb_body b) e) LF\<rparr>) (e @ [LF]) False"
  using sb.writes_inv [OF sb.writes_seq [OF sb.writes_put writes_append_char] assms] sb.writes_view [OF sb.writes_seq [OF sb.writes_put writes_append_char] assms]
  by (simp add: wrote_def)

fun is_esc :: "directive \<Rightarrow> bool" where
  "is_esc (Esc e) = True"
| "is_esc (Out e) = False"
| "is_esc (Run e) = False"

lemma template_step:
  assumes t: "text_ok t" and d: "dir_ok d" and i: "strbuf_inv (tb_body b)"
  shows "\<exists>line' b'. template_loop (t @ tag d @ r) line b = template_loop r line' b' \<and> wrote b b' (out_stmt t @ stmt d) (is_esc d) \<and> tb_used_out b'"
proof -
  let ?b1 = "out_text b t"
  note b1 = wrote_out_text [OF i, of t]
  then have i1: "strbuf_inv (tb_body ?b1)" by (simp add: wrote_def)
  have cs: "c_str ''    cweb_tpl_out(res, '' = ''    cweb_tpl_out(res, ''" "c_str ''    cweb_tpl_escape(res, '' = ''    cweb_tpl_escape(res, ''" by code_simp+
  show ?thesis
  proof (cases d)
    case (Esc e)
    let ?src = "t @ ''<?'' @ ''h='' @ e @ ''?>'' @ r"
    let ?b2 = "?b1\<lparr>tb_body := out_call ?b1 ''    cweb_tpl_escape(res, '' e, tb_used_escape := True\<rparr>"
    have v: "find_sub (''<?'' @ ''h='' @ e @ ''?>'' @ r) ''<?c'' \<noteq> Some 0" by (simp add: option.map_comp)
    have "length t < i" if h: "find_in ?src 0 ''<?c'' = Some i" for i
    proof -
      obtain j where "find_sub (''<?'' @ ''h='' @ e @ ''?>'' @ r) ''<?c'' = Some j" "i = length t + j"
        using h unfolding find_in_open(1) [OF t] by (simp only: map_option_eq_Some) blast
      then show ?thesis using v by (cases j) simp_all
    qed
    moreover have "find_in ?src 0 ''<?h='' = Some (length t)" unfolding find_in_open [OF t] by simp
    moreover have "find_in ?src (length t + 4) ''?>'' = Some (length t + 4 + length e)"
      using find_in_close [of e "t @ ''<?h=''" r] d Esc by (simp add: numeral_eq_Suc)
    ultimately have "\<exists>line'. template_loop ?src line b = template_loop r line' ?b2"
      using loop_esc [of ?src "length t" "length t + 4 + length e" ?b1 b line] by (simp add: numeral_eq_Suc)
    moreover have "wrote b ?b2 (out_stmt t @ stmt d) (is_esc d)" "tb_used_out ?b2"
      using Esc b1 wrote_trans [OF conjunct1 [OF b1] wrote_call(1) [OF i1 cs(2), of e]] by simp_all
    ultimately show ?thesis unfolding Esc by (simp, blast)
  next
    case (Out e)
    let ?src = "t @ ''<?'' @ ''c='' @ e @ ''?>'' @ r"
    let ?b2 = "?b1\<lparr>tb_body := out_call ?b1 ''    cweb_tpl_out(res, '' e, tb_used_out := True\<rparr>"
    have "find_in ?src 0 ''<?c'' = Some (length t)" unfolding find_in_open [OF t] by simp
    moreover have "length t \<le> i" if "find_in ?src 0 ''<?h='' = Some i" for i
      using that unfolding find_in_open(2) [OF t] map_option_eq_Some by (metis le_add1)
    moreover have "find_in ?src (length t + 4) ''?>'' = Some (length t + 4 + length e)"
      using find_in_close [of e "t @ ''<?c=''" r] d Out by (simp add: numeral_eq_Suc)
    ultimately have "\<exists>line'. template_loop ?src line b = template_loop r line' ?b2"
      using loop_c [of ?src "length t" "length t + 4" "length t + 4 + length e" ?b1 b e line] by (simp add: nth_append numeral_eq_Suc)
    moreover have "wrote b ?b2 (out_stmt t @ stmt d) (is_esc d)" "tb_used_out ?b2"
      using Out b1 wrote_trans [OF conjunct1 [OF b1] wrote_call(2) [OF i1 cs(1), of e]] by simp_all
    ultimately show ?thesis unfolding Out by (simp, blast)
  next
    case (Run e)
    let ?src = "t @ ''<?'' @ ''c'' @ e @ ''?>'' @ r"
    let ?b2 = "?b1\<lparr>tb_body := strbuf_append_char (strbuf_append (tb_body ?b1) e) LF\<rparr>"
    have "find_in ?src 0 ''<?c'' = Some (length t)" unfolding find_in_open [OF t] by simp
    moreover have "length t \<le> i" if "find_in ?src 0 ''<?h='' = Some i" for i
      using that unfolding find_in_open(2) [OF t] map_option_eq_Some by (metis le_add1)
    moreover have "find_in ?src (length t + 3) ''?>'' = Some (length t + 3 + length e)"
      using find_in_close [of e "t @ ''<?c''" r] d Run by (simp add: numeral_eq_Suc)
    moreover have "?src ! (length t + 3) \<noteq> CHR ''=''" using d Run by (cases e) (simp_all add: nth_append)
    ultimately have "\<exists>line'. template_loop ?src line b = template_loop r line' ?b2"
      using loop_c [of ?src "length t" "length t + 3" "length t + 3 + length e" ?b1 b e line] by (simp add: numeral_eq_Suc)
    moreover have "wrote b ?b2 (out_stmt t @ stmt d) (is_esc d)" "tb_used_out ?b2"
      using Run b1 wrote_trans [OF conjunct1 [OF b1] wrote_run [OF i1, of e]] by simp_all
    ultimately show ?thesis unfolding Run by (simp, blast)
  qed
qed

lemma template_page:
  assumes "text_ok t" "list_all (\<lambda>(d, u). dir_ok d \<and> text_ok u) ds" "strbuf_inv (tb_body b)"
  shows "\<exists>b'. template_loop (page_text t ds) line b = Inr b' \<and> wrote b b' (statements t ds) (list_ex (\<lambda>(d, u). is_esc d) ds)
    \<and> (tb_used_out b' \<longleftrightarrow> tb_used_out b \<or> page_text t ds \<noteq> [])"
  using assms
proof (induction t ds arbitrary: line b rule: page_text.induct)
  case (1 t)
  then show ?case
    using find_in_none [of t] wrote_out_text [of b t] by (simp add: template_loop.simps [of t] wrote_def)
next
  case (2 t d u ds)
  obtain line' b' where s: "template_loop (t @ tag d @ page_text u ds) line b = template_loop (page_text u ds) line' b'"
      "wrote b b' (out_stmt t @ stmt d) (is_esc d)" "tb_used_out b'"
    using template_step [of t d b "page_text u ds" line] "2.prems" by auto
  then have "strbuf_inv (tb_body b')" by (simp add: wrote_def)
  then obtain b'' where "template_loop (page_text u ds) line' b' = Inr b''"
      "wrote b' b'' (statements u ds) (list_ex (\<lambda>(d, u). is_esc d) ds)" "tb_used_out b''"
    using "2.IH" [of b' line'] "2.prems" s(3) by auto
  moreover have "page_text t ((d, u) # ds) \<noteq> []" by (cases d) simp_all
  ultimately show ?case using s wrote_trans [OF s(2)] by fastforce
qed

lemma list_all_take: "list_all P s \<Longrightarrow> list_all P (take n s)"
  by (auto simp: list_all_iff dest: in_set_takeD)

lemma list_all_notin: "list_all (\<lambda>c. P c \<and> c \<noteq> x) s \<Longrightarrow> x \<notin> set s"
  by (auto simp: list_all_iff)

lemma list_all_upt: "(\<And>i. i < n \<Longrightarrow> P i) \<Longrightarrow> list_all P [0..<n]"
  by (simp add: list_all_iff)

lemma page_name_valid: "1 < n \<Longrightarrow> valid_fn_name (cweb_template_page_name path n)"
proof -
  assume n: "1 < n"
  obtain stem where s: "cweb_template_page_name path n = snprintf_str n (''page_'' @ map stem_char stem)"
    unfolding cweb_template_page_name_def Let_def by blast
  have ch: "name_char (stem_char c) \<or> isdigit (stem_char c)" "stem_char c \<noteq> NUL" for c
    by (auto simp: stem_char_def name_char_def islower_def isupper_def isdigit_def)
  let ?s = "''page_'' @ map stem_char stem"
  have p: "list_all (\<lambda>c. (name_char c \<or> isdigit c) \<and> c \<noteq> NUL) ?s"
    using ch by (simp add: list_all_iff name_char_def islower_def)
  obtain m where m: "n - 1 = Suc m" using n by (cases "n - 1") simp_all
  let ?t = "take (Suc m) ?s"
  have q: "list_all (\<lambda>c. (name_char c \<or> isdigit c) \<and> c \<noteq> NUL) ?t" using p by (rule list_all_take)
  have c: "c_str ?t = ?t" using q by (intro c_str_id) (rule list_all_notin)
  have "name_char (?t ! i) \<or> isdigit (?t ! i) \<and> i \<noteq> 0" if "i < length ?t" for i
  proof (cases i)
    case (Suc j)
    then show ?thesis using q that unfolding list_all_length by blast
  qed (simp add: name_char_def islower_def)
  then have "list_all (\<lambda>i. name_char (?t ! i) \<or> isdigit (?t ! i) \<and> i \<noteq> 0) [0..<length ?t]" by (rule list_all_upt)
  moreover have "?t \<noteq> []" by simp
  ultimately show ?thesis unfolding s snprintf_str_def m valid_fn_name_def c Let_def by (simp only: if_False)
qed

lemma template_unterminated:
  assumes "valid_fn_name name" "template_loop src 1 \<lparr>tb_body = strbuf_init, tb_used_out = False, tb_used_escape = False\<rparr> = Inl msg"
  shows "cweb_template_to_c src name out err = (- 1, out, map_option (\<lambda>e. strbuf_append_cstr e msg) err)"
  using assms by (simp add: cweb_template_to_c_def)

lemma tpl_constants:
  "c_str TPL_INCLUDES = TPL_INCLUDES" "c_str TPL_OUT = TPL_OUT" "c_str TPL_ESCAPE = TPL_ESCAPE" "c_str TPL_SIGNATURE = TPL_SIGNATURE"
  "c_str ''void '' = ''void ''" "c_str (tpl_line ''}'') = tpl_line ''}''"
  by code_simp+



end
