(* ===== verification/H2_Frames.thy ===== *)
theory H2_Frames
  imports Hpack Http_Response Sockets
begin

text \<open>
  \<open>src/http/h2.c\<close>, first part: the state of an HTTP/2 connection, the frames on the wire, and the request a header block
  stands for. The cleartext transport is modelled: \<open>hc_accepts\<close> are the results of \<open>send\<close>, \<open>hc_sent\<close> the bytes on the wire,
  \<open>hc_incoming\<close> what successive calls of \<open>net_recv\<close> deliver. \<open>hc_undef\<close> is set when the C program has run into undefined
  behaviour (a freed entry of the compression table, a view outside its storage); nothing is claimed from there on.
  The strings of a request are copies, so the storage they live in shows up only while it is filled.
\<close>

subsection \<open>State\<close>

abbreviation H2_DATA :: nat where "H2_DATA \<equiv> 0"
abbreviation H2_HEADERS :: nat where "H2_HEADERS \<equiv> 1"
abbreviation H2_PRIORITY :: nat where "H2_PRIORITY \<equiv> 2"
abbreviation H2_RST :: nat where "H2_RST \<equiv> 3"
abbreviation H2_SETTINGS :: nat where "H2_SETTINGS \<equiv> 4"
abbreviation H2_PUSH_PROMISE :: nat where "H2_PUSH_PROMISE \<equiv> 5"
abbreviation H2_PING :: nat where "H2_PING \<equiv> 6"
abbreviation H2_GOAWAY :: nat where "H2_GOAWAY \<equiv> 7"
abbreviation H2_WINDOW :: nat where "H2_WINDOW \<equiv> 8"
abbreviation H2_CONT :: nat where "H2_CONT \<equiv> 9"

abbreviation H2F_END_STREAM :: nat where "H2F_END_STREAM \<equiv> 0x1"
abbreviation H2F_ACK :: nat where "H2F_ACK \<equiv> 0x1"
abbreviation H2F_END_HEADERS :: nat where "H2F_END_HEADERS \<equiv> 0x4"
abbreviation H2F_PADDED :: nat where "H2F_PADDED \<equiv> 0x8"
abbreviation H2F_PRIORITY :: nat where "H2F_PRIORITY \<equiv> 0x20"

abbreviation HE_NO_ERROR :: nat where "HE_NO_ERROR \<equiv> 0"
abbreviation HE_PROTOCOL :: nat where "HE_PROTOCOL \<equiv> 1"
abbreviation HE_INTERNAL :: nat where "HE_INTERNAL \<equiv> 2"
abbreviation HE_FLOW :: nat where "HE_FLOW \<equiv> 3"
abbreviation HE_STREAM_CLOSED :: nat where "HE_STREAM_CLOSED \<equiv> 5"
abbreviation HE_FRAME_SIZE :: nat where "HE_FRAME_SIZE \<equiv> 6"
abbreviation HE_REFUSED :: nat where "HE_REFUSED \<equiv> 7"
abbreviation HE_CANCEL :: nat where "HE_CANCEL \<equiv> 8"
abbreviation HE_COMPRESSION :: nat where "HE_COMPRESSION \<equiv> 9"
abbreviation HE_CALM :: nat where "HE_CALM \<equiv> 11"

definition H2_INITIAL_WINDOW :: nat where "H2_INITIAL_WINDOW = 65535"
definition H2_MAX_FRAME_SIZE :: nat where "H2_MAX_FRAME_SIZE = 16384"
definition H2_FRAME_HDR :: nat where "H2_FRAME_HDR = 9"
definition H2_BUFFER_CAP :: nat where "H2_BUFFER_CAP = 64 * 1024"
definition H2_HEADER_BLOCK_CAP :: nat where "H2_HEADER_BLOCK_CAP = 256 * 1024"
definition H2_MAX_HEADER_LIST :: nat where "H2_MAX_HEADER_LIST = 256 * 1024"
definition H2_MAX_CONCURRENT_STREAMS :: nat where "H2_MAX_CONCURRENT_STREAMS = 100"
definition WINDOW_MAX :: int where "WINDOW_MAX = 0x7fffffff"

definition H2_ERROR_BODY :: "char list" where
  "H2_ERROR_BODY = ''cweb error page (it hurts us too)'' @ [CR, LF]"

record h2_frame =
  fr_type :: nat
  fr_flags :: nat
  fr_stream_id :: nat
  fr_payload :: sv

abbreviation fr_len :: "h2_frame \<Rightarrow> nat" where
  "fr_len f \<equiv> length (fr_payload f)"

record h2_stream =
  st_id :: nat
  st_open :: bool
  st_remote_ended :: bool
  st_dispatched :: bool
  st_response_ready :: bool
  st_headers_sent :: bool
  st_local_ended :: bool
  st_reset :: bool
  st_body_too_big :: bool
  st_req :: http_request
  st_res :: http_response
  st_body :: strbuf
  st_req_bytes :: nat
  st_queue_i :: nat
  st_queue_off :: nat
  st_body_off :: nat
  st_body_sent :: int
  st_fn_eof :: bool
  st_recv_window :: int
  st_send_window :: int

definition zero_stream :: h2_stream where
  "zero_stream =
     \<lparr>st_id = 0, st_open = False, st_remote_ended = False, st_dispatched = False, st_response_ready = False,
      st_headers_sent = False, st_local_ended = False, st_reset = False, st_body_too_big = False, st_req = empty_request,
      st_res = http_response_init, st_body = strbuf_init, st_req_bytes = 0, st_queue_i = 0, st_queue_off = 0, st_body_off = 0,
      st_body_sent = 0, st_fn_eof = False, st_recv_window = 0, st_send_window = 0\<rparr>"

record 'w h2_conn =
  hc_remote :: sv
  hc_max_body :: nat
  hc_hpack :: hpack
  hc_rb :: read_buffer
  hc_streams :: "h2_stream list"
  hc_streams_cap :: nat
  hc_last_stream_id :: nat
  hc_got_client_settings :: bool
  hc_client_goaway :: bool
  hc_client_goaway_last :: nat
  hc_recv_window :: int
  hc_send_window :: int
  hc_client_init_window :: nat
  hc_error :: nat
  hc_hb_stream :: nat
  hc_hb :: strbuf
  hc_hb_end_stream :: bool
  hc_hb_abort :: bool
  hc_sent :: "char list"
  hc_calls :: nat
  hc_accepts :: "nat \<Rightarrow> int"
  hc_incoming :: "char list list"
  hc_undef :: bool
  hc_world :: 'w

fun find_open :: "h2_stream list \<Rightarrow> nat \<Rightarrow> nat option" where
  "find_open [] i = None"
| "find_open (s # ss) i = (if st_open s \<and> st_id s = i then Some 0 else map_option Suc (find_open ss i))"

definition h2_find_stream :: "'w h2_conn \<Rightarrow> nat \<Rightarrow> nat option" where
  "h2_find_stream c i = find_open (hc_streams c) i"

definition rd16 :: "sv \<Rightarrow> nat" where
  "rd16 p = push_bit 8 (ucode (p ! 0)) OR ucode (p ! 1)"

definition rd32 :: "sv \<Rightarrow> nat" where
  "rd32 p = push_bit 24 (ucode (p ! 0)) OR push_bit 16 (ucode (p ! 1)) OR push_bit 8 (ucode (p ! 2)) OR ucode (p ! 3)"

text \<open>The four bytes of a 32-bit value, most significant first.\<close>

definition be32 :: "nat \<Rightarrow> char list" where
  "be32 v = [char_of (drop_bit 24 v), char_of (drop_bit 16 v), char_of (drop_bit 8 v), char_of v]"

subsection \<open>Sending frames\<close>

definition h2_conn_error :: "'w h2_conn \<Rightarrow> nat \<Rightarrow> 'w h2_conn" where
  "h2_conn_error c err = (if hc_error c = HE_NO_ERROR then c\<lparr>hc_error := err\<rparr> else c)"

definition h2_write :: "'w h2_conn \<Rightarrow> char list \<Rightarrow> int \<times> 'w h2_conn" where
  "h2_write c buf =
     (case send_loop (hc_accepts c) (hc_calls c) buf of (ok, calls, wire) \<Rightarrow>
        (if ok then 0 else -1, c\<lparr>hc_calls := calls, hc_sent := hc_sent c @ wire\<rparr>))"

definition frame_head :: "nat \<Rightarrow> nat \<Rightarrow> nat \<Rightarrow> nat \<Rightarrow> char list" where
  "frame_head len type flags stream_id =
     [char_of (drop_bit 16 len), char_of (drop_bit 8 len), char_of len, char_of type, char_of flags,
      char_of (drop_bit 24 stream_id AND 0x7f), char_of (drop_bit 16 stream_id), char_of (drop_bit 8 stream_id), char_of stream_id]"

definition h2_send_frame :: "'w h2_conn \<Rightarrow> nat \<Rightarrow> nat \<Rightarrow> nat \<Rightarrow> char list \<Rightarrow> int \<times> 'w h2_conn" where
  "h2_send_frame c type flags stream_id payload =
     (if length payload > H2_MAX_FRAME_SIZE then (-1, h2_conn_error c HE_FRAME_SIZE)
      else
        case h2_write c (frame_head (length payload) type flags stream_id) of (rc, c1) \<Rightarrow>
          if rc \<noteq> 0 then (-1, c1)
          else if length payload > 0
          then (case h2_write c1 payload of (rc2, c2) \<Rightarrow> (if rc2 \<noteq> 0 then -1 else 0, c2))
          else (0, c1))"

definition h2_send_goaway :: "'w h2_conn \<Rightarrow> nat \<Rightarrow> nat \<Rightarrow> int \<times> 'w h2_conn" where
  "h2_send_goaway c last_stream err =
     h2_send_frame c H2_GOAWAY 0 0
       ([char_of (drop_bit 24 last_stream AND 0x7f), char_of (drop_bit 16 last_stream), char_of (drop_bit 8 last_stream), char_of last_stream] @ be32 err)"

definition h2_send_stream_error :: "'w h2_conn \<Rightarrow> nat \<Rightarrow> nat \<Rightarrow> 'w h2_conn" where
  "h2_send_stream_error c stream_id err = snd (h2_send_frame c H2_RST 0 stream_id (be32 err))"

definition h2_send_settings :: "'w h2_conn \<Rightarrow> 'w h2_conn" where
  "h2_send_settings c =
     snd (h2_send_frame c H2_SETTINGS 0 0 [NUL, CHR 0x03, NUL, NUL, NUL, char_of H2_MAX_CONCURRENT_STREAMS])"

definition h2_settings_ack :: "'w h2_conn \<Rightarrow> 'w h2_conn" where
  "h2_settings_ack c = snd (h2_send_frame c H2_SETTINGS H2F_ACK 0 [])"

text \<open>The frame at the front of the read buffer: \<^const>\<open>None\<close> while it is incomplete or too long.\<close>

definition h2_frame_peek :: "'w h2_conn \<Rightarrow> h2_frame option \<times> 'w h2_conn" where
  "h2_frame_peek c =
     (let h = rb_view (hc_rb c) in
      if length h < H2_FRAME_HDR then (None, c)
      else
        let len = push_bit 16 (ucode (h ! 0)) OR push_bit 8 (ucode (h ! 1)) OR ucode (h ! 2) in
        if len > H2_MAX_FRAME_SIZE then (None, h2_conn_error c HE_FRAME_SIZE)
        else if length h < H2_FRAME_HDR + len then (None, c)
        else
          (Some \<lparr>fr_type = ucode (h ! 3), fr_flags = ucode (h ! 4),
                 fr_stream_id = push_bit 24 (ucode (h ! 5) AND 0x7f) OR push_bit 16 (ucode (h ! 6)) OR push_bit 8 (ucode (h ! 7)) OR ucode (h ! 8),
                 fr_payload = take len (drop H2_FRAME_HDR h)\<rparr>, c))"

definition h2_fill :: "'w h2_conn \<Rightarrow> int \<times> 'w h2_conn" where
  "h2_fill c =
     (case rb_write_head (hc_rb c) of (off, room) \<Rightarrow>
        if room = 0 then (-1, c)
        else
          case hc_incoming c of
            [] \<Rightarrow> (-1, c)
          | d # ds \<Rightarrow>
              if d = [] then (-1, c\<lparr>hc_incoming := ds\<rparr>)
              else (0, c\<lparr>hc_rb := rb_recv (hc_rb c) d, hc_incoming := (if length d \<le> room then ds else drop room d # ds)\<rparr>))"

text \<open>\<open>do ... while\<close> over the fragments of a block; a block without bytes is sent twice.\<close>

function fragment_loop :: "'w h2_conn \<Rightarrow> nat \<Rightarrow> sv \<Rightarrow> nat \<Rightarrow> bool \<Rightarrow> int \<times> 'w h2_conn" where
  "fragment_loop c stream_id blk off end_stream =
     (let take' = min (length blk - off) H2_MAX_FRAME_SIZE;
          first = (off = 0);
          last_frag = (off + take' = length blk);
          flags = (if last_frag then H2F_END_HEADERS else 0) OR (if first \<and> end_stream then H2F_END_STREAM else 0)
      in case h2_send_frame c (if first then H2_HEADERS else H2_CONT) flags stream_id (take take' (drop off blk)) of (rc, c1) \<Rightarrow>
           if rc \<noteq> 0 then (-1, c1)
           else if off + take' < length blk then fragment_loop c1 stream_id blk (off + take') end_stream
           else (0, c1))"
  by pat_completeness auto
termination
  by (relation "measure (\<lambda>(c, stream_id, blk, off, end_stream). length blk - off)") (auto simp: H2_MAX_FRAME_SIZE_def)

declare fragment_loop.simps [simp del]

definition h2_send_header_block :: "'w h2_conn \<Rightarrow> nat \<Rightarrow> sv \<Rightarrow> bool \<Rightarrow> int \<times> 'w h2_conn" where
  "h2_send_header_block c stream_id blk end_stream =
     (case fragment_loop c stream_id blk 0 end_stream of (rc, c1) \<Rightarrow>
        if rc \<noteq> 0 then (-1, c1)
        else if length blk = 0
        then (case h2_send_frame c1 H2_HEADERS (H2F_END_HEADERS OR (if end_stream then H2F_END_STREAM else 0)) stream_id [] of (rc2, c2) \<Rightarrow>
                (if rc2 \<noteq> 0 then -1 else 0, c2))
        else (0, c1))"

subsection \<open>Names and tokens\<close>

definition sv_ieq_str :: "sv \<Rightarrow> char list \<Rightarrow> bool" where
  "sv_ieq_str a b \<longleftrightarrow> length a = length (c_str b) \<and> map tolower a = map tolower (c_str b)"

definition tok_in :: "sv \<Rightarrow> char list \<Rightarrow> bool" where
  "tok_in v token = list_ex (\<lambda>part. sv_ieq_str (sv_trim part) token) (sv_pieces v (CHR '',''))"

definition header_has_token :: "http_request \<Rightarrow> char list \<Rightarrow> char list \<Rightarrow> bool" where
  "header_has_token req name token = (case http_request_get_header req name of None \<Rightarrow> False | Some v \<Rightarrow> tok_in v token)"

definition conn_spec_name :: "sv \<Rightarrow> bool" where
  "conn_spec_name name =
     list_ex (sv_ieq_str name) [''connection'', ''keep-alive'', ''proxy-connection'', ''transfer-encoding'', ''upgrade'']"

definition token_char :: "char \<Rightarrow> bool" where
  "token_char c \<longleftrightarrow> islower c \<or> isdigit c \<or> c \<in> set (SQUOTE # ''!#$%&*+.^_`|~-'')"

definition name_valid :: "sv \<Rightarrow> bool" where
  "name_valid name \<longleftrightarrow> length name \<noteq> 0 \<and> list_all (\<lambda>c. token_char c \<and> \<not> isupper c) name"

subsection \<open>The request of a header block\<close>

record h2_head =
  hd_method :: sv
  hd_scheme :: sv
  hd_path :: sv
  hd_authority :: sv
  hd_pseudo_done :: bool
  hd_list_bytes :: nat
  hd_clv :: int
  hd_has_cl :: bool
  hd_fields :: "(sv \<times> sv) list"

definition empty_head :: h2_head where
  "empty_head = \<lparr>hd_method = [], hd_scheme = [], hd_path = [], hd_authority = [], hd_pseudo_done = False, hd_list_bytes = 0,
     hd_clv = -1, hd_has_cl = False, hd_fields = []\<rparr>"

text \<open>One field; \<^const>\<open>None\<close> is \<open>malformed\<close>.\<close>

definition scan_pseudo :: "h2_head \<Rightarrow> sv \<Rightarrow> sv \<Rightarrow> h2_head option" where
  "scan_pseudo h name value =
     (if hd_pseudo_done h then None
      else if length name < 2 then None
      else if \<not> list_all (\<lambda>c. token_char c \<and> \<not> isupper c) (drop 1 name) then None
      else if sv_ieq_str name '':method'' \<and> length (hd_method h) = 0 then Some (h\<lparr>hd_method := value\<rparr>)
      else if sv_ieq_str name '':scheme'' \<and> length (hd_scheme h) = 0 then Some (h\<lparr>hd_scheme := value\<rparr>)
      else if sv_ieq_str name '':path'' \<and> length (hd_path h) = 0 then Some (h\<lparr>hd_path := value\<rparr>)
      else if sv_ieq_str name '':authority'' \<and> length (hd_authority h) = 0 then Some (h\<lparr>hd_authority := value\<rparr>)
      else None)"

definition scan_regular :: "h2_head \<Rightarrow> sv \<Rightarrow> sv \<Rightarrow> h2_head option" where
  "scan_regular h0 name value =
     (let h = h0\<lparr>hd_pseudo_done := True\<rparr>; keep = (\<lambda>h. Some (h\<lparr>hd_fields := hd_fields h @ [(name, value)]\<rparr>)) in
      if \<not> name_valid name then None
      else if conn_spec_name name then None
      else if sv_ieq_str name ''te'' then (if sv_equal (sv_trim value) (sv_from_cstr ''trailers'') then Some h else None)
      else if sv_ieq_str name ''content-length'' then
        if hd_has_cl h then None
        else (case sv_to_i64 value of
                None \<Rightarrow> None
              | Some parsed \<Rightarrow> if parsed < 0 then None else keep (h\<lparr>hd_has_cl := True, hd_clv := parsed\<rparr>))
      else keep h)"

definition scan_field :: "h2_head \<Rightarrow> sv \<times> sv \<Rightarrow> h2_head option" where
  "scan_field h f =
     (case f of (name, value) \<Rightarrow>
        let h1 = h\<lparr>hd_list_bytes := hd_list_bytes h + length name + length value + 32\<rparr> in
        if hd_list_bytes h1 > H2_MAX_HEADER_LIST then None
        else if length name > 0 \<and> name ! 0 = CHR '':'' then scan_pseudo h1 name value
        else scan_regular h1 name value)"

fun scan_fields :: "h2_head \<Rightarrow> (sv \<times> sv) list \<Rightarrow> h2_head option" where
  "scan_fields h [] = Some h"
| "scan_fields h (f # fs) = (case scan_field h f of None \<Rightarrow> None | Some h1 \<Rightarrow> scan_fields h1 fs)"

definition head_complete :: "h2_head \<Rightarrow> bool" where
  "head_complete h =
     (if sv_ieq_str (hd_method h) ''CONNECT''
      then \<not> (length (hd_authority h) = 0 \<or> length (hd_scheme h) \<noteq> 0 \<or> length (hd_path h) \<noteq> 0)
      else if length (hd_method h) = 0 \<or> length (hd_scheme h) = 0 \<or> length (hd_path h) = 0 then False
      else if length (hd_path h) > 0 \<and> hd_path h ! 0 = CHR ''*'' then sv_ieq_str (hd_method h) ''OPTIONS''
      else \<not> (length (hd_path h) = 0 \<and> (sv_ieq_str (hd_scheme h) ''http'' \<or> sv_ieq_str (hd_scheme h) ''https'')))"

definition is_cookie :: "sv \<times> sv \<Rightarrow> bool" where
  "is_cookie f = sv_ieq_str (fst f) ''cookie''"

text \<open>
  Staging: offsets and lengths of the names and values in the storage. The merged cookie field has the offset of its value as
  the offset of its name: the name is never stored.
\<close>

type_synonym h2_slot = "nat \<times> nat \<times> nat \<times> nat"

definition cookie_first :: "(sv \<times> sv) list \<Rightarrow> nat option" where
  "cookie_first fs = List.find (\<lambda>i. is_cookie (fs ! i)) [0..<length fs]"

definition merged_cookie :: "(sv \<times> sv) list \<Rightarrow> nat \<Rightarrow> sv" where
  "merged_cookie fs i =
     snd (fs ! i) @ concat (map (\<lambda>k. ''; '' @ snd (fs ! k))
       (filter (\<lambda>k. k \<noteq> i \<and> length (fst (fs ! k)) = length (fst (fs ! i)) \<and> is_cookie (fs ! k)) [0..<length fs]))"

definition stage_field :: "(sv \<times> sv) list \<Rightarrow> bool \<Rightarrow> h2_slot list \<times> sv \<Rightarrow> nat \<Rightarrow> h2_slot list \<times> sv" where
  "stage_field fs merge st i =
     (case st of (slots, storage) \<Rightarrow>
        let off = length storage; name = fst (fs ! i); value = snd (fs ! i) in
        if merge \<and> is_cookie (fs ! i) \<and> cookie_first fs \<noteq> Some i then (slots, storage)
        else if merge \<and> cookie_first fs = Some i
        then let m = merged_cookie fs i in (slots @ [(off, length name, off, length m)], storage @ m)
        else (slots @ [(off, length name, off + length name, length value)], storage @ name @ value))"

definition stage_fields :: "(sv \<times> sv) list \<Rightarrow> sv \<Rightarrow> h2_slot list \<times> sv" where
  "stage_fields fs storage =
     foldl (stage_field fs (length (filter is_cookie fs) > 1)) ([], storage) [0..<length fs]"

text \<open>A view into the storage; \<^const>\<open>None\<close> when it reaches behind what has been stored.\<close>

definition slice :: "sv \<Rightarrow> nat \<Rightarrow> nat \<Rightarrow> sv option" where
  "slice mem off len = (if off + len \<le> length mem then Some (take len (drop off mem)) else None)"

fun resolve_slots :: "sv \<Rightarrow> h2_slot list \<Rightarrow> (sv \<times> sv) list option" where
  "resolve_slots mem [] = Some []"
| "resolve_slots mem ((no, nl, vo, vl) # slots) =
     (case (slice mem no nl, slice mem vo vl, resolve_slots mem slots) of
        (Some n, Some v, Some hs) \<Rightarrow> Some ((n, v) # hs)
      | _ \<Rightarrow> None)"

definition path_part :: "sv \<Rightarrow> sv" where
  "path_part path = takeWhile (\<lambda>c. c \<noteq> CHR ''?'') path"

definition query_part :: "sv \<Rightarrow> sv" where
  "query_part path = drop (length (path_part path) + 1) path"

definition request_headers :: "h2_head \<Rightarrow> (sv \<times> sv) list option" where
  "request_headers h =
     (case stage_fields (hd_fields h) (hd_path h) of (slots, storage) \<Rightarrow>
        let own_host = list_ex (\<lambda>f. sv_ieq_str (fst f) ''host'') (hd_fields h);
            add_host = (length (hd_authority h) > 0 \<and> \<not> own_host);
            mem = (if add_host then storage @ ''host'' @ hd_authority h else storage)
        in map_option (\<lambda>hs. if add_host then hs @ [(''host'', hd_authority h)] else hs) (resolve_slots mem slots))"

datatype 'w block_result =
    Block_Ok "'w h2_conn" h2_stream
  | Block_Conn_Error "'w h2_conn"
  | Block_Malformed "'w h2_conn"
  | Block_Undefined

definition h2_request_from_block :: "'w h2_conn \<Rightarrow> sv \<Rightarrow> h2_stream \<Rightarrow> 'w block_result" where
  "h2_request_from_block c blk s =
     (case hpack_decode_block (hc_hpack c) blk of
        Compression_Error \<Rightarrow> Block_Conn_Error (h2_conn_error c HE_COMPRESSION)
      | Memory_Error \<Rightarrow> Block_Undefined
      | Decoded hp fs \<Rightarrow>
          let c1 = c\<lparr>hc_hpack := hp\<rparr> in
          (case scan_fields empty_head fs of
             None \<Rightarrow> Block_Malformed c1
           | Some h \<Rightarrow>
               if \<not> head_complete h then Block_Malformed c1
               else
                 (case request_headers h of
                    None \<Rightarrow> Block_Undefined
                  | Some hs \<Rightarrow>
                      Block_Ok c1 (s\<lparr>st_req := empty_request\<lparr>rq_method := http_method_from_sv (hd_method h), rq_version := ''HTTP/2.0'',
                                       rq_remote := hc_remote c, rq_content_length := hd_clv h, rq_target := hd_path h,
                                       rq_path := path_part (hd_path h), rq_query := query_part (hd_path h), rq_headers := hs\<rparr>,
                                     st_body := strbuf_init, st_recv_window := int H2_INITIAL_WINDOW,
                                     st_send_window := int (hc_client_init_window c)\<rparr>))))"

end
