(* ===== verification/H2_Connection.thy ===== *)
theory H2_Connection
  imports H2_Frames
begin

text \<open>
  \<open>src/http/h2.c\<close>, second part: the handlers of the frames, dispatching, sending the responses under flow control, and the loop
  of a connection. The environment of a connection is a record of functions: the application's handler, the decompressor,
  the stream callbacks of responses, which act on a state \<open>'w\<close> of their own, the clock and the limit for
  decompressed bodies. Logging and socket timeouts have no effect on the connection and are left out.
\<close>

datatype inflate_result = Inflated sv | Inflate_Corrupt | Inflate_Too_Big

record 'w h2_env =
  env_handler :: "http_request \<Rightarrow> http_response \<Rightarrow> 'w \<Rightarrow> http_request \<times> http_response \<times> 'w"
  env_gunzip :: "sv \<Rightarrow> nat \<Rightarrow> inflate_result"
  env_stream :: "nat \<Rightarrow> ptr \<Rightarrow> nat \<Rightarrow> 'w \<Rightarrow> char list \<times> 'w"
  env_max_inflated :: nat
  env_now :: int

subsection \<open>Settings\<close>

text \<open>The loop over the streams: it stops at the first window that is too large.\<close>

fun shift_windows :: "int \<Rightarrow> h2_stream list \<Rightarrow> bool \<times> h2_stream list" where
  "shift_windows delta [] = (False, [])"
| "shift_windows delta (s # ss) =
     (if \<not> st_open s then (case shift_windows delta ss of (bad, ss1) \<Rightarrow> (bad, s # ss1))
      else
        let s1 = s\<lparr>st_send_window := st_send_window s + delta\<rparr> in
        if st_send_window s1 > WINDOW_MAX then (True, s1 # ss)
        else (case shift_windows delta ss of (bad, ss1) \<Rightarrow> (bad, s1 # ss1)))"

definition apply_setting :: "'w h2_conn \<Rightarrow> nat \<Rightarrow> nat \<Rightarrow> 'w h2_conn" where
  "apply_setting c ident val =
     (if ident = 0x2 then (if val > 1 then h2_conn_error c HE_PROTOCOL else c)
      else if ident = 0x4 then
        if val > 0x7fffffff then h2_conn_error c HE_FLOW
        else
          (case shift_windows (int val - int (hc_client_init_window c)) (hc_streams c) of (bad, ss) \<Rightarrow>
             let c1 = c\<lparr>hc_client_init_window := val, hc_streams := ss\<rparr>
             in if bad then h2_conn_error c1 HE_FLOW else c1)
      else if ident = 0x5 then (if val < H2_MAX_FRAME_SIZE \<or> val > 0xffffff then h2_conn_error c HE_PROTOCOL else c)
      else c)"

function settings_loop :: "'w h2_conn \<Rightarrow> sv \<Rightarrow> 'w h2_conn" where
  "settings_loop c p =
     (if p \<noteq> [] \<and> hc_error c = HE_NO_ERROR
      then settings_loop (apply_setting c (rd16 p) (rd32 (drop 2 p))) (drop 6 p)
      else c)"
  by pat_completeness auto
termination
  by (relation "measure (\<lambda>(c, p). length p)") auto

declare settings_loop.simps [simp del]

definition h2_apply_settings :: "'w h2_conn \<Rightarrow> sv \<Rightarrow> int \<times> 'w h2_conn" where
  "h2_apply_settings c payload =
     (if length payload mod 6 \<noteq> 0 then (-1, h2_conn_error c HE_FRAME_SIZE)
      else let c1 = settings_loop c payload in (if hc_error c1 \<noteq> HE_NO_ERROR then -1 else 0, c1))"

subsection \<open>Sending the responses\<close>

definition h2_send_data :: "'w h2_conn \<Rightarrow> h2_stream \<Rightarrow> sv \<Rightarrow> bool \<Rightarrow> 'w h2_conn \<times> h2_stream" where
  "h2_send_data c s data end_stream =
     (case h2_send_frame c H2_DATA (if end_stream then H2F_END_STREAM else 0) (st_id s) data of (rc, c1) \<Rightarrow>
        if rc \<noteq> 0 then (h2_conn_error c1 HE_INTERNAL, s)
        else if length data > 0
        then (c1\<lparr>hc_send_window := hc_send_window c1 - int (length data)\<rparr>,
              s\<lparr>st_send_window := st_send_window s - int (length data), st_body_sent := st_body_sent s + int (length data)\<rparr>)
        else (c1, s))"

text \<open>The next bytes of a body: nothing may be sent now, or bytes and whether they are the last.\<close>

datatype 'w next_data = Wait h2_stream | Next h2_stream 'w sv bool

function skip_chunks :: "h2_stream \<Rightarrow> h2_stream" where
  "skip_chunks s =
     (if st_queue_i s < length (rs_stream_chunks (st_res s))
         \<and> length (rs_stream_chunks (st_res s) ! st_queue_i s) - st_queue_off s = 0
      then skip_chunks (s\<lparr>st_queue_i := st_queue_i s + 1, st_queue_off := 0\<rparr>)
      else s)"
  by pat_completeness auto
termination
  by (relation "measure (\<lambda>s. length (rs_stream_chunks (st_res s)) - st_queue_i s)") auto

declare skip_chunks.simps [simp del]

definition frame_cap :: "int \<Rightarrow> nat" where
  "frame_cap room = (if room > int H2_MAX_FRAME_SIZE then H2_MAX_FRAME_SIZE else nat room)"

definition next_chunk :: "h2_stream \<Rightarrow> 'w \<Rightarrow> int \<Rightarrow> 'w next_data" where
  "next_chunk s w room =
     (let chunks = rs_stream_chunks (st_res s); ch = chunks ! st_queue_i s; rem = length ch - st_queue_off s in
      if room \<le> 0 then Wait s
      else
        let n = min rem (frame_cap room);
            src = take n (drop (st_queue_off s) ch);
            s1 = s\<lparr>st_queue_off := st_queue_off s + n\<rparr>;
            s2 = (if st_queue_off s1 = length ch then s1\<lparr>st_queue_i := st_queue_i s1 + 1, st_queue_off := 0\<rparr> else s1)
        in Next s2 w src (st_queue_i s2 \<ge> length chunks \<and> rs_stream_fn (st_res s2) = None))"

definition next_call :: "'w h2_env \<Rightarrow> h2_stream \<Rightarrow> 'w \<Rightarrow> int \<Rightarrow> 'w next_data" where
  "next_call e s w room =
     (case rs_stream_fn (st_res s) of
        None \<Rightarrow> Next s w [] True
      | Some fn \<Rightarrow>
          if st_fn_eof s then Next s w [] True
          else if room \<le> 0 then Wait s
          else
            (case env_stream e fn (rs_stream_user (st_res s)) (frame_cap room) w of (got, w1) \<Rightarrow>
               if length got = 0 \<or> length got > 16384 then Next (s\<lparr>st_fn_eof := True\<rparr>) w1 [] True
               else Next s w1 got False))"

definition next_body :: "h2_stream \<Rightarrow> 'w \<Rightarrow> int \<Rightarrow> 'w next_data" where
  "next_body s w room =
     (let body = strbuf_view (rs_body (st_res s)); rem = length body - st_body_off s in
      if rem = 0 then Next s w [] True
      else if room \<le> 0 then Wait s
      else
        let n = min rem (frame_cap room); s1 = s\<lparr>st_body_off := st_body_off s + n\<rparr>
        in Next s1 w (take n (drop (st_body_off s) body)) (st_body_off s1 \<ge> length body))"

definition h2_next_data :: "'w h2_env \<Rightarrow> h2_stream \<Rightarrow> 'w \<Rightarrow> int \<Rightarrow> 'w next_data" where
  "h2_next_data e s w room =
     (if rs_stream_fn (st_res s) \<noteq> None \<or> length (rs_stream_chunks (st_res s)) > 0 then
        let s1 = skip_chunks s in
        if st_queue_i s1 < length (rs_stream_chunks (st_res s1)) then next_chunk s1 w room
        else next_call e s1 w room
      else next_body s w room)"

definition h2_mark_response_done :: "h2_stream \<Rightarrow> h2_stream" where
  "h2_mark_response_done s = s\<lparr>st_response_ready := False\<rparr>"

lemma frame_cap_pos: "0 < room \<Longrightarrow> 0 < frame_cap room"
  by (simp add: frame_cap_def H2_MAX_FRAME_SIZE_def)

lemma skip_chunks_rem:
  "st_queue_i (skip_chunks s) < length (rs_stream_chunks (st_res (skip_chunks s))) \<Longrightarrow>
     0 < length (rs_stream_chunks (st_res (skip_chunks s)) ! st_queue_i (skip_chunks s)) - st_queue_off (skip_chunks s)"
proof (induction s rule: skip_chunks.induct)
  case (1 s)
  then show ?case by (cases "st_queue_i s < length (rs_stream_chunks (st_res s))
         \<and> length (rs_stream_chunks (st_res s) ! st_queue_i s) - st_queue_off s = 0") (auto simp: skip_chunks.simps [of s])
qed

text \<open>Bytes are handed out only when there is room, and there are always some unless it is the end.\<close>

lemma next_data_progress: "h2_next_data e s w room = Next s' w' src eof \<Longrightarrow> eof \<or> 0 < length src \<and> 0 < room"
  using skip_chunks_rem [of s] frame_cap_pos [of room]
  by (auto simp: h2_next_data_def next_chunk_def next_call_def next_body_def Let_def split: if_splits option.splits prod.splits)

lemma hc_error_conn_error [simp]: "hc_error (h2_conn_error c n) = 0 \<longleftrightarrow> hc_error c = 0 \<and> n = 0"
  by (simp add: h2_conn_error_def)

text \<open>Sending changes nothing but the wire, and the error when the payload is too long.\<close>

lemma h2_write_frame: "\<exists>calls wire. snd (h2_write c p) = c\<lparr>hc_calls := calls, hc_sent := wire\<rparr>"
  by (auto simp: h2_write_def split: prod.splits)

lemma send_frame_frame: "\<exists>calls wire err. snd (h2_send_frame c ty fl i p) = c\<lparr>hc_error := err, hc_calls := calls, hc_sent := wire\<rparr>"
proof (cases "length p > H2_MAX_FRAME_SIZE")
  case False
  obtain rc c1 where 1: "h2_write c (frame_head (length p) ty fl i) = (rc, c1)" by (metis surj_pair)
  obtain rc2 c2 where 2: "h2_write c1 p = (rc2, c2)" by (metis surj_pair)
  from 1 2 obtain k w k2 w2 where "c1 = c\<lparr>hc_calls := k, hc_sent := w\<rparr>" "c2 = c1\<lparr>hc_calls := k2, hc_sent := w2\<rparr>"
    using h2_write_frame [of c "frame_head (length p) ty fl i"] h2_write_frame [of c1 p] by (metis snd_conv)
  then have "c1 = c\<lparr>hc_error := hc_error c, hc_calls := k, hc_sent := w\<rparr>" "c2 = c\<lparr>hc_error := hc_error c, hc_calls := k2, hc_sent := w2\<rparr>" by simp_all
  moreover have "snd (h2_send_frame c ty fl i p) \<in> {c1, c2}" using False 1 2 by (simp add: h2_send_frame_def)
  ultimately show ?thesis by blast
next
  case True
  then have "snd (h2_send_frame c ty fl i p) = h2_conn_error c HE_FRAME_SIZE" by (simp add: h2_send_frame_def)
  moreover have "h2_conn_error c HE_FRAME_SIZE = c\<lparr>hc_error := hc_error (h2_conn_error c HE_FRAME_SIZE), hc_calls := hc_calls c, hc_sent := hc_sent c\<rparr>"
    by (simp add: h2_conn_error_def)
  ultimately show ?thesis by metis
qed

lemma send_frame_keeps [simp]:
  "hc_send_window (snd (h2_send_frame c ty fl i p)) = hc_send_window c" "hc_streams (snd (h2_send_frame c ty fl i p)) = hc_streams c"
  "hc_rb (snd (h2_send_frame c ty fl i p)) = hc_rb c" "hc_incoming (snd (h2_send_frame c ty fl i p)) = hc_incoming c"
  "hc_recv_window (snd (h2_send_frame c ty fl i p)) = hc_recv_window c" "hc_last_stream_id (snd (h2_send_frame c ty fl i p)) = hc_last_stream_id c"
  "hc_hpack (snd (h2_send_frame c ty fl i p)) = hc_hpack c" "hc_client_init_window (snd (h2_send_frame c ty fl i p)) = hc_client_init_window c"
  "hc_hb_stream (snd (h2_send_frame c ty fl i p)) = hc_hb_stream c" "hc_hb (snd (h2_send_frame c ty fl i p)) = hc_hb c"
  "hc_max_body (snd (h2_send_frame c ty fl i p)) = hc_max_body c" "hc_accepts (snd (h2_send_frame c ty fl i p)) = hc_accepts c"
  "hc_hb_abort (snd (h2_send_frame c ty fl i p)) = hc_hb_abort c" "hc_hb_end_stream (snd (h2_send_frame c ty fl i p)) = hc_hb_end_stream c"
  "hc_streams_cap (snd (h2_send_frame c ty fl i p)) = hc_streams_cap c" "hc_world (snd (h2_send_frame c ty fl i p)) = hc_world c"
  using send_frame_frame [of c ty fl i p] by auto

lemma conn_error_keeps [simp]:
  "hc_send_window (h2_conn_error c n) = hc_send_window c" "hc_streams (h2_conn_error c n) = hc_streams c"
  "hc_rb (h2_conn_error c n) = hc_rb c" "hc_incoming (h2_conn_error c n) = hc_incoming c"
  "hc_recv_window (h2_conn_error c n) = hc_recv_window c" "hc_last_stream_id (h2_conn_error c n) = hc_last_stream_id c"
  "hc_hpack (h2_conn_error c n) = hc_hpack c" "hc_client_init_window (h2_conn_error c n) = hc_client_init_window c"
  "hc_hb_stream (h2_conn_error c n) = hc_hb_stream c" "hc_hb (h2_conn_error c n) = hc_hb c"
  "hc_max_body (h2_conn_error c n) = hc_max_body c" "hc_accepts (h2_conn_error c n) = hc_accepts c"
  "hc_streams_cap (h2_conn_error c n) = hc_streams_cap c" "hc_world (h2_conn_error c n) = hc_world c"
  by (simp_all add: h2_conn_error_def)

lemma send_data_window:
  assumes "h2_send_data c s p eof = (c', s')" "hc_error c' = 0"
  shows "hc_send_window c' = hc_send_window c - int (length p)"
proof -
  show ?thesis using assms unfolding h2_send_data_def split_beta Let_def by (auto split: if_splits)
qed

function data_loop :: "'w h2_env \<Rightarrow> 'w h2_conn \<Rightarrow> h2_stream \<Rightarrow> 'w h2_conn \<times> h2_stream" where
  "data_loop e c s =
     (if \<not> st_local_ended s \<and> hc_error c = HE_NO_ERROR then
        let room = min (hc_send_window c) (st_send_window s) in
        case h2_next_data e s (hc_world c) room of
          Wait s1 \<Rightarrow> (c, s1)
        | Next s1 w src eof \<Rightarrow>
            let c1 = c\<lparr>hc_world := w\<rparr> in
            if length src > 0 \<and> room \<le> 0 then (c1, s1)
            else
              (case h2_send_data c1 s1 src eof of (c2, s2) \<Rightarrow>
                 if eof then (c2, h2_mark_response_done (s2\<lparr>st_local_ended := True\<rparr>))
                 else if hc_error c2 \<noteq> HE_NO_ERROR then (c2, s2)
                 else data_loop e c2 s2)
      else (c, s))"
  by pat_completeness auto
termination
proof (relation "measure (\<lambda>(e, c, s). nat (hc_send_window c))", goal_cases)
  case (2 e c s room s1 w src eof c1 c2 s2)
  have "0 < length src" "0 < room" using next_data_progress [OF 2(3)] 2 by auto
  moreover have "hc_send_window c2 = hc_send_window c - int (length src)"
    using send_data_window [of c1 s1 src eof c2 s2] 2 by simp
  ultimately show ?case using 2(2) by auto
qed simp

declare data_loop.simps [simp del]

subsection \<open>Header blocks of responses\<close>

text \<open>The lines of the response's header text, encoded one by one; the flag is \<open>have_date\<close>.\<close>

function header_lines :: "sv \<Rightarrow> strbuf \<Rightarrow> bool \<Rightarrow> strbuf \<times> bool" where
  "header_lines text blk have_date =
     (if text = [] then (blk, have_date)
      else
        let raw = takeWhile (\<lambda>c. c \<noteq> LF) text;
            line = (if length raw \<ge> 2 \<and> last raw = CR then butlast raw else raw);
            nl = sv_scan line (CHR '':''); name = take nl line;
            rest = drop (length raw + 1) text
        in if nl > 0 \<and> nl < length line then
             let date1 = (have_date \<or> sv_ieq_str name ''date'') in
             if \<not> conn_spec_name name \<and> \<not> sv_ieq_str name ''content-length''
             then header_lines rest (hpack_encode_field blk (map tolower (take 256 name)) (sv_trim (drop (nl + 1) line))) date1
             else header_lines rest blk date1
           else header_lines rest blk have_date)"
  by pat_completeness auto
termination
  by (relation "measure (\<lambda>(text, blk, have_date). length text)") auto

declare header_lines.simps [simp del]

definition response_block :: "int \<Rightarrow> http_response \<Rightarrow> strbuf" where
  "response_block now res =
     (case header_lines (strbuf_view (rs_headers res)) (hpack_encode_status strbuf_init (rs_status res mod 2 ^ 16)) False of (blk, have_date) \<Rightarrow>
        if \<not> have_date then hpack_encode_field blk ''date'' (sv_from_cstr (http_date_rfc7231 now 64)) else blk)"

definition head_is_last :: "h2_stream \<Rightarrow> bool" where
  "head_is_last s =
     (let st = rs_status (st_res s);
          want_body = (\<not> (st < 200 \<or> st = 204 \<or> st = 304) \<and> \<not> rs_suppress_body (st_res s) \<and> rq_method (st_req s) \<noteq> HTTP_HEAD);
          streaming = (rs_stream_fn (st_res s) \<noteq> None \<or> length (rs_stream_chunks (st_res s)) > 0);
          have_body = (sb_count (rs_body (st_res s)) > 0)
      in \<not> (want_body \<and> (streaming \<or> have_body)))"

text \<open>One stream of \<open>h2_pump\<close>; the flag is the \<open>break\<close> out of the loop over the streams.\<close>

definition pump_stream :: "'w h2_env \<Rightarrow> 'w h2_conn \<Rightarrow> h2_stream \<Rightarrow> bool \<times> 'w h2_conn \<times> h2_stream" where
  "pump_stream e c s =
     (if \<not> st_open s \<or> st_reset s \<or> st_local_ended s \<or> \<not> st_response_ready s then (False, c, s)
      else if \<not> st_headers_sent s then
        let blk = response_block (env_now e) (st_res s) in
        if hc_error c \<noteq> HE_NO_ERROR then (True, c, s)
        else
          (case h2_send_header_block c (st_id s) (strbuf_view blk) (head_is_last s) of (rc, c1) \<Rightarrow>
             if rc \<noteq> 0 then (True, h2_conn_error c1 HE_INTERNAL, s)
             else
               let s1 = s\<lparr>st_headers_sent := True, st_body_off := 0\<rparr> in
               if head_is_last s then (False, c1, h2_mark_response_done (s1\<lparr>st_local_ended := True\<rparr>))
               else (False, data_loop e c1 s1))
      else (False, data_loop e c s))"

fun pump_streams :: "'w h2_env \<Rightarrow> 'w h2_conn \<Rightarrow> h2_stream list \<Rightarrow> 'w h2_conn \<times> h2_stream list" where
  "pump_streams e c [] = (c, [])"
| "pump_streams e c (s # ss) =
     (case pump_stream e c s of (stop, c1, s1) \<Rightarrow>
        if stop then (c1, s1 # ss) else (case pump_streams e c1 ss of (c2, ss2) \<Rightarrow> (c2, s1 # ss2)))"

definition h2_pump :: "'w h2_env \<Rightarrow> 'w h2_conn \<Rightarrow> 'w h2_conn" where
  "h2_pump e c =
     (if hc_error c \<noteq> HE_NO_ERROR then c
      else case pump_streams e c (hc_streams c) of (c1, ss) \<Rightarrow> c1\<lparr>hc_streams := ss\<rparr>)"

subsection \<open>Dispatching\<close>

definition h2_dispatch :: "'w h2_env \<Rightarrow> 'w \<Rightarrow> h2_stream \<Rightarrow> 'w \<times> h2_stream" where
  "h2_dispatch e w s =
     (case env_handler e (st_req s) http_response_init w of (req, res, w1) \<Rightarrow>
        (w1, s\<lparr>st_dispatched := True, st_req := req, st_res := res, st_response_ready := True\<rparr>))"

definition h2_direct_error :: "h2_stream \<Rightarrow> http_status \<Rightarrow> h2_stream" where
  "h2_direct_error s status =
     s\<lparr>st_dispatched := True,
       st_res := http_response_add_body_cstr
                   (http_response_set_header (http_response_set_status http_response_init status) ''Content-Type'' ''text/plain; charset=utf-8'')
                   H2_ERROR_BODY,
       st_response_ready := True\<rparr>"

definition dispatch_stream :: "'w h2_env \<Rightarrow> nat \<Rightarrow> 'w \<Rightarrow> h2_stream \<Rightarrow> 'w \<times> h2_stream" where
  "dispatch_stream e max_body w s =
     (if \<not> st_open s \<or> st_dispatched s \<or> st_reset s \<or> \<not> st_remote_ended s then (w, s)
      else
        let req = st_req s;
            too_big = (st_body_too_big s \<or> rq_content_length req \<ge> 0 \<and> nat (rq_content_length req) > max_body)
        in if too_big then (w, h2_direct_error s 413)
           else if header_has_token req ''content-encoding'' ''gzip'' \<or> header_has_token req ''content-encoding'' ''x-gzip'' then
             (case env_gunzip e (strbuf_view (st_body s)) (env_max_inflated e) of
                Inflate_Corrupt \<Rightarrow> (w, h2_direct_error s 400)
              | Inflate_Too_Big \<Rightarrow> (w, h2_direct_error s 413)
              | Inflated d \<Rightarrow>
                  h2_dispatch e w (s\<lparr>st_body := strbuf_init, st_req := req\<lparr>rq_body := d, rq_body_count := length d\<rparr>\<rparr>))
           else
             let b = strbuf_view (st_body s)
             in h2_dispatch e w (s\<lparr>st_req := req\<lparr>rq_body := b, rq_body_count := length b\<rparr>\<rparr>))"

fun dispatch_streams :: "'w h2_env \<Rightarrow> nat \<Rightarrow> 'w \<Rightarrow> h2_stream list \<Rightarrow> 'w \<times> h2_stream list" where
  "dispatch_streams e max_body w [] = (w, [])"
| "dispatch_streams e max_body w (s # ss) =
     (case dispatch_stream e max_body w s of (w1, s1) \<Rightarrow>
        case dispatch_streams e max_body w1 ss of (w2, ss2) \<Rightarrow> (w2, s1 # ss2))"

definition h2_dispatch_ready :: "'w h2_env \<Rightarrow> 'w h2_conn \<Rightarrow> 'w h2_conn" where
  "h2_dispatch_ready e c =
     (if hc_error c \<noteq> HE_NO_ERROR then c
      else case dispatch_streams e (hc_max_body c) (hc_world c) (hc_streams c) of (w, ss) \<Rightarrow> c\<lparr>hc_world := w, hc_streams := ss\<rparr>)"

subsection \<open>Closing streams\<close>

definition h2_free_stream :: "h2_stream list \<Rightarrow> nat \<Rightarrow> h2_stream list" where
  "h2_free_stream ss idx = butlast (if idx + 1 < length ss then ss[idx := last ss] else ss)"

definition finished :: "h2_stream \<Rightarrow> bool" where
  "finished s \<longleftrightarrow> st_reset s \<or> st_local_ended s \<and> st_remote_ended s"

fun sweep_loop :: "h2_stream list \<Rightarrow> nat \<Rightarrow> h2_stream list" where
  "sweep_loop ss 0 = ss"
| "sweep_loop ss (Suc i) = sweep_loop (if finished (ss ! i) then h2_free_stream ss i else ss) i"

definition h2_sweep :: "'w h2_conn \<Rightarrow> 'w h2_conn" where
  "h2_sweep c = c\<lparr>hc_streams := sweep_loop (hc_streams c) (length (hc_streams c))\<rparr>"

definition h2_client_goaway_done :: "'w h2_conn \<Rightarrow> bool" where
  "h2_client_goaway_done c \<longleftrightarrow> hc_client_goaway c \<and> \<not> list_ex st_open (hc_streams c)"

subsection \<open>Receiving frames\<close>

definition put_stream :: "'w h2_conn \<Rightarrow> nat \<Rightarrow> h2_stream \<Rightarrow> 'w h2_conn" where
  "put_stream c si s = c\<lparr>hc_streams := (hc_streams c)[si := s]\<rparr>"

definition window_update :: "'w h2_conn \<Rightarrow> nat \<Rightarrow> nat \<Rightarrow> 'w h2_conn" where
  "window_update c stream_id len = snd (h2_send_frame c H2_WINDOW 0 stream_id (be32 len))"

text \<open>The data of a frame without its padding; \<^const>\<open>None\<close> is a protocol error.\<close>

definition strip_padding :: "h2_frame \<Rightarrow> sv option" where
  "strip_padding f =
     (if fr_flags f AND H2F_PADDED \<noteq> 0 then
        if fr_len f < 1 then None
        else
          let pad = ucode (fr_payload f ! 0); plen = fr_len f - 1
          in if pad \<ge> plen then None else Some (take (plen - pad) (drop 1 (fr_payload f)))
      else Some (fr_payload f))"

text \<open>What the data does to its stream, once both windows have been charged.\<close>

definition stream_data :: "'w h2_conn \<Rightarrow> h2_frame \<Rightarrow> nat \<Rightarrow> sv \<Rightarrow> 'w h2_conn" where
  "stream_data c f si data =
     (let s = hc_streams c ! si in
      if st_remote_ended s then put_stream (h2_send_stream_error c (st_id s) HE_STREAM_CLOSED) si (s\<lparr>st_reset := True\<rparr>)
      else
        let s1 = s\<lparr>st_req_bytes := st_req_bytes s + length data\<rparr>;
            s2 = (if st_body_too_big s1 then s1
                  else if sb_count (st_body s1) + length data > hc_max_body c then s1\<lparr>st_body_too_big := True\<rparr>
                  else s1\<lparr>st_body := strbuf_append (st_body s1) data\<rparr>)
        in if fr_flags f AND H2F_END_STREAM \<noteq> 0 then
             let s3 = s2\<lparr>st_remote_ended := True\<rparr> in
             if rq_content_length (st_req s3) \<ge> 0 \<and> int (st_req_bytes s3) \<noteq> rq_content_length (st_req s3)
             then put_stream (h2_send_stream_error c (st_id s3) HE_PROTOCOL) si (s3\<lparr>st_reset := True\<rparr>)
             else put_stream c si s3
           else put_stream c si s2)"

definition h2_on_data :: "'w h2_conn \<Rightarrow> h2_frame \<Rightarrow> 'w h2_conn" where
  "h2_on_data c f =
     (if fr_stream_id f = 0 then h2_conn_error c HE_PROTOCOL
      else
        case strip_padding f of
          None \<Rightarrow> h2_conn_error c HE_PROTOCOL
        | Some data \<Rightarrow>
            if int (fr_len f) > hc_recv_window c mod 2 ^ 64 then h2_conn_error c HE_FLOW
            else
              let c1 = window_update (c\<lparr>hc_recv_window := hc_recv_window c - int (fr_len f)\<rparr>) 0 (fr_len f) in
              (case h2_find_stream c1 (fr_stream_id f) of
                 None \<Rightarrow>
                   if fr_stream_id f > hc_last_stream_id c1 then h2_conn_error c1 HE_PROTOCOL
                   else h2_send_stream_error c1 (fr_stream_id f) HE_STREAM_CLOSED
               | Some si \<Rightarrow>
                   let s = hc_streams c1 ! si; s1 = s\<lparr>st_recv_window := st_recv_window s - int (fr_len f)\<rparr> in
                   if st_reset s then c1
                   else if int (fr_len f) > st_recv_window s
                   then put_stream (h2_send_stream_error c1 (st_id s) HE_FLOW) si (s1\<lparr>st_reset := True\<rparr>)
                   else stream_data (window_update (put_stream c1 si s1) (st_id s) (fr_len f)) f si data))"

definition h2_on_priority :: "'w h2_conn \<Rightarrow> h2_frame \<Rightarrow> 'w h2_conn" where
  "h2_on_priority c f =
     (if fr_stream_id f = 0 then h2_conn_error c HE_PROTOCOL
      else if fr_len f \<noteq> 5
      then (if h2_find_stream c (fr_stream_id f) \<noteq> None then h2_send_stream_error c (fr_stream_id f) HE_FRAME_SIZE
            else h2_conn_error c HE_PROTOCOL)
      else c)"

definition h2_on_rst :: "'w h2_conn \<Rightarrow> h2_frame \<Rightarrow> 'w h2_conn" where
  "h2_on_rst c f =
     (if fr_len f \<noteq> 4 then h2_conn_error c HE_FRAME_SIZE
      else if fr_stream_id f = 0 then h2_conn_error c HE_PROTOCOL
      else
        case h2_find_stream c (fr_stream_id f) of
          None \<Rightarrow> if fr_stream_id f > hc_last_stream_id c then h2_conn_error c HE_PROTOCOL else c
        | Some si \<Rightarrow> put_stream c si ((hc_streams c ! si)\<lparr>st_reset := True\<rparr>))"

definition h2_on_settings :: "'w h2_conn \<Rightarrow> h2_frame \<Rightarrow> 'w h2_conn" where
  "h2_on_settings c f =
     (if fr_stream_id f \<noteq> 0 then h2_conn_error c HE_PROTOCOL
      else if fr_flags f AND H2F_ACK \<noteq> 0 then (if fr_len f \<noteq> 0 then h2_conn_error c HE_FRAME_SIZE else c)
      else
        case h2_apply_settings (c\<lparr>hc_got_client_settings := True\<rparr>) (fr_payload f) of (rc, c1) \<Rightarrow>
          if rc < 0 then c1 else h2_settings_ack c1)"

definition h2_on_ping :: "'w h2_conn \<Rightarrow> h2_frame \<Rightarrow> 'w h2_conn" where
  "h2_on_ping c f =
     (if fr_len f \<noteq> 8 then h2_conn_error c HE_FRAME_SIZE
      else if fr_stream_id f \<noteq> 0 then h2_conn_error c HE_PROTOCOL
      else if fr_flags f AND H2F_ACK = 0 then snd (h2_send_frame c H2_PING H2F_ACK 0 (fr_payload f))
      else c)"

definition h2_on_goaway :: "'w h2_conn \<Rightarrow> h2_frame \<Rightarrow> 'w h2_conn" where
  "h2_on_goaway c f =
     (if fr_len f < 8 then h2_conn_error c HE_FRAME_SIZE
      else if fr_stream_id f \<noteq> 0 then h2_conn_error c HE_PROTOCOL
      else c\<lparr>hc_client_goaway := True, hc_client_goaway_last := rd32 (fr_payload f) AND 0x7fffffff\<rparr>)"

definition h2_on_window :: "'w h2_conn \<Rightarrow> h2_frame \<Rightarrow> 'w h2_conn" where
  "h2_on_window c f =
     (if fr_len f \<noteq> 4 then h2_conn_error c HE_FRAME_SIZE
      else
        let inc = rd32 (fr_payload f) AND 0x7fffffff in
        if inc = 0 then
          (if fr_stream_id f = 0 then h2_conn_error c HE_PROTOCOL else h2_send_stream_error c (fr_stream_id f) HE_PROTOCOL)
        else if fr_stream_id f = 0 then
          let c1 = c\<lparr>hc_send_window := hc_send_window c + int inc\<rparr>
          in if hc_send_window c1 > WINDOW_MAX then h2_conn_error c1 HE_FLOW else c1
        else
          case h2_find_stream c (fr_stream_id f) of
            None \<Rightarrow> if fr_stream_id f > hc_last_stream_id c then h2_conn_error c HE_PROTOCOL else c
          | Some si \<Rightarrow>
              let s = hc_streams c ! si; s1 = s\<lparr>st_send_window := st_send_window s + int inc\<rparr> in
              if st_reset s then c
              else if st_send_window s1 > WINDOW_MAX
              then put_stream (h2_send_stream_error c (st_id s) HE_FLOW) si (s1\<lparr>st_reset := True\<rparr>)
              else put_stream c si s1)"

text \<open>A complete header block opens a stream.\<close>

definition grow_streams :: "'w h2_conn \<Rightarrow> nat \<Rightarrow> 'w h2_conn" where
  "grow_streams c first =
     (if length (hc_streams c) = hc_streams_cap c
      then c\<lparr>hc_streams_cap := (if hc_streams_cap c \<noteq> 0 then hc_streams_cap c * 2 else first)\<rparr> else c)"

definition h2_on_header_block_finish :: "'w h2_conn \<Rightarrow> nat \<Rightarrow> bool \<Rightarrow> sv \<Rightarrow> 'w h2_conn" where
  "h2_on_header_block_finish c ident es blk =
     (if ident AND 1 = 0 then h2_conn_error c HE_PROTOCOL
      else if hc_client_goaway c \<and> ident > hc_client_goaway_last c then h2_send_stream_error c ident HE_REFUSED
      else if ident \<le> hc_last_stream_id c then h2_conn_error c HE_PROTOCOL
      else if h2_find_stream c ident \<noteq> None then h2_conn_error c HE_PROTOCOL
      else
        let c1 = grow_streams c 16;
            s = zero_stream\<lparr>st_id := ident, st_open := True, st_remote_ended := es\<rparr>
        in case h2_request_from_block c1 blk s of
             Block_Conn_Error c2 \<Rightarrow> c2
           | Block_Malformed c2 \<Rightarrow> h2_send_stream_error c2 ident HE_PROTOCOL
           | Block_Undefined \<Rightarrow> c1\<lparr>hc_undef := True\<rparr>
           | Block_Ok c2 s2 \<Rightarrow>
               let c3 = c2\<lparr>hc_streams := hc_streams c2 @ [s2], hc_last_stream_id := ident\<rparr> in
               if length (hc_streams c3) > H2_MAX_CONCURRENT_STREAMS
               then let c4 = h2_send_stream_error c3 ident HE_REFUSED
                    in c4\<lparr>hc_streams := h2_free_stream (hc_streams c4) (length (hc_streams c4) - 1)\<rparr>
               else c3)"

definition end_block :: "'w h2_conn \<Rightarrow> 'w h2_conn" where
  "end_block c = c\<lparr>hc_hb_stream := 0, hc_hb_end_stream := False, hc_hb_abort := False, hc_hb := (hc_hb c)\<lparr>sb_count := 0\<rparr>\<rparr>"

definition h2_on_cont :: "'w h2_conn \<Rightarrow> h2_frame \<Rightarrow> 'w h2_conn" where
  "h2_on_cont c f =
     (if hc_hb_stream c = 0 then h2_conn_error c HE_PROTOCOL
      else if fr_stream_id f \<noteq> hc_hb_stream c then h2_conn_error c HE_PROTOCOL
      else
        let c1 = (if \<not> hc_hb_abort c \<and> sb_count (hc_hb c) + fr_len f > H2_HEADER_BLOCK_CAP
                  then h2_send_stream_error (c\<lparr>hc_hb_abort := True\<rparr>) (fr_stream_id f) HE_CANCEL else c);
            c2 = (if \<not> hc_hb_abort c1 then c1\<lparr>hc_hb := strbuf_append (hc_hb c1) (fr_payload f)\<rparr> else c1)
        in if fr_flags f AND H2F_END_HEADERS \<noteq> 0 then
             if hc_hb_abort c2 then end_block c2
             else h2_on_header_block_finish (end_block c2) (hc_hb_stream c2) (hc_hb_end_stream c2) (strbuf_view (hc_hb c2))
           else c2)"

definition h2_on_headers_start :: "'w h2_conn \<Rightarrow> h2_frame \<Rightarrow> 'w h2_conn" where
  "h2_on_headers_start c f =
     (if fr_stream_id f = 0 then h2_conn_error c HE_PROTOCOL
      else
        let c1 = c\<lparr>hc_hb_stream := fr_stream_id f, hc_hb_end_stream := (fr_flags f AND H2F_END_STREAM \<noteq> 0), hc_hb_abort := False,
                   hc_hb := (hc_hb c)\<lparr>sb_count := 0\<rparr>\<rparr>;
            padded = (fr_flags f AND H2F_PADDED \<noteq> 0)
        in if padded \<and> fr_len f < 1 then h2_conn_error c1 HE_PROTOCOL
           else
             let pad = (if padded then ucode (fr_payload f ! 0) else 0);
                 p = (if padded then drop 1 (fr_payload f) else fr_payload f);
                 prio = (fr_flags f AND H2F_PRIORITY \<noteq> 0)
             in if prio \<and> length p < 5 then h2_conn_error c1 HE_PROTOCOL
                else
                  let q = (if prio then drop 5 p else p) in
                  if pad > length q then h2_conn_error c1 HE_PROTOCOL
                  else if length q - pad > H2_HEADER_BLOCK_CAP then h2_conn_error c1 HE_CALM
                  else
                    let c2 = c1\<lparr>hc_hb := strbuf_append (hc_hb c1) (take (length q - pad) q)\<rparr>
                    in if fr_flags f AND H2F_END_HEADERS \<noteq> 0
                       then h2_on_header_block_finish (end_block c2) (hc_hb_stream c2) (hc_hb_end_stream c2) (strbuf_view (hc_hb c2))
                       else c2)"

definition h2_process_frame :: "'w h2_conn \<Rightarrow> h2_frame \<Rightarrow> 'w h2_conn" where
  "h2_process_frame c f =
     (if \<not> hc_got_client_settings c \<and> (fr_type f \<noteq> H2_SETTINGS \<or> fr_flags f AND H2F_ACK \<noteq> 0) then h2_conn_error c HE_PROTOCOL
      else if hc_hb_stream c \<noteq> 0 \<and> (fr_type f \<noteq> H2_CONT \<or> fr_stream_id f \<noteq> hc_hb_stream c) then h2_conn_error c HE_PROTOCOL
      else if fr_type f = H2_DATA then h2_on_data c f
      else if fr_type f = H2_HEADERS then h2_on_headers_start c f
      else if fr_type f = H2_CONT then h2_on_cont c f
      else if fr_type f = H2_PRIORITY then h2_on_priority c f
      else if fr_type f = H2_RST then h2_on_rst c f
      else if fr_type f = H2_SETTINGS then h2_on_settings c f
      else if fr_type f = H2_PING then h2_on_ping c f
      else if fr_type f = H2_GOAWAY then h2_on_goaway c f
      else if fr_type f = H2_WINDOW then h2_on_window c f
      else if fr_type f = H2_PUSH_PROMISE then h2_conn_error c HE_PROTOCOL
      else c)"

subsection \<open>Upgraded connections\<close>

text \<open>
  The views of the request point into the storage while it is still growing; \<open>moved\<close> says that a view taken
  before has been invalidated by a reallocation.
\<close>

definition upgrade_header :: "strbuf \<times> bool \<times> (sv \<times> sv) list \<Rightarrow> sv \<times> sv \<Rightarrow> strbuf \<times> bool \<times> (sv \<times> sv) list" where
  "upgrade_header st h =
     (case st of (storage, moved, hs) \<Rightarrow>
        let storage1 = strbuf_append (strbuf_append storage (fst h)) (snd h)
        in (storage1, moved \<or> sb_capacity storage \<noteq> 0 \<and> sb_capacity storage1 \<noteq> sb_capacity storage, hs @ [h]))"

definition upgrade_fields :: "http_request \<Rightarrow> (sv \<times> sv) list" where
  "upgrade_fields src =
     (let own_host = list_ex (\<lambda>h. sv_ieq_str (fst h) ''host'') (rq_headers src);
          kept = filter (\<lambda>h. \<not> (conn_spec_name (fst h) \<or> sv_ieq_str (fst h) ''http2-settings'')) (rq_headers src)
      in if own_host then kept
         else (case (case http_request_get_header src '':authority'' of Some a \<Rightarrow> Some a | None \<Rightarrow> http_request_get_header src ''host'') of
                 Some a \<Rightarrow> kept @ [(''host'', a)]
               | None \<Rightarrow> kept))"

definition h2_add_upgrade_stream :: "'w h2_conn \<Rightarrow> http_request \<Rightarrow> 'w h2_conn" where
  "h2_add_upgrade_stream c0 src =
     (let c = grow_streams c0 8;
          path = rq_path src;
          storage = strbuf_append strbuf_init path
      in case foldl upgrade_header (storage, False, []) (upgrade_fields src) of (storage1, moved, hs) \<Rightarrow>
           let s = zero_stream\<lparr>st_id := 1, st_open := True, st_remote_ended := True, st_recv_window := int H2_INITIAL_WINDOW,
                     st_send_window := int (hc_client_init_window c), st_body := strbuf_append strbuf_init (rq_body src),
                     st_req_bytes := length (rq_body src),
                     st_req := empty_request\<lparr>rq_method := rq_method src, rq_version := ''HTTP/2.0'', rq_remote := hc_remote c,
                       rq_target := path, rq_path := path_part path, rq_query := query_part path, rq_headers := hs,
                       rq_content_length := (if rq_content_length src \<ge> 0 then rq_content_length src else int (length (rq_body src)))\<rparr>\<rparr>
           in c\<lparr>hc_streams := hc_streams c @ [s], hc_last_stream_id := 1, hc_undef := hc_undef c \<or> moved\<rparr>)"

definition b64url_value :: "char \<Rightarrow> int" where
  "b64url_value ch =
     (if ucode ch \<ge> 128 then -1
      else if isupper ch then int (ucode ch) - 65
      else if islower ch then 26 + (int (ucode ch) - 97)
      else if isdigit ch then 52 + (int (ucode ch) - 48)
      else if ch = CHR ''-'' then 62
      else if ch = CHR ''_'' then 63
      else -1)"

fun b64url_loop :: "sv \<Rightarrow> u32 \<Rightarrow> nat \<Rightarrow> char list \<Rightarrow> nat \<Rightarrow> char list option" where
  "b64url_loop [] acc nbits out cap = Some out"
| "b64url_loop (ch # s) acc nbits out cap =
     (if ch = CHR ''='' then Some out
      else
        let v = b64url_value ch in
        if v < 0 then None
        else
          let acc1 = push_bit 6 acc OR word_of_int v; n1 = nbits + 6 in
          if n1 \<ge> 8 then
            if length out \<ge> cap then None
            else b64url_loop s acc1 (n1 - 8) (out @ [char_of (unat (drop_bit (n1 - 8) acc1))]) cap
          else b64url_loop s acc1 n1 out cap)"

definition h2_b64url_decode :: "sv \<Rightarrow> nat \<Rightarrow> char list option" where
  "h2_b64url_decode s cap = b64url_loop s 0 0 [] cap"

definition h2_is_upgrade_request :: "http_request \<Rightarrow> bool" where
  "h2_is_upgrade_request req =
     (if \<not> header_has_token req ''connection'' ''upgrade'' then False
      else if \<not> header_has_token req ''connection'' ''http2-settings'' then False
      else
        case http_request_get_header req ''upgrade'' of
          None \<Rightarrow> False
        | Some up \<Rightarrow>
            if \<not> tok_in up ''h2c'' then False
            else length (filter (\<lambda>h. sv_ieq_str (fst h) ''http2-settings'') (rq_headers req)) = 1)"

subsection \<open>The loop of a connection\<close>

definition H2_MAGIC :: "char list" where
  "H2_MAGIC = ''PRI * HTTP/2.0'' @ [CR, LF, CR, LF] @ ''SM'' @ [CR, LF, CR, LF]"

definition serve_round :: "'w h2_env \<Rightarrow> 'w h2_conn \<Rightarrow> 'w h2_conn" where
  "serve_round e c = h2_sweep (h2_pump e (h2_dispatch_ready e c))"

definition skip_magic :: "'w h2_conn \<Rightarrow> 'w h2_conn" where
  "skip_magic c =
     (if rb_count (hc_rb c) \<ge> 24 \<and> take 24 (rb_view (hc_rb c)) = H2_MAGIC then c\<lparr>hc_rb := rb_discard (hc_rb c) 24\<rparr> else c)"

text \<open>No handler touches the read buffer or what is still to arrive.\<close>

definition inputs :: "'w h2_conn \<Rightarrow> read_buffer \<times> char list list" where
  "inputs c = (hc_rb c, hc_incoming c)"

lemma settings_loop_inputs: "inputs (settings_loop c p) = inputs c"
proof (induction c p rule: settings_loop.induct)
  case (1 c p)
  have "inputs (apply_setting c (rd16 p) (rd32 (drop 2 p))) = inputs c"
    by (auto simp: apply_setting_def inputs_def Let_def split: prod.splits)
  then show ?case using 1 by (simp add: settings_loop.simps [of c p])
qed

lemmas handler_defs = h2_on_data_def h2_on_priority_def h2_on_rst_def h2_on_settings_def h2_on_ping_def h2_on_goaway_def
  h2_on_window_def h2_on_cont_def h2_on_headers_start_def

text \<open>What a header block does to the connection and to its stream.\<close>

lemma block_result_cases:
  "case h2_request_from_block c blk s of
     Block_Ok c' s' \<Rightarrow> (\<exists>hp fs req. hpack_decode_block (hc_hpack c) blk = Decoded hp fs \<and> c' = c\<lparr>hc_hpack := hp\<rparr>
        \<and> s' = s\<lparr>st_req := req, st_body := strbuf_init, st_recv_window := int H2_INITIAL_WINDOW, st_send_window := int (hc_client_init_window c)\<rparr>)
   | Block_Conn_Error c' \<Rightarrow> c' = h2_conn_error c HE_COMPRESSION
   | Block_Malformed c' \<Rightarrow> (\<exists>hp fs. hpack_decode_block (hc_hpack c) blk = Decoded hp fs \<and> c' = c\<lparr>hc_hpack := hp\<rparr>)
   | Block_Undefined \<Rightarrow> True"
proof (cases "hpack_decode_block (hc_hpack c) blk")
  case (Decoded hp fs)
  show ?thesis
  proof (cases "scan_fields empty_head fs")
    case (Some h)
    show ?thesis
    proof (cases "head_complete h \<and> request_headers h \<noteq> None")
      case True
      then obtain hs where "request_headers h = Some hs" by blast
      then have "\<exists>req. h2_request_from_block c blk s = Block_Ok (c\<lparr>hc_hpack := hp\<rparr>) (s\<lparr>st_req := req, st_body := strbuf_init,
          st_recv_window := int H2_INITIAL_WINDOW, st_send_window := int (hc_client_init_window c)\<rparr>)"
        unfolding h2_request_from_block_def Decoded Let_def hpack_outcome.case Some option.case
        using True by (simp only: simp_thms if_False option.case) (rule exI, rule refl)
      then obtain req where e: "h2_request_from_block c blk s = Block_Ok (c\<lparr>hc_hpack := hp\<rparr>) (s\<lparr>st_req := req, st_body := strbuf_init,
          st_recv_window := int H2_INITIAL_WINDOW, st_send_window := int (hc_client_init_window c)\<rparr>)" by blast
      show ?thesis unfolding e block_result.case using Decoded by blast
    next
      case False
      then show ?thesis using Some Decoded by (cases "head_complete h") (simp_all add: h2_request_from_block_def)
    qed
  qed (simp add: Decoded h2_request_from_block_def)
qed (simp_all add: h2_request_from_block_def)

lemma finish_inputs: "inputs (h2_on_header_block_finish c i es blk) = inputs c"
proof -
  let ?c = "grow_streams c 16" and ?s = "zero_stream\<lparr>st_id := i, st_open := True, st_remote_ended := es\<rparr>"
  have g: "inputs ?c = inputs c" by (simp add: grow_streams_def inputs_def)
  show ?thesis
  proof (cases "h2_request_from_block ?c blk ?s")
    case (Block_Ok c2 s2)
    then have "inputs c2 = inputs c" using block_result_cases [of ?c blk ?s] g by (auto simp: inputs_def)
    then show ?thesis using Block_Ok by (simp add: h2_on_header_block_finish_def h2_send_stream_error_def inputs_def Let_def)
  next
    case (Block_Conn_Error c2)
    then have "inputs c2 = inputs c" using block_result_cases [of ?c blk ?s] g by (auto simp: inputs_def)
    then show ?thesis using Block_Conn_Error by (simp add: h2_on_header_block_finish_def h2_send_stream_error_def inputs_def Let_def)
  next
    case (Block_Malformed c2)
    then have "inputs c2 = inputs c" using block_result_cases [of ?c blk ?s] g by (auto simp: inputs_def)
    then show ?thesis using Block_Malformed by (simp add: h2_on_header_block_finish_def h2_send_stream_error_def inputs_def Let_def)
  next
    case Block_Undefined
    then show ?thesis using g by (simp add: h2_on_header_block_finish_def h2_send_stream_error_def inputs_def Let_def)
  qed
qed

lemma end_block_inputs: "inputs (end_block c) = inputs c"
  by (simp add: end_block_def inputs_def)

lemma process_frame_inputs: "inputs (h2_process_frame c f) = inputs c"
proof -
  note d = inputs_def h2_send_stream_error_def window_update_def put_stream_def h2_settings_ack_def stream_data_def Let_def split_beta
  have 1: "inputs (h2_on_data c f) = inputs c" by (simp add: h2_on_data_def d split: option.split)
  have 2: "inputs (h2_on_headers_start c f) = inputs c"
    unfolding h2_on_headers_start_def Let_def finish_inputs end_block_inputs if_distrib [of inputs] by (simp add: inputs_def)
  have 3: "inputs (h2_on_cont c f) = inputs c"
    unfolding h2_on_cont_def Let_def finish_inputs end_block_inputs if_distrib [of inputs] by (simp add: inputs_def h2_send_stream_error_def)
  have 4: "inputs (h2_on_settings c f) = inputs c"
    by (simp add: h2_on_settings_def h2_apply_settings_def d settings_loop_inputs [unfolded inputs_def prod.inject])
  have 5: "inputs (h2_on_priority c f) = inputs c" "inputs (h2_on_rst c f) = inputs c" "inputs (h2_on_ping c f) = inputs c"
    "inputs (h2_on_goaway c f) = inputs c" "inputs (h2_on_window c f) = inputs c" "inputs (h2_conn_error c n) = inputs c" for n
    by (simp_all add: h2_on_priority_def h2_on_rst_def h2_on_ping_def h2_on_goaway_def h2_on_window_def d split: option.split)
  show ?thesis by (simp add: h2_process_frame_def 1 2 3 4 5)
qed

definition wire_only :: "'w h2_conn \<Rightarrow> 'w h2_conn \<Rightarrow> bool" where
  "wire_only c c' \<longleftrightarrow> (\<exists>err k w. c' = c\<lparr>hc_error := err, hc_calls := k, hc_sent := w\<rparr>)"

lemma wire_only_refl: "wire_only c c"
proof -
  have "c = c\<lparr>hc_error := hc_error c, hc_calls := hc_calls c, hc_sent := hc_sent c\<rparr>" by simp
  then show ?thesis unfolding wire_only_def by blast
qed

lemma wire_only_trans: "wire_only a b \<Longrightarrow> wire_only b c \<Longrightarrow> wire_only a c"
  by (force simp: wire_only_def)

lemma wire_only_send: "wire_only c (snd (h2_send_frame c ty fl i p))"
  using send_frame_frame unfolding wire_only_def by blast

lemma wire_only_error: "wire_only c (h2_conn_error c n)"
proof -
  have "h2_conn_error c n = c\<lparr>hc_error := hc_error (h2_conn_error c n), hc_calls := hc_calls c, hc_sent := hc_sent c\<rparr>"
    by (simp add: h2_conn_error_def)
  then show ?thesis unfolding wire_only_def by metis
qed

lemma wire_only_keeps:
  assumes "wire_only c c'"
  shows "hc_send_window c' = hc_send_window c" "hc_streams c' = hc_streams c" "inputs c' = inputs c" "hc_recv_window c' = hc_recv_window c"
    "hc_last_stream_id c' = hc_last_stream_id c" "hc_hpack c' = hc_hpack c" "hc_client_init_window c' = hc_client_init_window c"
    "hc_hb_stream c' = hc_hb_stream c" "hc_hb c' = hc_hb c" "hc_max_body c' = hc_max_body c" "hc_accepts c' = hc_accepts c" "hc_world c' = hc_world c"
  using assms by (auto simp: wire_only_def inputs_def)

text \<open>Whatever every frame does to the connection, a header block does.\<close>

lemma fragment_loop_rel:
  assumes send: "\<And>c ty fl i p. R c (snd (h2_send_frame c ty fl i p))" and trans: "\<And>a b c. R a b \<Longrightarrow> R b c \<Longrightarrow> R a c"
  shows "R c (snd (fragment_loop c i blk off es))"
proof (induction c i blk off es rule: fragment_loop.induct)
  case (1 c i blk off es)
  let ?t = "min (length blk - off) H2_MAX_FRAME_SIZE"
  let ?f = "h2_send_frame c (if off = 0 then H2_HEADERS else H2_CONT)
    ((if off + ?t = length blk then H2F_END_HEADERS else 0) OR (if off = 0 \<and> es then H2F_END_STREAM else 0)) i (take ?t (drop off blk))"
  have e: "fragment_loop c i blk off es = (if fst ?f \<noteq> 0 then (-1, snd ?f)
      else if off + ?t < length blk then fragment_loop (snd ?f) i blk (off + ?t) es else (0, snd ?f))"
    by (simp only: fragment_loop.simps [of c] Let_def split_beta)
  show ?case
  proof (cases "fst ?f = 0 \<and> off + ?t < length blk")
    case True
    then have "R (snd ?f) (snd (fragment_loop (snd ?f) i blk (off + ?t) es))"
      by (intro "1.IH" [OF refl refl refl refl prod.collapse]) (simp_all only: not_not)
    from trans [OF send this] True show ?thesis unfolding e by (simp only: if_True simp_thms if_False)
  next
    case False
    then have "snd (fragment_loop c i blk off es) = snd ?f" unfolding e by (simp split del: if_split) (simp split: if_splits)
    then show ?thesis by (metis send)
  qed
qed

lemma header_block_rel:
  assumes send: "\<And>c ty fl i p. R c (snd (h2_send_frame c ty fl i p))" and trans: "\<And>a b c. R a b \<Longrightarrow> R b c \<Longrightarrow> R a c"
  shows "R c (snd (h2_send_header_block c i blk es))"
proof -
  note f = fragment_loop_rel [of R, OF send trans]
  have w: "R c (snd (h2_send_frame (snd (fragment_loop c i b 0 e)) ty fl i []))" for ty fl b e
    by (rule trans [OF f send])
  show ?thesis unfolding h2_send_header_block_def split_beta by (simp add: w f)
qed

lemma wire_only_header_block: "wire_only c (snd (h2_send_header_block c i blk es))"
  by (rule header_block_rel [of wire_only, OF wire_only_send wire_only_trans])

lemma inputs_world [simp]: "inputs (c\<lparr>hc_world := w\<rparr>) = inputs c" "inputs (c\<lparr>hc_send_window := n\<rparr>) = inputs c" "inputs (c\<lparr>hc_streams := ss\<rparr>) = inputs c"
  by (simp_all add: inputs_def)

lemma send_data_inputs: "inputs (fst (h2_send_data c s p eof)) = inputs c"
  by (simp add: h2_send_data_def split_beta wire_only_keeps(3) [OF wire_only_error] wire_only_keeps(3) [OF wire_only_send])

lemma data_loop_inputs: "inputs (fst (data_loop e c s)) = inputs c"
proof (induction e c s rule: data_loop.induct)
  case (1 e c s)
  show ?case
  proof (cases "h2_next_data e s (hc_world c) (min (hc_send_window c) (st_send_window s))")
    case (Next s1 w src eof)
    obtain c2 s2 where d: "h2_send_data (c\<lparr>hc_world := w\<rparr>) s1 src eof = (c2, s2)" by (metis surj_pair)
    then have "inputs c2 = inputs c" using send_data_inputs [of "c\<lparr>hc_world := w\<rparr>" s1 src eof] by simp
    then show ?thesis using "1.IH" [OF _ refl Next refl _ d [symmetric]] Next d by (simp add: data_loop.simps [of e c s] Let_def)
  qed (simp add: data_loop.simps [of e c s])
qed

lemma pump_stream_inputs: "inputs (fst (snd (pump_stream e c s))) = inputs c"
proof -
  have "inputs (fst (data_loop e (snd (h2_send_header_block c i blk es)) s1)) = inputs c" for i blk es s1
    using data_loop_inputs wire_only_keeps(3) [OF wire_only_header_block] by metis
  moreover have "inputs (h2_conn_error (snd (h2_send_header_block c i blk es)) n) = inputs c" for i blk es n
    using wire_only_keeps(3) [OF wire_only_trans [OF wire_only_header_block wire_only_error]] by metis
  ultimately show ?thesis
    by (simp add: pump_stream_def split_beta Let_def data_loop_inputs wire_only_keeps(3) [OF wire_only_header_block])
qed

lemma pump_streams_inputs: "inputs (fst (pump_streams e c ss)) = inputs c"
proof (induction ss arbitrary: c)
  case (Cons s ss)
  then show ?case using pump_stream_inputs by (simp add: split_beta)
qed simp

lemma serve_round_inputs: "inputs (serve_round e c) = inputs c"
  by (simp add: serve_round_def h2_sweep_def h2_pump_def h2_dispatch_ready_def split_beta pump_streams_inputs)

lemma peek_count: "h2_frame_peek c = (Some f, c1) \<Longrightarrow> c1 = c \<and> H2_FRAME_HDR + fr_len f \<le> rb_count (hc_rb c)"
  by (auto simp: h2_frame_peek_def Let_def rb_view_def split: if_splits)

function frames_loop :: "'w h2_env \<Rightarrow> 'w h2_conn \<Rightarrow> 'w h2_conn" where
  "frames_loop e c =
     (case h2_frame_peek c of
        (None, c1) \<Rightarrow> c1
      | (Some f, c1) \<Rightarrow>
          let c2 = h2_process_frame c1 f; c3 = c2\<lparr>hc_rb := rb_discard (hc_rb c2) (H2_FRAME_HDR + fr_len f)\<rparr>
          in if hc_error c3 \<noteq> HE_NO_ERROR then c3 else frames_loop e (serve_round e c3))"
  by pat_completeness auto
termination
proof (relation "measure (\<lambda>(e, c). rb_count (hc_rb c))", goal_cases)
  case (2 e c o' c1 f c2 c3)
  have p: "c1 = c" "H2_FRAME_HDR + fr_len f \<le> rb_count (hc_rb c)" using peek_count [of c f c1] 2 by auto
  have "hc_rb c2 = hc_rb c" using process_frame_inputs [of c f] 2 p by (simp add: inputs_def)
  moreover have "hc_rb (serve_round e c3) = hc_rb c3" using serve_round_inputs [of e c3] by (simp add: inputs_def)
  ultimately show ?case using 2 p by (simp add: rb_discard_def H2_FRAME_HDR_def Let_def)
qed simp

declare frames_loop.simps [simp del]

lemma frames_loop_incoming: "hc_incoming (frames_loop e c) = hc_incoming c"
proof (induction e c rule: frames_loop.induct)
  case (1 e c)
  show ?case
  proof (cases "h2_frame_peek c")
    case (Pair o' c1)
    show ?thesis
    proof (cases o')
      case None
      then show ?thesis using Pair by (auto simp: frames_loop.simps [of e c] h2_frame_peek_def Let_def split: if_splits)
    next
      case (Some f)
      then have "c1 = c" using peek_count Pair by blast
      let ?c3 = "(h2_process_frame c f)\<lparr>hc_rb := rb_discard (hc_rb (h2_process_frame c f)) (H2_FRAME_HDR + fr_len f)\<rparr>"
      have "hc_incoming ?c3 = hc_incoming c" "hc_incoming (serve_round e ?c3) = hc_incoming ?c3"
        using process_frame_inputs [of c f] serve_round_inputs [of e ?c3] by (simp_all add: inputs_def)
      then show ?thesis using "1.IH" [OF Pair [symmetric] Some refl refl] Pair Some \<open>c1 = c\<close> by (simp add: frames_loop.simps [of e c] Let_def)
    qed
  qed
qed

text \<open>The outer loop; it ends because every round takes something from the peer.\<close>

function serve_loop :: "'w h2_env \<Rightarrow> 'w h2_conn \<Rightarrow> 'w h2_conn" where
  "serve_loop e c =
     (let c1 = serve_round e (skip_magic c) in
      if hc_error c1 \<noteq> HE_NO_ERROR then c1
      else if h2_client_goaway_done c1 then c1
      else
        let c2 = frames_loop e c1 in
        if hc_error c2 \<noteq> HE_NO_ERROR then c2
        else if h2_client_goaway_done c2 then c2
        else case h2_fill c2 of (rc, c3) \<Rightarrow> if rc \<noteq> 0 then c3 else serve_loop e c3)"
  by pat_completeness auto
termination
proof (relation "measure (\<lambda>(e, c). length (concat (hc_incoming c)))", goal_cases)
  case (2 e c c1 c2 rc c3)
  have "hc_incoming (skip_magic c) = hc_incoming c" by (simp add: skip_magic_def)
  then have "hc_incoming c2 = hc_incoming c"
    using 2 serve_round_inputs [of e "skip_magic c"] frames_loop_incoming [of e c1] by (simp add: inputs_def)
  moreover have "length (concat (hc_incoming c3)) < length (concat (hc_incoming c2))"
    using 2 by (auto simp: h2_fill_def rb_write_head_def split: list.splits if_splits)
  ultimately show ?case by simp
qed simp

declare serve_loop.simps [simp del]

definition h2_conn_init :: "(nat \<Rightarrow> int) \<Rightarrow> char list list \<Rightarrow> nat \<Rightarrow> sv \<Rightarrow> nat \<Rightarrow> 'w \<Rightarrow> 'w h2_conn" where
  "h2_conn_init accepts incoming max_body remote calls w =
     \<lparr>hc_remote = remote, hc_max_body = (if max_body > 0 then max_body else H2_BUFFER_CAP), hc_hpack = hpack_init, hc_rb = rb_init H2_BUFFER_CAP,
      hc_streams = [], hc_streams_cap = 0, hc_last_stream_id = 0, hc_got_client_settings = False, hc_client_goaway = False,
      hc_client_goaway_last = 0, hc_recv_window = int H2_INITIAL_WINDOW, hc_send_window = int H2_INITIAL_WINDOW,
      hc_client_init_window = H2_INITIAL_WINDOW, hc_error = HE_NO_ERROR, hc_hb_stream = 0, hc_hb = strbuf_init, hc_hb_end_stream = False,
      hc_hb_abort = False, hc_sent = [], hc_calls = calls, hc_accepts = accepts, hc_incoming = incoming, hc_undef = False, hc_world = w\<rparr>"

text \<open>
  What the caller has already read goes to the front of the buffer; more than its capacity is written behind it.
\<close>

definition take_over :: "'w h2_conn \<Rightarrow> sv \<Rightarrow> 'w h2_conn" where
  "take_over c left =
     (if length left > rb_capacity (hc_rb c) then c\<lparr>hc_undef := True\<rparr>
      else c\<lparr>hc_rb := (hc_rb c)\<lparr>rb_data := memcpy_at (rb_data (hc_rb c)) 0 left, rb_count := length left\<rparr>\<rparr>)"

definition UPGRADE_101 :: "char list" where
  "UPGRADE_101 = ''HTTP/1.1 101 Switching Protocols'' @ [CR, LF] @ ''Connection: Upgrade'' @ [CR, LF] @ ''Upgrade: h2c'' @ [CR, LF, CR, LF]"

definition BAD_400 :: "char list" where
  "BAD_400 = ''HTTP/1.1 400 Bad Request'' @ [CR, LF] @ ''Content-Length: 0'' @ [CR, LF] @ ''Connection: close'' @ [CR, LF, CR, LF]"

text \<open>The prologue for an upgraded connection; \<^const>\<open>True\<close> means that the connection goes on.\<close>

definition h2_upgrade :: "'w h2_conn \<Rightarrow> http_request \<Rightarrow> bool \<times> 'w h2_conn" where
  "h2_upgrade c req =
     (case h2_write c UPGRADE_101 of (rc, c1) \<Rightarrow>
        if rc \<noteq> 0 then (False, c1)
        else
          case http_request_get_header req ''http2-settings'' of
            None \<Rightarrow> (True, h2_add_upgrade_stream c1 req)
          | Some hs \<Rightarrow>
              (case h2_b64url_decode hs (length hs) of
                 None \<Rightarrow> (False, snd (h2_write c1 BAD_400))
               | Some payload \<Rightarrow>
                   if length payload mod 6 \<noteq> 0 then (False, snd (h2_write c1 BAD_400))
                   else
                     let c2 = snd (h2_apply_settings c1 payload)
                     in if hc_error c2 \<noteq> HE_NO_ERROR then (False, c2) else (True, h2_add_upgrade_stream c2 req)))"

definition h2_serve :: "'w h2_env \<Rightarrow> 'w h2_conn \<Rightarrow> sv \<Rightarrow> http_request option \<Rightarrow> 'w h2_conn" where
  "h2_serve e c0 left upgrade_req =
     (let c = (if length left > 0 then take_over c0 left else c0);
          (go, c1) = (case upgrade_req of None \<Rightarrow> (True, c) | Some req \<Rightarrow> h2_upgrade c req);
          c2 = (if \<not> go then c1
                else let c3 = h2_send_settings c1 in if hc_error c3 \<noteq> HE_NO_ERROR then c3 else serve_loop e c3)
      in (snd (h2_send_goaway c2 (hc_last_stream_id c2) (hc_error c2)))\<lparr>hc_streams := []\<rparr>)"

end
