(* ===== verification/H2_Flow.thy ===== *)
theory H2_Flow
  imports H2_Connection
begin

text \<open>
  What the HTTP/2 engine guarantees: frames survive the wire, a response body goes out completely and exactly as
  far as the flow-control windows allow, header blocks turn into the requests they describe, and the state of a connection
  stays consistent whatever frames the peer sends.
\<close>

subsection \<open>Frames on the wire\<close>

definition frame_ok :: "h2_frame \<Rightarrow> bool" where
  "frame_ok f \<longleftrightarrow> fr_type f < 256 \<and> fr_flags f < 256 \<and> fr_stream_id f < 2 ^ 31 \<and> fr_len f \<le> H2_MAX_FRAME_SIZE"

definition wire :: "h2_frame \<Rightarrow> char list" where
  "wire f = frame_head (fr_len f) (fr_type f) (fr_flags f) (fr_stream_id f) @ fr_payload f"

lemma ucode_char_of_mod: "ucode (char_of n) = n mod 256"
  by (simp add: of_char_of)

lemma be_two: "a < 256 \<Longrightarrow> b < 256 \<Longrightarrow> push_bit 8 a OR b = a * 256 + (b :: nat)"
  using push_bit_or_eq_add [of b 8 a] by simp

lemma be_three: "b < 256 \<Longrightarrow> c < 256 \<Longrightarrow> push_bit 16 a OR push_bit 8 b OR c = a * 65536 + b * 256 + (c :: nat)"
proof -
  assume h: "b < 256" "c < 256"
  have "push_bit 16 a OR (push_bit 8 b OR c) = a * 65536 + (b * 256 + c)"
    using push_bit_or_eq_add [of "b * 256 + c" 16 a] h be_two [OF h] by simp
  then show ?thesis by (simp add: or.assoc)
qed

lemma be_four: "b < 256 \<Longrightarrow> c < 256 \<Longrightarrow> d < 256 \<Longrightarrow>
  push_bit 24 a OR push_bit 16 b OR push_bit 8 c OR d = a * 16777216 + b * 65536 + c * 256 + (d :: nat)"
proof -
  assume h: "b < 256" "c < 256" "d < 256"
  have "push_bit 24 a OR (push_bit 16 b OR push_bit 8 c OR d) = a * 16777216 + (b * 65536 + c * 256 + d)"
    using push_bit_or_eq_add [of "b * 65536 + c * 256 + d" 24 a] h be_three [OF h(2,3), of b] by simp
  then show ?thesis by (simp add: or.assoc)
qed

lemma join_three: "n < 16777216 \<Longrightarrow> push_bit 16 (n div 65536 mod 256) OR push_bit 8 (n div 256 mod 256) OR n mod 256 = (n :: nat)"
proof -
  assume "n < 16777216"
  then have "n div 65536 mod 256 = n div 65536" by (simp add: less_mult_imp_div_less)
  moreover have "n div 65536 = n div 256 div 256" by (simp add: div_mult2_eq [symmetric])
  ultimately have "(n div 65536 mod 256) * 65536 + (n div 256 mod 256) * 256 + n mod 256 = n"
    using div_mult_mod_eq [of n 256] div_mult_mod_eq [of "n div 256" 256] by linarith
  then show ?thesis by (subst be_three) (simp_all only: mod_less_divisor zero_less_numeral)
qed

lemma join_four: "n < 2147483648 \<Longrightarrow>
  push_bit 24 (n div 16777216 mod 128) OR push_bit 16 (n div 65536 mod 256) OR push_bit 8 (n div 256 mod 256) OR n mod 256 = (n :: nat)"
proof -
  assume "n < 2147483648"
  then have "n div 16777216 mod 128 = n div 16777216" by (simp add: less_mult_imp_div_less)
  moreover have "n div 16777216 = n div 65536 div 256" "n div 65536 = n div 256 div 256" by (simp_all add: div_mult2_eq [symmetric])
  ultimately have "(n div 16777216 mod 128) * 16777216 + (n div 65536 mod 256) * 65536 + (n div 256 mod 256) * 256 + n mod 256 = n"
    using div_mult_mod_eq [of n 256] div_mult_mod_eq [of "n div 256" 256] div_mult_mod_eq [of "n div 65536" 256] by linarith
  then show ?thesis by (subst be_four) (simp_all only: mod_less_divisor zero_less_numeral)
qed

lemma peek_wire:
  assumes "frame_ok f" "rb_view (hc_rb c) = wire f @ r"
  shows "h2_frame_peek c = (Some f, c)"
proof -
  let ?h = "wire f @ r" and ?n = "fr_len f" and ?i = "fr_stream_id f"
  have n: "?n < 16777216" "?n \<le> H2_MAX_FRAME_SIZE" "?i < 2147483648" using assms(1) by (simp_all add: frame_ok_def H2_MAX_FRAME_SIZE_def)
  have len: "push_bit 16 (ucode (?h ! 0)) OR push_bit 8 (ucode (?h ! 1)) OR ucode (?h ! 2) = ?n"
    using join_three [OF n(1)] by (simp add: wire_def frame_head_def ucode_char_of_mod drop_bit_eq_div)
  have ident: "push_bit 24 (ucode (?h ! 5) AND 0x7f) OR push_bit 16 (ucode (?h ! 6)) OR push_bit 8 (ucode (?h ! 7)) OR ucode (?h ! 8) = ?i"
    using join_four [OF n(3)] by (simp add: wire_def frame_head_def ucode_char_of_mod drop_bit_eq_div seven_bits mod_mod_cancel)
  have rest: "ucode (?h ! 3) = fr_type f" "ucode (?h ! 4) = fr_flags f" "take ?n (drop H2_FRAME_HDR ?h) = fr_payload f"
    "length ?h \<ge> H2_FRAME_HDR + ?n"
    using assms(1) by (simp_all add: wire_def frame_head_def ucode_char_of_mod frame_ok_def H2_FRAME_HDR_def)
  show ?thesis unfolding h2_frame_peek_def Let_def assms(2) len ident rest(1-3) using rest(4) n(2) by simp
qed

text \<open>As long as the socket takes bytes, a frame goes out whole.\<close>

definition healthy :: "'w h2_conn \<Rightarrow> bool" where
  "healthy c \<longleftrightarrow> (\<forall>n. 0 < hc_accepts c n)"

lemma send_frame_all:
  assumes "healthy c" "frame_ok f"
  shows "\<exists>k. h2_send_frame c (fr_type f) (fr_flags f) (fr_stream_id f) (fr_payload f) = (0, c\<lparr>hc_calls := k, hc_sent := hc_sent c @ wire f\<rparr>)"
proof -
  have a: "\<And>n. 0 < hc_accepts c n" using assms(1) by (simp add: healthy_def)
  let ?h = "frame_head (fr_len f) (fr_type f) (fr_flags f) (fr_stream_id f)"
  obtain k where k: "send_loop (hc_accepts c) (hc_calls c) ?h = (True, k, ?h)" using send_loop_all [of "hc_accepts c", OF a] by blast
  obtain k2 where k2: "send_loop (hc_accepts c) k (fr_payload f) = (True, k2, fr_payload f)" using send_loop_all [of "hc_accepts c", OF a] by blast
  show ?thesis
    using k k2 assms(2) unfolding h2_send_frame_def h2_write_def wire_def frame_ok_def
    by (cases "fr_payload f = []") (simp_all, (rule exI, rule refl)+)
qed

subsection \<open>Bodies under flow control\<close>

definition plain_body :: "h2_stream \<Rightarrow> bool" where
  "plain_body s \<longleftrightarrow> rs_stream_fn (st_res s) = None \<and> rs_stream_chunks (st_res s) = []"

definition body_rest :: "h2_stream \<Rightarrow> sv" where
  "body_rest s = drop (st_body_off s) (strbuf_view (rs_body (st_res s)))"

text \<open>The bytes that may go out now.\<close>

definition allowed :: "'w h2_conn \<Rightarrow> h2_stream \<Rightarrow> nat" where
  "allowed c s = min (nat (min (hc_send_window c) (st_send_window s))) (length (body_rest s))"

definition advance :: "h2_stream \<Rightarrow> nat \<Rightarrow> h2_stream" where
  "advance s n = s\<lparr>st_body_off := st_body_off s + n, st_send_window := st_send_window s - int n, st_body_sent := st_body_sent s + int n\<rparr>"

definition charge :: "'w h2_conn \<Rightarrow> nat \<Rightarrow> nat \<Rightarrow> char list \<Rightarrow> 'w h2_conn" where
  "charge c n k w = c\<lparr>hc_calls := k, hc_sent := hc_sent c @ w, hc_send_window := hc_send_window c - int n\<rparr>"

definition close_response :: "h2_stream \<Rightarrow> h2_stream" where
  "close_response s = h2_mark_response_done (s\<lparr>st_local_ended := True\<rparr>)"

text \<open>DATA frames of a stream that carry \<open>data\<close>, the last of them with END\_STREAM if \<open>ended\<close>.\<close>

definition data_frames :: "nat \<Rightarrow> h2_frame list \<Rightarrow> sv \<Rightarrow> bool \<Rightarrow> bool" where
  "data_frames i fs data ended \<longleftrightarrow>
     list_all (\<lambda>f. fr_type f = H2_DATA \<and> fr_stream_id f = i \<and> frame_ok f) fs \<and> concat (map fr_payload fs) = data
     \<and> (if ended then fs \<noteq> [] \<and> list_all (\<lambda>f. fr_flags f = 0) (butlast fs) \<and> fr_flags (last fs) = H2F_END_STREAM
        else list_all (\<lambda>f. fr_flags f = 0) fs)"

lemma data_frames_Cons:
  assumes "data_frames i fs data ended" "fr_type f = H2_DATA" "fr_stream_id f = i" "frame_ok f" "fr_flags f = 0"
  shows "data_frames i (f # fs) (fr_payload f @ data) ended"
  using assms by (auto simp: data_frames_def split: if_splits)

lemma advance_advance: "advance (advance s a) b = advance s (a + b)"
  by (simp add: advance_def)

lemma charge_charge: "charge (charge c a k v) b k' w = charge c (a + b) k' (v @ w)"
  by (simp add: charge_def)

lemma send_data_all:
  assumes "healthy c" "st_id s < 2 ^ 31" "length p \<le> H2_MAX_FRAME_SIZE"
    and "f = \<lparr>fr_type = H2_DATA, fr_flags = (if eof then H2F_END_STREAM else 0), fr_stream_id = st_id s, fr_payload = p\<rparr>"
  shows "\<exists>k. h2_send_data c s p eof = (charge c (length p) k (wire f),
      s\<lparr>st_send_window := st_send_window s - int (length p), st_body_sent := st_body_sent s + int (length p)\<rparr>)"
proof -
  have "frame_ok f" using assms by (simp add: frame_ok_def)
  from send_frame_all [OF assms(1) this] obtain k where
    "h2_send_frame c H2_DATA (if eof then H2F_END_STREAM else 0) (st_id s) p = (0, c\<lparr>hc_calls := k, hc_sent := hc_sent c @ wire f\<rparr>)"
    using assms(4) by auto
  then show ?thesis unfolding h2_send_data_def by (cases "p = []") (simp_all add: charge_def, (rule exI, rule refl)+)
qed

lemma room_split: "n \<le> nat (min a b) \<Longrightarrow> n \<le> l \<Longrightarrow> min (nat (min a b)) l = n + min (nat (min (a - int n) (b - int n))) (l - n)"
  by linarith

lemma data_loop_step:
  assumes "\<not> st_local_ended s" "hc_error c = 0" "h2_next_data e s (hc_world c) (min (hc_send_window c) (st_send_window s)) = Next s1 w src eof"
    and "0 < min (hc_send_window c) (st_send_window s)" "h2_send_data (c\<lparr>hc_world := w\<rparr>) s1 src eof = (c2, s2)" "hc_error c2 = 0"
  shows "data_loop e c s = (if eof then (c2, close_response s2) else data_loop e c2 s2)"
proof -
  have n: "\<not> (0 < length src \<and> min (hc_send_window c) (st_send_window s) \<le> 0)" using assms(4) by linarith
  show ?thesis
    unfolding data_loop.simps [of e c s] Let_def assms(3) next_data.case if_not_P [OF n] assms(5) close_response_def
    using assms(1,2,6) by simp
qed

lemma data_loop_plain:
  assumes "healthy c" "hc_error c = 0" "\<not> st_local_ended s" "plain_body s" "st_id s < 2 ^ 31"
    and "st_body_off s \<le> length (strbuf_view (rs_body (st_res s)))"
  shows "\<exists>fs k. data_frames (st_id s) fs (take (allowed c s) (body_rest s)) (allowed c s = length (body_rest s))
    \<and> data_loop e c s = (charge c (allowed c s) k (concat (map wire fs)),
        (if allowed c s = length (body_rest s) then close_response (advance s (allowed c s)) else advance s (allowed c s)))"
  using assms
proof (induction e c s rule: data_loop.induct)
  case (1 e c s)
  let ?room = "min (hc_send_window c) (st_send_window s)" and ?rest = "body_rest s"
  have nb: "h2_next_data e s (hc_world c) ?room = next_body s (hc_world c) ?room"
    using "1.prems" by (simp add: h2_next_data_def plain_body_def)
  consider "?rest = []" | "?rest \<noteq> []" "?room \<le> 0" | "?rest \<noteq> []" "0 < ?room" by linarith
  then show ?case
  proof cases
    case 1
    let ?f = "\<lparr>fr_type = H2_DATA, fr_flags = H2F_END_STREAM, fr_stream_id = st_id s, fr_payload = []\<rparr>"
    have "h2_next_data e s (hc_world c) ?room = Next s (hc_world c) [] True"
      using 1 unfolding nb next_body_def by (simp add: body_rest_def)
    moreover obtain k where "h2_send_data c s [] True = (charge c 0 k (wire ?f), s)"
      using send_data_all [of c s "[]" ?f True] "1.prems" by auto
    ultimately have "data_loop e c s = (charge c 0 k (wire ?f), close_response s)"
      using "1.prems" by (simp add: data_loop.simps [of e c s] close_response_def)
    moreover have "data_frames (st_id s) [?f] [] True" using "1.prems" by (simp add: data_frames_def frame_ok_def H2_MAX_FRAME_SIZE_def)
    moreover have "advance s 0 = s" by (simp add: advance_def)
    ultimately show ?thesis using 1 by (intro exI [of _ "[?f]"] exI [of _ k]) (simp add: allowed_def)
  next
    case 2
    then have "allowed c s = 0" "allowed c s \<noteq> length ?rest" by (auto simp: allowed_def)
    moreover have "data_loop e c s = (c, s)"
      using 2 "1.prems" unfolding data_loop.simps [of e c s] Let_def nb next_body_def by (simp add: body_rest_def)
    moreover have "charge c 0 (hc_calls c) [] = c" "advance s 0 = s" by (simp_all add: charge_def advance_def)
    moreover have "data_frames (st_id s) [] [] False" by (simp add: data_frames_def)
    ultimately show ?thesis by (intro exI [of _ "[]"] exI [of _ "hc_calls c"]) simp
  next
    case 3
    define n where "n = min (length ?rest) (frame_cap ?room)"
    let ?eof = "n = length ?rest"
    let ?f = "\<lparr>fr_type = H2_DATA, fr_flags = (if ?eof then H2F_END_STREAM else 0), fr_stream_id = st_id s, fr_payload = take n ?rest\<rparr>"
    have nn: "n \<le> nat ?room" "n \<le> length ?rest" "n \<le> H2_MAX_FRAME_SIZE" using 3 by (auto simp: frame_cap_def n_def)
    have len: "length (take n ?rest) = n" using nn by simp
    have fok: "frame_ok ?f" using nn "1.prems" by (simp add: frame_ok_def)
    have nx: "h2_next_data e s (hc_world c) ?room = Next (s\<lparr>st_body_off := st_body_off s + n\<rparr>) (hc_world c) (take n ?rest) ?eof"
      unfolding nb next_body_def Let_def using 3 "1.prems"(6) by (auto simp: body_rest_def n_def)
    obtain k where snd: "h2_send_data c (s\<lparr>st_body_off := st_body_off s + n\<rparr>) (take n ?rest) ?eof = (charge c n k (wire ?f), advance s n)"
      using send_data_all [of c "s\<lparr>st_body_off := st_body_off s + n\<rparr>" "take n ?rest" ?f ?eof] "1.prems" nn len
      by (auto simp: advance_def)
    have snd2: "(charge c n k (wire ?f), advance s n) = h2_send_data (c\<lparr>hc_world := hc_world c\<rparr>) (s\<lparr>st_body_off := st_body_off s + n\<rparr>) (take n ?rest) ?eof"
      using snd by simp
    have step: "data_loop e c s = (if ?eof then (charge c n k (wire ?f), close_response (advance s n)) else data_loop e (charge c n k (wire ?f)) (advance s n))"
      by (rule data_loop_step [OF _ _ nx]) (use "1.prems" 3 snd in \<open>simp_all add: charge_def\<close>)
    show ?thesis
    proof (cases ?eof)
      case True
      then have a: "allowed c s = length ?rest" using nn by (simp add: allowed_def)
      have "data_frames (st_id s) [?f] ?rest True" using True fok by (simp add: data_frames_def)
      then show ?thesis using step True a by (intro exI [of _ "[?f]"] exI [of _ k]) simp
    next
      case False
      let ?c = "charge c n k (wire ?f)" and ?s = "advance s n"
      have r: "body_rest ?s = drop n ?rest" by (simp add: body_rest_def advance_def add.commute)
      have a: "allowed c s = n + allowed ?c ?s"
        using room_split [OF nn(1,2)] unfolding allowed_def r by (simp add: charge_def advance_def)
      have p: "healthy ?c" "hc_error ?c = 0" "\<not> st_local_ended ?s" "plain_body ?s" "st_id ?s < 2 ^ 31"
        "st_body_off ?s \<le> length (strbuf_view (rs_body (st_res ?s)))"
        using "1.prems" nn by (simp_all add: healthy_def charge_def plain_body_def advance_def body_rest_def)
      obtain fs k' where fs: "data_frames (st_id ?s) fs (take (allowed ?c ?s) (body_rest ?s)) (allowed ?c ?s = length (body_rest ?s))"
          "data_loop e ?c ?s = (charge ?c (allowed ?c ?s) k' (concat (map wire fs)),
            (if allowed ?c ?s = length (body_rest ?s) then close_response (advance ?s (allowed ?c ?s)) else advance ?s (allowed ?c ?s)))"
        using "1.IH" [OF _ refl nx refl _ snd2, OF _ _ False _ p] "1.prems"(2,3) 3 p(2) by auto
      have "take n ?rest @ take (allowed ?c ?s) (body_rest ?s) = take (allowed c s) ?rest" unfolding a r take_add by simp
      moreover have "allowed ?c ?s = length (body_rest ?s) \<longleftrightarrow> allowed c s = length ?rest" unfolding a r using nn by auto
      moreover have "st_id ?s = st_id s" by (simp add: advance_def)
      ultimately have "data_frames (st_id s) (?f # fs) (take (allowed c s) ?rest) (allowed c s = length ?rest)"
        using data_frames_Cons [OF fs(1), of ?f] fok False by simp
      moreover have "data_loop e c s = (charge c (allowed c s) k' (concat (map wire (?f # fs))),
          (if allowed c s = length ?rest then close_response (advance s (allowed c s)) else advance s (allowed c s)))"
        using step False fs(2) \<open>allowed ?c ?s = length (body_rest ?s) \<longleftrightarrow> allowed c s = length ?rest\<close>
        unfolding a by (simp add: charge_charge advance_advance)
      ultimately show ?thesis by blast
    qed
  qed
qed

subsection \<open>Header blocks of responses\<close>

text \<open>The field of a header line, and the fields a response is sent with.\<close>

definition line_field :: "sv \<Rightarrow> (sv \<times> sv) option" where
  "line_field raw =
     (let line = (if length raw \<ge> 2 \<and> last raw = CR then butlast raw else raw); nl = sv_scan line (CHR '':'')
      in if nl > 0 \<and> nl < length line then Some (take nl line, sv_trim (drop (nl + 1) line)) else None)"

definition sent_field :: "sv \<Rightarrow> (sv \<times> sv) list" where
  "sent_field raw =
     (case line_field raw of
        Some (n, v) \<Rightarrow> if conn_spec_name n \<or> sv_ieq_str n ''content-length'' then [] else [(map tolower (take 256 n), v)]
      | None \<Rightarrow> [])"

definition dated :: "sv \<Rightarrow> bool" where
  "dated raw = (case line_field raw of Some (n, v) \<Rightarrow> sv_ieq_str n ''date'' | None \<Rightarrow> False)"

definition response_fields :: "int \<Rightarrow> http_response \<Rightarrow> (sv \<times> sv) list" where
  "response_fields now res =
     (let ls = sv_pieces (strbuf_view (rs_headers res)) LF
      in concat (map sent_field ls) @ (if list_ex dated ls then [] else [(''date'', sv_from_cstr (http_date_rfc7231 now 64))]))"

definition line_step :: "strbuf \<times> bool \<Rightarrow> sv \<Rightarrow> strbuf \<times> bool" where
  "line_step st raw = (encode_fields (fst st) (sent_field raw), snd st \<or> dated raw)"

lemma header_lines_unfold:
  "tx \<noteq> [] \<Longrightarrow> header_lines tx blk d =
     (case line_step (blk, d) (takeWhile (\<lambda>c. c \<noteq> LF) tx) of (blk', d') \<Rightarrow> header_lines (drop (length (takeWhile (\<lambda>c. c \<noteq> LF) tx) + 1) tx) blk' d')"
  by (simp add: header_lines.simps [of tx] line_step_def sent_field_def dated_def line_field_def encode_fields_def Let_def)

lemma header_lines_pieces: "header_lines tx blk d = foldl line_step (blk, d) (sv_pieces tx LF)"
proof (induction tx arbitrary: blk d rule: sv_pieces_induct [of _ LF])
  case Nil
  then show ?case by (simp add: header_lines.simps)
next
  case (absent s)
  then have tw: "takeWhile (\<lambda>c. c \<noteq> LF) s = s" by (auto simp: takeWhile_eq_all_conv)
  show ?case unfolding header_lines_unfold [OF absent(1)] tw using absent by (simp add: sv_pieces_absent header_lines.simps [of "[]"] split_beta)
next
  case (present a b)
  then have "takeWhile (\<lambda>c. c \<noteq> LF) (a @ LF # b) = a" by (simp add: takeWhile_append_stop)
  then show ?case using present by (simp add: header_lines_unfold sv_pieces_present split_beta)
qed

lemma line_steps: "foldl line_step (blk, d) ls = (encode_fields blk (concat (map sent_field ls)), d \<or> list_ex dated ls)"
  by (induction ls arbitrary: blk d) (simp_all add: line_step_def encode_fields_def)

lemma response_block_fields:
  "response_block now res = encode_fields (hpack_encode_status strbuf_init (rs_status res mod 2 ^ 16)) (response_fields now res)"
  unfolding response_block_def header_lines_pieces line_steps response_fields_def Let_def by (simp add: encode_fields_def)

text \<open>HEADERS and CONTINUATION frames of a stream that carry a block.\<close>

definition header_frames :: "nat \<Rightarrow> h2_frame list \<Rightarrow> sv \<Rightarrow> bool \<Rightarrow> bool" where
  "header_frames i fs blk ended \<longleftrightarrow>
     fs \<noteq> [] \<and> list_all (\<lambda>f. fr_stream_id f = i \<and> frame_ok f) fs \<and> concat (map fr_payload fs) = blk
     \<and> fr_type (hd fs) = H2_HEADERS \<and> list_all (\<lambda>f. fr_type f = H2_CONT) (tl fs)
     \<and> list_all (\<lambda>f. fr_flags f AND H2F_END_HEADERS = 0) (butlast fs) \<and> fr_flags (last fs) AND H2F_END_HEADERS \<noteq> 0
     \<and> (fr_flags (hd fs) AND H2F_END_STREAM \<noteq> 0) = ended \<and> list_all (\<lambda>f. fr_flags f AND H2F_END_STREAM = 0) (tl fs)"

text \<open>The frames of the rest of a block.\<close>

definition fragments :: "nat \<Rightarrow> h2_frame list \<Rightarrow> sv \<Rightarrow> nat \<Rightarrow> bool \<Rightarrow> bool" where
  "fragments i fs blk off ended \<longleftrightarrow>
     fs \<noteq> [] \<and> list_all (\<lambda>f. fr_stream_id f = i \<and> frame_ok f) fs \<and> concat (map fr_payload fs) = drop off blk
     \<and> fr_type (hd fs) = (if off = 0 then H2_HEADERS else H2_CONT) \<and> list_all (\<lambda>f. fr_type f = H2_CONT) (tl fs)
     \<and> list_all (\<lambda>f. fr_flags f AND H2F_END_HEADERS = 0) (butlast fs) \<and> fr_flags (last fs) AND H2F_END_HEADERS \<noteq> 0
     \<and> (fr_flags (hd fs) AND H2F_END_STREAM \<noteq> 0) = (off = 0 \<and> ended) \<and> list_all (\<lambda>f. fr_flags f AND H2F_END_STREAM = 0) (tl fs)"

lemma fragments_Cons:
  assumes "fragments i fs blk (off + n) es" "0 < n" "frame_ok f" "fr_stream_id f = i" "fr_payload f = take n (drop off blk)"
    and "fr_type f = (if off = 0 then H2_HEADERS else H2_CONT)" "fr_flags f AND H2F_END_HEADERS = 0"
    and "fr_flags f AND H2F_END_STREAM \<noteq> 0 \<longleftrightarrow> off = 0 \<and> es"
  shows "fragments i (f # fs) blk off es"
proof -
  obtain g gs where fs: "fs = g # gs" using assms(1) by (cases fs) (simp_all add: fragments_def)
  have "take n (drop off blk) @ drop (off + n) blk = drop off blk" by (metis add.commute append_take_drop_id drop_drop)
  then show ?thesis using assms unfolding fs fragments_def by (simp del: One_nat_def)
qed

lemma fragment_loop_all:
  assumes "healthy c" "i < 2 ^ 31" "off \<le> length blk"
  shows "\<exists>fs k. fragments i fs blk off es \<and> fragment_loop c i blk off es = (0, c\<lparr>hc_calls := k, hc_sent := hc_sent c @ concat (map wire fs)\<rparr>)"
  using assms
proof (induction c i blk off es rule: fragment_loop.induct)
  case (1 c i blk off es)
  define n where "n = min (length blk - off) H2_MAX_FRAME_SIZE"
  define last' where "last' \<longleftrightarrow> off + n = length blk"
  define f where "f = \<lparr>fr_type = (if off = 0 then H2_HEADERS else H2_CONT),
    fr_flags = (if last' then H2F_END_HEADERS else 0) OR (if off = 0 \<and> es then H2F_END_STREAM else 0), fr_stream_id = i, fr_payload = take n (drop off blk)\<rparr>"
  have fok: "frame_ok f" using "1.prems" by (auto simp: f_def frame_ok_def n_def)
  have flags: "fr_flags f AND H2F_END_HEADERS \<noteq> 0 \<longleftrightarrow> last'" "fr_flags f AND H2F_END_STREAM \<noteq> 0 \<longleftrightarrow> off = 0 \<and> es" by (auto simp: f_def)
  obtain k where snd: "h2_send_frame c (if off = 0 then H2_HEADERS else H2_CONT)
      ((if off + n = length blk then H2F_END_HEADERS else 0) OR (if off = 0 \<and> es then H2F_END_STREAM else 0)) i (take n (drop off blk))
      = (0, c\<lparr>hc_calls := k, hc_sent := hc_sent c @ wire f\<rparr>)"
    using send_frame_all [OF "1.prems"(1) fok] by (auto simp: f_def last'_def)
  let ?c = "c\<lparr>hc_calls := k, hc_sent := hc_sent c @ wire f\<rparr>"
  have step: "fragment_loop c i blk off es = (if off + n < length blk then fragment_loop ?c i blk (off + n) es else (0, ?c))"
    unfolding fragment_loop.simps [of c i blk off es] Let_def n_def [symmetric] snd by simp
  show ?case
  proof (cases "off + n < length blk")
    case True
    have n0: "0 < n" using True by (auto simp: n_def H2_MAX_FRAME_SIZE_def)
    have h: "healthy ?c" using "1.prems" by (simp add: healthy_def)
    obtain fs k' where fs: "fragments i fs blk (off + n) es"
        "fragment_loop ?c i blk (off + n) es = (0, ?c\<lparr>hc_calls := k', hc_sent := hc_sent ?c @ concat (map wire fs)\<rparr>)"
      using "1.IH" [OF refl refl refl refl, unfolded n_def [symmetric], OF snd [symmetric]] True h "1.prems" by auto
    have "fragments i (f # fs) blk off es"
      by (rule fragments_Cons [OF fs(1) n0 fok]) (use flags True in \<open>auto simp: f_def last'_def\<close>)
    then show ?thesis using step True fs(2) by (intro exI [of _ "f # fs"] exI [of _ k']) simp
  next
    case False
    then have "last'" "drop off blk = fr_payload f" using "1.prems" by (auto simp: last'_def n_def f_def)
    then have "fragments i [f] blk off es" using flags fok by (simp add: fragments_def) (simp add: f_def)
    then show ?thesis using step False by (intro exI [of _ "[f]"] exI [of _ k]) simp
  qed
qed

lemma response_block_decodes:
  assumes "rs_status res < 65536" "list_all Hpack.field_ok (response_fields now res)"
  shows "hpack_decode_block hp (strbuf_view (response_block now res)) = Decoded hp (('':status'', dec_of_nat (rs_status res)) # response_fields now res)"
  using hpack_decode_encoded [OF assms, of hp] assms(1) unfolding response_block_fields by simp

lemma header_block_all:
  assumes "healthy c" "i < 2 ^ 31" "blk \<noteq> []"
  shows "\<exists>fs k. header_frames i fs blk es \<and> h2_send_header_block c i blk es = (0, c\<lparr>hc_calls := k, hc_sent := hc_sent c @ concat (map wire fs)\<rparr>)"
proof -
  obtain fs k where "fragments i fs blk 0 es" "fragment_loop c i blk 0 es = (0, c\<lparr>hc_calls := k, hc_sent := hc_sent c @ concat (map wire fs)\<rparr>)"
    using fragment_loop_all [OF assms(1,2), of 0 blk es] by blast
  moreover have "fragments i fs blk 0 es = header_frames i fs blk es"
    by (simp only: fragments_def header_frames_def drop_0 simp_thms if_True)
  moreover have "length blk \<noteq> 0" using assms(3) by simp
  ultimately show ?thesis unfolding h2_send_header_block_def by (simp only: prod.case if_False simp_thms) (intro exI conjI, assumption, rule refl)
qed

text \<open>
  C21: A response on the wire. When the socket takes what it is offered, pumping a stream with a ready response sends, in this
  order, a header block that every HPACK decoder reads as the status and the fields of the response, and DATA frames that carry
  the longest prefix of the body both flow-control windows allow; both windows are charged exactly these bytes. END\_STREAM is set on the
  last frame if and only if the body went out completely.
\<close>

theorem h2_response_correct:
  assumes "healthy c" "hc_error c = 0" "st_open s" "st_response_ready s" "\<not> st_reset s" "\<not> st_local_ended s" "\<not> st_headers_sent s"
    and "plain_body s" "st_id s < 2 ^ 31" "rs_status (st_res s) < 65536" "list_all Hpack.field_ok (response_fields (env_now e) (st_res s))"
    and "body = strbuf_view (rs_body (st_res s))"
    and "n = (if head_is_last s then 0 else min (nat (min (hc_send_window c) (st_send_window s))) (length body))"
  shows "\<exists>hs ds blk c' s'. pump_stream e c s = (False, c', s')
    \<and> hc_sent c' = hc_sent c @ concat (map wire (hs @ ds))
    \<and> header_frames (st_id s) hs blk (head_is_last s)
    \<and> (\<forall>hp. hpack_decode_block hp blk = Decoded hp (('':status'', dec_of_nat (rs_status (st_res s))) # response_fields (env_now e) (st_res s)))
    \<and> (if head_is_last s then ds = [] else data_frames (st_id s) ds (take n body) (n = length body))
    \<and> hc_send_window c' = hc_send_window c - int n \<and> st_send_window s' = st_send_window s - int n
    \<and> st_local_ended s' = (head_is_last s \<or> n = length body) \<and> hc_error c' = 0"
proof -
  define blk where "blk = strbuf_view (response_block (env_now e) (st_res s))"
  have dec: "\<And>hp. hpack_decode_block hp blk = Decoded hp (('':status'', dec_of_nat (rs_status (st_res s))) # response_fields (env_now e) (st_res s))"
    unfolding blk_def by (rule response_block_decodes [OF assms(10,11)])
  then have "blk \<noteq> []" using dec [of hpack_init] by (auto simp: hpack_decode_block_def decode_loop.simps hp_finish_def)
  then obtain hs k where hs: "header_frames (st_id s) hs blk (head_is_last s)"
      "h2_send_header_block c (st_id s) blk (head_is_last s) = (0, c\<lparr>hc_calls := k, hc_sent := hc_sent c @ concat (map wire hs)\<rparr>)"
    using header_block_all [OF assms(1,9)] by blast
  let ?c = "c\<lparr>hc_calls := k, hc_sent := hc_sent c @ concat (map wire hs)\<rparr>" and ?s = "s\<lparr>st_headers_sent := True, st_body_off := 0\<rparr>"
  have pump: "pump_stream e c s = (False, if head_is_last s then (?c, close_response ?s) else data_loop e ?c ?s)"
    using assms hs(2) unfolding pump_stream_def Let_def blk_def [symmetric] close_response_def by simp
  show ?thesis
  proof (cases "head_is_last s")
    case True
    then show ?thesis using pump hs(1) dec assms(2,13)
      by (intro exI [of _ hs] exI [of _ "[]"] exI [of _ blk] exI [of _ ?c] exI [of _ "close_response ?s"]) (simp add: close_response_def h2_mark_response_done_def)
  next
    case False
    have r: "body_rest ?s = body" "allowed ?c ?s = n" using assms(12,13) False by (simp_all add: body_rest_def allowed_def)
    have p: "healthy ?c" "hc_error ?c = 0" "\<not> st_local_ended ?s" "plain_body ?s" "st_id ?s < 2 ^ 31" "st_body_off ?s \<le> length (strbuf_view (rs_body (st_res ?s)))"
      using assms by (simp_all add: healthy_def plain_body_def)
    obtain ds k' where "data_frames (st_id s) ds (take n body) (n = length body)"
        "data_loop e ?c ?s = (charge ?c n k' (concat (map wire ds)), if n = length body then close_response (advance ?s n) else advance ?s n)"
      using data_loop_plain [OF p, of e] unfolding r by auto
    then show ?thesis using pump hs(1) dec False assms(2,6)
      by (intro exI [of _ hs] exI [of _ ds] exI [of _ blk] exI [of _ "charge ?c n k' (concat (map wire ds))"]
          exI [of _ "if n = length body then close_response (advance ?s n) else advance ?s n"])
        (simp add: close_response_def h2_mark_response_done_def charge_def advance_def)
  qed
qed

text \<open>
  C23: Frames survive the wire. What \<open>h2_send_frame\<close> writes for a frame is what \<open>h2_frame_peek\<close> reads it from, whatever follows;
  discarding the frame leaves exactly what follows.
\<close>

theorem h2_frame_round_trip:
  assumes "healthy c" "frame_ok f" "h2_send_frame c (fr_type f) (fr_flags f) (fr_stream_id f) (fr_payload f) = (rc, c')"
    and "rb_inv (hc_rb d)" "rb_view (hc_rb d) = drop (length (hc_sent c)) (hc_sent c') @ r"
  shows "rc = 0 \<and> h2_frame_peek d = (Some f, d) \<and> rb_view (rb_discard (hc_rb d) (H2_FRAME_HDR + fr_len f)) = r"
proof -
  have "rc = 0" "hc_sent c' = hc_sent c @ wire f" using send_frame_all [OF assms(1,2)] assms(3) by auto
  moreover from this have v: "rb_view (hc_rb d) = wire f @ r" using assms(5) by simp
  moreover have "length (wire f) = H2_FRAME_HDR + fr_len f" by (simp add: wire_def frame_head_def H2_FRAME_HDR_def)
  ultimately show ?thesis using peek_wire [OF assms(2) v] rb_discard_facts [OF assms(4)] by simp
qed

text \<open>A stream with a response of two bytes, and a connection whose socket takes everything.\<close>

definition demo_conn :: "unit h2_conn" where
  "demo_conn = h2_conn_init (\<lambda>n. 100000) [] 0 [] 0 ()"

definition demo_stream :: h2_stream where
  "demo_stream = zero_stream\<lparr>st_id := 1, st_open := True, st_remote_ended := True, st_dispatched := True, st_response_ready := True,
     st_res := http_response_add_body http_response_init ''hi'', st_send_window := 1\<rparr>"

definition demo_env :: "unit h2_env" where
  "demo_env = \<lparr>env_handler = (\<lambda>req res w. (req, res, w)), env_gunzip = (\<lambda>d n. Inflate_Corrupt), env_stream = (\<lambda>fn u n w. ([], w)),
     env_max_inflated = 0, env_now = 0\<rparr>"

lemma demo_flow_facts: "healthy demo_conn" "hc_error demo_conn = 0" "plain_body demo_stream" "strbuf_view (rs_body (st_res demo_stream)) = ''hi''"
  "list_all Hpack.field_ok (response_fields now (st_res demo_stream))" "\<not> head_is_last demo_stream" "hc_send_window demo_conn = 65535" "hc_sent demo_conn = []"
proof -
  show "list_all Hpack.field_ok (response_fields now (st_res demo_stream))"
    using length_c_str_le [of "http_date_rfc7231 now 64"]
    by (simp add: response_fields_def demo_stream_def http_response_add_body_def http_response_init_def Hpack.field_ok_def
        HPACK_MAX_STRING_LEN_def sv_from_cstr_def http_date_rfc7231_def snprintf_str_def Let_def del: length_c_str_le)
qed (simp_all add: demo_conn_def demo_stream_def healthy_def h2_conn_init_def plain_body_def http_response_add_body_def http_response_init_def
    zero_stream_def H2_INITIAL_WINDOW_def view_simps head_is_last_def count_view strbuf_append_facts empty_request_def)

theorem h2_response_correct_witness:
  "\<exists>hs ds c' s'. pump_stream demo_env demo_conn demo_stream = (False, c', s') \<and> hc_sent c' = concat (map wire (hs @ ds))
     \<and> data_frames 1 ds ''h'' False \<and> hc_send_window c' = 65534 \<and> st_send_window s' = 0 \<and> \<not> st_local_ended s'"
proof -
  have s: "st_open demo_stream" "st_response_ready demo_stream" "\<not> st_reset demo_stream" "\<not> st_local_ended demo_stream" "\<not> st_headers_sent demo_stream"
    "st_id demo_stream = 1" "rs_status (st_res demo_stream) = 200" "st_send_window demo_stream = 1"
    by (simp_all add: demo_stream_def zero_stream_def http_response_add_body_def http_response_init_def)
  have p: "st_id demo_stream < 2 ^ 31" "rs_status (st_res demo_stream) < 65536"
    "1 = (if head_is_last demo_stream then 0 else min (nat (min (hc_send_window demo_conn) (st_send_window demo_stream))) (length ''hi''))"
    using s demo_flow_facts(6,7) by simp_all
  from h2_response_correct [OF demo_flow_facts(1,2) s(1-5) demo_flow_facts(3) p(1,2) demo_flow_facts(5) demo_flow_facts(4) [symmetric] p(3), of demo_env]
  show ?thesis using s demo_flow_facts(6-8) by auto
qed

theorem h2_frame_round_trip_witness:
  "h2_frame_peek (demo_conn\<lparr>hc_rb := rb_recv (rb_init 64) (wire \<lparr>fr_type = H2_PING, fr_flags = 0, fr_stream_id = 0, fr_payload = ''12345678''\<rparr> @ ''x'')\<rparr>)
     = (Some \<lparr>fr_type = H2_PING, fr_flags = 0, fr_stream_id = 0, fr_payload = ''12345678''\<rparr>,
        demo_conn\<lparr>hc_rb := rb_recv (rb_init 64) (wire \<lparr>fr_type = H2_PING, fr_flags = 0, fr_stream_id = 0, fr_payload = ''12345678''\<rparr> @ ''x'')\<rparr>)"
proof -
  let ?f = "\<lparr>fr_type = H2_PING, fr_flags = 0, fr_stream_id = 0, fr_payload = ''12345678''\<rparr>"
  have f: "frame_ok ?f" by (simp add: frame_ok_def H2_MAX_FRAME_SIZE_def)
  obtain k where k: "h2_send_frame demo_conn (fr_type ?f) (fr_flags ?f) (fr_stream_id ?f) (fr_payload ?f) = (0, demo_conn\<lparr>hc_calls := k, hc_sent := hc_sent demo_conn @ wire ?f\<rparr>)"
    using send_frame_all [OF demo_flow_facts(1) f] by blast
  have "rb_capacity (rb_init 64) = 64" "rb_count (rb_init 64) = 0" "length (wire ?f @ ''x'') \<le> 64"
    by (simp_all add: wire_def frame_head_def rb_init_def)
  then have "rb_inv (rb_recv (rb_init 64) (wire ?f @ ''x''))" "rb_view (rb_recv (rb_init 64) (wire ?f @ ''x'')) = wire ?f @ ''x''"
    using rb_recv_facts [OF rb_inv_init [of 64], of "wire ?f @ ''x''"] by simp_all
  then show ?thesis
    using h2_frame_round_trip [OF demo_flow_facts(1) f k, of "demo_conn\<lparr>hc_rb := rb_recv (rb_init 64) (wire ?f @ ''x'')\<rparr>" "''x''"] by (simp add: demo_flow_facts(8))
qed

end
