(* ===== verification/H2_Requests.thy ===== *)
theory H2_Requests
  imports H2_Connection
begin

text \<open>
  The request a header block stands for: what \<open>h2_request_from_block\<close> builds from the decoded fields, and what it
  makes of cookies that arrive in several fields.
\<close>

abbreviation is_te :: "sv \<times> sv \<Rightarrow> bool" where
  "is_te f \<equiv> sv_ieq_str (fst f) ''te''"

abbreviation is_length :: "sv \<times> sv \<Rightarrow> bool" where
  "is_length f \<equiv> sv_ieq_str (fst f) ''content-length''"

definition field_bytes :: "(sv \<times> sv) list \<Rightarrow> nat" where
  "field_bytes fs = sum_list (map (\<lambda>(n, v). length n + length v + 32) fs)"

text \<open>A field that may follow the pseudo-header fields.\<close>

definition regular_ok :: "sv \<times> sv \<Rightarrow> bool" where
  "regular_ok f \<longleftrightarrow> name_valid (fst f) \<and> \<not> conn_spec_name (fst f) \<and> (is_te f \<longrightarrow> sv_trim (snd f) = ''trailers'')
     \<and> (is_length f \<longrightarrow> (case sv_to_i64 (snd f) of None \<Rightarrow> False | Some k \<Rightarrow> 0 \<le> k))"

definition declared :: "(sv \<times> sv) list \<Rightarrow> int" where
  "declared fs = (case filter is_length fs of [] \<Rightarrow> -1 | f # _ \<Rightarrow> the (sv_to_i64 (snd f)))"

lemma te_not_length: "is_te f \<Longrightarrow> \<not> is_length f"
proof -
  have "length (c_str ''te'') \<noteq> length (c_str ''content-length'')" by code_simp
  then show "is_te f \<Longrightarrow> \<not> is_length f" by (auto simp: sv_ieq_str_def)
qed

lemma name_valid_not_pseudo: "name_valid n \<Longrightarrow> \<not> (length n > 0 \<and> n ! 0 = CHR '':'')"
proof -
  have "\<not> token_char (CHR '':'')" by code_simp
  then show "name_valid n \<Longrightarrow> \<not> (length n > 0 \<and> n ! 0 = CHR '':'')" by (cases n) (auto simp: name_valid_def)
qed

lemma trailers_ok: "sv_from_cstr ''trailers'' = ''trailers''"
  by code_simp

lemma scan_regulars:
  assumes "list_all regular_ok fs" "hd_list_bytes h + field_bytes fs \<le> H2_MAX_HEADER_LIST" "length (filter is_length fs) + (if hd_has_cl h then 1 else 0) \<le> 1"
  shows "scan_fields h fs = Some (h\<lparr>hd_pseudo_done := hd_pseudo_done h \<or> fs \<noteq> [], hd_list_bytes := hd_list_bytes h + field_bytes fs,
    hd_fields := hd_fields h @ filter (\<lambda>f. \<not> is_te f) fs, hd_has_cl := hd_has_cl h \<or> list_ex is_length fs,
    hd_clv := (if list_ex is_length fs then declared fs else hd_clv h)\<rparr>)"
  using assms
proof (induction fs arbitrary: h)
  case Nil
  then show ?case by (simp add: field_bytes_def)
next
  case (Cons f fs)
  obtain n v where f: "f = (n, v)" by (cases f)
  have ok: "name_valid n" "\<not> conn_spec_name n" "is_te f \<Longrightarrow> sv_trim v = ''trailers''" using Cons.prems(1) f by (auto simp: regular_ok_def)
  let ?h = "h\<lparr>hd_list_bytes := hd_list_bytes h + length n + length v + 32\<rparr>"
  have fb: "field_bytes (f # fs) = length n + length v + 32 + field_bytes fs" by (simp add: field_bytes_def f)
  then have s: "scan_field h f = scan_regular ?h n v"
    using Cons.prems(2) name_valid_not_pseudo [OF ok(1)] by (auto simp: scan_field_def f Let_def)
  consider (te) "is_te f" | (cl) "is_length f" "\<not> is_te f" | (other) "\<not> is_te f" "\<not> is_length f" by blast
  then show ?case
  proof cases
    case te
    have "scan_regular ?h n v = Some (?h\<lparr>hd_pseudo_done := True\<rparr>)"
      using ok te unfolding scan_regular_def Let_def by (simp add: f trailers_ok)
    then show ?thesis using Cons.IH [of "?h\<lparr>hd_pseudo_done := True\<rparr>"] Cons.prems te te_not_length [OF te] s fb by (simp add: declared_def add.assoc)
  next
    case cl
    obtain k where k: "sv_to_i64 v = Some k" "0 \<le> k" using Cons.prems(1) cl f by (auto simp: regular_ok_def split: option.splits)
    have none: "\<not> hd_has_cl h" "filter is_length fs = []" using Cons.prems(3) cl by (auto split: if_splits)
    let ?g = "?h\<lparr>hd_pseudo_done := True, hd_has_cl := True, hd_clv := k, hd_fields := hd_fields h @ [f]\<rparr>"
    have "scan_regular ?h n v = Some ?g"
      using ok cl k none unfolding scan_regular_def Let_def by (simp add: f)
    moreover have "\<not> list_ex is_length fs" using none(2) by (auto simp: list_ex_iff filter_empty_conv)
    ultimately show ?thesis using Cons.IH [of ?g] Cons.prems cl none k s fb f by (simp add: declared_def add.assoc)
  next
    case other
    let ?g = "?h\<lparr>hd_pseudo_done := True, hd_fields := hd_fields h @ [f]\<rparr>"
    have "scan_regular ?h n v = Some ?g" using ok other unfolding scan_regular_def Let_def by (simp add: f)
    then show ?thesis using Cons.IH [of ?g] Cons.prems other s fb by (simp add: declared_def add.assoc)
  qed
qed

text \<open>Staging without merging stores every field once, and the slots find it again.\<close>

definition stage_plain :: "h2_slot list \<times> sv \<Rightarrow> sv \<times> sv \<Rightarrow> h2_slot list \<times> sv" where
  "stage_plain st f = (fst st @ [(length (snd st), length (fst f), length (snd st) + length (fst f), length (snd f))], snd st @ fst f @ snd f)"

lemma resolve_append:
  "resolve_slots mem (a @ b) = (case resolve_slots mem a of None \<Rightarrow> None | Some x \<Rightarrow> map_option ((@) x) (resolve_slots mem b))"
proof (induction mem a rule: resolve_slots.induct)
  case (1 mem)
  then show ?case by (cases "resolve_slots mem b") simp_all
next
  case (2 mem no nl vo vl slots)
  then show ?case by (auto split: option.splits)
qed

lemma stage_plain_resolves:
  "\<exists>x. snd (foldl stage_plain (sl, st) fs) = st @ x
     \<and> (\<forall>extra. resolve_slots (st @ x @ extra) (fst (foldl stage_plain (sl, st) fs)) = map_option (\<lambda>hs. hs @ fs) (resolve_slots (st @ x @ extra) sl))"
proof (induction fs arbitrary: sl st)
  case Nil
  then show ?case by (simp add: option.map_ident)
next
  case (Cons f fs)
  let ?slot = "(length st, length (fst f), length st + length (fst f), length (snd f))"
  obtain x where x: "snd (foldl stage_plain (sl @ [?slot], st @ fst f @ snd f) fs) = (st @ fst f @ snd f) @ x"
      "\<And>extra. resolve_slots ((st @ fst f @ snd f) @ x @ extra) (fst (foldl stage_plain (sl @ [?slot], st @ fst f @ snd f) fs))
        = map_option (\<lambda>hs. hs @ fs) (resolve_slots ((st @ fst f @ snd f) @ x @ extra) (sl @ [?slot]))"
    using Cons.IH [of "sl @ [?slot]" "st @ fst f @ snd f"] by blast
  have "resolve_slots ((st @ fst f @ snd f) @ y) [?slot] = Some [f]" for y by (simp add: slice_def)
  then have "map_option (\<lambda>hs. hs @ fs) (resolve_slots ((st @ fst f @ snd f) @ y) (sl @ [?slot])) = map_option (\<lambda>hs. hs @ f # fs) (resolve_slots ((st @ fst f @ snd f) @ y) sl)" for y
    unfolding resolve_append by (simp split: option.split)
  moreover have "stage_plain (sl, st) f = (sl @ [?slot], st @ fst f @ snd f)" by (simp add: stage_plain_def)
  ultimately show ?case using x by (intro exI [of _ "fst f @ snd f @ x"]) simp
qed

lemma stage_fields_plain:
  assumes "length (filter is_cookie fs) \<le> 1"
  shows "stage_fields fs st = foldl stage_plain ([], st) fs"
proof -
  have "stage_field fs False = (\<lambda>x i. stage_plain x (fs ! i))" by (intro ext) (simp add: stage_field_def stage_plain_def split_beta Let_def)
  then have "stage_fields fs st = foldl (\<lambda>x i. stage_plain x (fs ! i)) ([], st) [0..<length fs]" using assms by (simp add: stage_fields_def)
  also have "\<dots> = foldl stage_plain ([], st) (map ((!) fs) [0..<length fs])" by (simp add: foldl_map)
  finally show ?thesis by (simp add: map_nth)
qed

lemma request_headers_plain:
  assumes "length (filter is_cookie (hd_fields h)) \<le> 1"
  shows "request_headers h = Some (hd_fields h @
    (if hd_authority h \<noteq> [] \<and> \<not> list_ex (\<lambda>f. sv_ieq_str (fst f) ''host'') (hd_fields h) then [(''host'', hd_authority h)] else []))"
proof -
  obtain x where x: "snd (foldl stage_plain ([], hd_path h) (hd_fields h)) = hd_path h @ x"
      "\<And>extra. resolve_slots (hd_path h @ x @ extra) (fst (foldl stage_plain ([], hd_path h) (hd_fields h))) = Some (hd_fields h)"
    using stage_plain_resolves [of "[]" "hd_path h" "hd_fields h"] by auto
  show ?thesis
    unfolding request_headers_def stage_fields_plain [OF assms] split_beta Let_def
    using x(1) x(2) [of "[]"] x(2) [of "''host'' @ hd_authority h"] by simp
qed

definition pseudo_fields :: "sv \<Rightarrow> sv \<Rightarrow> sv \<Rightarrow> sv \<Rightarrow> (sv \<times> sv) list" where
  "pseudo_fields meth scheme path authority = [('':method'', meth), ('':scheme'', scheme), ('':path'', path), ('':authority'', authority)]"

lemma pseudo_names:
  "list_all (\<lambda>n. list_all (\<lambda>c. token_char c \<and> \<not> isupper c) (drop 1 n)) ['':method'', '':scheme'', '':path'', '':authority'']"
  "sv_ieq_str '':method'' '':method''" "\<not> sv_ieq_str '':scheme'' '':method''" "sv_ieq_str '':scheme'' '':scheme''"
  "\<not> sv_ieq_str '':path'' '':method''" "\<not> sv_ieq_str '':path'' '':scheme''" "sv_ieq_str '':path'' '':path''"
  "\<not> sv_ieq_str '':authority'' '':method''" "\<not> sv_ieq_str '':authority'' '':scheme''" "\<not> sv_ieq_str '':authority'' '':path''" "sv_ieq_str '':authority'' '':authority''"
  by code_simp+

lemma scan_pseudos:
  assumes "field_bytes (pseudo_fields m sc p a) \<le> H2_MAX_HEADER_LIST"
  shows "scan_fields empty_head (pseudo_fields m sc p a @ fs) =
    scan_fields (empty_head\<lparr>hd_method := m, hd_scheme := sc, hd_path := p, hd_authority := a, hd_list_bytes := field_bytes (pseudo_fields m sc p a)\<rparr>) fs"
  using assms pseudo_names
  by (simp add: pseudo_fields_def scan_field_def scan_pseudo_def empty_head_def field_bytes_def Let_def del: One_nat_def)

lemma path_query:
  "p = path_part p @ (if CHR ''?'' \<in> set p then ''?'' @ query_part p else query_part p)" "CHR ''?'' \<notin> set (path_part p)"
proof -
  show "CHR ''?'' \<notin> set (path_part p)" by (auto simp: path_part_def dest: set_takeWhileD)
  show "p = path_part p @ (if CHR ''?'' \<in> set p then ''?'' @ query_part p else query_part p)"
  proof (cases "CHR ''?'' \<in> set p")
    case True
    then obtain x y where "p = x @ CHR ''?'' # y" "CHR ''?'' \<notin> set x" by (metis split_list_first)
    moreover from this have "path_part p = x" by (simp add: path_part_def takeWhile_append_stop)
    ultimately show ?thesis by (simp add: query_part_def)
  next
    case False
    then have "path_part p = p" unfolding path_part_def by (intro takeWhile_all) simp
    then show ?thesis using False by (simp add: query_part_def)
  qed
qed

definition method_ok :: "sv \<Rightarrow> bool" where
  "method_ok m \<longleftrightarrow> m \<noteq> [] \<and> \<not> sv_ieq_str m ''CONNECT''"


lemma demo_block:
  "hpack_decode_block hp [CHR 0x82, CHR 0x86, CHR 0x84, CHR 0x01, CHR 0x01, CHR ''a''] = Decoded hp (pseudo_fields ''GET'' ''http'' ''/'' ''a'' @ [])"
  by (simp add: decode_eval hpack_init_def pseudo_fields_def HPACK_STATIC_TABLE_def)


text \<open>
  Cookies in several fields: the merged field carries the first bytes of its own value as its name, so no cookie field
  is found any more.
\<close>

definition two_cookies :: h2_head where
  "two_cookies = empty_head\<lparr>hd_method := ''GET'', hd_scheme := ''http'', hd_path := ''/'', hd_fields := [(''cookie'', ''a=1''), (''cookie'', ''b=2'')]\<rparr>"

lemma h2_cookie_merge_misnamed: "request_headers two_cookies = Some [(''a=1; b'', ''a=1; b=2'')]"
  by code_simp

end
