(* ===== verification/H2_Safety.thy ===== *)
theory H2_Safety
  imports H2_Connection "HOL-Library.Multiset"
begin

text \<open>
  The state of an HTTP/2 connection stays consistent whatever the peer sends: an inductive step relation over the
  operations of the loop, and an invariant that every step keeps.
\<close>

definition stream_ok :: "nat \<Rightarrow> nat \<Rightarrow> bool \<Rightarrow> h2_stream \<Rightarrow> bool" where
  "stream_ok lst max_body noerr s \<longleftrightarrow>
     st_open s \<and> odd (st_id s) \<and> st_id s \<le> lst \<and> strbuf_inv (st_body s) \<and> sb_count (st_body s) \<le> max_body
     \<and> (noerr \<longrightarrow> st_reset s \<or> st_send_window s \<le> WINDOW_MAX) \<and> st_recv_window s \<le> int H2_INITIAL_WINDOW
     \<and> (st_dispatched s \<longrightarrow> st_remote_ended s) \<and> (st_response_ready s \<longrightarrow> st_dispatched s)
     \<and> (st_headers_sent s \<longrightarrow> st_dispatched s) \<and> (st_local_ended s \<longrightarrow> st_headers_sent s)"

definition streams_ok :: "'w h2_conn \<Rightarrow> h2_stream list \<Rightarrow> bool" where
  "streams_ok c ss \<longleftrightarrow> distinct (map st_id ss) \<and> length ss \<le> H2_MAX_CONCURRENT_STREAMS
     \<and> list_all (stream_ok (hc_last_stream_id c) (hc_max_body c) (hc_error c = 0)) ss"

definition core_ok :: "'w h2_conn \<Rightarrow> bool" where
  "core_ok c \<longleftrightarrow> 0 \<le> hc_recv_window c \<and> hc_recv_window c \<le> int H2_INITIAL_WINDOW
     \<and> 0 \<le> hc_send_window c \<and> (hc_error c = 0 \<longrightarrow> hc_send_window c \<le> WINDOW_MAX) \<and> int (hc_client_init_window c) \<le> WINDOW_MAX
     \<and> hpack_inv (hc_hpack c) \<and> strbuf_inv (hc_hb c) \<and> sb_count (hc_hb c) \<le> H2_HEADER_BLOCK_CAP"

definition conn_inv :: "'w h2_conn \<Rightarrow> bool" where
  "conn_inv c \<longleftrightarrow> core_ok c \<and> streams_ok c (hc_streams c)"

lemma stream_ok_mono: "stream_ok l m b s \<Longrightarrow> l \<le> l' \<Longrightarrow> (b' \<longrightarrow> b) \<Longrightarrow> stream_ok l' m b' s"
  by (auto simp: stream_ok_def)

text \<open>An operation that only writes and perhaps records an error.\<close>

definition quiet :: "'w h2_conn \<Rightarrow> 'w h2_conn \<Rightarrow> bool" where
  "quiet c c' \<longleftrightarrow> wire_only c c' \<and> (hc_error c' = 0 \<longrightarrow> hc_error c = 0)"

lemma send_frame_error: "hc_error (snd (h2_send_frame c ty fl i p)) = 0 \<Longrightarrow> hc_error c = 0"
  by (auto simp: h2_send_frame_def h2_write_def h2_conn_error_def split_beta split: if_splits)

lemma quiet_send: "quiet c (snd (h2_send_frame c ty fl i p))"
  unfolding quiet_def using wire_only_send send_frame_error by blast

lemma quiet_error: "quiet c (h2_conn_error c n)"
  by (simp add: quiet_def wire_only_error)

lemma quiet_refl: "quiet c c"
  by (simp add: quiet_def wire_only_refl)

lemma quiet_trans: "quiet a b \<Longrightarrow> quiet b c \<Longrightarrow> quiet a c"
  by (auto simp: quiet_def intro: wire_only_trans)

lemma quiet_streams: "quiet c c' \<Longrightarrow> streams_ok c ss \<Longrightarrow> streams_ok c' ss"
proof -
  assume q: "quiet c c'" and s: "streams_ok c ss"
  have "hc_last_stream_id c' = hc_last_stream_id c" "hc_max_body c' = hc_max_body c" "hc_error c' = 0 \<longrightarrow> hc_error c = 0"
    using q wire_only_keeps unfolding quiet_def by blast+
  then show "streams_ok c' ss" using s stream_ok_mono [OF _ order_refl] unfolding streams_ok_def list_all_iff by metis
qed

lemma quiet_core: "quiet c c' \<Longrightarrow> core_ok c \<Longrightarrow> core_ok c'"
proof -
  assume q: "quiet c c'" and s: "core_ok c"
  have "wire_only c c'" "hc_error c' = 0 \<longrightarrow> hc_error c = 0" using q by (simp_all add: quiet_def)
  then show "core_ok c'" using s by (simp add: core_ok_def wire_only_keeps)
qed

lemma quiet_inv: "quiet c c' \<Longrightarrow> conn_inv c \<Longrightarrow> conn_inv c'"
  using quiet_streams [of c c' "hc_streams c"] quiet_core [of c c'] wire_only_keeps(2) [of c c'] by (simp add: conn_inv_def quiet_def)

lemma quiet_rst: "quiet c (h2_send_stream_error c i n)"
  by (simp add: h2_send_stream_error_def quiet_send)

lemma rst_streams: "hc_streams (h2_send_stream_error c i n) = hc_streams c"
  by (simp add: h2_send_stream_error_def)

lemma quiet_header_block: "quiet c (snd (h2_send_header_block c i blk es))"
  by (rule header_block_rel [of quiet, OF quiet_send quiet_trans])

lemma quiet_window_update: "quiet c (window_update c i n)"
  by (simp add: window_update_def quiet_send)

lemmas quiet_invs = quiet_inv [OF quiet_send] quiet_inv [OF quiet_rst] quiet_inv [OF quiet_error] quiet_inv [OF quiet_window_update]

subsection \<open>One stream changes\<close>

lemma find_open_sound: "find_open ss i = Some k \<Longrightarrow> k < length ss \<and> st_open (ss ! k) \<and> st_id (ss ! k) = i"
  by (induction ss arbitrary: k) (auto split: if_splits)

lemma map_ids_update: "st_id s = st_id (ss ! k) \<Longrightarrow> k < length ss \<Longrightarrow> map st_id (ss[k := s]) = map st_id ss"
  by (simp add: map_update list_update_same_conv)

lemma put_stream_inv:
  assumes "conn_inv c" "k < length (hc_streams c)" "st_id s = st_id (hc_streams c ! k)"
    and "stream_ok (hc_last_stream_id c) (hc_max_body c) (hc_error c = 0) s"
  shows "conn_inv (put_stream c k s)"
proof -
  have "streams_ok c ((hc_streams c)[k := s])"
    using assms map_ids_update [OF assms(3,2)] set_update_subset_insert [of "hc_streams c" k s]
    unfolding conn_inv_def streams_ok_def list_all_iff by (auto dest!: subsetD)
  then show ?thesis using assms(1) unfolding conn_inv_def put_stream_def by (simp add: streams_ok_def core_ok_def)
qed

lemma nth_stream_ok: "conn_inv c \<Longrightarrow> k < length (hc_streams c) \<Longrightarrow> stream_ok (hc_last_stream_id c) (hc_max_body c) (hc_error c = 0) (hc_streams c ! k)"
  by (simp add: conn_inv_def streams_ok_def list_all_length)

lemma shift_windows_ok:
  "shift_windows d ss = (bad, ss') \<Longrightarrow> list_all (stream_ok l m b) ss \<Longrightarrow>
     map st_id ss' = map st_id ss \<and> list_all (stream_ok l m (\<not> bad)) ss'"
proof (induction d ss arbitrary: bad ss' rule: shift_windows.induct)
  case (2 d s ss)
  let ?s = "s\<lparr>st_send_window := st_send_window s + d\<rparr>"
  have o: "st_open s" "stream_ok l m b s" using "2.prems"(2) by (simp_all add: stream_ok_def)
  then have f: "stream_ok l m False ?s" by (simp add: stream_ok_def)
  obtain bad1 ss1 where r: "shift_windows d ss = (bad1, ss1)" by (metis surj_pair)
  show ?case
  proof (cases "st_send_window ?s > WINDOW_MAX")
    case True
    then have "bad" "ss' = ?s # ss" using "2.prems"(1) o by simp_all
    moreover have "list_all (stream_ok l m False) ss" using "2.prems"(2) by (auto simp: list_all_iff intro: stream_ok_mono)
    ultimately show ?thesis using f by simp
  next
    case False
    then have "bad = bad1" "ss' = ?s # ss1" using "2.prems"(1) o r by simp_all
    moreover have "stream_ok l m (\<not> bad1) ?s" using f False by (auto simp: stream_ok_def)
    moreover have "map st_id ss1 = map st_id ss \<and> list_all (stream_ok l m (\<not> bad1)) ss1"
      using "2.IH"(2) [OF _ refl False r] o "2.prems"(2) by simp
    ultimately show ?thesis by simp
  qed
qed simp

lemma apply_setting_inv:
  assumes "conn_inv c" "hc_error c = 0"
  shows "conn_inv (apply_setting c ident val)"
proof (cases "ident = 0x4 \<and> \<not> val > 0x7fffffff")
  case True
  obtain bad ss where sh: "shift_windows (int val - int (hc_client_init_window c)) (hc_streams c) = (bad, ss)" by (metis surj_pair)
  let ?c = "c\<lparr>hc_client_init_window := val, hc_streams := ss\<rparr>"
  have e: "apply_setting c ident val = (if bad then h2_conn_error ?c HE_FLOW else ?c)"
    using True sh by (simp add: apply_setting_def Let_def)
  have s: "list_all (stream_ok (hc_last_stream_id c) (hc_max_body c) (\<not> bad)) ss" "map st_id ss = map st_id (hc_streams c)"
    using shift_windows_ok [OF sh] assms(1) unfolding conn_inv_def streams_ok_def by blast+
  have len: "length ss = length (hc_streams c)" using s(2) by (metis length_map)
  have core: "core_ok (if bad then h2_conn_error ?c HE_FLOW else ?c)"
    using assms True unfolding conn_inv_def core_ok_def by (auto simp: WINDOW_MAX_def h2_conn_error_def)
  have "streams_ok (if bad then h2_conn_error ?c HE_FLOW else ?c) ss"
    using s len assms unfolding conn_inv_def streams_ok_def by (cases bad) (simp_all add: h2_conn_error_def)
  then show ?thesis using core unfolding e conn_inv_def by (cases bad) simp_all
next
  case False
  then show ?thesis using assms(1) quiet_invs(3) by (auto simp: apply_setting_def)
qed

lemma settings_loop_inv: "conn_inv c \<Longrightarrow> conn_inv (settings_loop c p)"
proof (induction c p rule: settings_loop.induct)
  case (1 c p)
  then show ?case by (simp add: settings_loop.simps [of c p] apply_setting_inv)
qed

lemma apply_settings_inv: "conn_inv c \<Longrightarrow> conn_inv (snd (h2_apply_settings c p))"
  by (simp add: h2_apply_settings_def settings_loop_inv quiet_invs Let_def)

lemma on_settings_inv: "conn_inv c \<Longrightarrow> conn_inv (h2_on_settings c f)"
proof -
  assume i: "conn_inv c"
  then have "conn_inv (c\<lparr>hc_got_client_settings := True\<rparr>)" by (simp add: conn_inv_def core_ok_def streams_ok_def)
  from apply_settings_inv [OF this] have "conn_inv (snd (h2_apply_settings (c\<lparr>hc_got_client_settings := True\<rparr>) (fr_payload f)))" .
  then show ?thesis using i by (simp add: h2_on_settings_def split_beta h2_settings_ack_def quiet_invs)
qed

lemma on_simple_inv:
  assumes "conn_inv c"
  shows "conn_inv (h2_on_priority c f)" "conn_inv (h2_on_ping c f)" "conn_inv (h2_on_goaway c f)"
proof -
  have "conn_inv (c\<lparr>hc_client_goaway := True, hc_client_goaway_last := n\<rparr>)" for n
    using assms by (simp add: conn_inv_def core_ok_def streams_ok_def)
  then show "conn_inv (h2_on_priority c f)" "conn_inv (h2_on_ping c f)" "conn_inv (h2_on_goaway c f)"
    using assms by (simp_all add: h2_on_priority_def h2_on_ping_def h2_on_goaway_def quiet_invs)
qed

lemma on_rst_inv:
  assumes "conn_inv c"
  shows "conn_inv (h2_on_rst c f)"
proof (cases "h2_find_stream c (fr_stream_id f)")
  case (Some si)
  then have k: "si < length (hc_streams c)" using find_open_sound by (auto simp: h2_find_stream_def)
  have "conn_inv (put_stream c si ((hc_streams c ! si)\<lparr>st_reset := True\<rparr>))"
    using nth_stream_ok [OF assms k] by (intro put_stream_inv [OF assms k]) (auto simp: stream_ok_def)
  then show ?thesis using assms Some by (simp add: h2_on_rst_def quiet_invs)
qed (use assms in \<open>simp add: h2_on_rst_def quiet_invs\<close>)

lemma on_window_inv:
  assumes "conn_inv c"
  shows "conn_inv (h2_on_window c f)"
proof -
  define inc where "inc = rd32 (fr_payload f) AND 0x7fffffff"
  let ?c = "c\<lparr>hc_send_window := hc_send_window c + int inc\<rparr>"
  have conn: "conn_inv (if hc_send_window ?c > WINDOW_MAX then h2_conn_error ?c HE_FLOW else ?c)"
    using assms by (auto simp: conn_inv_def core_ok_def streams_ok_def h2_conn_error_def list_all_iff intro: stream_ok_mono)
  have str: "conn_inv (if st_reset (hc_streams c ! si) then c
      else if st_send_window (hc_streams c ! si) + int inc > WINDOW_MAX
      then put_stream (h2_send_stream_error c (st_id (hc_streams c ! si)) HE_FLOW) si ((hc_streams c ! si)\<lparr>st_send_window := st_send_window (hc_streams c ! si) + int inc, st_reset := True\<rparr>)
      else put_stream c si ((hc_streams c ! si)\<lparr>st_send_window := st_send_window (hc_streams c ! si) + int inc\<rparr>))"
    if "h2_find_stream c (fr_stream_id f) = Some si" for si
  proof -
    let ?s = "hc_streams c ! si" and ?d = "h2_send_stream_error c (st_id (hc_streams c ! si)) HE_FLOW"
    have k: "si < length (hc_streams c)" using that find_open_sound by (auto simp: h2_find_stream_def)
    have ok: "stream_ok (hc_last_stream_id c) (hc_max_body c) (hc_error c = 0) ?s" by (rule nth_stream_ok [OF assms k])
    have same: "hc_streams ?d = hc_streams c" "conn_inv ?d" using assms by (simp_all add: h2_send_stream_error_def quiet_invs)
    have ok2: "stream_ok (hc_last_stream_id ?d) (hc_max_body ?d) (hc_error ?d = 0) ?s" using nth_stream_ok [OF same(2), of si] same(1) k by simp
    have "conn_inv (put_stream ?d si (?s\<lparr>st_send_window := st_send_window ?s + int inc, st_reset := True\<rparr>))"
      using ok2 k same by (intro put_stream_inv) (auto simp: stream_ok_def)
    moreover have "conn_inv (put_stream c si (?s\<lparr>st_send_window := st_send_window ?s + int inc\<rparr>))" if "\<not> st_send_window ?s + int inc > WINDOW_MAX"
      using ok k that assms by (intro put_stream_inv) (auto simp: stream_ok_def)
    ultimately show ?thesis using assms by simp
  qed
  show ?thesis
  proof (cases "h2_find_stream c (fr_stream_id f)")
    case (Some si)
    then show ?thesis using conn str [OF Some] quiet_invs(2,3) [OF assms] unfolding h2_on_window_def Let_def inc_def [symmetric] by (simp split: if_splits)
  qed (use conn assms in \<open>simp add: h2_on_window_def Let_def inc_def [symmetric] quiet_invs\<close>)
qed

subsection \<open>Data\<close>

lemma append_body_ok: "strbuf_inv b \<Longrightarrow> sb_count b + length d \<le> n \<Longrightarrow> strbuf_inv (strbuf_append b d) \<and> sb_count (strbuf_append b d) \<le> n"
  using strbuf_append_facts [of b d] count_view [of b] count_view [of "strbuf_append b d"] by auto

lemma stream_data_inv:
  assumes i: "conn_inv c" and k: "si < length (hc_streams c)"
  shows "conn_inv (stream_data c f si data)"
proof -
  define s where "s = hc_streams c ! si"
  have ok: "stream_ok (hc_last_stream_id c) (hc_max_body c) (hc_error c = 0) s" using nth_stream_ok [OF i k] by (simp add: s_def)
  have put: "conn_inv (put_stream c si t)" if "st_id t = st_id s" "stream_ok (hc_last_stream_id c) (hc_max_body c) (hc_error c = 0) t" for t
    using that by (intro put_stream_inv [OF i k]) (simp_all add: s_def)
  have rst: "conn_inv (put_stream (h2_send_stream_error c n m) si t)"
    if t: "st_id t = st_id s" "stream_ok (hc_last_stream_id c) (hc_max_body c) True t" for t n m
  proof (rule put_stream_inv [OF quiet_invs(2) [OF i]])
    show "stream_ok (hc_last_stream_id (h2_send_stream_error c n m)) (hc_max_body (h2_send_stream_error c n m)) (hc_error (h2_send_stream_error c n m) = 0) t"
      using t(2) by (auto simp: h2_send_stream_error_def stream_ok_def)
  qed (use t k in \<open>simp_all add: h2_send_stream_error_def s_def\<close>)
  show ?thesis
  proof (cases "st_remote_ended s")
    case True
    have "stream_ok (hc_last_stream_id c) (hc_max_body c) True (s\<lparr>st_reset := True\<rparr>)" using ok by (simp add: stream_ok_def)
    then show ?thesis using True rst by (simp add: stream_data_def s_def [symmetric] Let_def)
  next
    case False
    define t where "t = (let s1 = s\<lparr>st_req_bytes := st_req_bytes s + length data\<rparr>
      in if st_body_too_big s1 then s1 else if sb_count (st_body s1) + length data > hc_max_body c then s1\<lparr>st_body_too_big := True\<rparr>
         else s1\<lparr>st_body := strbuf_append (st_body s1) data\<rparr>)"
    have t: "stream_ok (hc_last_stream_id c) (hc_max_body c) (hc_error c = 0) t" "st_id t = st_id s"
      using ok append_body_ok [of "st_body s" data "hc_max_body c"] by (auto simp: t_def Let_def stream_ok_def)
    have nd: "\<not> st_dispatched t" using ok False by (auto simp: t_def Let_def stream_ok_def)
    have e: "stream_ok (hc_last_stream_id c) (hc_max_body c) (hc_error c = 0) (t\<lparr>st_remote_ended := True\<rparr>)"
      "stream_ok (hc_last_stream_id c) (hc_max_body c) True (t\<lparr>st_remote_ended := True, st_reset := True\<rparr>)"
      using t nd by (auto simp: stream_ok_def)
    have "stream_data c f si data = (if fr_flags f AND H2F_END_STREAM \<noteq> 0 then
        if rq_content_length (st_req t) \<ge> 0 \<and> int (st_req_bytes t) \<noteq> rq_content_length (st_req t)
        then put_stream (h2_send_stream_error c (st_id t) HE_PROTOCOL) si (t\<lparr>st_remote_ended := True, st_reset := True\<rparr>)
        else put_stream c si (t\<lparr>st_remote_ended := True\<rparr>)
      else put_stream c si t)"
      using False unfolding stream_data_def s_def [symmetric] Let_def t_def by simp
    then show ?thesis using put [of t] put [of "t\<lparr>st_remote_ended := True\<rparr>"] rst [of "t\<lparr>st_remote_ended := True, st_reset := True\<rparr>"] t e by simp
  qed
qed

lemma on_data_inv:
  assumes i: "conn_inv c"
  shows "conn_inv (h2_on_data c f)"
proof (cases "strip_padding f")
  case (Some data)
  show ?thesis
  proof (cases "fr_stream_id f = 0 \<or> int (fr_len f) > hc_recv_window c mod 2 ^ 64")
    case True
    then show ?thesis using i Some by (auto simp: h2_on_data_def quiet_invs)
  next
    case False
    let ?n = "fr_len f"
    define c1 where "c1 = window_update (c\<lparr>hc_recv_window := hc_recv_window c - int ?n\<rparr>) 0 ?n"
    have "0 \<le> hc_recv_window c" "hc_recv_window c \<le> 65535" using i by (auto simp: conn_inv_def core_ok_def H2_INITIAL_WINDOW_def)
    then have "int ?n \<le> hc_recv_window c" using False by simp
    then have "conn_inv (c\<lparr>hc_recv_window := hc_recv_window c - int ?n\<rparr>)" using i by (simp add: conn_inv_def core_ok_def streams_ok_def)
    then have i1: "conn_inv c1" unfolding c1_def by (rule quiet_invs)
    show ?thesis
    proof (cases "h2_find_stream c1 (fr_stream_id f)")
      case None
      then show ?thesis using False Some i1 by (simp add: h2_on_data_def c1_def [symmetric] Let_def quiet_invs)
    next
      case (Some si)
      define s where "s = hc_streams c1 ! si"
      define s1 where "s1 = s\<lparr>st_recv_window := st_recv_window s - int ?n\<rparr>"
      have k: "si < length (hc_streams c1)" using Some find_open_sound by (auto simp: h2_find_stream_def)
      have ok: "stream_ok (hc_last_stream_id c1) (hc_max_body c1) (hc_error c1 = 0) s" using nth_stream_ok [OF i1 k] by (simp add: s_def)
      have a: "conn_inv (put_stream (h2_send_stream_error c1 (st_id s) HE_FLOW) si (s1\<lparr>st_reset := True\<rparr>))"
        using ok k by (intro put_stream_inv [OF quiet_invs(2) [OF i1]]) (auto simp: h2_send_stream_error_def s_def s1_def stream_ok_def)
      have "conn_inv (put_stream c1 si s1)" using ok k by (intro put_stream_inv [OF i1]) (auto simp: s_def s1_def stream_ok_def)
      then have b: "conn_inv (stream_data (window_update (put_stream c1 si s1) (st_id s) ?n) f si data)"
        using k by (intro stream_data_inv quiet_invs) (simp_all add: window_update_def put_stream_def)
      have "h2_on_data c f = (if st_reset s then c1 else if int ?n > st_recv_window s
          then put_stream (h2_send_stream_error c1 (st_id s) HE_FLOW) si (s1\<lparr>st_reset := True\<rparr>)
          else stream_data (window_update (put_stream c1 si s1) (st_id s) ?n) f si data)"
        using False Some \<open>strip_padding f = Some data\<close> unfolding h2_on_data_def Let_def c1_def [symmetric] by (simp add: s_def s1_def)
      then show ?thesis using i1 a b by simp
    qed
  qed
qed (use i in \<open>simp add: h2_on_data_def quiet_invs\<close>)

subsection \<open>Header blocks\<close>

lemma decode_block_inv: "hpack_inv hp \<Longrightarrow> hpack_decode_block hp data = Decoded hp' fs \<Longrightarrow> hpack_inv hp'"
  using decode_loop_inv by (auto simp: hpack_decode_block_def split: hp_result.splits)

lemma grow_inv: "conn_inv (grow_streams c n) = conn_inv c"
  by (simp add: grow_streams_def conn_inv_def core_ok_def streams_ok_def)

lemma open_stream_inv:
  assumes i: "conn_inv c" and n: "odd n" "hc_last_stream_id c < n" and s: "stream_ok n (hc_max_body c) (hc_error c = 0) s" "st_id s = n"
    and c': "c' = c\<lparr>hc_streams := hc_streams c @ [s], hc_last_stream_id := n\<rparr>"
  shows "conn_inv (if length (hc_streams c') > H2_MAX_CONCURRENT_STREAMS
     then (h2_send_stream_error c' n HE_REFUSED)\<lparr>hc_streams := h2_free_stream (hc_streams c') (length (hc_streams c') - 1)\<rparr> else c')"
proof -
  have core: "core_ok c'" using i by (simp add: c' conn_inv_def core_ok_def)
  have old: "distinct (map st_id (hc_streams c))" "list_all (stream_ok n (hc_max_body c) (hc_error c = 0)) (hc_streams c)" "length (hc_streams c) \<le> H2_MAX_CONCURRENT_STREAMS"
    using i n(2) stream_ok_mono [of "hc_last_stream_id c" _ _ _ n] unfolding conn_inv_def streams_ok_def list_all_iff by (auto intro: less_imp_le)
  have new: "n \<notin> st_id ` set (hc_streams c)" using i n(2) by (auto simp: conn_inv_def streams_ok_def list_all_iff stream_ok_def)
  show ?thesis
  proof (cases "length (hc_streams c') > H2_MAX_CONCURRENT_STREAMS")
    case True
    have b: "h2_free_stream (hc_streams c') (length (hc_streams c') - 1) = hc_streams c" by (simp add: h2_free_stream_def c')
    have "quiet c' (h2_send_stream_error c' n HE_REFUSED)" by (rule quiet_rst)
    moreover have "streams_ok c' (hc_streams c)" using old by (simp add: streams_ok_def c')
    ultimately have "streams_ok (h2_send_stream_error c' n HE_REFUSED) (hc_streams c)" "core_ok (h2_send_stream_error c' n HE_REFUSED)"
      using core quiet_streams quiet_core by blast+
    then show ?thesis using True unfolding b by (simp add: conn_inv_def core_ok_def streams_ok_def)
  next
    case False
    have "streams_ok c' (hc_streams c')" using old new s False by (simp add: streams_ok_def c')
    then show ?thesis using False core by (simp add: conn_inv_def)
  qed
qed

lemma finish_inv:
  assumes i: "conn_inv c"
  shows "conn_inv (h2_on_header_block_finish c n es blk)"
proof (cases "n AND 1 = 0 \<or> hc_client_goaway c \<and> n > hc_client_goaway_last c \<or> n \<le> hc_last_stream_id c \<or> h2_find_stream c n \<noteq> None")
  case True
  then show ?thesis using i by (auto simp: h2_on_header_block_finish_def quiet_invs)
next
  case False
  let ?c = "grow_streams c 16" and ?s = "zero_stream\<lparr>st_id := n, st_open := True, st_remote_ended := es\<rparr>"
  have g: "conn_inv ?c" "hc_last_stream_id ?c = hc_last_stream_id c" using i by (simp_all add: grow_inv) (simp add: grow_streams_def)
  have hp: "conn_inv (?c\<lparr>hc_hpack := hp\<rparr>)" if "hpack_decode_block (hc_hpack ?c) blk = Decoded hp fs" for hp fs
    using g(1) decode_block_inv [OF _ that] by (simp add: conn_inv_def core_ok_def streams_ok_def)
  have odd: "odd n" using False by (simp add: even_iff_mod_2_eq_zero and_one_eq)
  note r = block_result_cases [of ?c blk ?s]
  have f: "h2_on_header_block_finish c n es blk = (case h2_request_from_block ?c blk ?s of
      Block_Conn_Error c2 \<Rightarrow> c2 | Block_Malformed c2 \<Rightarrow> h2_send_stream_error c2 n HE_PROTOCOL | Block_Undefined \<Rightarrow> ?c\<lparr>hc_undef := True\<rparr>
    | Block_Ok c2 s2 \<Rightarrow> let c3 = c2\<lparr>hc_streams := hc_streams c2 @ [s2], hc_last_stream_id := n\<rparr> in
        if length (hc_streams c3) > H2_MAX_CONCURRENT_STREAMS
        then let c4 = h2_send_stream_error c3 n HE_REFUSED in c4\<lparr>hc_streams := h2_free_stream (hc_streams c4) (length (hc_streams c4) - 1)\<rparr> else c3)"
    using False unfolding h2_on_header_block_finish_def Let_def de_Morgan_disj by (simp only: if_False simp_thms)
  show ?thesis
  proof (cases "h2_request_from_block ?c blk ?s")
    case (Block_Ok c2 s2)
    then obtain hp fs req where b: "hpack_decode_block (hc_hpack ?c) blk = Decoded hp fs" "c2 = ?c\<lparr>hc_hpack := hp\<rparr>"
        "s2 = ?s\<lparr>st_req := req, st_body := strbuf_init, st_recv_window := int H2_INITIAL_WINDOW, st_send_window := int (hc_client_init_window ?c)\<rparr>"
      using r by auto
    have c2: "conn_inv c2" "hc_last_stream_id c2 < n" "hc_client_init_window c2 = hc_client_init_window ?c" using hp [OF b(1)] b(2) g(2) False by simp_all
    have "int (hc_client_init_window ?c) \<le> WINDOW_MAX" using c2 by (simp add: conn_inv_def core_ok_def)
    then have "stream_ok n (hc_max_body c2) (hc_error c2 = 0) s2" "st_id s2 = n"
      using odd by (simp_all add: b(3) stream_ok_def zero_stream_def strbuf_init_def strbuf_inv_def)
    from open_stream_inv [OF c2(1) odd c2(2) this refl] show ?thesis unfolding f Block_Ok Let_def block_result.case rst_streams .
  next
    case (Block_Malformed c2)
    then show ?thesis unfolding f using r hp by (auto simp: quiet_invs)
  next
    case (Block_Conn_Error c2)
    then show ?thesis unfolding f using r g by (auto simp: quiet_invs)
  next
    case Block_Undefined
    then show ?thesis unfolding f using g(1) by (simp add: conn_inv_def core_ok_def streams_ok_def)
  qed
qed

text \<open>Starting to collect a block, or emptying it, keeps the invariant.\<close>

lemma strbuf_reset: "strbuf_inv b \<Longrightarrow> strbuf_inv (b\<lparr>sb_count := 0\<rparr>) \<and> sb_count (b\<lparr>sb_count := 0\<rparr>) = 0"
  by (simp add: strbuf_inv_def)

lemma end_block_inv: "conn_inv c \<Longrightarrow> conn_inv (end_block c)"
  using strbuf_reset [of "hc_hb c"] by (simp add: conn_inv_def core_ok_def streams_ok_def end_block_def)

lemma begin_block_inv:
  "conn_inv c \<Longrightarrow> conn_inv (c\<lparr>hc_hb_stream := i, hc_hb_end_stream := es, hc_hb_abort := a, hc_hb := (hc_hb c)\<lparr>sb_count := 0\<rparr>\<rparr>)"
  using strbuf_reset [of "hc_hb c"] by (simp add: conn_inv_def core_ok_def streams_ok_def)

lemma collect_inv:
  "conn_inv c \<Longrightarrow> sb_count (hc_hb c) + length p \<le> H2_HEADER_BLOCK_CAP \<Longrightarrow> conn_inv (c\<lparr>hc_hb := strbuf_append (hc_hb c) p\<rparr>)"
  using append_body_ok [of "hc_hb c" p H2_HEADER_BLOCK_CAP] by (simp add: conn_inv_def core_ok_def streams_ok_def)

lemma on_headers_start_inv:
  assumes "conn_inv c"
  shows "conn_inv (h2_on_headers_start c f)"
proof -
  define c1 where "c1 = c\<lparr>hc_hb_stream := fr_stream_id f, hc_hb_end_stream := (fr_flags f AND H2F_END_STREAM \<noteq> 0), hc_hb_abort := False,
    hc_hb := (hc_hb c)\<lparr>sb_count := 0\<rparr>\<rparr>"
  have i: "conn_inv c1" unfolding c1_def by (rule begin_block_inv [OF assms])
  have z: "sb_count (hc_hb c1) = 0" by (simp add: c1_def)
  have p: "conn_inv (c1\<lparr>hc_hb := strbuf_append (hc_hb c1) (take (length q - pad) q)\<rparr>)" if "\<not> length q - pad > H2_HEADER_BLOCK_CAP" for q pad
    by (rule collect_inv [OF i]) (use that z in simp)
  define pad where "pad = (if fr_flags f AND H2F_PADDED \<noteq> 0 then ucode (fr_payload f ! 0) else 0)"
  define r where "r = (if fr_flags f AND H2F_PADDED \<noteq> 0 then drop 1 (fr_payload f) else fr_payload f)"
  define q where "q = (if fr_flags f AND H2F_PRIORITY \<noteq> 0 then drop 5 r else r)"
  define c2 where "c2 = c1\<lparr>hc_hb := strbuf_append (hc_hb c1) (take (length q - pad) q)\<rparr>"
  have i2: "conn_inv c2" if "\<not> length q - pad > H2_HEADER_BLOCK_CAP" using p [OF that] by (simp only: c2_def)
  have "h2_on_headers_start c f = (if fr_stream_id f = 0 then h2_conn_error c HE_PROTOCOL
      else if fr_flags f AND H2F_PADDED \<noteq> 0 \<and> fr_len f < 1 then h2_conn_error c1 HE_PROTOCOL
      else if fr_flags f AND H2F_PRIORITY \<noteq> 0 \<and> length r < 5 then h2_conn_error c1 HE_PROTOCOL
      else if pad > length q then h2_conn_error c1 HE_PROTOCOL
      else if length q - pad > H2_HEADER_BLOCK_CAP then h2_conn_error c1 HE_CALM
      else if fr_flags f AND H2F_END_HEADERS \<noteq> 0
      then h2_on_header_block_finish (end_block c2) (hc_hb_stream c2) (hc_hb_end_stream c2) (strbuf_view (hc_hb c2)) else c2)"
    unfolding h2_on_headers_start_def c1_def [symmetric] Let_def pad_def [symmetric] r_def [symmetric] q_def [symmetric] c2_def [symmetric] ..
  then show ?thesis using assms i i2 by (simp add: quiet_invs finish_inv end_block_inv)
qed

lemma on_cont_inv:
  assumes "conn_inv c"
  shows "conn_inv (h2_on_cont c f)"
proof -
  define c1 where "c1 = (if \<not> hc_hb_abort c \<and> sb_count (hc_hb c) + fr_len f > H2_HEADER_BLOCK_CAP
      then h2_send_stream_error (c\<lparr>hc_hb_abort := True\<rparr>) (fr_stream_id f) HE_CANCEL else c)"
  define c2 where "c2 = (if \<not> hc_hb_abort c1 then c1\<lparr>hc_hb := strbuf_append (hc_hb c1) (fr_payload f)\<rparr> else c1)"
  have "conn_inv (c\<lparr>hc_hb_abort := True\<rparr>)" using assms(1) by (simp add: conn_inv_def core_ok_def streams_ok_def)
  then have i: "conn_inv c1" using assms by (simp add: c1_def quiet_invs)
  have "\<not> hc_hb_abort c1 \<Longrightarrow> sb_count (hc_hb c1) + length (fr_payload f) \<le> H2_HEADER_BLOCK_CAP"
    by (auto simp: c1_def h2_send_stream_error_def split: if_splits)
  then have "conn_inv c2" using i collect_inv [OF i, of "fr_payload f"] by (simp add: c2_def)
  then show ?thesis using assms(1) unfolding h2_on_cont_def Let_def c1_def [symmetric] c2_def [symmetric]
    by (simp add: quiet_invs finish_inv end_block_inv)
qed

lemma process_frame_inv:
  assumes "conn_inv c"
  shows "conn_inv (h2_process_frame c f)"
  using assms by (simp add: h2_process_frame_def on_data_inv on_headers_start_inv on_cont_inv on_simple_inv on_rst_inv on_settings_inv on_window_inv quiet_invs)

subsection \<open>Serving\<close>

lemma dispatch_stream_ok:
  assumes "stream_ok l m b s"
  shows "st_id (snd (dispatch_stream e mb w s)) = st_id s \<and> stream_ok l m b (snd (dispatch_stream e mb w s))"
proof -
  have o: "stream_ok l m b (s\<lparr>st_body := strbuf_init, st_req := q\<rparr>)" "stream_ok l m b (s\<lparr>st_req := q\<rparr>)" for q
    using assms by (simp_all add: stream_ok_def strbuf_init_def strbuf_inv_def)
  have d: "st_id (snd (h2_dispatch e w t)) = st_id t \<and> stream_ok l m b (snd (h2_dispatch e w t))" if "stream_ok l m b t" "st_remote_ended t" for t
    using that by (simp add: h2_dispatch_def stream_ok_def split_beta)
  have y: "st_id (s\<lparr>st_dispatched := True, st_res := r, st_response_ready := True\<rparr>) = st_id s
      \<and> stream_ok l m b (s\<lparr>st_dispatched := True, st_res := r, st_response_ready := True\<rparr>)" if "st_remote_ended s" for r
    using assms that by (simp add: stream_ok_def)
  have x: "st_id (h2_direct_error s n) = st_id s \<and> stream_ok l m b (h2_direct_error s n)" if "st_remote_ended s" for n
    unfolding h2_direct_error_def by (rule y [OF that])
  define zipped where "zipped \<longleftrightarrow> header_has_token (st_req s) ''content-encoding'' ''gzip'' \<or> header_has_token (st_req s) ''content-encoding'' ''x-gzip''"
  show ?thesis
  proof (cases "st_remote_ended s")
    case True
    then show ?thesis using assms unfolding dispatch_stream_def Let_def zipped_def [symmetric]
      by (cases "env_gunzip e (strbuf_view (st_body s)) (env_max_inflated e)") (simp_all add: d o x)
  qed (simp add: dispatch_stream_def assms)
qed

lemma dispatch_streams_ok:
  "list_all (stream_ok l m b) ss \<Longrightarrow>
     map st_id (snd (dispatch_streams e mb w ss)) = map st_id ss \<and> list_all (stream_ok l m b) (snd (dispatch_streams e mb w ss))"
proof (induction ss arbitrary: w)
  case (Cons s ss)
  then show ?case using dispatch_stream_ok [of l m b s e mb w] by (simp add: split_beta)
qed simp

lemma dispatch_ready_inv: "conn_inv c \<Longrightarrow> conn_inv (h2_dispatch_ready e c)"
proof -
  assume i: "conn_inv c"
  let ?ss = "snd (dispatch_streams e (hc_max_body c) (hc_world c) (hc_streams c))"
  have a: "list_all (stream_ok (hc_last_stream_id c) (hc_max_body c) (hc_error c = 0)) (hc_streams c)"
    using i by (simp add: conn_inv_def streams_ok_def)
  have "map st_id ?ss = map st_id (hc_streams c)" "list_all (stream_ok (hc_last_stream_id c) (hc_max_body c) (hc_error c = 0)) ?ss"
    using dispatch_streams_ok [OF a, of e "hc_max_body c" "hc_world c"] by blast+
  moreover from this(1) have "length ?ss = length (hc_streams c)" by (metis length_map)
  ultimately have "conn_inv (c\<lparr>hc_world := w, hc_streams := ?ss\<rparr>)" for w
    using i by (simp add: conn_inv_def streams_ok_def core_ok_def)
  then show ?thesis using i by (simp add: h2_dispatch_ready_def split_beta)
qed

text \<open>A stream callback never returns more than it was given room for.\<close>

definition env_ok :: "'w h2_env \<Rightarrow> bool" where
  "env_ok e \<longleftrightarrow> (\<forall>fn u n w. length (fst (env_stream e fn u n w)) \<le> n)"

text \<open>The bookkeeping of a body changes nothing the invariant speaks of.\<close>

definition kin :: "h2_stream \<Rightarrow> h2_stream \<Rightarrow> bool" where
  "kin s s' \<longleftrightarrow> (\<exists>qi qo bo ef. s' = s\<lparr>st_queue_i := qi, st_queue_off := qo, st_body_off := bo, st_fn_eof := ef\<rparr>)"

lemma kin_refl: "kin s s"
proof -
  have "s = s\<lparr>st_queue_i := st_queue_i s, st_queue_off := st_queue_off s, st_body_off := st_body_off s, st_fn_eof := st_fn_eof s\<rparr>" by simp
  then show ?thesis unfolding kin_def by blast
qed

lemma kin_trans: "kin a b \<Longrightarrow> kin b c \<Longrightarrow> kin a c"
  by (force simp: kin_def)

lemma kin_update:
  "kin s (s\<lparr>st_queue_i := qi, st_queue_off := qo\<rparr>)" "kin s (s\<lparr>st_queue_off := qo\<rparr>)" "kin s (s\<lparr>st_body_off := bo\<rparr>)" "kin s (s\<lparr>st_fn_eof := ef\<rparr>)"
  "kin s (s\<lparr>st_queue_off := qo, st_queue_i := qi\<rparr>)"
proof -
  have e: "s\<lparr>st_queue_i := qi, st_queue_off := qo\<rparr> = s\<lparr>st_queue_i := qi, st_queue_off := qo, st_body_off := st_body_off s, st_fn_eof := st_fn_eof s\<rparr>"
    "s\<lparr>st_queue_off := qo\<rparr> = s\<lparr>st_queue_i := st_queue_i s, st_queue_off := qo, st_body_off := st_body_off s, st_fn_eof := st_fn_eof s\<rparr>"
    "s\<lparr>st_body_off := bo\<rparr> = s\<lparr>st_queue_i := st_queue_i s, st_queue_off := st_queue_off s, st_body_off := bo, st_fn_eof := st_fn_eof s\<rparr>"
    "s\<lparr>st_fn_eof := ef\<rparr> = s\<lparr>st_queue_i := st_queue_i s, st_queue_off := st_queue_off s, st_body_off := st_body_off s, st_fn_eof := ef\<rparr>"
    "s\<lparr>st_queue_off := qo, st_queue_i := qi\<rparr> = s\<lparr>st_queue_i := qi, st_queue_off := qo, st_body_off := st_body_off s, st_fn_eof := st_fn_eof s\<rparr>"
    by simp_all
  show "kin s (s\<lparr>st_queue_i := qi, st_queue_off := qo\<rparr>)" "kin s (s\<lparr>st_queue_off := qo\<rparr>)" "kin s (s\<lparr>st_body_off := bo\<rparr>)" "kin s (s\<lparr>st_fn_eof := ef\<rparr>)"
    "kin s (s\<lparr>st_queue_off := qo, st_queue_i := qi\<rparr>)"
    unfolding kin_def using e by metis+
qed

lemma kin_ok: "kin s s' \<Longrightarrow> st_id s' = st_id s \<and> st_headers_sent s' = st_headers_sent s \<and> stream_ok l m b s' = stream_ok l m b s"
  unfolding kin_def by (elim exE) (simp add: stream_ok_def)

lemma skip_chunks_kin: "kin s (skip_chunks s)"
proof (induction s rule: skip_chunks.induct)
  case (1 s)
  show ?case
  proof (cases "st_queue_i s < length (rs_stream_chunks (st_res s)) \<and> length (rs_stream_chunks (st_res s) ! st_queue_i s) - st_queue_off s = 0")
    case True
    then have "kin s (skip_chunks (s\<lparr>st_queue_i := st_queue_i s + 1, st_queue_off := 0\<rparr>))" using kin_trans [OF kin_update(1) "1.IH"] by blast
    then show ?thesis using True by (simp add: skip_chunks.simps [of s])
  next
    case False
    then show ?thesis unfolding skip_chunks.simps [of s] using kin_refl by (simp only: if_False)
  qed
qed

text \<open>What is handed out fits the room, and only the bookkeeping of the stream has moved.\<close>

lemma frame_cap_le: "0 < room \<Longrightarrow> n \<le> frame_cap room \<Longrightarrow> int n \<le> room"
  by (auto simp: frame_cap_def split: if_splits)

lemma next_chunk_kin: "case next_chunk s w room of Wait s1 \<Rightarrow> kin s s1 | Next s1 w1 src eof \<Rightarrow> kin s s1 \<and> (src \<noteq> [] \<longrightarrow> int (length src) \<le> room)"
  using frame_cap_le [of room] kin_refl by (auto simp: next_chunk_def Let_def intro: kin_update)

lemma next_call_kin:
  assumes "env_ok e"
  shows "case next_call e s w room of Wait s1 \<Rightarrow> kin s s1 | Next s1 w1 src eof \<Rightarrow> kin s s1 \<and> (src \<noteq> [] \<longrightarrow> int (length src) \<le> room)"
proof (cases "rs_stream_fn (st_res s)")
  case (Some fn)
  obtain got w1 where g: "env_stream e fn (rs_stream_user (st_res s)) (frame_cap room) w = (got, w1)" by (metis surj_pair)
  then have "length got \<le> frame_cap room" using assms unfolding env_ok_def by (metis fst_conv)
  then show ?thesis using Some g frame_cap_le [of room] by (simp add: next_call_def kin_refl kin_update)
qed (simp add: next_call_def kin_refl)

lemma next_body_kin: "case next_body s w room of Wait s1 \<Rightarrow> kin s s1 | Next s1 w1 src eof \<Rightarrow> kin s s1 \<and> (src \<noteq> [] \<longrightarrow> int (length src) \<le> room)"
  using frame_cap_le [of room] kin_refl by (auto simp: next_body_def Let_def intro: kin_update)

lemma next_data_kin:
  assumes "env_ok e"
  shows "case h2_next_data e s w room of Wait s1 \<Rightarrow> kin s s1 | Next s1 w1 src eof \<Rightarrow> kin s s1 \<and> (src \<noteq> [] \<longrightarrow> int (length src) \<le> room)"
proof -
  have "case next_chunk (skip_chunks s) w room of Wait s1 \<Rightarrow> kin s s1 | Next s1 w1 src eof \<Rightarrow> kin s s1 \<and> (src \<noteq> [] \<longrightarrow> int (length src) \<le> room)"
    using next_chunk_kin [where s = "skip_chunks s" and w = w and room = room] kin_trans [OF skip_chunks_kin] by (auto split: next_data.splits)
  moreover have "case next_call e (skip_chunks s) w room of Wait s1 \<Rightarrow> kin s s1 | Next s1 w1 src eof \<Rightarrow> kin s s1 \<and> (src \<noteq> [] \<longrightarrow> int (length src) \<le> room)"
    using next_call_kin [OF assms, where s = "skip_chunks s" and w = w and room = room] kin_trans [OF skip_chunks_kin] by (auto split: next_data.splits)
  ultimately show ?thesis using next_body_kin [where s = s and w = w and room = room] by (simp add: h2_next_data_def Let_def)
qed

text \<open>Sending spends window and nothing else.\<close>

definition spends :: "'w h2_conn \<Rightarrow> 'w h2_conn \<Rightarrow> bool" where
  "spends c c' \<longleftrightarrow> hc_recv_window c' = hc_recv_window c \<and> hc_client_init_window c' = hc_client_init_window c \<and> hc_hpack c' = hc_hpack c
     \<and> hc_hb c' = hc_hb c \<and> hc_last_stream_id c' = hc_last_stream_id c \<and> hc_max_body c' = hc_max_body c \<and> hc_streams c' = hc_streams c
     \<and> (hc_error c' = 0 \<longrightarrow> hc_error c = 0) \<and> hc_send_window c' \<le> hc_send_window c \<and> (0 \<le> hc_send_window c \<longrightarrow> 0 \<le> hc_send_window c')"

lemma spends_refl: "spends c c"
  by (simp add: spends_def)

lemma spends_trans: "spends a b \<Longrightarrow> spends b c \<Longrightarrow> spends a c"
  by (simp add: spends_def)

lemma quiet_spends: "quiet c c' \<Longrightarrow> spends c c'"
  unfolding quiet_def spends_def using wire_only_keeps [of c c'] by simp

lemma spends_core: "spends c c' \<Longrightarrow> core_ok c \<Longrightarrow> core_ok c'"
  by (auto simp: spends_def core_ok_def)

lemma send_data_ok:
  assumes d: "h2_send_data c s p eof = (c', s')" and fit: "p \<noteq> [] \<longrightarrow> int (length p) \<le> hc_send_window c" and s: "stream_ok l m (hc_error c = 0) s"
  shows "spends c c' \<and> st_id s' = st_id s \<and> st_headers_sent s' = st_headers_sent s \<and> stream_ok l m (hc_error c' = 0) s'"
proof -
  obtain rc c1 where f: "h2_send_frame c H2_DATA (if eof then H2F_END_STREAM else 0) (st_id s) p = (rc, c1)" by (metis surj_pair)
  have q: "quiet c c1" "quiet c (h2_conn_error c1 HE_INTERNAL)"
    using f quiet_send [of c H2_DATA "if eof then H2F_END_STREAM else 0" "st_id s" p] quiet_trans [OF _ quiet_error] by (metis snd_conv)+
  have s1: "stream_ok l m (hc_error c1 = 0) s" "stream_ok l m (hc_error (h2_conn_error c1 HE_INTERNAL) = 0) s"
    using q by (auto simp: quiet_def intro!: stream_ok_mono [OF s order_refl])
  note sp = quiet_spends [OF q(1)] quiet_spends [OF q(2)]
  have "h2_send_data c s p eof = (if rc \<noteq> 0 then (h2_conn_error c1 HE_INTERNAL, s) else if p \<noteq> []
      then (c1\<lparr>hc_send_window := hc_send_window c1 - int (length p)\<rparr>, s\<lparr>st_send_window := st_send_window s - int (length p), st_body_sent := st_body_sent s + int (length p)\<rparr>)
      else (c1, s))"
    using f by (simp add: h2_send_data_def)
  then consider "c' = h2_conn_error c1 HE_INTERNAL \<and> s' = s" | "c' = c1 \<and> s' = s"
    | "p \<noteq> [] \<and> c' = c1\<lparr>hc_send_window := hc_send_window c1 - int (length p)\<rparr>
        \<and> s' = s\<lparr>st_send_window := st_send_window s - int (length p), st_body_sent := st_body_sent s + int (length p)\<rparr>"
    unfolding d by (metis prod.inject)
  then show ?thesis
  proof cases
    case 3
    have "hc_send_window c1 = hc_send_window c" using q(1) wire_only_keeps(1) [of c c1] by (simp add: quiet_def)
    then have "spends c c'" using sp(1) 3 fit by (simp add: spends_def)
    moreover have "stream_ok l m (hc_error c' = 0) s'" using 3 s1(1) by (auto simp: stream_ok_def)
    ultimately show ?thesis using 3 by simp
  qed (use sp s1 in simp_all)
qed

lemma data_loop_ok:
  "env_ok e \<Longrightarrow> stream_ok l m (hc_error c = 0) s \<Longrightarrow> st_headers_sent s \<Longrightarrow> data_loop e c s = (c', s') \<Longrightarrow>
    spends c c' \<and> st_id s' = st_id s \<and> stream_ok l m (hc_error c' = 0) s'"
proof (induction e c s arbitrary: c' s' rule: data_loop.induct)
  case (1 e c s)
  let ?room = "min (hc_send_window c) (st_send_window s)"
  note nk = next_data_kin [OF "1.prems"(1), where s = s and w = "hc_world c" and room = ?room]
  show ?case
  proof (cases "\<not> st_local_ended s \<and> hc_error c = 0")
    case live: True
    show ?thesis
    proof (cases "h2_next_data e s (hc_world c) ?room")
      case (Wait s1)
      then have "kin s s1" using nk by simp
      moreover have "c' = c" "s' = s1" using "1.prems"(4) Wait live by (simp_all add: data_loop.simps [of e c s])
      ultimately show ?thesis using "1.prems"(2) kin_ok [of s s1] spends_refl by simp
    next
      case (Next s1 w src eof)
      then have k: "kin s s1" "src \<noteq> [] \<longrightarrow> int (length src) \<le> ?room" using nk by simp_all
      let ?c1 = "c\<lparr>hc_world := w\<rparr>"
      obtain c2 s2 where d: "h2_send_data ?c1 s1 src eof = (c2, s2)" by (metis surj_pair)
      have w: "spends c ?c1" by (simp add: spends_def)
      have s1: "stream_ok l m (hc_error ?c1 = 0) s1" "st_headers_sent s1" "st_id s1 = st_id s" using kin_ok [OF k(1)] "1.prems"(2,3) by simp_all
      have r: "spends c c2" "st_id s2 = st_id s" "st_headers_sent s2" "stream_ok l m (hc_error c2 = 0) s2"
        using send_data_ok [OF d _ s1(1)] k(2) s1 spends_trans [OF w] by auto
      have fin: "stream_ok l m (hc_error c2 = 0) (h2_mark_response_done (s2\<lparr>st_local_ended := True\<rparr>))"
        using r(3,4) by (simp add: stream_ok_def h2_mark_response_done_def)
      have e: "data_loop e c s = (if length src > 0 \<and> ?room \<le> 0 then (?c1, s1)
          else if eof then (c2, h2_mark_response_done (s2\<lparr>st_local_ended := True\<rparr>)) else if hc_error c2 \<noteq> 0 then (c2, s2) else data_loop e c2 s2)"
        unfolding data_loop.simps [of e c s] Let_def Next next_data.case d prod.case using live by (simp only: simp_thms if_True)
      show ?thesis
      proof (cases "(length src > 0 \<and> ?room \<le> 0) \<or> eof \<or> hc_error c2 \<noteq> 0")
        case True
        then show ?thesis using "1.prems"(4) w s1 r fin unfolding e by (auto simp: h2_mark_response_done_def split: if_splits)
      next
        case False
        then have "data_loop e c2 s2 = (c', s')" using "1.prems"(4) unfolding e by (simp split: if_splits)
        then have "spends c2 c' \<and> st_id s' = st_id s2 \<and> stream_ok l m (hc_error c' = 0) s'"
          using "1.IH" [OF live refl Next refl _ d [symmetric] _ _ "1.prems"(1) r(4,3)] False by blast
        then show ?thesis using r spends_trans [OF r(1)] by simp
      qed
    qed
  next
    case False
    then show ?thesis using "1.prems" by (simp add: data_loop.simps [of e c s] spends_refl split: if_splits)
  qed
qed

lemma pump_stream_ok:
  assumes "env_ok e" "stream_ok l m (hc_error c = 0) s" "pump_stream e c s = (stop, c', s')"
  shows "spends c c' \<and> st_id s' = st_id s \<and> stream_ok l m (hc_error c' = 0) s'"
proof -
  let ?blk = "response_block (env_now e) (st_res s)"
  obtain rc c1 where h: "h2_send_header_block c (st_id s) (strbuf_view ?blk) (head_is_last s) = (rc, c1)" by (metis surj_pair)
  have q: "quiet c c1" "quiet c (h2_conn_error c1 HE_INTERNAL)"
    using quiet_header_block [of c "st_id s" "strbuf_view ?blk" "head_is_last s"] quiet_trans [OF _ quiet_error] unfolding h by auto
  define s1 where "s1 = s\<lparr>st_headers_sent := True, st_body_off := 0\<rparr>"
  have mono: "stream_ok l m (hc_error c1 = 0) t" "stream_ok l m (hc_error (h2_conn_error c1 HE_INTERNAL) = 0) t" if "stream_ok l m (hc_error c = 0) t" for t
    using q by (auto simp: quiet_def intro!: stream_ok_mono [OF that order_refl])
  consider "stop \<and> c' = c \<and> s' = s" | "\<not> stop \<and> c' = c \<and> s' = s" | "c' = h2_conn_error c1 HE_INTERNAL \<and> s' = s"
    | "st_response_ready s" "c' = c1 \<and> s' = h2_mark_response_done (s1\<lparr>st_local_ended := True\<rparr>)"
    | "st_response_ready s" "data_loop e c1 s1 = (c', s')" | "st_headers_sent s" "data_loop e c s = (c', s')"
    using assms(3) unfolding pump_stream_def Let_def h prod.case s1_def [symmetric] by (simp split: if_splits)
  then show ?thesis
  proof cases
    case 4
    have "stream_ok l m (hc_error c = 0) (h2_mark_response_done (s1\<lparr>st_local_ended := True\<rparr>))"
      using assms(2) 4(1) by (simp add: stream_ok_def h2_mark_response_done_def s1_def)
    then show ?thesis using 4 mono quiet_spends [OF q(1)] by (simp add: h2_mark_response_done_def s1_def)
  next
    case 5
    have "stream_ok l m (hc_error c = 0) s1" using assms(2) 5(1) by (simp add: stream_ok_def s1_def)
    from data_loop_ok [OF assms(1) mono(1) [OF this] _ 5(2)] spends_trans [OF quiet_spends [OF q(1)]] show ?thesis by (simp add: s1_def)
  next
    case 6
    then show ?thesis using data_loop_ok [OF assms(1,2)] by blast
  qed (use assms(2) mono quiet_spends [OF q(2)] spends_refl in simp_all)
qed

lemma pump_streams_ok:
  "env_ok e \<Longrightarrow> list_all (stream_ok l m (hc_error c = 0)) ss \<Longrightarrow> pump_streams e c ss = (c', ss') \<Longrightarrow>
     spends c c' \<and> map st_id ss' = map st_id ss \<and> list_all (stream_ok l m (hc_error c' = 0)) ss'"
proof (induction ss arbitrary: c c' ss')
  case (Cons s ss)
  obtain stop c1 s1 where p: "pump_stream e c s = (stop, c1, s1)" by (metis surj_pair)
  obtain c2 ss2 where r: "pump_streams e c1 ss = (c2, ss2)" by (metis surj_pair)
  have s1: "spends c c1" "st_id s1 = st_id s" "stream_ok l m (hc_error c1 = 0) s1" using pump_stream_ok [OF Cons.prems(1) _ p] Cons.prems(2) by auto
  have "hc_error c1 = 0 \<longrightarrow> hc_error c = 0" using s1(1) by (simp add: spends_def)
  then have ss: "list_all (stream_ok l m (hc_error c1 = 0)) ss"
    using Cons.prems(2) stream_ok_mono [OF _ order_refl] unfolding list_all_iff list.set by (meson insertCI)
  note rest = Cons.IH [OF Cons.prems(1) ss r]
  have "hc_error c2 = 0 \<longrightarrow> hc_error c1 = 0" using rest by (simp add: spends_def)
  then have "stream_ok l m (hc_error c2 = 0) s1" by (rule stream_ok_mono [OF s1(3) order_refl])
  then have go: "spends c c2 \<and> map st_id (s1 # ss2) = map st_id (s # ss) \<and> list_all (stream_ok l m (hc_error c2 = 0)) (s1 # ss2)"
    using rest s1 spends_trans by auto
  have halt: "spends c c1 \<and> map st_id (s1 # ss) = map st_id (s # ss) \<and> list_all (stream_ok l m (hc_error c1 = 0)) (s1 # ss)" using s1 ss by simp
  show ?case using Cons.prems(3) go halt unfolding pump_streams.simps p r prod.case by (cases stop) (simp_all only: if_True if_False prod.inject)
qed (simp add: spends_refl)

lemma pump_inv:
  assumes "env_ok e" "conn_inv c"
  shows "conn_inv (h2_pump e c)"
proof -
  obtain c1 ss where p: "pump_streams e c (hc_streams c) = (c1, ss)" by (metis surj_pair)
  have a: "list_all (stream_ok (hc_last_stream_id c) (hc_max_body c) (hc_error c = 0)) (hc_streams c)"
    using assms(2) by (simp add: conn_inv_def streams_ok_def)
  have r: "spends c c1" "map st_id ss = map st_id (hc_streams c)" "list_all (stream_ok (hc_last_stream_id c) (hc_max_body c) (hc_error c1 = 0)) ss"
    using pump_streams_ok [OF assms(1) a p] by blast+
  have "length ss = length (hc_streams c)" using r(2) by (metis length_map)
  then have "streams_ok (c1\<lparr>hc_streams := ss\<rparr>) ss"
    using r assms(2) by (simp add: streams_ok_def conn_inv_def spends_def)
  moreover have "core_ok (c1\<lparr>hc_streams := ss\<rparr>)" using spends_core [OF r(1)] assms(2) by (simp add: conn_inv_def core_ok_def)
  ultimately show ?thesis using p assms(2) by (simp add: h2_pump_def conn_inv_def)
qed

subsection \<open>Sweeping\<close>

lemma free_stream_take: "i < length ss \<Longrightarrow> take i (h2_free_stream ss i) = take i ss"
  by (simp add: h2_free_stream_def take_butlast)

lemma free_stream_drop: "i < length ss \<Longrightarrow> mset (drop i (h2_free_stream ss i)) = mset (drop (Suc i) ss)"
proof (cases "i + 1 < length ss")
  case True
  define D where "D = drop (Suc i) ss"
  have D: "D \<noteq> []" "last D = last ss" "drop i ss = ss ! i # D" using True by (simp_all add: D_def Cons_nth_drop_Suc)
  have "drop i (h2_free_stream ss i) = butlast ((drop i ss)[0 := last ss])"
    using True by (simp add: h2_free_stream_def drop_butlast drop_update_swap)
  then have "drop i (h2_free_stream ss i) = last D # butlast D" using D by simp
  moreover have "mset D = mset (butlast D @ [last D])" using D(1) by simp
  ultimately show ?thesis unfolding D_def [symmetric] by simp
next
  case False
  assume "i < length ss"
  then show ?thesis using False by (simp add: h2_free_stream_def)
qed

text \<open>The sweep closes the finished streams and no other, whatever order it leaves the rest in.\<close>

lemma sweep_loop_mset:
  "i \<le> length ss \<Longrightarrow> mset (sweep_loop ss i) = mset (filter (\<lambda>s. \<not> finished s) (take i ss)) + mset (drop i ss)"
proof (induction i arbitrary: ss)
  case (Suc i)
  then have l: "i < length ss" by simp
  have t: "take (Suc i) ss = take i ss @ [ss ! i]" using l by (rule take_Suc_conv_app_nth)
  have d: "drop i ss = ss ! i # drop (Suc i) ss" using l by (simp add: Cons_nth_drop_Suc)
  show ?case
  proof (cases "finished (ss ! i)")
    case True
    have "i \<le> length (h2_free_stream ss i)" using l by (simp add: h2_free_stream_def)
    from Suc.IH [OF this] show ?thesis using True l by (simp add: t free_stream_take free_stream_drop)
  next
    case False
    then show ?thesis using Suc.IH [of ss] l by (simp add: t d)
  qed
qed simp

lemma sweep_mset: "mset (hc_streams (h2_sweep c)) = mset (filter (\<lambda>s. \<not> finished s) (hc_streams c))"
  using sweep_loop_mset [of "length (hc_streams c)" "hc_streams c"] by (simp add: h2_sweep_def)

lemma sweep_inv:
  assumes "conn_inv c"
  shows "conn_inv (h2_sweep c)"
proof -
  let ?ss = "sweep_loop (hc_streams c) (length (hc_streams c))" and ?f = "filter (\<lambda>s. \<not> finished s) (hc_streams c)"
  have m: "mset ?ss = mset ?f" using sweep_mset [of c] by (simp add: h2_sweep_def)
  have s: "set ?ss = set ?f" "length ?ss = length ?f" using m mset_eq_setD mset_eq_length by blast+
  have "mset (map st_id ?ss) = mset (map st_id ?f)" using m by (metis mset_map)
  then have "distinct (map st_id ?ss) = distinct (map st_id ?f)" by (rule mset_eq_imp_distinct_iff)
  then have "distinct (map st_id ?ss)" using assms distinct_map_filter unfolding conn_inv_def streams_ok_def by blast
  moreover have "length ?ss \<le> H2_MAX_CONCURRENT_STREAMS"
    unfolding s(2) using assms by (intro le_trans [OF length_filter_le]) (simp add: conn_inv_def streams_ok_def)
  ultimately have "streams_ok c ?ss" using s(1) assms by (simp add: streams_ok_def conn_inv_def list_all_iff)
  then show ?thesis using assms by (simp add: h2_sweep_def conn_inv_def streams_ok_def core_ok_def)
qed

subsection \<open>The steps of a connection\<close>

inductive h2_step :: "'w h2_env \<Rightarrow> 'w h2_conn \<Rightarrow> 'w h2_conn \<Rightarrow> bool" for e where
  Magic: "h2_step e c (skip_magic c)"
| Dispatch: "h2_step e c (h2_dispatch_ready e c)"
| Pump: "h2_step e c (h2_pump e c)"
| Sweep: "h2_step e c (h2_sweep c)"
| Frame: "h2_frame_peek c = (Some f, c1) \<Longrightarrow> c2 = h2_process_frame c1 f \<Longrightarrow>
    h2_step e c (c2\<lparr>hc_rb := rb_discard (hc_rb c2) (H2_FRAME_HDR + fr_len f)\<rparr>)"
| No_Frame: "h2_frame_peek c = (None, c1) \<Longrightarrow> h2_step e c c1"
| Fill: "h2_step e c (snd (h2_fill c))"

text \<open>The loop of the connection is a run of these steps.\<close>

lemma steps_round: "(h2_step e)\<^sup>*\<^sup>* c (serve_round e c)"
proof -
  have "h2_step e c (h2_dispatch_ready e c)" "h2_step e (h2_dispatch_ready e c) (h2_pump e (h2_dispatch_ready e c))"
    "h2_step e (h2_pump e (h2_dispatch_ready e c)) (serve_round e c)"
    unfolding serve_round_def by (rule h2_step.intros)+
  then show ?thesis by (meson converse_rtranclp_into_rtranclp rtranclp.rtrancl_refl)
qed

lemma steps_frames: "(h2_step e)\<^sup>*\<^sup>* c (frames_loop e c)"
proof (induction e c rule: frames_loop.induct)
  case (1 e c)
  obtain r c1 where p: "h2_frame_peek c = (r, c1)" by (metis surj_pair)
  show ?case
  proof (cases r)
    case None
    then have "h2_step e c c1" using p No_Frame by blast
    then show ?thesis using p None by (simp add: frames_loop.simps [of e c] r_into_rtranclp)
  next
    case (Some f)
    let ?c2 = "h2_process_frame c1 f"
    let ?c3 = "?c2\<lparr>hc_rb := rb_discard (hc_rb ?c2) (H2_FRAME_HDR + fr_len f)\<rparr>"
    have s: "h2_step e c ?c3" using p Some Frame by blast
    have e: "frames_loop e c = (if hc_error ?c3 \<noteq> 0 then ?c3 else frames_loop e (serve_round e ?c3))"
      unfolding frames_loop.simps [of e c] p prod.case Some option.case Let_def ..
    show ?thesis
    proof (cases "hc_error ?c3 = 0")
      case True
      have "(h2_step e)\<^sup>*\<^sup>* (serve_round e ?c3) (frames_loop e (serve_round e ?c3))"
        using "1.IH" [OF p [symmetric] Some refl refl] True by blast
      with steps_round [of e ?c3] have "(h2_step e)\<^sup>*\<^sup>* ?c3 (frames_loop e (serve_round e ?c3))" by (rule rtranclp_trans)
      with s have "(h2_step e)\<^sup>*\<^sup>* c (frames_loop e (serve_round e ?c3))" by (rule converse_rtranclp_into_rtranclp)
      then show ?thesis unfolding e using True by (simp only: simp_thms if_False)
    next
      case False
      then show ?thesis unfolding e using s by (simp only: simp_thms if_True r_into_rtranclp)
    qed
  qed
qed

lemma steps_serve: "(h2_step e)\<^sup>*\<^sup>* c (serve_loop e c)"
proof (induction e c rule: serve_loop.induct)
  case (1 e c)
  define c1 where "c1 = serve_round e (skip_magic c)"
  define c2 where "c2 = frames_loop e c1"
  obtain rc c3 where f: "h2_fill c2 = (rc, c3)" by (metis surj_pair)
  have s1: "(h2_step e)\<^sup>*\<^sup>* c c1" using converse_rtranclp_into_rtranclp [OF Magic steps_round] by (simp add: c1_def)
  then have s2: "(h2_step e)\<^sup>*\<^sup>* c c2" using steps_frames [of e c1] by (simp add: c2_def)
  then have s3: "(h2_step e)\<^sup>*\<^sup>* c c3" using Fill [of e c2] f by (simp add: rtranclp.rtrancl_into_rtrancl)
  have e: "serve_loop e c = (if hc_error c1 \<noteq> 0 then c1 else if h2_client_goaway_done c1 then c1 else if hc_error c2 \<noteq> 0 then c2
      else if h2_client_goaway_done c2 then c2 else if rc \<noteq> 0 then c3 else serve_loop e c3)"
    unfolding serve_loop.simps [of e c] c1_def [symmetric] Let_def c2_def [symmetric] f prod.case ..
  show ?case
  proof (cases "hc_error c1 \<noteq> 0 \<or> h2_client_goaway_done c1 \<or> hc_error c2 \<noteq> 0 \<or> h2_client_goaway_done c2 \<or> rc \<noteq> 0")
    case True
    then have "serve_loop e c \<in> {c1, c2, c3}" unfolding e by auto
    then show ?thesis using s1 s2 s3 by auto
  next
    case False
    then have "(h2_step e)\<^sup>*\<^sup>* c3 (serve_loop e c3)" using "1.IH" [OF c1_def _ _ c2_def _ _ f [symmetric]] by blast
    moreover have "serve_loop e c = serve_loop e c3" unfolding e using False by simp
    ultimately show ?thesis using s3 by simp
  qed
qed

text \<open>Every step keeps the invariant of the connection and of its read buffer.\<close>

lemma step_rb: "inputs c' = inputs c \<Longrightarrow> rb_inv (hc_rb c) \<Longrightarrow> rb_inv (hc_rb c')"
  by (simp add: inputs_def)

lemma rb_change_inv: "conn_inv (c\<lparr>hc_rb := b\<rparr>) = conn_inv c" "conn_inv (c\<lparr>hc_rb := b, hc_incoming := d\<rparr>) = conn_inv c" "conn_inv (c\<lparr>hc_incoming := d\<rparr>) = conn_inv c"
  by (simp_all add: conn_inv_def core_ok_def streams_ok_def)

lemma fill_inv: "conn_inv c \<Longrightarrow> rb_inv (hc_rb c) \<Longrightarrow> conn_inv (snd (h2_fill c)) \<and> rb_inv (hc_rb (snd (h2_fill c)))"
  using rb_recv_facts [of "hc_rb c"] by (simp add: h2_fill_def rb_write_head_def rb_change_inv split: list.split)

lemma step_inv:
  assumes "env_ok e" "h2_step e c c'" "conn_inv c" "rb_inv (hc_rb c)"
  shows "conn_inv c' \<and> rb_inv (hc_rb c')"
  using assms(2)
proof (cases rule: h2_step.cases)
  case Magic
  then show ?thesis using assms(3,4) rb_discard_facts [OF assms(4)] by (simp add: skip_magic_def rb_change_inv)
next
  case Dispatch
  have "inputs (h2_dispatch_ready e c) = inputs c" by (simp add: h2_dispatch_ready_def split_beta)
  then show ?thesis using Dispatch dispatch_ready_inv assms(3,4) step_rb by blast
next
  case Pump
  have "inputs (h2_pump e c) = inputs c" by (simp add: h2_pump_def split_beta pump_streams_inputs)
  then show ?thesis using Pump pump_inv [OF assms(1)] assms(3,4) step_rb by blast
next
  case Sweep
  have "inputs (h2_sweep c) = inputs c" by (simp add: h2_sweep_def)
  then show ?thesis using Sweep sweep_inv assms(3,4) step_rb by blast
next
  case (Frame f c1 c2)
  have "c1 = c" using peek_count [OF Frame(2)] by simp
  then have "conn_inv c2" "rb_inv (hc_rb c2)" using Frame(3) process_frame_inv assms(3,4) step_rb [OF process_frame_inputs] by blast+
  then show ?thesis using Frame(1) rb_discard_facts by (simp add: rb_change_inv)
next
  case No_Frame
  then have "quiet c c'" using quiet_refl quiet_error by (auto simp: h2_frame_peek_def Let_def split: if_splits)
  then have "wire_only c c'" "conn_inv c'" using quiet_inv assms(3) by (simp_all add: quiet_def)
  then show ?thesis using step_rb [OF wire_only_keeps(3)] assms(4) by simp
next
  case Fill
  then show ?thesis using fill_inv assms(3,4) by simp
qed

subsection \<open>Where a connection starts\<close>

lemma init_inv: "conn_inv (h2_conn_init a i mb r k w) \<and> rb_inv (hc_rb (h2_conn_init a i mb r k w))"
  by (simp add: h2_conn_init_def conn_inv_def core_ok_def streams_ok_def WINDOW_MAX_def H2_INITIAL_WINDOW_def hpack_inv_def hpack_init_def strbuf_init_def strbuf_inv_def)

lemma take_over_inv:
  assumes "conn_inv c" "rb_inv (hc_rb c)"
  shows "conn_inv (take_over c left) \<and> rb_inv (hc_rb (take_over c left))"
proof -
  have "holds (rb_data (hc_rb c)) 0 []" by (simp add: holds_def)
  from holds_memcpy_at [OF this, of left] have "rb_inv ((hc_rb c)\<lparr>rb_data := memcpy_at (rb_data (hc_rb c)) 0 left, rb_count := length left\<rparr>)"
    if "length left \<le> rb_capacity (hc_rb c)" using assms(2) that
    by (intro rb_holdsI [of _ left, THEN conjunct1]) (simp_all add: rb_inv_def)
  then show ?thesis using assms by (simp add: take_over_def rb_change_inv) (simp add: conn_inv_def core_ok_def streams_ok_def)
qed

lemma upgrade_stream_inv:
  assumes "conn_inv c" "hc_streams c = []" "length (rq_body req) \<le> hc_max_body c"
  shows "conn_inv (h2_add_upgrade_stream c req)"
proof -
  have g: "conn_inv (grow_streams c 8)" "hc_streams (grow_streams c 8) = []" "hc_max_body (grow_streams c 8) = hc_max_body c"
    using assms by (simp_all add: grow_inv) (simp_all add: grow_streams_def)
  obtain storage moved hs where u: "foldl upgrade_header (strbuf_append strbuf_init (rq_path req), False, []) (upgrade_fields req) = (storage, moved, hs)"
    by (metis prod_cases3)
  have b: "strbuf_inv (strbuf_append strbuf_init (rq_body req)) \<and> sb_count (strbuf_append strbuf_init (rq_body req)) \<le> hc_max_body c"
    using assms(3) by (intro append_body_ok) (simp_all add: strbuf_init_def strbuf_inv_def)
  show ?thesis using g b unfolding h2_add_upgrade_stream_def Let_def u prod.case
    by (simp add: conn_inv_def streams_ok_def core_ok_def stream_ok_def zero_stream_def H2_MAX_CONCURRENT_STREAMS_def)
qed

lemma settings_no_streams: "hc_streams c = [] \<Longrightarrow> hc_streams (settings_loop c p) = [] \<and> hc_max_body (settings_loop c p) = hc_max_body c"
proof (induction c p rule: settings_loop.induct)
  case (1 c p)
  have "hc_streams (apply_setting c i v) = [] \<and> hc_max_body (apply_setting c i v) = hc_max_body c" for i v
    using "1.prems" by (simp add: apply_setting_def)
  then show ?case using 1 by (simp add: settings_loop.simps [of c p])
qed

lemma upgrade_inv:
  assumes "conn_inv c" "hc_streams c = []" "length (rq_body req) \<le> hc_max_body c" "h2_upgrade c req = (True, c')"
  shows "conn_inv c' \<and> inputs c' = inputs c"
proof -
  obtain rc c1 where w: "h2_write c UPGRADE_101 = (rc, c1)" by (metis surj_pair)
  obtain k wr where k: "c1 = c\<lparr>hc_calls := k, hc_sent := wr\<rparr>" using h2_write_frame [of c UPGRADE_101] w by auto
  have "c1 = c\<lparr>hc_error := hc_error c, hc_calls := k, hc_sent := wr\<rparr>" by (simp add: k)
  then have "wire_only c c1" unfolding wire_only_def by blast
  then have q: "quiet c c1" by (simp add: quiet_def k)
  then have c1: "conn_inv c1" "hc_streams c1 = []" "hc_max_body c1 = hc_max_body c" "inputs c1 = inputs c"
    using quiet_inv assms(1,2) wire_only_keeps [of c c1] by (simp_all add: quiet_def)
  let ?s = "\<lambda>p. settings_loop c1 p"
  have s: "conn_inv (?s p)" "hc_streams (?s p) = []" "hc_max_body (?s p) = hc_max_body c" "inputs (?s p) = inputs c" for p
    using settings_loop_inv [OF c1(1)] settings_no_streams [OF c1(2)] settings_loop_inputs [of c1 p] c1 by simp_all
  have a: "inputs (h2_add_upgrade_stream d req) = inputs d" for d
    by (simp add: h2_add_upgrade_stream_def Let_def split_beta grow_streams_def inputs_def)
  have "c' = h2_add_upgrade_stream c1 req \<or> (\<exists>p. c' = h2_add_upgrade_stream (?s p) req)"
    using assms(4) w by (auto simp: h2_upgrade_def h2_apply_settings_def Let_def split: option.splits if_splits)
  moreover have "conn_inv (h2_add_upgrade_stream c1 req)" "conn_inv (h2_add_upgrade_stream (?s p) req)" for p
    using upgrade_stream_inv [OF c1(1,2)] upgrade_stream_inv [OF s(1,2)] c1(3) s(3) assms(3) by simp_all
  ultimately show ?thesis using a c1(4) s(4) by metis
qed

text \<open>
  A connection starts fresh, with what the caller has already read in its buffer, or upgraded from a request whose body
  is within the limit.
\<close>

definition h2_start :: "'w h2_conn \<Rightarrow> bool" where
  "h2_start c \<longleftrightarrow> (\<exists>accepts incoming max_body remote calls w left. let c0 = take_over (h2_conn_init accepts incoming max_body remote calls w) left in
     c = h2_send_settings c0 \<or> (\<exists>req c1. length (rq_body req) \<le> hc_max_body c0 \<and> h2_upgrade c0 req = (True, c1) \<and> c = h2_send_settings c1))"

lemma start_inv: "h2_start c \<Longrightarrow> conn_inv c \<and> rb_inv (hc_rb c)"
proof -
  assume "h2_start c"
  then obtain a i mb r k w lft where o: "let c0 = take_over (h2_conn_init a i mb r k w) lft in
     c = h2_send_settings c0 \<or> (\<exists>req c1. length (rq_body req) \<le> hc_max_body c0 \<and> h2_upgrade c0 req = (True, c1) \<and> c = h2_send_settings c1)"
    unfolding h2_start_def by (elim exE)
  define c0 where "c0 = take_over (h2_conn_init a i mb r k w) lft"
  have i: "conn_inv c0" "rb_inv (hc_rb c0)" "hc_streams c0 = []"
    using take_over_inv [of "h2_conn_init a i mb r k w" lft] init_inv [of a i mb r k w] by (simp_all add: c0_def) (simp add: take_over_def h2_conn_init_def)
  have s: "conn_inv (h2_send_settings d) \<and> rb_inv (hc_rb (h2_send_settings d))" if "conn_inv d" "rb_inv (hc_rb d)" for d
    using that by (simp add: h2_send_settings_def quiet_invs)
  consider "c = h2_send_settings c0" | req c1 where "length (rq_body req) \<le> hc_max_body c0" "h2_upgrade c0 req = (True, c1)" "c = h2_send_settings c1"
    using o unfolding Let_def c0_def [symmetric] by blast
  then show ?thesis
  proof cases
    case 2
    have "conn_inv c1 \<and> inputs c1 = inputs c0" using upgrade_inv [OF i(1,3) 2(1,2)] .
    then show ?thesis using s [of c1] step_rb i(2) 2(3) by blast
  qed (use s i in simp)
qed

text \<open>
  No frame ever gives receive window back: the window announced with every \<open>WINDOW_UPDATE\<close> is not credited, so
  a connection refuses data after 65535 bytes.
\<close>

lemma settings_loop_recv: "hc_recv_window (settings_loop c p) = hc_recv_window c"
proof (induction c p rule: settings_loop.induct)
  case (1 c p)
  have "hc_recv_window (apply_setting c i v) = hc_recv_window c" for i v
    by (simp add: apply_setting_def split_beta Let_def)
  then show ?case using 1 by (simp add: settings_loop.simps [of c p])
qed

lemma finish_recv: "hc_recv_window (h2_on_header_block_finish c i es blk) = hc_recv_window c"
proof -
  let ?c = "grow_streams c 16" and ?s = "zero_stream\<lparr>st_id := i, st_open := True, st_remote_ended := es\<rparr>"
  have g: "hc_recv_window ?c = hc_recv_window c" by (simp add: grow_streams_def)
  have r: "hc_recv_window (h2_send_stream_error d n m) = hc_recv_window d" for d :: "'a h2_conn" and n m by (simp add: h2_send_stream_error_def)
  have b: "case h2_request_from_block ?c blk ?s of Block_Conn_Error c2 \<Rightarrow> hc_recv_window c2 = hc_recv_window c
     | Block_Malformed c2 \<Rightarrow> hc_recv_window c2 = hc_recv_window c | Block_Undefined \<Rightarrow> True | Block_Ok c2 s2 \<Rightarrow> hc_recv_window c2 = hc_recv_window c"
    using block_result_cases [of ?c blk ?s] g by (auto split: block_result.splits)
  show ?thesis
  proof (cases "h2_request_from_block ?c blk ?s")
    case (Block_Ok c2 s2)
    then show ?thesis using b unfolding h2_on_header_block_finish_def Let_def by (simp add: r Block_Ok)
  qed (use b in \<open>simp_all add: h2_on_header_block_finish_def Let_def r g\<close>)
qed

lemma h2_recv_window_never_grows: "hc_recv_window (h2_process_frame c f) \<le> hc_recv_window c"
proof -
  note d = h2_send_stream_error_def window_update_def put_stream_def h2_settings_ack_def stream_data_def Let_def split_beta
  have 1: "hc_recv_window (h2_on_data c f) \<le> hc_recv_window c" by (simp add: h2_on_data_def d split: option.split)
  have 2: "hc_recv_window (h2_on_headers_start c f) = hc_recv_window c" "hc_recv_window (h2_on_cont c f) = hc_recv_window c"
    unfolding h2_on_headers_start_def h2_on_cont_def Let_def finish_recv if_distrib [of hc_recv_window] by (simp_all add: h2_send_stream_error_def end_block_def)
  have 3: "hc_recv_window (h2_on_settings c f) = hc_recv_window c"
    by (simp add: h2_on_settings_def h2_apply_settings_def d settings_loop_recv)
  have 4: "hc_recv_window (h2_on_priority c f) = hc_recv_window c" "hc_recv_window (h2_on_rst c f) = hc_recv_window c" "hc_recv_window (h2_on_ping c f) = hc_recv_window c"
    "hc_recv_window (h2_on_goaway c f) = hc_recv_window c" "hc_recv_window (h2_on_window c f) = hc_recv_window c"
    by (simp_all add: h2_on_priority_def h2_on_rst_def h2_on_ping_def h2_on_goaway_def h2_on_window_def d split: option.split)
  show ?thesis by (simp add: h2_process_frame_def 1 2 3 4)
qed

lemma steps_inv:
  assumes "env_ok e" "(h2_step e)\<^sup>*\<^sup>* c0 c" "conn_inv c0 \<and> rb_inv (hc_rb c0)"
  shows "conn_inv c \<and> rb_inv (hc_rb c)"
  using assms(2,3) by (induction rule: rtranclp_induct) (use step_inv [OF assms(1)] in blast)+

text \<open>
  C20: Whatever the peer sends, a connection stays consistent in every state it passes through, and the state the loop
  ends in is one of them. The streams are open, have different odd identifiers not above the last one accepted, and there
  are at most 100; a stream is answered only after its request has ended, and ended only after its headers have been sent;
  no body grows beyond the limit and no header block beyond 256 KiB; the window for sending is never negative, and neither
  window exceeds \<open>2\<^sup>31 - 1\<close> without an error; the table of HPACK and the buffers satisfy their invariants.
  The stream callbacks return no more than they are asked for.
\<close>
theorem h2_conn_safe:
  assumes "env_ok e" "h2_start c0" "(h2_step e)\<^sup>*\<^sup>* c0 c"
  shows "conn_inv c \<and> rb_inv (hc_rb c) \<and> (h2_step e)\<^sup>*\<^sup>* c0 (serve_loop e c0)"
  using steps_inv [OF assms(1,3) start_inv [OF assms(2)]] steps_serve by blast

theorem h2_conn_safe_witness:
  "conn_inv (serve_loop \<lparr>env_handler = (\<lambda>req res w. (req, http_response_set_status res 200, w)), env_gunzip = (\<lambda>s n. Inflate_Corrupt),
      env_stream = (\<lambda>fn u n w. (take n ''hello'', w)), env_max_inflated = 1000, env_now = 0\<rparr>
    (h2_send_settings (h2_conn_init (\<lambda>n. 1000) [H2_MAGIC, [NUL, NUL, NUL, CHR 0x04, NUL, NUL, NUL, NUL, NUL]] 4096 ''::1'' 0 ())))"
proof -
  define e :: "unit h2_env" where "e = \<lparr>env_handler = (\<lambda>req res w. (req, http_response_set_status res 200, w)), env_gunzip = (\<lambda>s n. Inflate_Corrupt),
      env_stream = (\<lambda>fn u n w. (take n ''hello'', w)), env_max_inflated = 1000, env_now = 0\<rparr>"
  define c0 where "c0 = h2_conn_init (\<lambda>n. 1000) [H2_MAGIC, [NUL, NUL, NUL, CHR 0x04, NUL, NUL, NUL, NUL, NUL]] 4096 ''::1'' 0 ()"
  have ok: "env_ok e" by (simp add: env_ok_def e_def)
  have "take_over c0 [] = c0" by (simp add: take_over_def c0_def h2_conn_init_def rb_init_def memcpy_at_def)
  then have st: "h2_start (h2_send_settings c0)" unfolding h2_start_def Let_def c0_def by metis
  from h2_conn_safe [OF ok st rtranclp.rtrancl_refl] have "(h2_step e)\<^sup>*\<^sup>* (h2_send_settings c0) (serve_loop e (h2_send_settings c0))" by blast
  from h2_conn_safe [OF ok st this] show ?thesis unfolding e_def c0_def by blast
qed

end
