(* ===== verification/Server.thy ===== *)
theory Server
  imports H2_Connection Chunked Codecs
begin

text \<open>
  \<open>src/http/server.c\<close>: the life of one cleartext connection. The peer is a list of events, what every \<open>recv\<close> finds; sending goes
  through \<open>net_send_all\<close>. A request is staged in the read buffer (or, when its body is too long for it, in a temporary
  file), given to the handler, and answered; then the next one is parsed from the bytes that are already there. The result is
  \<^const>\<open>None\<close> if the connection is never left, which only an endless stream callback can cause.
  Timeouts of the socket are events; logging to the terminal is left out, the access log is a list of lines.
\<close>

datatype net_event = Arrives "char list" | Stalls | Hangs_Up

record server_config =
  cf_max_body :: nat
  cf_body_dir :: "char list option"
  cf_max_inflated :: nat

record 'w server_conn =
  sc_rb :: read_buffer
  sc_incoming :: "net_event list"
  sc_sent :: "char list"
  sc_calls :: nat
  sc_world :: 'w
  sc_log :: "char list list"
  sc_route_timeout :: bool
  sc_undef :: bool

text \<open>
  What a connection takes from outside: the functions an HTTP/2 connection takes, what the socket accepts, the clock, the byte behind a full
  buffer, the owner of upgraded connections, and the outcomes of opening, writing and mapping the temporary file.
\<close>

record 'w server_env =
  sv_h2 :: "'w h2_env"
  sv_accepts :: "nat \<Rightarrow> int"
  sv_now :: "nat \<Rightarrow> int"
  sv_localtime :: "int \<Rightarrow> tm"
  sv_mktime :: "tm \<Rightarrow> int"
  sv_garbage :: char
  sv_upgrade :: "nat \<Rightarrow> ptr \<Rightarrow> sv \<Rightarrow> net_event list \<Rightarrow> 'w \<Rightarrow> char list \<times> 'w"
  sv_spill_open :: bool
  sv_spill_write :: "nat \<Rightarrow> bool"
  sv_spill_map :: bool

definition REQUEST_BUFFER_CAP :: nat where "REQUEST_BUFFER_CAP = 64 * 1024"

definition HTTP_GZIP_MAX_INFLATED_DEFAULT :: nat where "HTTP_GZIP_MAX_INFLATED_DEFAULT = 128 * 1024 * 1024"

definition ERROR_BODY :: "char list" where
  "ERROR_BODY = ''cweb error page (it hurts us too)'' @ [CR, LF]"

subsection \<open>Reading and writing\<close>

datatype recv_result = Received "char list" | Timed_Out

definition io_recv :: "'w server_conn \<Rightarrow> nat \<Rightarrow> recv_result \<times> 'w server_conn" where
  "io_recv c len =
     (if len = 0 then (Received [], c)
      else
        case sc_incoming c of
          [] \<Rightarrow> (Received [], c)
        | Stalls # es \<Rightarrow> (Timed_Out, c\<lparr>sc_incoming := es\<rparr>)
        | Hangs_Up # es \<Rightarrow> (Received [], c\<lparr>sc_incoming := es\<rparr>)
        | Arrives d # es \<Rightarrow>
            (Received (take len d), c\<lparr>sc_incoming := (if length d \<le> len then es else Arrives (drop len d) # es)\<rparr>))"

definition io_send_all :: "'w server_env \<Rightarrow> 'w server_conn \<Rightarrow> char list \<Rightarrow> 'w server_conn" where
  "io_send_all e c p =
     (case send_loop (sv_accepts e) (sc_calls c) p of (ok, calls, wire) \<Rightarrow> c\<lparr>sc_calls := calls, sc_sent := sc_sent c @ wire\<rparr>)"

definition send_wire :: "'w server_env \<Rightarrow> 'w server_conn \<Rightarrow> http_response \<Rightarrow> 'w server_conn" where
  "send_wire e c res =
     (let wire = http_response_serialize res (sv_now e (sc_calls c)) strbuf_init
      in if sb_count wire > 0 then io_send_all e c (strbuf_view wire) else c)"

definition send_error :: "'w server_env \<Rightarrow> 'w server_conn \<Rightarrow> http_status \<Rightarrow> 'w server_conn" where
  "send_error e c status =
     send_wire e c (http_response_add_body_cstr
       (http_response_set_header (http_response_set_status http_response_init status) ''Content-Type'' ''text/plain; charset=utf-8'')
       ERROR_BODY)"

definition send_continue :: "'w server_env \<Rightarrow> 'w server_conn \<Rightarrow> 'w server_conn" where
  "send_continue e c = io_send_all e c (''HTTP/1.1 100 Continue'' @ [CR, LF, CR, LF])"

definition send_chunk :: "'w server_env \<Rightarrow> 'w server_conn \<Rightarrow> char list \<Rightarrow> 'w server_conn" where
  "send_chunk e c d = io_send_all e (io_send_all e (io_send_all e c (to_hex (length d) @ [CR, LF])) d) [CR, LF]"

definition push_chunk :: "'w server_env \<Rightarrow> int \<times> 'w server_conn \<Rightarrow> char list \<Rightarrow> int \<times> 'w server_conn" where
  "push_chunk e st d = (if length d = 0 then st else (fst st + int (length d), send_chunk e (snd st) d))"

text \<open>The callback loop. Nothing looks at whether the bytes went out, so it ends only when the callback ends.\<close>

partial_function (option) stream_loop :: "'w server_env \<Rightarrow> nat \<Rightarrow> ptr \<Rightarrow> int \<Rightarrow> 'w server_conn \<Rightarrow> (int \<times> 'w server_conn) option" where
  "stream_loop e fn user sent c =
     (case env_stream (sv_h2 e) fn user 8192 (sc_world c) of (got, w) \<Rightarrow>
        let c1 = c\<lparr>sc_world := w\<rparr> in
        if length got = 0 \<or> length got > 8192 then Some (sent, c1)
        else stream_loop e fn user (sent + int (length got)) (send_chunk e c1 got))"

declare stream_loop.simps [code]

definition send_stream :: "'w server_env \<Rightarrow> 'w server_conn \<Rightarrow> http_response \<Rightarrow> bool \<Rightarrow> (int \<times> 'w server_conn) option" where
  "send_stream e c res send_body =
     (let c1 = send_wire e c res in
      if \<not> send_body then Some (0, c1)
      else
        case foldl (push_chunk e) (0, c1) (rs_stream_chunks res) of (sent, c2) \<Rightarrow>
          map_option (\<lambda>(sent, c3). (sent, io_send_all e c3 (''0'' @ [CR, LF, CR, LF])))
            (case rs_stream_fn res of None \<Rightarrow> Some (sent, c2) | Some fn \<Rightarrow> stream_loop e fn (rs_stream_user res) sent c2))"

definition handle_upgrade :: "'w server_env \<Rightarrow> 'w server_conn \<Rightarrow> http_response \<Rightarrow> nat \<Rightarrow> 'w server_conn" where
  "handle_upgrade e c res consumed =
     (let c1 = send_wire e c res; leftover = drop consumed (rb_view (sc_rb c1)) in
      case rs_upgrade_fn res of
        None \<Rightarrow> c1
      | Some fn \<Rightarrow>
          (case sv_upgrade e fn (rs_upgrade_user res) leftover (sc_incoming c1) (sc_world c1) of (out, w) \<Rightarrow>
             c1\<lparr>sc_sent := sc_sent c1 @ out, sc_world := w\<rparr>))"

text \<open>\<open>0\<close> when bytes have arrived. A stalled client is told so if it has sent something.\<close>

definition fill_more :: "'w server_env \<Rightarrow> 'w server_conn \<Rightarrow> bool \<times> 'w server_conn" where
  "fill_more e c =
     (case rb_write_head (sc_rb c) of (off, room) \<Rightarrow>
        case io_recv c room of
          (Timed_Out, c1) \<Rightarrow>
            (False, if rb_count (sc_rb c1) > 0 then send_error e c1 (if sc_route_timeout c1 then 504 else 408) else c1)
        | (Received d, c1) \<Rightarrow> if d = [] then (False, c1) else (True, c1\<lparr>sc_rb := rb_recv (sc_rb c1) d\<rparr>))"

subsection \<open>The access log\<close>

definition clf_char :: "strbuf \<Rightarrow> char \<Rightarrow> strbuf" where
  "clf_char line ch =
     (if ucode ch < 0x20 \<or> ucode ch = 0x7f \<or> ch = DQUOTE \<or> ch = BACKSLASH
      then strbuf_append_cstr line [BACKSLASH, CHR ''x'', HEX ! (ucode ch div 16), HEX ! (ucode ch mod 16)]
      else strbuf_append_char line ch)"

definition clf_append_escaped :: "strbuf \<Rightarrow> sv \<Rightarrow> strbuf" where
  "clf_append_escaped line s = foldl clf_char line s"

definition access_line :: "'w server_env \<Rightarrow> int \<Rightarrow> http_request \<Rightarrow> http_response \<Rightarrow> int \<Rightarrow> strbuf" where
  "access_line e now req res bytes =
     (let who0 = (if length (rq_client_ip req) > 0 then rq_client_ip req else rq_remote req);
          who = (if length who0 = 0 then sv_from_cstr ''0.0.0.0'' else who0);
          l1 = strbuf_append strbuf_init who;
          l2 = strbuf_append_cstr l1 '' - - ['';
          l3 = strbuf_append_cstr l2 (http_date_clf (sv_localtime e) (sv_mktime e) now 40);
          l4 = strbuf_append_cstr l3 ('']'' @ '' '' @ [DQUOTE]);
          l5 = strbuf_append_cstr l4 (case http_method_name (rq_method req) of Some m \<Rightarrow> m | None \<Rightarrow> ''???'');
          l6 = clf_append_escaped (strbuf_append_char l5 (CHR '' '')) (rq_path req);
          l7 = clf_append_escaped (strbuf_append_char l6 (CHR '' '')) (rq_version req);
          l8 = strbuf_append_cstr l7 ([DQUOTE] @ '' '');
          l9 = strbuf_append_char (strbuf_append_cstr l8 (dec_of_nat (rs_status res))) (CHR '' '')
      in if bytes > 0 then strbuf_append_cstr l9 (dec_of_nat (nat bytes)) else strbuf_append_char l9 (CHR ''-''))"

definition log_access :: "'w server_env \<Rightarrow> 'w server_conn \<Rightarrow> http_request \<Rightarrow> http_response \<Rightarrow> int \<Rightarrow> 'w server_conn" where
  "log_access e c req res bytes =
     c\<lparr>sc_log := sc_log c @ [strbuf_view (access_line e (sv_now e (sc_calls c)) req res bytes)]\<rparr>"

subsection \<open>What the request asks of the connection\<close>

definition conn_keep_alive :: "http_request \<Rightarrow> bool" where
  "conn_keep_alive req =
     (\<not> header_has_token req ''connection'' ''close''
      \<and> (sv_equal (rq_version req) (sv_from_cstr ''HTTP/1.1'') \<or> header_has_token req ''connection'' ''keep-alive''))"

definition sv_ieq :: "sv \<Rightarrow> sv \<Rightarrow> bool" where
  "sv_ieq a b \<longleftrightarrow> length a = length b \<and> map tolower a = map tolower b"

text \<open>The answer of one line: \<^const>\<open>None\<close> goes on to the next.\<close>

definition expect_line :: "sv \<Rightarrow> int option" where
  "expect_line raw =
     (let line = (if length raw \<ge> 2 \<and> raw ! (length raw - 2) = CR then take (length raw - 2) raw else raw) in
      if length (sv_trim line) = 0 then None
      else if length line < 7 \<or> \<not> sv_ieq (take 7 line) ''Expect:'' then None
      else if sv_ieq (sv_trim (drop 7 line)) ''100-continue'' then Some 1
      else Some (-1))"

fun expect_lines :: "sv list \<Rightarrow> int" where
  "expect_lines [] = 0"
| "expect_lines (l # ls) = (case expect_line l of Some r \<Rightarrow> r | None \<Rightarrow> expect_lines ls)"

definition expect_interest :: "sv \<Rightarrow> int" where
  "expect_interest head = expect_lines (sv_pieces (snd (sv_chop_by_delim head LF)) LF)"

subsection \<open>Staging a request\<close>

text \<open>The byte behind the bytes received, which the parser may look at: left over, never written, or behind the buffer.\<close>

definition stale :: "'w server_env \<Rightarrow> read_buffer \<Rightarrow> char" where
  "stale e b =
     (if rb_count b < rb_capacity b then (case rb_data b ! rb_count b of Some ch \<Rightarrow> ch | None \<Rightarrow> sv_garbage e) else sv_garbage e)"

text \<open>The inner loop ends in a return, or with a result of the parser, the request, and the bytes it takes up.\<close>

datatype 'w staged = Returned "'w server_conn" | Staged request_parse_result http_request nat "'w server_conn"

definition max_body_of :: "server_config option \<Rightarrow> nat" where
  "max_body_of cfg = (case cfg of Some f \<Rightarrow> if cf_max_body f > 0 then cf_max_body f else REQUEST_BUFFER_CAP | None \<Rightarrow> REQUEST_BUFFER_CAP)"

definition max_inflated_of :: "server_config option \<Rightarrow> nat" where
  "max_inflated_of cfg =
     (case cfg of Some f \<Rightarrow> if cf_max_inflated f > 0 then cf_max_inflated f else HTTP_GZIP_MAX_INFLATED_DEFAULT | None \<Rightarrow> HTTP_GZIP_MAX_INFLATED_DEFAULT)"

definition undefined_conn :: "'w server_conn \<Rightarrow> 'w server_conn" where
  "undefined_conn c = c\<lparr>sc_undef := True\<rparr>"

text \<open>The answer to an \<open>Expect\<close> field: the connection goes on (and whether the interim response is out), or it ends.\<close>

definition expect_step :: "'w server_env \<Rightarrow> server_config option \<Rightarrow> 'w server_conn \<Rightarrow> http_request \<Rightarrow> bool \<Rightarrow> (bool \<times> 'w server_conn) + 'w server_conn" where
  "expect_step e cfg c req continue_sent =
     (if \<not> continue_sent \<and> rq_body_offset req > 0 then
        let want = expect_interest (take (rq_body_offset req) (rb_view (sc_rb c) @ [stale e (sc_rb c)])) in
        if want < 0 then Inr (send_error e c 417)
        else if want > 0 then
          (case cfg of
             None \<Rightarrow> Inr (undefined_conn c)
           | Some f \<Rightarrow>
               if cf_body_dir f = None \<and> rq_content_length req > int (max_body_of cfg) then Inr (send_error e c 413)
               else Inl (True, send_continue e c))
        else Inl (continue_sent, c)
      else Inl (continue_sent, c))"

text \<open>One \<open>recv\<close> for a body that goes to the file, of which \<open>written\<close> is there already.\<close>

definition park_surplus :: "'w server_conn \<Rightarrow> nat \<Rightarrow> char list \<Rightarrow> 'w server_conn" where
  "park_surplus c off surplus =
     (if surplus = [] then c
      else if off + length surplus > rb_capacity (sc_rb c) then undefined_conn c
      else c\<lparr>sc_rb := (sc_rb c)\<lparr>rb_data := memcpy_at (rb_data (sc_rb c)) off surplus, rb_count := off + length surplus\<rparr>\<rparr>)"

datatype 'w drained = Drain_Ended "'w server_conn" | Drain_On "'w server_conn" "char list" | Drain_Done "'w server_conn" "char list"

definition drain_step :: "'w server_env \<Rightarrow> 'w server_conn \<Rightarrow> http_request \<Rightarrow> char list \<Rightarrow> 'w drained" where
  "drain_step e c req written =
     (case io_recv c 65536 of
        (Timed_Out, c1) \<Rightarrow>
          Drain_Ended (if rb_count (sc_rb c1) > 0 then send_error e c1 (if sc_route_timeout c1 then 504 else 408) else c1)
      | (Received d, c1) \<Rightarrow>
          if d = [] then Drain_Ended c1
          else
            let declared = nat (rq_content_length req);
                n = (if length written < declared then min (length d) (declared - length written) else 0)
            in if n > 0 \<and> \<not> sv_spill_write e (length written) then Drain_Ended (send_error e c1 500)
               else
                 let file = written @ take n d in
                 if length file \<ge> declared then
                   let c2 = park_surplus c1 (rq_body_offset req) (drop n d)
                   in if sv_spill_map e then Drain_Done c2 file else Drain_Ended (send_error e c2 500)
                 else Drain_On c1 file)"

text \<open>The start of a spill, once the buffer is full.\<close>

definition spill_wanted :: "server_config \<Rightarrow> 'w server_conn \<Rightarrow> http_request \<Rightarrow> bool" where
  "spill_wanted f c req \<longleftrightarrow>
     cf_body_dir f \<noteq> None \<and> rq_content_length req > int (max_body_of (Some f)) \<and> rq_body_offset req > 0 \<and> rb_count (sc_rb c) > rq_body_offset req"

definition spill_start :: "'w server_env \<Rightarrow> 'w server_conn \<Rightarrow> http_request \<Rightarrow> 'w server_conn + ('w server_conn \<times> http_request \<times> char list)" where
  "spill_start e c req =
     (let off = rq_body_offset req; view = rb_view (sc_rb c); req1 = http_request_parse_header_block req (take off view) in
      if \<not> sv_spill_open e then Inl (send_error e c 500)
      else if \<not> sv_spill_write e 0 then Inl (send_error e c 500)
      else Inr (c\<lparr>sc_rb := (sc_rb c)\<lparr>rb_count := off\<rparr>\<rparr>, req1, drop off view))"

text \<open>Every \<open>recv\<close> that brings something leaves less to come.\<close>

fun event_weight :: "net_event \<Rightarrow> nat" where
  "event_weight (Arrives d) = length d + 1"
| "event_weight Stalls = 1"
| "event_weight Hangs_Up = 1"

definition pending :: "'w server_conn \<Rightarrow> nat" where
  "pending c = sum_list (map event_weight (sc_incoming c))"

lemma send_all_keeps [simp]:
  "sc_incoming (io_send_all e c p) = sc_incoming c" "sc_rb (io_send_all e c p) = sc_rb c" "sc_world (io_send_all e c p) = sc_world c"
  "sc_log (io_send_all e c p) = sc_log c" "sc_route_timeout (io_send_all e c p) = sc_route_timeout c" "sc_undef (io_send_all e c p) = sc_undef c"
  by (simp_all add: io_send_all_def split_beta)

lemma send_wire_keeps [simp]:
  "sc_incoming (send_wire e c res) = sc_incoming c" "sc_rb (send_wire e c res) = sc_rb c" "sc_world (send_wire e c res) = sc_world c"
  "sc_log (send_wire e c res) = sc_log c" "sc_route_timeout (send_wire e c res) = sc_route_timeout c" "sc_undef (send_wire e c res) = sc_undef c"
  by (simp_all add: send_wire_def Let_def)

lemma send_error_keeps [simp]:
  "sc_incoming (send_error e c st) = sc_incoming c" "sc_rb (send_error e c st) = sc_rb c" "sc_world (send_error e c st) = sc_world c"
  unfolding send_error_def by (rule send_wire_keeps)+

lemma pending_keeps: "sc_incoming c' = sc_incoming c \<Longrightarrow> pending c' = pending c"
  by (simp add: pending_def)

lemma io_recv_pending: "io_recv c n = (Received d, c1) \<Longrightarrow> d \<noteq> [] \<Longrightarrow> pending c1 < pending c"
  by (auto simp: io_recv_def pending_def split: if_splits list.splits net_event.splits)

lemma fill_more_pending: "fill_more e c = (True, c1) \<Longrightarrow> pending c1 < pending c"
proof -
  assume f: "fill_more e c = (True, c1)"
  obtain r c2 where r: "io_recv c (rb_capacity (sc_rb c) - rb_count (sc_rb c)) = (r, c2)" by (metis surj_pair)
  show ?thesis
  proof (cases r)
    case (Received d)
    then show ?thesis using f r io_recv_pending [of c _ d c2] by (auto simp: fill_more_def rb_write_head_def pending_def split: if_splits)
  qed (use f r in \<open>simp add: fill_more_def rb_write_head_def\<close>)
qed

lemma expect_step_keeps: "expect_step e cfg c req cont = Inl (cont', c') \<Longrightarrow> sc_incoming c' = sc_incoming c \<and> sc_rb c' = sc_rb c"
  by (auto simp: expect_step_def Let_def send_continue_def split: if_splits option.splits)

lemma drain_step_pending: "drain_step e c req w = Drain_On c1 file \<Longrightarrow> pending c1 < pending c"
proof -
  assume f: "drain_step e c req w = Drain_On c1 file"
  obtain r c2 where r: "io_recv c 65536 = (r, c2)" by (metis surj_pair)
  show ?thesis
  proof (cases r)
    case (Received d)
    then show ?thesis using f r io_recv_pending [of c 65536 d c2] by (auto simp: drain_step_def Let_def split: if_splits)
  qed (use f r in \<open>simp add: drain_step_def\<close>)
qed

lemma spill_start_keeps: "spill_start e c req = Inr (c1, req1, w) \<Longrightarrow> sc_incoming c1 = sc_incoming c"
  by (auto simp: spill_start_def Let_def split: if_splits)

definition write_back :: "'w server_conn \<Rightarrow> nat \<Rightarrow> char list \<Rightarrow> 'w server_conn" where
  "write_back c off data = c\<lparr>sc_rb := (sc_rb c)\<lparr>rb_data := memcpy_at (rb_data (sc_rb c)) off data\<rparr>\<rparr>"

lemma write_back_pending: "pending (write_back c off data) = pending c"
  by (simp add: write_back_def pending_def)

lemma expect_step_pending: "expect_step e cfg c req cont = Inl (cont', c') \<Longrightarrow> pending c' = pending c"
  using expect_step_keeps pending_keeps by blast

lemma spill_start_pending: "spill_start e c req = Inr (c1, req1, w) \<Longrightarrow> pending c1 = pending c"
  using spill_start_keeps pending_keeps by blast

function stage_loop :: "'w server_env \<Rightarrow> server_config option \<Rightarrow> 'w server_conn \<Rightarrow> bool \<Rightarrow> (http_request \<times> char list) option \<Rightarrow> 'w staged" where
  "stage_loop e cfg c cont spill =
     (case spill of
        Some (req, written) \<Rightarrow>
          (case drain_step e c req written of
             Drain_Ended c1 \<Rightarrow> Returned c1
           | Drain_On c1 file \<Rightarrow> stage_loop e cfg c1 cont (Some (req, file))
           | Drain_Done c1 file \<Rightarrow>
               Staged REQ_INCOMPLETE (req\<lparr>rq_body := file, rq_body_count := length file\<rparr>) (rq_body_offset req) c1)
      | None \<Rightarrow>
          (case http_request_parse_adv (rb_view (sc_rb c)) (stale e (sc_rb c)) of (pr, req, consumed) \<Rightarrow>
             if pr = REQ_INCOMPLETE then
               (case expect_step e cfg c req cont of
                  Inr c1 \<Rightarrow> Returned c1
                | Inl (cont1, c1) \<Rightarrow>
                    if rb_count (sc_rb c1) \<ge> rb_capacity (sc_rb c1) then
                      (case cfg of
                         None \<Rightarrow> Returned (undefined_conn c1)
                       | Some f \<Rightarrow>
                           if spill_wanted f c1 req then
                             (case spill_start e c1 req of
                                Inl c2 \<Rightarrow> Returned c2
                              | Inr (c2, req1, w) \<Rightarrow> stage_loop e cfg c2 cont1 (Some (req1, w)))
                           else Returned (send_error e c1 413))
                    else (case fill_more e c1 of (ok, c2) \<Rightarrow> if ok then stage_loop e cfg c2 cont1 None else Returned c2))
             else if pr = REQ_ERROR then Staged REQ_ERROR req 0 c
             else if http_request_get_header req ''transfer-encoding'' \<noteq> None then
               if rq_body_count req \<noteq> length (rq_body req) then Returned (undefined_conn c)
               else
                 (case http_request_decode_chunked req (stale e (sc_rb c)) of
                    None \<Rightarrow> Returned (undefined_conn c)
                  | Some (dr, req1, consumed1, data) \<Rightarrow>
                      let c1 = write_back c (rq_body_offset req) data in
                      if dr > 0 then
                        if rb_count (sc_rb c1) \<ge> rb_capacity (sc_rb c1) then Returned (send_error e c1 413)
                        else (case fill_more e c1 of (ok, c2) \<Rightarrow> if ok then stage_loop e cfg c2 cont None else Returned c2)
                      else if dr < 0 then Staged REQ_OK ((http_request_free req1)\<lparr>rq_body := data\<rparr>) consumed (send_error e c1 400)
                      else Staged REQ_OK req1 consumed1 c1)
             else Staged REQ_OK req consumed c))"
  by pat_completeness auto
termination
proof (relation "measure (\<lambda>(e, cfg, c, cont, spill). 2 * pending c + (if spill = None then 1 else 0))", goal_cases)
  case 2
  then show ?case by (auto dest!: expect_step_pending spill_start_pending)
next
  case 3
  then show ?case by (auto dest!: expect_step_pending fill_more_pending [OF sym])
next
  case 4
  then show ?case by (auto dest!: fill_more_pending [OF sym] simp: write_back_pending)
next
  case 5
  then show ?case by (auto dest!: drain_step_pending)
qed simp

declare stage_loop.simps [simp del]

subsection \<open>The requests of a connection\<close>

text \<open>Gzipped bodies are inflated; \<^const>\<open>Inl\<close> is the status of a refusal.\<close>

definition inflate_body :: "'w server_env \<Rightarrow> server_config option \<Rightarrow> http_request \<Rightarrow> http_status + http_request" where
  "inflate_body e cfg req =
     (if header_has_token req ''content-encoding'' ''gzip'' \<or> header_has_token req ''content-encoding'' ''x-gzip'' then
        (case env_gunzip (sv_h2 e) (rq_body req) (max_inflated_of cfg) of
           Inflate_Corrupt \<Rightarrow> Inl 400
         | Inflate_Too_Big \<Rightarrow> Inl 413
         | Inflated d \<Rightarrow> Inr (req\<lparr>rq_body := d, rq_body_count := length d\<rparr>))
      else Inr req)"

text \<open>The rest of the connection is HTTP/2. Any \<open>recv\<close> that brings nothing ends it.\<close>

fun event_bytes :: "net_event \<Rightarrow> char list" where
  "event_bytes (Arrives d) = d"
| "event_bytes Stalls = []"
| "event_bytes Hangs_Up = []"

definition serve_h2 :: "'w server_env \<Rightarrow> server_config option \<Rightarrow> sv \<Rightarrow> 'w server_conn \<Rightarrow> nat \<Rightarrow> http_request option \<Rightarrow> 'w server_conn" where
  "serve_h2 e cfg remote c consumed upgrade_req =
     (let max_body = (case cfg of Some f \<Rightarrow> cf_max_body f | None \<Rightarrow> 0);
          h = h2_serve ((sv_h2 e)\<lparr>env_max_inflated := max_inflated_of cfg\<rparr>)
                (h2_conn_init (sv_accepts e) (map event_bytes (sc_incoming c)) max_body remote (sc_calls c) (sc_world c))
                (drop consumed (rb_view (sc_rb c))) upgrade_req
      in c\<lparr>sc_sent := sc_sent c @ hc_sent h, sc_calls := hc_calls h, sc_world := hc_world h, sc_incoming := map Arrives (hc_incoming h),
           sc_undef := sc_undef c \<or> hc_undef h\<rparr>)"

text \<open>The answer to a request that is neither upgraded nor refused: the request and response after the handler, and the connection.\<close>

definition answer :: "'w server_env \<Rightarrow> 'w server_conn \<Rightarrow> http_request \<Rightarrow> http_response \<Rightarrow> bool \<Rightarrow> 'w server_conn option" where
  "answer e c req res is_head =
     map_option (\<lambda>(bytes, c1). (log_access e c1 req res bytes)\<lparr>sc_route_timeout := rq_route_timeout_ms req > 0\<rparr>)
       (if rs_stream_fn res \<noteq> None \<or> length (rs_stream_chunks res) > 0 then send_stream e c res (\<not> is_head)
        else Some (if is_head then 0 else int (sb_count (rs_body res)), send_wire e c res))"

partial_function (option) serve_requests :: "'w server_env \<Rightarrow> server_config option \<Rightarrow> sv \<Rightarrow> 'w server_conn \<Rightarrow> 'w server_conn option" where
  "serve_requests e cfg remote c =
     (case stage_loop e cfg c False None of
        Returned c1 \<Rightarrow> Some c1
      | Staged pr req consumed c1 \<Rightarrow>
          if pr = REQ_ERROR then Some (send_error e c1 400)
          else if h2_is_upgrade_request req then Some (serve_h2 e cfg remote c1 consumed (Some req))
          else
            (case inflate_body e cfg req of
               Inl status \<Rightarrow> Some (send_error e c1 status)
             | Inr req1 \<Rightarrow>
                 (case env_handler (sv_h2 e) (req1\<lparr>rq_remote := remote\<rparr>) http_response_init (sc_world c1) of (req2, res0, w) \<Rightarrow>
                    let keep = conn_keep_alive req1; res = res0\<lparr>rs_keep_alive := keep\<rparr>; c2 = c1\<lparr>sc_world := w\<rparr> in
                    if rs_upgrade_fn res \<noteq> None then Some (handle_upgrade e c2 res consumed)
                    else
                      Option.bind (answer e c2 req2 res (rq_method req1 = HTTP_HEAD))
                        (\<lambda>c3. let c4 = c3\<lparr>sc_rb := rb_discard (sc_rb c3) consumed\<rparr>
                              in if keep then serve_requests e cfg remote c4 else Some c4))))"

declare serve_requests.simps [code]

text \<open>The first bytes tell HTTP/2 with prior knowledge from HTTP/1.\<close>

function fill_until :: "'w server_env \<Rightarrow> 'w server_conn \<Rightarrow> nat \<Rightarrow> bool \<times> 'w server_conn" where
  "fill_until e c n =
     (if rb_count (sc_rb c) < n
      then (case fill_more e c of (ok, c1) \<Rightarrow> if ok then fill_until e c1 n else (False, c1))
      else (True, c))"
  by pat_completeness auto
termination
  by (relation "measure (\<lambda>(e, c, n). pending c)") (auto dest!: fill_more_pending [OF sym])

declare fill_until.simps [simp del]

definition new_connection :: "server_config option \<Rightarrow> net_event list \<Rightarrow> nat \<Rightarrow> 'w \<Rightarrow> 'w server_conn" where
  "new_connection cfg events calls w =
     \<lparr>sc_rb = rb_init (max_body_of cfg), sc_incoming = events, sc_sent = [], sc_calls = calls, sc_world = w, sc_log = [],
      sc_route_timeout = False, sc_undef = False\<rparr>"

definition serve_connection :: "'w server_env \<Rightarrow> server_config option \<Rightarrow> sv \<Rightarrow> 'w server_conn \<Rightarrow> 'w server_conn option" where
  "serve_connection e cfg remote c =
     (case fill_until e c 3 of (ok, c1) \<Rightarrow>
        if \<not> ok then Some c1
        else if take 3 (rb_view (sc_rb c1)) = ''PRI'' then
          (case fill_until e c1 24 of (ok2, c2) \<Rightarrow>
             if \<not> ok2 then Some c2
             else if take 24 (rb_view (sc_rb c2)) = H2_MAGIC then Some (serve_h2 e cfg remote c2 24 None)
             else serve_requests e cfg remote c2)
        else serve_requests e cfg remote c1)"

end
