(* ===== verification/Server_Pipeline.thy ===== *)
theory Server_Pipeline
  imports Server
begin

text \<open>
  What a client gets that sends its requests one behind the other: the answers of the handler to these requests in this order,
  however the network cuts the bytes up.
\<close>

subsection \<open>A part of a head is not a head\<close>

lemma find_crlf2_more:
  "find_crlf2 p past i = Some k \<Longrightarrow> k \<le> i + length p \<Longrightarrow> find_crlf2 (p @ q) past' i = Some k"
proof (induction p past i rule: find_crlf2.induct)
  case (1 p past i)
  have l: "length p > 2" using "1.prems"(1) by (subst (asm) find_crlf2.simps) (simp split: if_splits)
  show ?case
  proof (cases "p ! 0 = CR \<and> p ! 1 = LF \<and> p ! 2 = CR \<and> (if length p > 3 then p ! 3 else past) = LF")
    case True
    then have k: "k = i + 4" using l "1.prems"(1) by (subst (asm) find_crlf2.simps) simp
    then have l3: "length p > 3" using "1.prems"(2) by simp
    then have "(p @ q) ! j = p ! j" if "j \<le> 3" for j using that by (simp add: nth_append)
    then show ?thesis using True l3 k by (subst find_crlf2.simps) simp
  next
    case False
    then have r: "find_crlf2 (tl p) past (i + 1) = Some k" using l "1.prems"(1) by (subst (asm) find_crlf2.simps) (simp split: if_splits)
    then have l3: "length p > 3" by (subst (asm) find_crlf2.simps) (simp split: if_splits)
    have "find_crlf2 (tl p @ q) past' (i + 1) = Some k" using "1.IH" [OF l False r] l "1.prems"(2) by simp
    moreover have "(p @ q) ! j = p ! j" if "j \<le> 3" for j using l3 that by (simp add: nth_append)
    moreover have "tl (p @ q) = tl p @ q" using l by (cases p) simp_all
    ultimately show ?thesis using l3 False by (subst find_crlf2.simps) auto
  qed
qed

lemma find_lf2_more: "find_lf2 p i = Some k \<Longrightarrow> find_lf2 (p @ q) i = Some k"
  by (induction p i rule: find_lf2.induct) (auto split: if_splits)

lemma find_lf2_line: "LF \<notin> set l \<Longrightarrow> find_lf2 (l @ CR # LF # s) i = find_lf2 (LF # s) (i + length l + 1)"
proof (induction l arbitrary: i)
  case (Cons a l)
  then show ?case by (cases l) (auto simp: nth_Cons')
qed simp

lemma find_lf2_skip: "s \<noteq> [] \<Longrightarrow> hd s \<noteq> LF \<Longrightarrow> find_lf2 (LF # s) i = find_lf2 s (i + 1)"
  by (cases s) simp_all

lemma header_block_no_lf2: "list_all line_ok ls \<Longrightarrow> find_lf2 (header_block ls) i = None"
proof (induction ls arbitrary: i)
  case (Cons l ls)
  have "hd (header_block ls) \<noteq> LF" using Cons.prems
    by (cases ls) (auto simp: header_block_def crlf_line_def line_ok_def hd_append)
  moreover have "header_block ls \<noteq> []" by (simp add: header_block_def)
  moreover have "header_block (l # ls) = l @ CR # LF # header_block ls" by (simp add: header_block_def crlf_line_def)
  ultimately show ?case using Cons find_lf2_line [of l "header_block ls" i] by (simp add: find_lf2_skip line_ok_def)
qed (simp add: header_block_def)

lemma part_of_head:
  assumes "ls \<noteq> []" "list_all line_ok ls" "header_block ls = p @ q" "q \<noteq> []" "p = [] \<or> last p \<noteq> CR"
  shows "find_header_end p past = None"
proof -
  have "find_crlf2 p past 0 = None"
  proof (rule ccontr)
    assume "find_crlf2 p past 0 \<noteq> None"
    then obtain k where k: "find_crlf2 p past 0 = Some k" by blast
    then have "k \<le> length p" using find_crlf2_bound [OF k] assms(5) by auto
    then have "find_crlf2 (p @ q) past 0 = Some k" using find_crlf2_more [OF k, of q past] by simp
    moreover have "list_all (\<lambda>l. l \<noteq> [] \<and> CR \<notin> set l) ls" using assms(2) by (auto simp: list_all_iff line_ok_def)
    then have "find_crlf2 (header_block ls @ []) past 0 = Some (length (header_block ls))" using find_crlf2_block [OF assms(1), of "[]" past 0] by simp
    ultimately have "k = length (p @ q)" using assms(3) by simp
    then show False using \<open>k \<le> length p\<close> assms(4) by simp
  qed
  moreover have "find_lf2 p 0 = None"
    using find_lf2_more [of p 0 _ q] header_block_no_lf2 [OF assms(2), of 0] assms(3) by (cases "find_lf2 p 0") auto
  ultimately show ?thesis by (simp add: find_header_end_def)
qed

subsection \<open>Requests of a client\<close>

record client_request =
  cr_method :: sv
  cr_target :: sv
  cr_version :: sv
  cr_headers :: "(sv \<times> sv) list"
  cr_body :: sv

definition head_of :: "client_request \<Rightarrow> sv" where
  "head_of r = render_request (cr_method r) (cr_target r) (cr_version r) (cr_headers r)"

definition request_text :: "client_request \<Rightarrow> sv" where
  "request_text r = head_of r @ cr_body r"

text \<open>The request the handler is to see.\<close>

definition seen :: "client_request \<Rightarrow> http_request" where
  "seen r = (parsed_request (cr_method r) (cr_target r) (cr_version r) (cr_headers r))\<lparr>rq_body := cr_body r,
     rq_body_count := length (cr_body r), rq_body_offset := length (head_of r), rq_content_length := int (length (cr_body r))\<rparr>"

text \<open>
  A plain request: well-formed words and fields, the length of the body declared, not chunked, not compressed, no
  interim response expected, and no upgrade.
\<close>

definition request_ok :: "client_request \<Rightarrow> bool" where
  "request_ok r \<longleftrightarrow> word_ok (cr_method r) \<and> word_ok (cr_target r) \<and> word_ok (cr_version r) \<and> sv_starts_with (cr_version r) ''HTTP/''
     \<and> list_all header_ok (cr_headers r)
     \<and> map_option sv_to_i64 (http_request_get_header (seen r) ''content-length'') = Some (Some (int (length (cr_body r))))
     \<and> http_request_get_header (seen r) ''transfer-encoding'' = None \<and> http_request_get_header (seen r) ''content-encoding'' = None
     \<and> \<not> h2_is_upgrade_request (seen r) \<and> expect_interest (head_of r) = 0"

lemma seen_header: "http_request_get_header (seen r) n = http_request_get_header (parsed_request (cr_method r) (cr_target r) (cr_version r) (cr_headers r)) n"
  by (simp add: seen_def http_request_get_header_def)

lemma parse_whole:
  assumes "request_ok r"
  shows "http_request_parse_adv (request_text r @ rest) past = (REQ_OK, seen r, length (request_text r))"
  using assms parse_rendered [of "cr_method r" "cr_target r" "cr_version r" "cr_headers r" "cr_body r" rest past "[]"]
  unfolding request_ok_def seen_header by (simp add: request_text_def head_of_def seen_def)

text \<open>While a request is incomplete, it is at most its head that is known.\<close>

lemma parse_part:
  assumes "request_ok r" "request_text r = p @ q" "q \<noteq> []" "p = [] \<or> last p \<noteq> CR"
  shows "\<exists>req. http_request_parse_adv p past = (REQ_INCOMPLETE, req, 0) \<and> (rq_body_offset req > 0 \<longrightarrow> rq_body_offset req \<le> length p \<and> take (rq_body_offset req) p = head_of r)"
proof (cases "length p < length (head_of r)")
  case True
  let ?ls = "request_line (cr_method r) (cr_target r) (cr_version r) # map header_line (cr_headers r)"
  obtain q' where q': "head_of r = p @ q'" "q' \<noteq> []"
  proof
    have "p = take (length p) (head_of r)" using assms(2) True unfolding request_text_def
      by (metis append_eq_conv_conj less_imp_le_nat take_all_iff take_append append_Nil2 diff_is_0_eq' take0)
    then show "head_of r = p @ drop (length p) (head_of r)" by (metis append_take_drop_id)
    show "drop (length p) (head_of r) \<noteq> []" using True by simp
  qed
  have "list_all line_ok ?ls" using assms(1) request_line_ok header_line_ok by (auto simp: request_ok_def list_all_iff)
  then have "find_header_end p past = None" using part_of_head [of ?ls p q' past] q' assms(4) by (simp add: head_of_def render_request_def)
  then have "http_request_parse_adv p past = (REQ_INCOMPLETE, empty_request, 0)" by (simp add: http_request_parse_adv_def)
  moreover have "rq_body_offset empty_request = 0" by (simp add: empty_request_def)
  ultimately show ?thesis by simp
next
  case False
  then obtain part where p: "p = head_of r @ part"
    using assms(2) unfolding request_text_def by (metis append_eq_append_conv_if append_take_drop_id not_less)
  have "length part < length (cr_body r)" using assms(2,3) p by (auto simp: request_text_def)
  then have "http_request_parse_adv p past = (REQ_INCOMPLETE, http_request_free ((parsed_request (cr_method r) (cr_target r) (cr_version r) (cr_headers r))
      \<lparr>rq_body := part, rq_body_count := length part, rq_body_offset := length (head_of r), rq_content_length := int (length (cr_body r))\<rparr>), 0)"
    using parse_rendered [of "cr_method r" "cr_target r" "cr_version r" "cr_headers r" "cr_body r" "[]" past part] assms(1)
    unfolding request_ok_def seen_header p by (simp add: head_of_def)
  then show ?thesis using p by (simp add: http_request_free_def)
qed

subsection \<open>A connection with requests on their way\<close>

text \<open>
  The bytes in the buffer and those that are to arrive are the given stream, which fits into the buffer; no part ends in CR (the parser
  looks one byte too far there).
\<close>

definition carrying :: "'w server_conn \<Rightarrow> char list \<Rightarrow> bool" where
  "carrying c stream \<longleftrightarrow> rb_inv (sc_rb c) \<and> (rb_view (sc_rb c) = [] \<or> last (rb_view (sc_rb c)) \<noteq> CR) \<and> length stream \<le> rb_capacity (sc_rb c)
     \<and> (\<exists>ps. sc_incoming c = map Arrives ps \<and> list_all (\<lambda>d. d \<noteq> [] \<and> last d \<noteq> CR) ps \<and> stream = rb_view (sc_rb c) @ concat ps)"

lemma rb_recv_capacity: "rb_capacity (rb_recv b d) = rb_capacity b"
  by (simp add: rb_recv_def rb_write_head_def rb_commit_def Let_def)

lemma rb_discard_capacity: "rb_capacity (rb_discard b n) = rb_capacity b"
  by (simp add: rb_discard_def Let_def)

lemma carrying_next:
  assumes "carrying c stream" "length (rb_view (sc_rb c)) < length stream"
  shows "\<exists>b es. fill_more e c = (True, c\<lparr>sc_rb := b, sc_incoming := es\<rparr>) \<and> carrying (c\<lparr>sc_rb := b, sc_incoming := es\<rparr>) stream
    \<and> length es < length (sc_incoming c) \<and> rb_count (sc_rb c) < rb_capacity (sc_rb c) \<and> rb_capacity b = rb_capacity (sc_rb c)"
proof -
  obtain ps where ps: "sc_incoming c = map Arrives ps" "list_all (\<lambda>d. d \<noteq> [] \<and> last d \<noteq> CR) ps" "stream = rb_view (sc_rb c) @ concat ps"
    and i: "rb_inv (sc_rb c)" and f: "length stream \<le> rb_capacity (sc_rb c)"
    using assms(1) by (auto simp: carrying_def)
  then obtain d ds where d: "ps = d # ds" using assms(2) by (cases ps) auto
  have l: "length (rb_view (sc_rb c)) = rb_count (sc_rb c)" by (rule length_rb_view [OF i])
  let ?room = "rb_capacity (sc_rb c) - rb_count (sc_rb c)" and ?b = "rb_recv (sc_rb c) d"
  have fit: "length d \<le> ?room" "d \<noteq> []" "last d \<noteq> CR" using ps d f l by auto
  then have room: "0 < ?room" by (cases d) auto
  have rec: "rb_inv ?b" "rb_view ?b = rb_view (sc_rb c) @ d" using rb_recv_facts [OF i, of d] fit(1) by simp_all
  have "fill_more e c = (True, c\<lparr>sc_rb := ?b, sc_incoming := map Arrives ds\<rparr>)"
    using ps(1) d fit room by (simp add: fill_more_def rb_write_head_def io_recv_def)
  moreover have "carrying (c\<lparr>sc_rb := ?b, sc_incoming := map Arrives ds\<rparr>) stream"
    using rec fit f ps d by (auto simp: carrying_def rb_recv_capacity)
  moreover have "rb_count (sc_rb c) < rb_capacity (sc_rb c)" using room by simp
  ultimately show ?thesis using ps(1) d by (intro exI [of _ ?b] exI [of _ "map Arrives ds"]) (simp add: rb_recv_capacity)
qed

text \<open>Staging reads on until the request is complete, and finds it.\<close>

lemma stage_request:
  assumes "request_ok r"
  shows "carrying c (request_text r @ rest) \<Longrightarrow>
    \<exists>b es. stage_loop e cfg c cont None = Staged REQ_OK (seen r) (length (request_text r)) (c\<lparr>sc_rb := b, sc_incoming := es\<rparr>)
      \<and> carrying (c\<lparr>sc_rb := b, sc_incoming := es\<rparr>) (request_text r @ rest) \<and> length (request_text r) \<le> length (rb_view b) \<and> rb_capacity b = rb_capacity (sc_rb c)"
proof (induction "length (sc_incoming c)" arbitrary: c rule: less_induct)
  case less
  let ?v = "rb_view (sc_rb c)" and ?t = "request_text r"
  note st = stage_loop.simps [of e cfg c cont None]
  obtain more where v: "?t @ rest = ?v @ more" using less.prems unfolding carrying_def by blast
  show ?case
  proof (cases "length ?t \<le> length ?v")
    case True
    then obtain x where x: "?v = ?t @ x" using v by (metis append_eq_append_conv_if append_take_drop_id)
    have "http_request_parse_adv ?v (stale e (sc_rb c)) = (REQ_OK, seen r, length ?t)" unfolding x by (rule parse_whole [OF assms])
    moreover have "http_request_get_header (seen r) ''transfer-encoding'' = None" using assms by (simp add: request_ok_def)
    ultimately have "stage_loop e cfg c cont None = Staged REQ_OK (seen r) (length ?t) c"
      unfolding st option.case by (simp only: prod.case request_parse_result.simps if_False simp_thms)
    then show ?thesis using less.prems True by (intro exI [of _ "sc_rb c"] exI [of _ "sc_incoming c"]) simp
  next
    case False
    then obtain q where q: "?t = ?v @ q" "q \<noteq> []" using v by (auto simp: append_eq_append_conv2 dest: arg_cong [where f = length])
    have "?v = [] \<or> last ?v \<noteq> CR" using less.prems by (simp add: carrying_def)
    from parse_part [OF assms q this, where past = "stale e (sc_rb c)"]
    obtain req where p: "http_request_parse_adv ?v (stale e (sc_rb c)) = (REQ_INCOMPLETE, req, 0)"
        "rq_body_offset req > 0 \<longrightarrow> rq_body_offset req \<le> length ?v \<and> take (rq_body_offset req) ?v = head_of r" by (elim exE conjE)
    have "expect_interest (take (rq_body_offset req) (?v @ [stale e (sc_rb c)])) = 0" if "rq_body_offset req > 0"
      using p(2) that assms by (simp add: request_ok_def)
    then have x: "expect_step e cfg c req cont = Inl (cont, c)" by (simp add: expect_step_def)
    obtain b es where n: "fill_more e c = (True, c\<lparr>sc_rb := b, sc_incoming := es\<rparr>)" "carrying (c\<lparr>sc_rb := b, sc_incoming := es\<rparr>) (?t @ rest)"
        "length es < length (sc_incoming c)" "rb_count (sc_rb c) < rb_capacity (sc_rb c)" "rb_capacity b = rb_capacity (sc_rb c)"
      using carrying_next [OF less.prems, of e] False by auto
    have "stage_loop e cfg c cont None = stage_loop e cfg (c\<lparr>sc_rb := b, sc_incoming := es\<rparr>) cont None"
      using n(4) unfolding st option.case p(1) prod.case x sum.case n(1) by (simp only: if_True simp_thms not_le [symmetric] if_False)
    moreover from less.hyps [OF _ n(2)] n(3) obtain b2 es2
      where "stage_loop e cfg (c\<lparr>sc_rb := b, sc_incoming := es\<rparr>) cont None = Staged REQ_OK (seen r) (length ?t) (c\<lparr>sc_rb := b2, sc_incoming := es2\<rparr>)"
        "carrying (c\<lparr>sc_rb := b2, sc_incoming := es2\<rparr>) (?t @ rest)" "length ?t \<le> length (rb_view b2)" "rb_capacity b2 = rb_capacity b" by auto
    ultimately show ?thesis using n(5) by (intro exI [of _ b2] exI [of _ es2]) simp
  qed
qed

lemma fill_until_ok:
  "carrying c stream \<Longrightarrow> n \<le> length stream \<Longrightarrow>
    \<exists>b es. fill_until e c n = (True, c\<lparr>sc_rb := b, sc_incoming := es\<rparr>) \<and> carrying (c\<lparr>sc_rb := b, sc_incoming := es\<rparr>) stream \<and> n \<le> length (rb_view b)"
proof (induction "length (sc_incoming c)" arbitrary: c rule: less_induct)
  case less
  have l: "length (rb_view (sc_rb c)) = rb_count (sc_rb c)" using less.prems(1) by (simp add: carrying_def length_rb_view)
  show ?case
  proof (cases "rb_count (sc_rb c) < n")
    case True
    obtain b es where n: "fill_more e c = (True, c\<lparr>sc_rb := b, sc_incoming := es\<rparr>)" "carrying (c\<lparr>sc_rb := b, sc_incoming := es\<rparr>) stream"
        "length es < length (sc_incoming c)"
      using carrying_next [OF less.prems(1), of e] True l less.prems(2) by auto
    have "fill_until e c n = fill_until e (c\<lparr>sc_rb := b, sc_incoming := es\<rparr>) n"
      unfolding fill_until.simps [of e c n] n(1) prod.case using True by (simp only: if_True)
    then show ?thesis using less.hyps [OF _ n(2) less.prems(2)] n(3) by auto
  next
    case False
    then show ?thesis using less.prems l
      by (intro exI [of _ "sc_rb c"] exI [of _ "sc_incoming c"]) (simp add: fill_until.simps [of e c n])
  qed
qed

subsection \<open>The answers\<close>

text \<open>What the client is to get, and what becomes of the handler's state. \<open>calls\<close> is the number of sends so far, which the clock depends on.\<close>

definition reply_text :: "'w server_env \<Rightarrow> nat \<Rightarrow> http_response \<Rightarrow> char list" where
  "reply_text e calls res = strbuf_view (http_response_serialize res (sv_now e calls) strbuf_init)"

fun exchanges :: "'w server_env \<Rightarrow> sv \<Rightarrow> client_request list \<Rightarrow> nat \<Rightarrow> 'w \<Rightarrow> char list \<times> 'w" where
  "exchanges e remote [] calls w = ([], w)"
| "exchanges e remote (r # rs) calls w =
     (case env_handler (sv_h2 e) ((seen r)\<lparr>rq_remote := remote\<rparr>) http_response_init w of (req, res, w1) \<Rightarrow>
        let keep = conn_keep_alive (seen r); out = reply_text e calls (res\<lparr>rs_keep_alive := keep\<rparr>) in
        if keep then (case exchanges e remote rs (fst (snd (send_loop (sv_accepts e) calls out))) w1 of (out2, w2) \<Rightarrow> (out @ out2, w2))
        else (out, w1))"

text \<open>A handler that neither streams nor upgrades, on a socket that takes at least a byte at a time.\<close>

definition plain_env :: "'w server_env \<Rightarrow> bool" where
  "plain_env e \<longleftrightarrow> (\<forall>n. 0 < sv_accepts e n)
     \<and> (\<forall>req w. case env_handler (sv_h2 e) req http_response_init w of (req1, res, w1) \<Rightarrow>
          rs_upgrade_fn res = None \<and> rs_stream_fn res = None \<and> rs_stream_chunks res = [])"

lemma send_wire_plain:
  assumes "plain_env e"
  shows "send_wire e c res = c\<lparr>sc_calls := fst (snd (send_loop (sv_accepts e) (sc_calls c) (reply_text e (sc_calls c) res))),
    sc_sent := sc_sent c @ reply_text e (sc_calls c) res\<rparr>"
proof -
  let ?w = "http_response_serialize res (sv_now e (sc_calls c)) strbuf_init"
  obtain k where k: "send_loop (sv_accepts e) (sc_calls c) (strbuf_view ?w) = (True, k, strbuf_view ?w)"
    using send_loop_all [of "sv_accepts e" "sc_calls c" "strbuf_view ?w"] assms by (auto simp: plain_env_def)
  show ?thesis
  proof (cases "sb_count ?w = 0")
    case True
    then have "strbuf_view ?w = []" by (simp add: strbuf_view_def)
    then show ?thesis using True k by (simp add: send_wire_def reply_text_def send_loop.simps [of _ _ "[]"])
  qed (use k in \<open>simp add: send_wire_def io_send_all_def reply_text_def\<close>)
qed

lemma carrying_discard:
  assumes "carrying c (t @ rest)" "length t \<le> length (rb_view (sc_rb c))"
    and "sc_rb c' = rb_discard (sc_rb c) (length t)" "sc_incoming c' = sc_incoming c"
  shows "carrying c' rest"
proof -
  obtain ps where ps: "sc_incoming c = map Arrives ps" "list_all (\<lambda>d. d \<noteq> [] \<and> last d \<noteq> CR) ps" "t @ rest = rb_view (sc_rb c) @ concat ps"
    and i: "rb_inv (sc_rb c)" "rb_view (sc_rb c) = [] \<or> last (rb_view (sc_rb c)) \<noteq> CR" "length (t @ rest) \<le> rb_capacity (sc_rb c)"
    using assms(1) unfolding carrying_def by (elim conjE exE) blast
  have d: "rb_inv (sc_rb c')" "rb_view (sc_rb c') = drop (length t) (rb_view (sc_rb c))" "rb_capacity (sc_rb c') = rb_capacity (sc_rb c)"
    using rb_discard_facts [OF i(1), of "length t"] assms(3) by (simp_all add: rb_discard_capacity)
  have "drop (length t) (t @ rest) = rb_view (sc_rb c') @ concat ps" unfolding ps(3) d(2) using assms(2) by simp
  then have "rest = rb_view (sc_rb c') @ concat ps" by simp
  moreover have "rb_view (sc_rb c') = [] \<or> last (rb_view (sc_rb c')) \<noteq> CR" using i(2) d(2) by (auto simp: last_drop)
  ultimately show ?thesis using ps(1,2) d i(3) assms(4) by (auto simp: carrying_def)
qed

lemma stage_nothing:
  assumes "carrying c []" "0 < rb_capacity (sc_rb c)"
  shows "stage_loop e cfg c cont None = Returned c"
proof -
  obtain ps where "sc_incoming c = map Arrives ps" "list_all (\<lambda>d. d \<noteq> [] \<and> last d \<noteq> CR) ps" "[] = rb_view (sc_rb c) @ concat ps"
    using assms(1) unfolding carrying_def by (elim conjE exE) blast
  then have v: "rb_view (sc_rb c) = []" "sc_incoming c = []" by (simp, cases ps) simp_all
  have n: "rb_count (sc_rb c) = 0" using assms(1) v length_rb_view [of "sc_rb c"] by (simp add: carrying_def)
  have p: "http_request_parse_adv (rb_view (sc_rb c)) (stale e (sc_rb c)) = (REQ_INCOMPLETE, empty_request, 0)"
    by (simp add: v http_request_parse_adv_def find_header_end_def find_crlf2.simps)
  have x: "expect_step e cfg c empty_request cont = Inl (cont, c)" by (simp add: expect_step_def empty_request_def)
  have f: "fill_more e c = (False, c)" using v n assms(2) by (simp add: fill_more_def rb_write_head_def io_recv_def)
  have "\<not> rb_capacity (sc_rb c) \<le> rb_count (sc_rb c)" using n assms(2) by simp
  then show ?thesis by (subst stage_loop.simps) (simp only: option.case p prod.case x sum.case f if_True if_False simp_thms)
qed

lemma plain_request:
  assumes "request_ok r"
  shows "inflate_body e cfg (seen r) = Inr (seen r)" "\<not> h2_is_upgrade_request (seen r)"
  using assms by (simp_all add: request_ok_def inflate_body_def header_has_token_def)

text \<open>A staged request is handled, answered, and taken out of the buffer.\<close>

lemma serve_staged:
  assumes st: "stage_loop e cfg c False None = Staged REQ_OK q consumed c1"
    and q: "\<not> h2_is_upgrade_request q" "inflate_body e cfg q = Inr q"
    and h: "env_handler (sv_h2 e) (q\<lparr>rq_remote := remote\<rparr>) http_response_init (sc_world c1) = (req, res, w)"
    and plain: "rs_upgrade_fn res = None" "rs_stream_fn res = None" "rs_stream_chunks res = []"
    and sent: "send_wire e (c1\<lparr>sc_world := w\<rparr>) (res\<lparr>rs_keep_alive := conn_keep_alive q\<rparr>) = c2"
  shows "\<exists>c'. serve_requests e cfg remote c = (if conn_keep_alive q then serve_requests e cfg remote c' else Some c')
    \<and> sc_rb c' = rb_discard (sc_rb c1) consumed \<and> sc_incoming c' = sc_incoming c1 \<and> sc_world c' = w \<and> sc_undef c' = sc_undef c1
    \<and> sc_sent c' = sc_sent c2 \<and> sc_calls c' = sc_calls c2"
proof -
  define rs where "rs = res\<lparr>rs_keep_alive := conn_keep_alive q\<rparr>"
  have rs: "rs_upgrade_fn rs = None" "rs_stream_fn rs = None" "rs_stream_chunks rs = []" using plain by (simp_all add: rs_def)
  define c3 where "c3 = (log_access e c2 req rs (if rq_method q = HTTP_HEAD then 0 else int (sb_count (rs_body rs))))
    \<lparr>sc_route_timeout := rq_route_timeout_ms req > 0\<rparr>"
  define c4 where "c4 = c3\<lparr>sc_rb := rb_discard (sc_rb c3) consumed\<rparr>"
  have a: "answer e (c1\<lparr>sc_world := w\<rparr>) req rs (rq_method q = HTTP_HEAD) = Some c3" using rs sent by (simp add: answer_def c3_def rs_def)
  have c2: "sc_rb c2 = sc_rb c1" "sc_incoming c2 = sc_incoming c1" "sc_world c2 = w" "sc_undef c2 = sc_undef c1"
    using sent [symmetric] by simp_all
  have "serve_requests e cfg remote c = (if conn_keep_alive q then serve_requests e cfg remote c4 else Some c4)"
    unfolding serve_requests.simps [of e cfg remote c] st staged.case q(2) sum.case h prod.case Let_def rs_def [symmetric] a Option.bind.simps c4_def
    using rs(1) q(1) by (simp only: request_parse_result.simps simp_thms if_False)
  then show ?thesis using c2 by (intro exI [of _ c4]) (simp add: c4_def c3_def log_access_def)
qed

lemma serve_one:
  assumes "plain_env e" "request_ok r" "carrying c (request_text r @ rest)"
    and h: "env_handler (sv_h2 e) ((seen r)\<lparr>rq_remote := remote\<rparr>) http_response_init (sc_world c) = (req, res, w)"
    and out: "out = reply_text e (sc_calls c) (res\<lparr>rs_keep_alive := conn_keep_alive (seen r)\<rparr>)"
  shows "\<exists>c'. carrying c' rest \<and> rb_capacity (sc_rb c') = rb_capacity (sc_rb c) \<and> sc_sent c' = sc_sent c @ out \<and> sc_world c' = w \<and> sc_undef c' = sc_undef c
    \<and> sc_calls c' = fst (snd (send_loop (sv_accepts e) (sc_calls c) out))
    \<and> serve_requests e cfg remote c = (if conn_keep_alive (seen r) then serve_requests e cfg remote c' else Some c')"
proof -
  obtain b es where st: "stage_loop e cfg c False None = Staged REQ_OK (seen r) (length (request_text r)) (c\<lparr>sc_rb := b, sc_incoming := es\<rparr>)"
      and ca: "carrying (c\<lparr>sc_rb := b, sc_incoming := es\<rparr>) (request_text r @ rest)" "length (request_text r) \<le> length (rb_view b)" "rb_capacity b = rb_capacity (sc_rb c)"
    using stage_request [OF assms(2,3), of e cfg False] by (elim exE conjE)
  let ?c1 = "c\<lparr>sc_rb := b, sc_incoming := es\<rparr>"
  have plain: "rs_upgrade_fn res = None" "rs_stream_fn res = None" "rs_stream_chunks res = []"
    using assms(1) h unfolding plain_env_def by (auto dest!: spec [of _ "(seen r)\<lparr>rq_remote := remote\<rparr>"] spec [of _ "sc_world c"])
  have h1: "env_handler (sv_h2 e) ((seen r)\<lparr>rq_remote := remote\<rparr>) http_response_init (sc_world ?c1) = (req, res, w)" using h by simp
  obtain c' where c': "serve_requests e cfg remote c = (if conn_keep_alive (seen r) then serve_requests e cfg remote c' else Some c')"
      "sc_rb c' = rb_discard b (length (request_text r))" "sc_incoming c' = es" "sc_world c' = w" "sc_undef c' = sc_undef c"
      "sc_sent c' = sc_sent c @ out" "sc_calls c' = fst (snd (send_loop (sv_accepts e) (sc_calls c) out))"
    using serve_staged [OF st plain_request(2,1) [OF assms(2)] h1 plain send_wire_plain [OF assms(1)]] by (auto simp: out)
  have "carrying c' rest" by (rule carrying_discard [OF ca(1)]) (use ca(2) c' in simp_all)
  then show ?thesis using c' ca(3) by (intro exI [of _ c']) (simp add: rb_discard_capacity)
qed

lemma serve_pipeline:
  assumes "plain_env e"
  shows "list_all request_ok rs \<Longrightarrow> carrying c (concat (map request_text rs)) \<Longrightarrow> 0 < rb_capacity (sc_rb c) \<Longrightarrow>
    \<exists>c'. serve_requests e cfg remote c = Some c' \<and> sc_sent c' = sc_sent c @ fst (exchanges e remote rs (sc_calls c) (sc_world c))
      \<and> sc_world c' = snd (exchanges e remote rs (sc_calls c) (sc_world c)) \<and> sc_undef c' = sc_undef c"
proof (induction rs arbitrary: c)
  case Nil
  then have "stage_loop e cfg c False None = Returned c" by (intro stage_nothing) simp_all
  then show ?case by (simp add: serve_requests.simps [of e cfg remote c])
next
  case (Cons r rs)
  obtain req res w where h: "env_handler (sv_h2 e) ((seen r)\<lparr>rq_remote := remote\<rparr>) http_response_init (sc_world c) = (req, res, w)" by (metis prod_cases3)
  define out where "out = reply_text e (sc_calls c) (res\<lparr>rs_keep_alive := conn_keep_alive (seen r)\<rparr>)"
  have "carrying c (request_text r @ concat (map request_text rs))" "request_ok r" using Cons.prems by simp_all
  from serve_one [OF assms this(2,1) h out_def] obtain c1
    where c1: "carrying c1 (concat (map request_text rs))" "rb_capacity (sc_rb c1) = rb_capacity (sc_rb c)" "sc_sent c1 = sc_sent c @ out" "sc_world c1 = w"
      "sc_undef c1 = sc_undef c" "sc_calls c1 = fst (snd (send_loop (sv_accepts e) (sc_calls c) out))"
      "serve_requests e cfg remote c = (if conn_keep_alive (seen r) then serve_requests e cfg remote c1 else Some c1)" by blast
  show ?case
  proof (cases "conn_keep_alive (seen r)")
    case True
    obtain c' where "serve_requests e cfg remote c1 = Some c'" "sc_sent c' = sc_sent c1 @ fst (exchanges e remote rs (sc_calls c1) (sc_world c1))"
        "sc_world c' = snd (exchanges e remote rs (sc_calls c1) (sc_world c1))" "sc_undef c' = sc_undef c1"
      using Cons.IH [OF _ c1(1)] Cons.prems c1(2) by auto
    then show ?thesis using True c1 h out_def [symmetric] by (intro exI [of _ c']) (simp add: Let_def split_beta)
  next
    case False
    then show ?thesis using c1 h out_def [symmetric] by (intro exI [of _ c1]) (simp add: Let_def)
  qed
qed

subsection \<open>Where the server falls short\<close>

text \<open>
  A chunked request with malformed chunks is refused with 400, and then given to the handler all the same, without its fields; only its
  head is taken out of the buffer, so its body is parsed as the next request.
\<close>

lemma malformed_chunks_handled:
  assumes parse: "http_request_parse_adv (rb_view (sc_rb c)) (stale e (sc_rb c)) = (REQ_OK, req, consumed)"
    and te: "http_request_get_header req ''transfer-encoding'' \<noteq> None" "rq_body_count req = length (rq_body req)"
    and bad: "http_request_decode_chunked req (stale e (sc_rb c)) = Some (-1, req1, k, data)"
    and h: "env_handler (sv_h2 e) ((http_request_free req1)\<lparr>rq_body := data, rq_remote := remote\<rparr>) http_response_init (sc_world c) = (req2, res, w)"
    and plain: "rs_upgrade_fn res = None" "rs_stream_fn res = None" "rs_stream_chunks res = []"
  shows "\<exists>c'. sc_world c' = w \<and> sc_rb c' = rb_discard (sc_rb (write_back c (rq_body_offset req) data)) consumed
    \<and> (\<exists>out. sc_sent c' = sc_sent (send_error e (write_back c (rq_body_offset req) data) 400) @ out)
    \<and> serve_requests e cfg remote c = (if sv_equal (rq_version req1) ''HTTP/1.1'' then serve_requests e cfg remote c' else Some c')"
proof -
  define q where "q = (http_request_free req1)\<lparr>rq_body := data\<rparr>"
  define c1 where "c1 = send_error e (write_back c (rq_body_offset req) data) 400"
  have st: "stage_loop e cfg c False None = Staged REQ_OK q consumed c1"
    using te by (subst stage_loop.simps) (simp add: parse bad Let_def q_def c1_def)
  have none: "http_request_get_header q n = None" for n by (simp add: q_def http_request_free_def http_request_get_header_def)
  then have t: "\<not> header_has_token q n tok" for n tok by (simp add: header_has_token_def)
  have i: "inflate_body e cfg q = Inr q" "\<not> h2_is_upgrade_request q" using t by (simp_all add: inflate_body_def h2_is_upgrade_request_def)
  have keep: "conn_keep_alive q = sv_equal (rq_version req1) ''HTTP/1.1''"
    using t by (simp add: conn_keep_alive_def sv_from_cstr_def c_str_def) (simp add: q_def http_request_free_def)
  have h1: "env_handler (sv_h2 e) (q\<lparr>rq_remote := remote\<rparr>) http_response_init (sc_world c1) = (req2, res, w)"
    using h by (simp add: q_def c1_def write_back_def)
  have "\<exists>out. sc_sent (send_wire e (c1\<lparr>sc_world := w\<rparr>) r) = sc_sent c1 @ out" for r
    by (simp add: send_wire_def io_send_all_def Let_def split_beta)
  then show ?thesis using serve_staged [OF st i(2,1) h1 plain refl] unfolding keep by (auto simp: c1_def)
qed

text \<open>Without a configuration, a request that fills the buffer makes the server dereference a null pointer.\<close>

lemma null_config_undefined:
  assumes "http_request_parse_adv (rb_view (sc_rb c)) (stale e (sc_rb c)) = (REQ_INCOMPLETE, req, 0)" "rq_body_offset req = 0"
    and "rb_capacity (sc_rb c) \<le> rb_count (sc_rb c)"
  shows "serve_requests e None remote c = Some (undefined_conn c)"
proof -
  have "stage_loop e None c False None = Returned (undefined_conn c)"
    using assms by (subst stage_loop.simps) (simp add: expect_step_def)
  then show ?thesis by (simp add: serve_requests.simps [of e None remote c])
qed

subsection \<open>Property\<close>


definition demo_post :: client_request where
  "demo_post = \<lparr>cr_method = ''POST'', cr_target = ''/a'', cr_version = ''HTTP/1.1'', cr_headers = [(''Content-Length'', ''2'')], cr_body = ''hi''\<rparr>"

definition demo_env :: "nat server_env" where
  "demo_env = \<lparr>sv_h2 = \<lparr>env_handler = (\<lambda>req res w. (req, http_response_add_body res (rq_body req), w + length (rq_body req))),
       env_gunzip = (\<lambda>s n. Inflate_Corrupt), env_stream = (\<lambda>fn u n w. ([], w)), env_max_inflated = 0, env_now = 0\<rparr>,
     sv_accepts = (\<lambda>n. 1000), sv_now = (\<lambda>n. 0), sv_localtime = gmtime, sv_mktime = (\<lambda>t. 0), sv_garbage = LF,
     sv_upgrade = (\<lambda>fn u left evs w. ([], w)), sv_spill_open = False, sv_spill_write = (\<lambda>n. False), sv_spill_map = False\<rparr>"

lemma demo_post_ok: "request_ok demo_post"
proof -
  have x: "expect_interest (head_of demo_post) = 0" by code_simp
  show ?thesis unfolding request_ok_def using x
    by (simp add: demo_post_def seen_def parsed_request_def empty_request_def word_ok_def isspace_def header_ok_def sv_trim_id
      sv_starts_with_def http_request_get_header_def sv_to_i64_def LLONG_MAX_def eval_simps h2_is_upgrade_request_def header_has_token_def)
qed

lemma demo_post_text: "request_text demo_post = ''POST /a HTTP/1.1'' @ [CR, LF] @ ''Content-Length: 2'' @ [CR, LF, CR, LF] @ ''hi''"
  by (simp add: request_text_def head_of_def demo_post_def render_request_def header_block_def crlf_line_def request_line_def header_line_def)


end
