(* ===== verification/Spec2Isabelle.thy ===== *)
theory Spec2Isabelle
  imports Paths Chunked Routing Hpack Json Websocket Guards Templates H2_Flow H2_Requests H2_Safety Server_Pipeline
begin

text \<open>
  C-WEB is a web framework in C: a server that parses HTTP/1 and HTTP/2 requests, a router that runs handlers through chains of
  middlewares, sessions over a small persistent database, page templates compiled to C, and the utility layer all of these
  stand on. This development is a model of its logic in HOL with the theorems that make the parts correct. Every file of the model
  follows one or a few files of the sources; names are those of the sources unless they clash with a name of HOL.

  \<^bold>\<open>How the parts interact.\<close> The server reads bytes into a read buffer, the request parser frames a request in them (chunked
  bodies are decoded in place), parameters, cookies and multipart bodies are taken apart into string maps, the router finds the
  handler, middlewares run around it (client address, authentication, signatures, entity tags), the handler fills a
  response, and the response is serialized into an output buffer. HTTP/2 carries the same exchange in frames whose headers
  are coded by HPACK. WebSocket connections take over the socket after a handshake. Sessions mirror themselves into the database.

  \<^bold>\<open>Representation.\<close> A C string or a view is a list of characters (\<open>sv\<close>); reading a C string stops at a NUL byte (\<open>c_str\<close>), and
  where the code cuts a text to an array, so does the model (\<open>snprintf_str\<close>). Structures are records, heap objects with
  observable identity (sessions) live in an explicit heap, and memory blocks are lists of bytes with their capacity. Fixed width
  arithmetic is done on words or with the bound written out. A result of \<open>None\<close> at a place where the C code returns no such
  thing stands for undefined behaviour of the C program: a read or a write outside a block, a freed entry, an overflow of a signed type.

  \<^bold>\<open>Theories.\<close>
  \<^item> \<open>Cweb_Prelude\<close>: bytes, characters, C strings, collections of rules.
  \<^item> \<open>Buffers\<close> (\<open>utils/strbuf.c\<close>, \<open>utils/buffer.c\<close>, \<open>utils/xmem.c\<close>): growing output buffers and the read buffer. The locale of writers
    (\<open>writes f s\<close>: \<open>f\<close> appends \<open>s\<close> to any well-formed buffer) is interpreted on \<open>strbuf\<close>; most output proofs go through it.
  \<^item> \<open>Views\<close> (\<open>utils/sv.c\<close>), \<open>Strmap\<close> (\<open>utils/strmap.c\<close>: the hash table refines a finite map; locale and interpretation), \<open>Codecs\<close>
    (\<open>utils/base64.c\<close>, \<open>utils/url.c\<close>, \<open>security/escape.c\<close>: round trips), \<open>Paths\<close> (\<open>security/path.c\<close>, \<open>utils/uri.c\<close>).
  \<^item> \<open>Http_Request\<close>, \<open>Chunked\<close> (\<open>http/request.c\<close>, \<open>http/http.c\<close>: framing, headers, chunked bodies), \<open>Formatting\<close> and \<open>Dates\<close>
    (\<open>http/date.c\<close>), \<open>Http_Response\<close> (\<open>http/response.c\<close>), \<open>Forms\<close> (\<open>http/params.c\<close>, \<open>http/cookie.c\<close>, \<open>http/multipart.c\<close>).
  \<^item> \<open>Routing\<close> (\<open>routing/route.c\<close>, \<open>routing/router.c\<close>): matching agrees with a segment-wise definition; dispatch is exact.
  \<^item> \<open>Huffman\<close>, \<open>Hpack\<close> (\<open>http/hpack.c\<close> and its tables): the trie decoder is the inverse of the code, the decoder the inverse of the
    encoder, and the dynamic table keeps its accounting.
  \<^item> \<open>H2_Frames\<close>, \<open>H2_Connection\<close> (\<open>http/h2.c\<close>): the frames, header blocks, streams, windows and the loop of an HTTP/2 connection.
    \<open>H2_Flow\<close> shows what a response is on the wire, \<open>H2_Requests\<close> what request a header block opens, and \<open>H2_Safety\<close> that a connection
    keeps its invariant under a step relation of which the loop is a run.
  \<^item> \<open>Server\<close> (\<open>http/server.c\<close>): one cleartext connection from its first byte to its end, which puts the buffer, the parser, the chunked
    decoder, the handler, the serializer and the HTTP/2 connection together. \<open>Server_Pipeline\<close> shows that pipelined requests get their answers
    in order, however the network cuts them up.
  \<^item> \<open>Json\<close> (\<open>utils/json.c\<close>): totality, well-formedness and round trip.
  \<^item> \<open>Digests\<close> (\<open>security/hmac.c\<close>, SHA-1 of \<open>http/ws.c\<close>): equivalence with the published definitions; \<open>Credentials\<close> (\<open>security/password.c\<close>).
  \<^item> \<open>Sockets\<close> (\<open>net_send_all\<close> of \<open>http/net.c\<close>), \<open>Websocket\<close> (\<open>http/ws.c\<close>): frames, handshake and the message loop.
  \<^item> \<open>Database\<close> (\<open>db/db.c\<close>): refinement of a finite map (locale \<open>kv_store\<close>), atomic sync. \<open>Sessions\<close> (\<open>http/session.c\<close>): a step relation over
    the operations with the mirror invariant, restarts and destruction.
  \<^item> \<open>Client_Address\<close> (\<open>utils/ip.c\<close>, \<open>http/client_ip.c\<close>), \<open>Guards\<close> (\<open>http/middleware.c\<close>, \<open>http/auth.c\<close>, \<open>http/request_sign.c\<close>, \<open>http/csrf.c\<close>,
    \<open>http/etag.c\<close>): what each guard lets through.
  \<^item> \<open>Templates\<close> (\<open>template/template.c\<close>): the page compiler.

  \<^bold>\<open>Loops, fuel and inputs.\<close> Loops are structural recursions or functions with a termination proof; loops that may not end (table
  probing, reading from a socket) are partial functions into option, and the theorems show that they return. The trampoline of the
  middleware chain has fuel, and one more than the number of middlewares is enough. What the program takes from outside
  is an argument: what arrives on a socket, random bytes, the clock, the outcomes of file and socket operations, \<open>inet_pton\<close>, \<open>strtod\<close> and the number format;
  theorems that need a property of those functions name it as a hypothesis and have a witness with concrete functions. An HTTP/2
  connection takes its handler, the decompressor and the stream callbacks from a record of functions over a state of their own; reads outside
  its storage and views that a reallocation has invalidated set the flag \<open>hc_undef\<close>.

  \<^bold>\<open>Not modelled.\<close> Wrappers of other libraries or of the operating system (\<open>http/tls.c\<close>, \<open>http/gzip.c\<close>, most of \<open>http/net.c\<close>,
  \<open>utils/thread.c\<close>, \<open>utils/log.c\<close>, \<open>utils/env.c\<close>, \<open>utils/file.c\<close> except \<open>file_write\<close>), TLS connections, the accept loop and the worker threads of
  \<open>http/server.c\<close>, the client \<open>http/http_client.c\<close>, \<open>http/proxy.c\<close>, the file server \<open>http/static.c\<close>, small middlewares
  (\<open>http/cors.c\<close>, \<open>http/flash.c\<close>, \<open>http/mime.c\<close>, \<open>http/request_id.c\<close>, \<open>http/sse.c\<close>, \<open>http/validate.c\<close>, \<open>http/http_stats.c\<close>, \<open>security/headers.c\<close>), the command line tool \<open>tools/cweb.c\<close> and the examples;
  code on floating point numbers (\<open>http/rate_limit.c\<close>, \<open>http/negotiate.c\<close>). Failure of allocation ends the process in \<open>xmem.c\<close> and is not modelled.
\<close>

end
